(* ===== verification/Prelude.thy ===== *)
theory Prelude
  imports Main "HOL-Library.Word" "HOL-Library.Code_Target_Nat"
begin

text \<open>
  What every component of the development shares: the machine types of the C++ code, the
  little of the C++ standard library the sources call (\<open>std::to_string\<close>, \<open>std::promise\<close>,
  \<open>std::unordered_map\<close> as an association list in its iteration order), step relations with
  their reachable states, and the locale through which each component states and uses its
  invariant.
\<close>

named_theorems umap_simps \<open>lookup, membership and size of the hash-map model\<close>

section \<open>Machine types\<close>

text \<open>
  \<open>std::uint64_t\<close> counters, sequences and generations keep their width: \<open>+\<close> wraps. A
  \<open>std::size_t\<close> that is the size of a container is a \<open>nat\<close>. A \<open>steady_clock::time_point\<close> is
  its signed tick count (nanoseconds), a \<open>std::chrono::milliseconds\<close> duration its count.
\<close>

type_synonym u64 = "64 word"
type_synonym time_point = int
type_synonym duration_ms = int

definition u64_max :: u64 where
  "u64_max = - 1"

lemma u64_inc_unat:
  "(x :: u64) \<noteq> u64_max \<Longrightarrow> unat (x + 1) = Suc (unat x)"
  using unatSuc [of x] by (auto simp: u64_max_def add.commute eq_neg_iff_add_eq_0)

lemma u64_less_inc: "(x :: u64) \<noteq> u64_max \<Longrightarrow> x < x + 1"
  by (simp add: word_less_nat_alt u64_inc_unat)

lemma u64_less_inc_iff: "(x :: u64) \<noteq> u64_max \<Longrightarrow> y < x + 1 \<longleftrightarrow> y \<le> x"
  by (simp add: word_less_nat_alt word_le_nat_alt u64_inc_unat less_Suc_eq_le)

lemma u64_less_not_max: "(x :: u64) < y \<Longrightarrow> x \<noteq> u64_max"
  using word_n1_ge [of y] by (auto simp: u64_max_def)

lemma u64_of_nat: "n < 2 ^ 64 \<Longrightarrow> unat (of_nat n :: u64) = n"
  by (simp add: unat_of_nat)

section \<open>The standard library's decimal printer\<close>

text \<open>\<open>std::to_string\<close> on an unsigned value: its decimal digits, no sign, no leading zero.\<close>

definition digit :: "nat \<Rightarrow> char" where
  "digit d = char_of (48 + d)"

fun to_string :: "nat \<Rightarrow> string" where
  "to_string n = (if n < 10 then [digit n] else to_string (n div 10) @ [digit (n mod 10)])"

declare to_string.simps [simp del]

lemma to_string_nonempty [simp]: "to_string n \<noteq> []"
  by (simp add: to_string.simps [of n])

lemma digit_inj: "a < 10 \<Longrightarrow> b < 10 \<Longrightarrow> digit a = digit b \<Longrightarrow> a = b"
  by (simp add: digit_def char_of_eq_iff take_bit_eq_mod)

lemma to_string_inj: "to_string m = to_string n \<Longrightarrow> m = n"
proof (induction m arbitrary: n rule: less_induct)
  case (less m)
  note eq = less.prems [unfolded to_string.simps [of m] to_string.simps [of n]]
  show ?case
  proof (cases "m < 10 \<or> n < 10")
    case True
    with eq show ?thesis
      by (auto split: if_splits simp: Cons_eq_append_conv append_eq_Cons_conv dest: digit_inj)
  next
    case False
    with eq have "to_string (m div 10) = to_string (n div 10)"
      and "digit (m mod 10) = digit (n mod 10)" by auto
    then have "m div 10 = n div 10" and "m mod 10 = n mod 10"
      using less.IH [of "m div 10" "n div 10"] False digit_inj by (auto simp: not_less)
    then show ?thesis by (metis div_mult_mod_eq)
  qed
qed

section \<open>Promises\<close>

text \<open>
  \<open>std::promise\<close>: setting a satisfied promise throws \<open>std::future_error\<close>, which in the
  worker threads of this program would end the process. \<open>Broken\<close> records that this happened;
  the components prove that no reachable state holds a broken promise.
\<close>

datatype 'a promise = Unset | Ready 'a | Broken

fun promise_set :: "'a \<Rightarrow> 'a promise \<Rightarrow> 'a promise" where
  "promise_set v Unset = Ready v"
| "promise_set v (Ready w) = Broken"
| "promise_set v Broken = Broken"

section \<open>Hash maps\<close>

text \<open>
  A \<open>std::unordered_map\<close> is an association list in the container's iteration order. That
  order is unspecified in C++ and no theorem of the development depends on it.
\<close>

type_synonym ('k, 'v) umap = "('k \<times> 'v) list"

definition umap_emplace :: "'k \<Rightarrow> 'v \<Rightarrow> ('k, 'v) umap \<Rightarrow> ('k, 'v) umap" where
  "umap_emplace k v m = (if map_of m k = None then (k, v) # m else m)"

definition umap_erase :: "'k \<Rightarrow> ('k, 'v) umap \<Rightarrow> ('k, 'v) umap" where
  "umap_erase k m = filter (\<lambda>p. fst p \<noteq> k) m"

definition umap_set :: "'k \<Rightarrow> 'v \<Rightarrow> ('k, 'v) umap \<Rightarrow> ('k, 'v) umap" where
  "umap_set k v m = map (\<lambda>(k', v'). (k', if k' = k then v else v')) m"

definition umap_wf :: "('k, 'v) umap \<Rightarrow> bool" where
  "umap_wf m \<longleftrightarrow> distinct (map fst m)"

lemma umap_wf_Nil [simp]: "umap_wf []"
  by (simp add: umap_wf_def)

lemma map_of_emplace [umap_simps]:
  "map_of (umap_emplace k v m) = (if map_of m k = None then (map_of m)(k \<mapsto> v) else map_of m)"
  by (auto simp: umap_emplace_def)

lemma map_of_erase [umap_simps]: "map_of (umap_erase k m) = (map_of m)(k := None)"
  by (induction m) (auto simp: umap_erase_def fun_eq_iff)

lemma map_of_set [umap_simps]:
  "map_of (umap_set k v m) = (if map_of m k = None then map_of m else (map_of m)(k \<mapsto> v))"
  by (induction m) (auto simp: umap_set_def fun_eq_iff)

lemma keys_set [umap_simps]: "map fst (umap_set k v m) = map fst m"
  by (induction m) (auto simp: umap_set_def)

lemma length_set [umap_simps]: "length (umap_set k v m) = length m"
  by (simp add: umap_set_def)

lemma umap_wf_set [umap_simps]: "umap_wf (umap_set k v m) = umap_wf m"
  by (simp add: umap_wf_def keys_set)

lemma umap_wf_emplace [umap_simps]: "umap_wf m \<Longrightarrow> umap_wf (umap_emplace k v m)"
  by (auto simp: umap_wf_def umap_emplace_def map_of_eq_None_iff)

lemma umap_wf_erase [umap_simps]: "umap_wf m \<Longrightarrow> umap_wf (umap_erase k m)"
  by (induction m) (auto simp: umap_wf_def umap_erase_def)

lemma length_emplace [umap_simps]:
  "length (umap_emplace k v m) = (if map_of m k = None then Suc (length m) else length m)"
  by (simp add: umap_emplace_def)

lemma erase_absent [simp]: "map_of m k = None \<Longrightarrow> umap_erase k m = m"
  by (induction m) (auto simp: umap_erase_def split: if_splits)

lemma length_erase:
  "umap_wf m \<Longrightarrow> map_of m k = Some v \<Longrightarrow> Suc (length (umap_erase k m)) = length m"
proof (induction m)
  case (Cons p m)
  show ?case
  proof (cases "fst p = k")
    case True
    with Cons.prems have "map_of m k = None"
      by (auto simp: umap_wf_def map_of_eq_None_iff)
    then have "umap_erase k m = m" by simp
    with True show ?thesis by (simp add: umap_erase_def)
  next
    case False
    with Cons show ?thesis by (cases p) (auto simp: umap_wf_def umap_erase_def)
  qed
qed simp

lemma length_erase_le: "length (umap_erase k m) \<le> length m"
  by (simp add: umap_erase_def)

text \<open>A sum over the values of a map.\<close>

definition umap_sum :: "('v \<Rightarrow> nat) \<Rightarrow> ('k, 'v) umap \<Rightarrow> nat" where
  "umap_sum f m = sum_list (map (f \<circ> snd) m)"

lemma umap_sum_Nil [simp]: "umap_sum f [] = 0"
  by (simp add: umap_sum_def)

lemma umap_sum_erase:
  "umap_wf m \<Longrightarrow> map_of m k = Some v \<Longrightarrow> umap_sum f (umap_erase k m) + f v = umap_sum f m"
proof (induction m)
  case (Cons p m)
  show ?case
  proof (cases "fst p = k")
    case True
    with Cons.prems have "map_of m k = None" by (auto simp: umap_wf_def map_of_eq_None_iff)
    then have "umap_erase k m = m" by simp
    with True Cons.prems(2) show ?thesis by (cases p) (simp add: umap_erase_def umap_sum_def)
  next
    case False
    with Cons show ?thesis by (cases p) (auto simp: umap_wf_def umap_erase_def umap_sum_def)
  qed
qed simp

lemma umap_sum_set:
  "umap_wf m \<Longrightarrow> map_of m k = Some v \<Longrightarrow> umap_sum f (umap_set k w m) + f v = umap_sum f m + f w"
proof (induction m)
  case (Cons p m)
  show ?case
  proof (cases "fst p = k")
    case True
    with Cons.prems have "map_of m k = None" by (auto simp: umap_wf_def map_of_eq_None_iff)
    then have "umap_set k w m = m" by (induction m) (auto simp: umap_set_def split: if_splits)
    with True Cons.prems(2) show ?thesis by (cases p) (simp add: umap_set_def umap_sum_def)
  next
    case False
    with Cons show ?thesis by (cases p) (auto simp: umap_wf_def umap_set_def umap_sum_def)
  qed
qed simp

lemma umap_sum_emplace [umap_simps]:
  "umap_sum f (umap_emplace k v m) = (if map_of m k = None then f v + umap_sum f m else umap_sum f m)"
  by (simp add: umap_emplace_def umap_sum_def)

lemma umap_sum_member: "map_of m k = Some v \<Longrightarrow> f v \<le> umap_sum f m"
proof -
  assume "map_of m k = Some v"
  then have "(f \<circ> snd) (k, v) \<in> set (map (f \<circ> snd) m)" by (auto dest!: map_of_SomeD intro: rev_image_eqI)
  then show ?thesis unfolding umap_sum_def using member_le_sum_list [of "f v" "map (f \<circ> snd) m"] by simp
qed

section \<open>Step relations\<close>

text \<open>
  A concurrent component is a relation between states whose steps are its critical sections:
  a section under one mutex is one step, and any thread may take the next step.
\<close>

inductive reachable :: "('s \<Rightarrow> bool) \<Rightarrow> ('s \<Rightarrow> 's \<Rightarrow> bool) \<Rightarrow> 's \<Rightarrow> bool"
  for init :: "'s \<Rightarrow> bool" and step :: "'s \<Rightarrow> 's \<Rightarrow> bool" where
  reach_init: "init s \<Longrightarrow> reachable init step s"
| reach_step: "reachable init step s \<Longrightarrow> step s t \<Longrightarrow> reachable init step t"

inductive steps :: "('s \<Rightarrow> 's \<Rightarrow> bool) \<Rightarrow> 's \<Rightarrow> 's \<Rightarrow> bool"
  for step :: "'s \<Rightarrow> 's \<Rightarrow> bool" where
  steps_refl: "steps step s s"
| steps_step: "steps step s t \<Longrightarrow> step t u \<Longrightarrow> steps step s u"

lemma reachable_steps:
  "steps step s t \<Longrightarrow> reachable init step s \<Longrightarrow> reachable init step t"
  by (induction rule: steps.induct) (auto intro: reach_step)

lemma steps_trans:
  assumes "steps step t u" and "steps step s t"
  shows "steps step s u"
  using assms by (induction rule: steps.induct) (auto intro: steps_step)

lemma steps_one: "step s t \<Longrightarrow> steps step s t"
  by (rule steps_step [where t = s]) (simp_all add: steps_refl)

lemma steps_first: "step s t \<Longrightarrow> steps step t u \<Longrightarrow> steps step s u"
  by (rule steps_trans [where t = t]) (simp_all add: steps_one)

locale invariant_system =
  fixes init :: "'s \<Rightarrow> bool" and step :: "'s \<Rightarrow> 's \<Rightarrow> bool" and inv :: "'s \<Rightarrow> bool"
  assumes init_inv: "init s \<Longrightarrow> inv s"
    and step_inv: "inv s \<Longrightarrow> step s t \<Longrightarrow> inv t"
begin

lemma reachable_inv: "reachable init step s \<Longrightarrow> inv s"
  by (induction rule: reachable.induct) (auto intro: init_inv step_inv)

lemma steps_inv: "steps step s t \<Longrightarrow> inv s \<Longrightarrow> inv t"
  by (induction rule: steps.induct) (auto intro: step_inv)

end

text \<open>
  A measure of the state that no step lowers: clients use it for "once \<dots> always" facts.
\<close>

locale monotone_system = invariant_system +
  fixes rank :: "'s \<Rightarrow> 'r :: preorder"
  assumes step_rank: "inv s \<Longrightarrow> step s t \<Longrightarrow> rank s \<le> rank t"
begin

lemma steps_rank: "steps step s t \<Longrightarrow> inv s \<Longrightarrow> rank s \<le> rank t"
proof (induction rule: steps.induct)
  case (steps_step s t u)
  then have "rank t \<le> rank u" by (auto intro: step_rank steps_inv)
  with steps_step show ?case by (auto intro: order_trans)
qed simp

end

text \<open>
  A condition that no step leaves, and an observation that the steps leave alone while it holds:
  what it means for a cancellation, an end or a release to be final.
\<close>

locale final_condition =
  fixes step :: "'s \<Rightarrow> 's \<Rightarrow> bool" and final :: "'s \<Rightarrow> bool" and observe :: "'s \<Rightarrow> 'o"
  assumes final_step: "final s \<Longrightarrow> step s t \<Longrightarrow> final t \<and> observe t = observe s"
begin

lemma final_steps: "steps step s t \<Longrightarrow> final s \<Longrightarrow> final t \<and> observe t = observe s"
proof (induction rule: steps.induct)
  case (steps_step s t u)
  then show ?case using final_step [of t u] by simp
qed simp

end

end
