(* ===== verification/Byteturn_Types.thy ===== *)
theory Byteturn_Types
  imports Prelude
begin

text \<open>
  The data the components exchange, with the source's constructors: \<open>types.h\<close> (audio frames,
  messages, model turns), \<open>event.h\<close> (event types and events), the data of \<open>providers.h\<close> and
  \<open>conversation_engine.h\<close>. A field is written with the
  initials of its struct, since record fields share one name space.
\<close>

section \<open>Exceptions\<close>

text \<open>What a \<open>catch (const std::exception&)\<close> sees, and what it does not.\<close>

datatype exn = StdException string | OtherException

section \<open>Audio, messages and model turns\<close>

record AudioFrame =
  af_samples :: "16 word list"
  af_sample_rate_hz :: int
  af_channels :: int
  af_end_of_utterance :: bool

datatype Role = System | User | Assistant | Tool

record ToolCall =
  tc_id :: string
  tc_name :: string
  tc_arguments :: string

record Message =
  msg_role :: Role
  msg_content :: string
  msg_name :: string
  msg_tool_calls :: "ToolCall list"
  msg_tool_call_id :: string

record LlmTurn =
  lt_text :: string
  lt_tool_calls :: "ToolCall list"
  lt_complete :: bool

section \<open>Events\<close>

datatype EventType =
    RealtimeSessionStarted | InputSpeechStarted | InputSpeechEnded | AsrEndOfUtterance
  | TranscriptPartial | TranscriptFinal | TurnStarted | ModelStarted | FirstToken
  | ModelTextDelta | ModelCompleted | ToolStarted | ToolCompleted | SpeechStarted
  | TtsChunkStarted | FirstAudio | AudioOutput | PlaybackStarted | PlaybackProgress
  | BargeInDetected | OutputCancelled | SpeechCompleted | ConversationTurnCompleted
  | TurnCompleted | TurnCancelled | RealtimeSessionClosed | ErrorEvent
  | SessionStarted | SessionStopped | SessionFailed
  | ResponseCancelRequested | TurnFailed | ConversationTurnCancelled | ConversationTurnFailed

record Event =
  ev_type :: EventType
  ev_session_id :: string
  ev_turn_id :: string
  ev_sequence :: u64
  ev_timestamp :: time_point
  ev_name :: string
  ev_data :: string
  ev_trace_id :: string
  ev_received_at :: time_point
  ev_generation :: u64

text \<open>
  The constructor call \<open>{type, session, turn, 0, {}, name, data, trace}\<close> the publishers write:
  sequence 0, the epoch as time stamp, \<open>received_at\<close> the epoch, generation 0.
\<close>

definition mk_event ::
  "EventType \<Rightarrow> string \<Rightarrow> string \<Rightarrow> string \<Rightarrow> string \<Rightarrow> string \<Rightarrow> Event" where
  "mk_event ty session turn name data trace =
     \<lparr>ev_type = ty, ev_session_id = session, ev_turn_id = turn, ev_sequence = 0,
      ev_timestamp = 0, ev_name = name, ev_data = data, ev_trace_id = trace,
      ev_received_at = 0, ev_generation = 0\<rparr>"

text \<open>The trace identity both the bus and the timeline derive when an event carries none.\<close>

definition derive_trace :: "Event \<Rightarrow> Event" where
  "derive_trace e =
     (if ev_trace_id e = [] \<and> ev_session_id e \<noteq> [] \<and> ev_turn_id e \<noteq> []
      then e\<lparr>ev_trace_id := ev_session_id e @ '':'' @ ev_turn_id e\<rparr> else e)"

lemma derive_trace_frame [simp]:
  "ev_type (derive_trace e) = ev_type e"
  "ev_session_id (derive_trace e) = ev_session_id e"
  "ev_turn_id (derive_trace e) = ev_turn_id e"
  "ev_name (derive_trace e) = ev_name e"
  "ev_data (derive_trace e) = ev_data e"
  "ev_generation (derive_trace e) = ev_generation e"
  "ev_timestamp (derive_trace e) = ev_timestamp e"
  by (simp_all add: derive_trace_def)

lemma derive_trace_idem [simp]: "derive_trace (derive_trace e) = derive_trace e"
  by (simp add: derive_trace_def)

section \<open>Realtime provider events\<close>

datatype RealtimeEventType =
    Connected | RtInputSpeechStarted | RtInputSpeechEnded | RtTranscriptPartial
  | RtTranscriptFinal | ResponseStarted | AudioDelta | ResponseCompleted | RtError | Closed

record RealtimeEvent =
  re_type :: RealtimeEventType
  re_response_id :: string
  re_text :: string
  re_audio :: AudioFrame
  re_error_code :: string

section \<open>Engine capability and state snapshots\<close>

record ConversationCapabilities =
  cap_native_full_duplex :: bool
  cap_simultaneous_listen_speak :: bool
  cap_native_interruption :: bool
  cap_native_end_of_utterance :: bool
  cap_native_backchannel :: bool
  cap_transcript_available :: bool
  cap_response_cancellation :: bool

definition default_capabilities :: ConversationCapabilities where
  "default_capabilities =
     \<lparr>cap_native_full_duplex = False, cap_simultaneous_listen_speak = False,
      cap_native_interruption = False, cap_native_end_of_utterance = False,
      cap_native_backchannel = False, cap_transcript_available = True,
      cap_response_cancellation = False\<rparr>"

record ConversationStateSnapshot =
  snap_user_speaking :: bool
  snap_agent_speaking :: bool
  snap_reasoning :: bool
  snap_delegated_task_running :: bool
  snap_interruption_pending :: bool
  snap_backchannel_active :: bool

definition default_snapshot :: ConversationStateSnapshot where
  "default_snapshot =
     \<lparr>snap_user_speaking = False, snap_agent_speaking = False, snap_reasoning = False,
      snap_delegated_task_running = False, snap_interruption_pending = False,
      snap_backchannel_active = False\<rparr>"

end
