(* ===== verification/Segmenter.thy ===== *)
theory Segmenter
  imports Prelude
begin

unbundle bit_operations_syntax

text \<open>
  \<open>SentenceSegmenter\<close> (\<open>sentence_segmenter.h\<close>, \<open>sentence_segmenter.cpp\<close>): the byte-level text
  segmenter between the language model's deltas and the speech synthesizer. A string is its
  bytes. The lemmas show that segmentation ends, loses and reorders no text, never cuts a
  UTF-8 sequence, and leaves less than the hard limit buffered.
\<close>

section \<open>Bytes\<close>

definition byte :: "char \<Rightarrow> nat" where
  "byte c = of_char c"

text \<open>\<open>std::isspace\<close> in the C locale: tab, newline, vertical tab, form feed, return, space.\<close>

definition isspace :: "char \<Rightarrow> bool" where
  "isspace c \<longleftrightarrow> byte c = 32 \<or> (9 \<le> byte c \<and> byte c \<le> 13)"

text \<open>\<open>(c & 0xc0) == 0x80\<close>: a UTF-8 continuation byte.\<close>

definition is_cont :: "char \<Rightarrow> bool" where
  "is_cont c \<longleftrightarrow> byte c AND 0xc0 = 0x80"

text \<open>The width a lead byte announces, with the source's order of tests.\<close>

definition lead_width :: "char \<Rightarrow> nat" where
  "lead_width c =
     (if byte c < 0x80 then 1
      else if byte c AND 0xe0 = 0xc0 then 2
      else if byte c AND 0xf0 = 0xe0 then 3
      else if byte c AND 0xf8 = 0xf0 then 4
      else 1)"

section \<open>The helpers of the source\<close>

definition trim :: "string \<Rightarrow> string" where
  "trim text =
     (let first = length (takeWhile isspace text);
          last = length text - length (takeWhile isspace (rev text))
      in if first < last then take (last - first) (drop first text) else [])"

text \<open>The backward loop \<open>while (start && continuation(text[start])) --start\<close>.\<close>

fun lead_start :: "string \<Rightarrow> nat \<Rightarrow> nat" where
  "lead_start text 0 = 0"
| "lead_start text (Suc n) = (if is_cont (text ! Suc n) then lead_start text n else Suc n)"

definition complete_utf8_prefix :: "string \<Rightarrow> nat" where
  "complete_utf8_prefix text =
     (if text = [] then 0
      else let start = lead_start text (length text - 1);
               width = lead_width (text ! start)
           in if length text - start < width then start else length text)"

definition starts_at :: "string \<Rightarrow> nat \<Rightarrow> string \<Rightarrow> bool" where
  "starts_at v pos tok \<longleftrightarrow> take (length tok) (drop pos v) = tok"

text \<open>The full-width marks the source compares with, as their UTF-8 bytes.\<close>

definition utf8 :: "nat list \<Rightarrow> string" where
  "utf8 ns = map char_of ns"

definition ideographic_full_stop :: string where
  "ideographic_full_stop = utf8 [0xe3, 0x80, 0x82]"

definition fullwidth_exclamation :: string where
  "fullwidth_exclamation = utf8 [0xef, 0xbc, 0x81]"

definition fullwidth_question :: string where
  "fullwidth_question = utf8 [0xef, 0xbc, 0x9f]"

definition fullwidth_semicolon :: string where
  "fullwidth_semicolon = utf8 [0xef, 0xbc, 0x9b]"

definition fullwidth_comma :: string where
  "fullwidth_comma = utf8 [0xef, 0xbc, 0x8c]"

section \<open>The segmenter\<close>

record SentenceSegmenterConfig =
  min_characters :: nat
  target_characters :: nat
  hard_max_characters :: nat

datatype segmenter_error = InvalidLimits | IncompleteUtf8

record SentenceSegmenter =
  seg_config :: SentenceSegmenterConfig
  seg_buffer :: string

definition valid_limits :: "SentenceSegmenterConfig \<Rightarrow> bool" where
  "valid_limits c \<longleftrightarrow> \<not> (min_characters c = 0 \<or>
     target_characters c < min_characters c \<or>
     hard_max_characters c < target_characters c)"

definition segmenter_new ::
  "SentenceSegmenterConfig \<Rightarrow> segmenter_error + SentenceSegmenter" where
  "segmenter_new c =
     (if valid_limits c then Inr \<lparr>seg_config = c, seg_buffer = []\<rparr> else Inl InvalidLimits)"

definition character_count :: "string \<Rightarrow> nat \<Rightarrow> nat" where
  "character_count buf bytes = length (filter (\<lambda>c. \<not> is_cont c) (take bytes buf))"

text \<open>
  One byte of the scan: the width of the punctuation mark at \<open>i\<close> (0 for none) and whether it
  is a strong one.
\<close>

definition punctuation_at :: "string \<Rightarrow> nat \<Rightarrow> nat \<times> bool" where
  "punctuation_at buf i =
     (if buf ! i = CHR ''!'' \<or> buf ! i = CHR ''?'' \<or> buf ! i = CHR 0x0A then (1, True)
      else if starts_at buf i ideographic_full_stop \<or> starts_at buf i fullwidth_exclamation
        \<or> starts_at buf i fullwidth_question then (3, True)
      else if buf ! i = CHR '';'' \<or> buf ! i = CHR '','' then (1, False)
      else if starts_at buf i fullwidth_semicolon \<or> starts_at buf i fullwidth_comma then (3, False)
      else if buf ! i = CHR ''.'' \<and> i + 1 < length buf \<and> isspace (buf ! (i + 1)) then (1, True)
      else (0, False))"

text \<open>
  The punctuation loop from byte \<open>i\<close> on: \<open>Inl end\<close> when a strong boundary stops it, else
  \<open>Inr\<close> of the last soft boundary seen.
\<close>

function scan ::
  "SentenceSegmenterConfig \<Rightarrow> string \<Rightarrow> nat \<Rightarrow> nat option \<Rightarrow> nat \<Rightarrow> nat + nat option" where
  "scan c buf complete_bytes soft i =
     (if i < complete_bytes
      then case punctuation_at buf i of (p, strong) \<Rightarrow>
        (if p = 0 then scan c buf complete_bytes soft (Suc i)
         else let end = i + p; characters = character_count buf end
           in if strong \<and> min_characters c \<le> characters then Inl end
              else scan c buf complete_bytes
                (if target_characters c \<le> characters then Some end else soft) (Suc i))
      else Inr soft)"
  by pat_completeness auto
termination
  by (relation "measure (\<lambda>(c, buf, n, soft, i). n - i)") auto

declare scan.simps [simp del]

text \<open>\<open>while (boundary < complete_bytes && continuation(buffer_[boundary])) ++boundary\<close>\<close>

function skip_cont :: "string \<Rightarrow> nat \<Rightarrow> nat \<Rightarrow> nat" where
  "skip_cont buf complete_bytes b =
     (if b < complete_bytes \<and> is_cont (buf ! b) then skip_cont buf complete_bytes (Suc b) else b)"
  by pat_completeness auto
termination
  by (relation "measure (\<lambda>(buf, n, b). n - b)") auto

declare skip_cont.simps [simp del]

text \<open>The loop of the hard limit: cut at the last space before the target character.\<close>

function hard_cut ::
  "SentenceSegmenterConfig \<Rightarrow> string \<Rightarrow> nat \<Rightarrow> nat \<Rightarrow> nat option \<Rightarrow> nat \<Rightarrow> nat option" where
  "hard_cut c buf complete_bytes characters last_space i =
     (if i < complete_bytes
      then let characters = (if is_cont (buf ! i) then characters else characters + 1);
               last_space = (if isspace (buf ! i) then Some (i + 1) else last_space)
        in if target_characters c \<le> characters
           then Some (skip_cont buf complete_bytes
                  (case last_space of None \<Rightarrow> i + 1 | Some sp \<Rightarrow> sp))
           else hard_cut c buf complete_bytes characters last_space (Suc i)
      else None)"
  by pat_completeness auto
termination
  by (relation "measure (\<lambda>(c, buf, n, k, sp, i). n - i)") auto

declare hard_cut.simps [simp del]

text \<open>One iteration's choice of a boundary; \<open>None\<close> is the \<open>break\<close> of the loop.\<close>

definition find_boundary ::
  "SentenceSegmenterConfig \<Rightarrow> bool \<Rightarrow> string \<Rightarrow> nat \<Rightarrow> nat option" where
  "find_boundary c flushing buf complete_bytes =
     (let boundary = (case scan c buf complete_bytes None 0 of Inl e \<Rightarrow> Some e | Inr soft \<Rightarrow> soft);
          boundary = (if boundary = None
              \<and> hard_max_characters c \<le> character_count buf complete_bytes
            then hard_cut c buf complete_bytes 0 None 0 else boundary)
      in if boundary = None \<and> flushing then Some (length buf) else boundary)"


section \<open>Bounds of a boundary\<close>

lemma starts_at_bound:
  "starts_at buf i tok \<Longrightarrow> tok \<noteq> [] \<Longrightarrow> i + length tok \<le> length buf"
  by (cases "i \<le> length buf") (auto simp: starts_at_def min_def dest!: arg_cong [where f = length] split: if_splits)

lemma mark_lengths [simp]:
  "length ideographic_full_stop = 3" "length fullwidth_exclamation = 3"
  "length fullwidth_question = 3" "length fullwidth_semicolon = 3" "length fullwidth_comma = 3"
  by (simp_all add: ideographic_full_stop_def fullwidth_exclamation_def fullwidth_question_def
      fullwidth_semicolon_def fullwidth_comma_def utf8_def)

lemma starts_at_mark_bound:
  "starts_at buf i tok \<Longrightarrow> length tok = 3 \<Longrightarrow> i + 3 \<le> length buf"
  using starts_at_bound [of buf i tok] by fastforce

lemma punctuation_bound:
  "i < length buf \<Longrightarrow> punctuation_at buf i = (p, strong) \<Longrightarrow> i + p \<le> length buf"
  by (auto simp: punctuation_at_def split: if_splits dest!: starts_at_mark_bound)

lemma scan_bound:
  assumes "n \<le> length buf" and "case soft of None \<Rightarrow> True | Some b \<Rightarrow> 0 < b \<and> b \<le> length buf"
  shows "case scan c buf n soft i of
      Inl e \<Rightarrow> 0 < e \<and> e \<le> length buf
    | Inr None \<Rightarrow> True
    | Inr (Some b) \<Rightarrow> 0 < b \<and> b \<le> length buf"
  using assms
proof (induction c buf n soft i rule: scan.induct)
  case (1 c buf n soft i)
  obtain p strong where p: "punctuation_at buf i = (p, strong)" by fastforce
  show ?case
  proof (cases "i < n")
    case True
    with "1.prems" p have "i + p \<le> length buf" by (auto intro: punctuation_bound)
    with True p "1.prems" "1.IH" [OF True p [symmetric]] show ?thesis
      by (auto simp: scan.simps [of c buf n soft i] Let_def split: option.splits)
  next
    case False
    with "1.prems" show ?thesis
      by (auto simp: scan.simps [of c buf n soft i] split: option.splits)
  qed
qed

lemma skip_cont_bound: "b \<le> skip_cont buf n b \<and> (b \<le> n \<longrightarrow> skip_cont buf n b \<le> n)"
proof (induction buf n b rule: skip_cont.induct)
  case (1 buf n b)
  then show ?case by (auto simp: skip_cont.simps [of buf n b])
qed

lemma hard_cut_bound:
  assumes "case sp of None \<Rightarrow> True | Some b \<Rightarrow> 0 < b \<and> b \<le> i"
    and "hard_cut c buf n k sp i = Some b"
  shows "0 < b \<and> b \<le> n"
  using assms
proof (induction c buf n k sp i rule: hard_cut.induct)
  case (1 c buf n k sp i)
  let ?k = "if is_cont (buf ! i) then k else k + 1"
  let ?sp = "if isspace (buf ! i) then Some (i + 1) else sp"
  let ?b = "case ?sp of None \<Rightarrow> i + 1 | Some s \<Rightarrow> s"
  from "1.prems"(2) have i: "i < n" by (auto simp: hard_cut.simps [of c buf n k sp i] split: if_splits)
  from "1.prems"(1) have b: "0 < ?b" "?b \<le> Suc i" by (auto split: option.splits)
  show ?case
  proof (cases "target_characters c \<le> ?k")
    case True
    with i "1.prems"(2) have "b = skip_cont buf n ?b"
      by (auto simp: hard_cut.simps [of c buf n k sp i] Let_def)
    with b i skip_cont_bound [of ?b buf n] show ?thesis by auto
  next
    case False
    have "case ?sp of None \<Rightarrow> True | Some b \<Rightarrow> 0 < b \<and> b \<le> Suc i"
      using "1.prems"(1) by (auto split: option.splits)
    moreover from False i "1.prems"(2) have "hard_cut c buf n ?k ?sp (Suc i) = Some b"
      by (simp add: hard_cut.simps [of c buf n k sp i] Let_def del: if_split_asm)
    ultimately show ?thesis using "1.IH" [OF i refl refl False] by blast
  qed
qed

lemma lead_start_le: "lead_start text n \<le> n"
  by (induction n) auto

lemma complete_utf8_prefix_le: "complete_utf8_prefix buf \<le> length buf"
  using lead_start_le [of buf "length buf - 1"] by (auto simp: complete_utf8_prefix_def Let_def)

lemma find_boundary_bound:
  assumes "buf \<noteq> []" and "n \<le> length buf" and "find_boundary c fl buf n = Some b"
  shows "0 < b \<and> b \<le> length buf"
proof -
  let ?s = "scan c buf n None 0"
  have s: "case ?s of Inl e \<Rightarrow> 0 < e \<and> e \<le> length buf | Inr None \<Rightarrow> True
      | Inr (Some b) \<Rightarrow> 0 < b \<and> b \<le> length buf"
    using assms(2) by (intro scan_bound) auto
  have h: "hard_cut c buf n 0 None 0 = Some e \<Longrightarrow> 0 < e \<and> e \<le> n" for e
    by (rule hard_cut_bound [where sp = None]) auto
  show ?thesis
    using assms s h by (auto simp: find_boundary_def Let_def split: if_splits sum.splits option.splits)
qed

section \<open>The extraction loop\<close>

text \<open>
  \<open>extract\<close> as a state transformer: the sentences or the exception, and the buffer the call
  leaves. An iteration that finds a boundary erases at least one byte, so the loop ends.
\<close>

function segmenter_extract ::
  "SentenceSegmenterConfig \<Rightarrow> bool \<Rightarrow> string list \<Rightarrow> string \<Rightarrow> (segmenter_error + string list) \<times> string"
where
  "segmenter_extract c flushing output buf =
     (if buf = [] then (Inr output, buf)
      else if flushing \<and> complete_utf8_prefix buf \<noteq> length buf then (Inl IncompleteUtf8, buf)
      else case find_boundary c flushing buf (complete_utf8_prefix buf) of
        None \<Rightarrow> (Inr output, buf)
      | Some boundary \<Rightarrow>
          (let sentence = trim (take boundary buf);
               rest = dropWhile isspace (drop boundary buf)
           in segmenter_extract c flushing (if sentence = [] then output else output @ [sentence]) rest))"
  by pat_completeness auto
termination
proof (relation "measure (\<lambda>(c, fl, out, buf). length buf)", goal_cases)
  case (2 c fl out buf b sentence rest)
  then have "0 < b \<and> b \<le> length buf"
    by (intro find_boundary_bound [of buf "complete_utf8_prefix buf" c fl])
       (auto simp: complete_utf8_prefix_le)
  moreover from 2 have "length rest \<le> length buf - b"
    using length_dropWhile_le [of isspace "drop b buf"] by simp
  ultimately show ?case using 2 by (auto intro: le_less_trans)
qed simp

declare segmenter_extract.simps [simp del]

definition segmenter_push ::
  "SentenceSegmenter \<Rightarrow> string \<Rightarrow> (segmenter_error + string list) \<times> SentenceSegmenter" where
  "segmenter_push s text_delta =
     (case segmenter_extract (seg_config s) False [] (seg_buffer s @ text_delta) of
       (r, buf) \<Rightarrow> (r, s\<lparr>seg_buffer := buf\<rparr>))"

definition segmenter_flush ::
  "SentenceSegmenter \<Rightarrow> (segmenter_error + string list) \<times> SentenceSegmenter" where
  "segmenter_flush s =
     (case segmenter_extract (seg_config s) True [] (seg_buffer s) of (r, buf) \<Rightarrow> (r, s\<lparr>seg_buffer := buf\<rparr>))"

definition segmenter_reset :: "SentenceSegmenter \<Rightarrow> SentenceSegmenter" where
  "segmenter_reset s = s\<lparr>seg_buffer := []\<rparr>"


section \<open>Byte classes\<close>

lemma byte_less [simp]: "byte c < 256"
  by (simp add: byte_def)

lemma and_field: "(n::nat) AND push_bit k (mask m) = 2 ^ k * (n div 2 ^ k mod 2 ^ m)"
proof -
  have "n AND push_bit k (mask m) = push_bit k (take_bit m (drop_bit k n))"
    by (rule bit_eqI) (auto simp: bit_simps)
  then show ?thesis by (simp add: push_bit_eq_mult take_bit_eq_mod drop_bit_eq_div)
qed

lemma byte_high_bits:
  assumes "k \<le> 8"
  shows "byte c AND push_bit k (mask (8 - k)) = 2 ^ k * (byte c div 2 ^ k)"
proof -
  have "byte c < 2 ^ (8 - k) * 2 ^ k"
    using assms byte_less [of c] by (simp flip: power_add)
  then have "byte c div 2 ^ k < 2 ^ (8 - k)" by (rule less_mult_imp_div_less)
  then show ?thesis by (simp add: and_field)
qed

lemma mask_values:
  "(0xc0::nat) = push_bit 6 (mask (8 - 6))" "(0xe0::nat) = push_bit 5 (mask (8 - 5))"
  "(0xf0::nat) = push_bit 4 (mask (8 - 4))" "(0xf8::nat) = push_bit 3 (mask (8 - 3))"
  by (simp_all add: mask_eq_exp_minus_1 push_bit_eq_mult)

lemma byte_masks:
  "byte c AND 0xc0 = 2 ^ 6 * (byte c div 2 ^ 6)" "byte c AND 0xe0 = 2 ^ 5 * (byte c div 2 ^ 5)"
  "byte c AND 0xf0 = 2 ^ 4 * (byte c div 2 ^ 4)" "byte c AND 0xf8 = 2 ^ 3 * (byte c div 2 ^ 3)"
  by (subst mask_values, rule byte_high_bits, simp)+

lemma is_cont_iff [code]: "is_cont c \<longleftrightarrow> 128 \<le> byte c \<and> byte c < 192"
  unfolding is_cont_def byte_masks by (simp, arith)

lemma lead_width_iff [code]:
  "lead_width c =
     (if byte c < 192 then 1 else if byte c < 224 then 2 else if byte c < 240 then 3
      else if byte c < 248 then 4 else 1)"
  using byte_less [of c] unfolding lead_width_def byte_masks by auto

lemma space_not_cont: "isspace c \<Longrightarrow> \<not> is_cont c"
  by (auto simp: isspace_def is_cont_iff)

lemma ascii_width: "byte c < 128 \<Longrightarrow> lead_width c = 1"
  by (simp add: lead_width_def)

lemma space_width: "isspace c \<Longrightarrow> lead_width c = 1"
  by (auto simp: isspace_def ascii_width)

lemma width_pos: "0 < lead_width c"
  by (simp add: lead_width_def)

section \<open>Trimming\<close>

lemma trim_eq: "trim text = rev (dropWhile isspace (rev (dropWhile isspace text)))"
proof (cases "dropWhile isspace text = []")
  case True
  then have t: "takeWhile isspace text = text" by (simp add: takeWhile_eq_all_conv)
  show ?thesis unfolding trim_def Let_def t True by simp
next
  case False
  define w d where "w = takeWhile isspace text" and "d = dropWhile isspace text"
  define k where "k = length (takeWhile isspace (rev d))"
  have tx: "text = w @ d" by (simp add: w_def d_def)
  have x: "\<not> isspace (hd d)" "hd d \<in> set (rev d)"
    using False hd_dropWhile [OF False] by (auto simp: d_def)
  then have t: "takeWhile isspace (rev text) = takeWhile isspace (rev d)"
    unfolding tx by (metis rev_append takeWhile_append1)
  have "takeWhile isspace (rev d) \<noteq> rev d" using x by (auto simp: takeWhile_eq_all_conv)
  then have k: "k < length d"
    unfolding k_def
    by (metis length_rev length_takeWhile_le nat_less_le takeWhile_eq_take take_all_iff order_refl)
  have "rev (dropWhile isspace (rev d)) = take (length d - k) d"
    by (simp add: dropWhile_eq_drop rev_drop k_def)
  moreover have "trim text = take (length d - k) d"
    unfolding trim_def Let_def t w_def [symmetric] k_def [symmetric] using k by (simp add: tx)
  ultimately show ?thesis by (simp add: d_def)
qed

definition trimmed :: "string \<Rightarrow> bool" where
  "trimmed s \<longleftrightarrow> s \<noteq> [] \<and> \<not> isspace (hd s) \<and> \<not> isspace (last s)"

lemma trim_trimmed: "trim text \<noteq> [] \<Longrightarrow> trimmed (trim text)"
proof -
  assume ne: "trim text \<noteq> []"
  let ?d = "dropWhile isspace text" and ?r = "dropWhile isspace (rev (dropWhile isspace text))"
  from ne have r: "?r \<noteq> []" by (simp add: trim_eq)
  then have d: "?d \<noteq> []" by force
  have "hd ?d = last (rev ?d)" using d by (simp add: last_rev)
  moreover have "last (rev ?d) = last ?r" using r by (metis last_appendR takeWhile_dropWhile_id)
  ultimately have "hd (trim text) = hd ?d" using r by (simp add: trim_eq hd_rev)
  then have "\<not> isspace (hd (trim text))" using hd_dropWhile [OF d] by simp
  moreover have "\<not> isspace (last (trim text))"
    using hd_dropWhile [OF r] r by (simp add: trim_eq last_rev)
  ultimately show ?thesis using ne by (simp add: trimmed_def)
qed

lemma trim_split:
  obtains g h where "text = g @ trim text @ h" "list_all isspace g" "list_all isspace h"
proof
  let ?d = "dropWhile isspace text"
  show "text = takeWhile isspace text @ trim text @ rev (takeWhile isspace (rev ?d))"
    by (metis rev_append rev_rev_ident takeWhile_dropWhile_id trim_eq)
  show "list_all isspace (takeWhile isspace text)"
    by (auto simp: list_all_iff dest: set_takeWhileD)
  show "list_all isspace (rev (takeWhile isspace (rev ?d)))"
    by (auto simp: list_all_iff dest: set_takeWhileD)
qed

section \<open>Segmentations\<close>

inductive segmentation :: "string \<Rightarrow> string list \<Rightarrow> string \<Rightarrow> bool" where
  seg_rest: "segmentation rest [] rest"
| seg_space: "isspace c \<Longrightarrow> segmentation text ss rest \<Longrightarrow> segmentation (c # text) ss rest"
| seg_sentence: "segmentation text ss rest \<Longrightarrow> segmentation (s @ text) (s # ss) rest"

lemma segmentation_spaces:
  "list_all isspace w \<Longrightarrow> segmentation text ss rest \<Longrightarrow> segmentation (w @ text) ss rest"
  by (induction w) (auto intro: seg_space)

lemma segmentation_append:
  "segmentation text ss rest \<Longrightarrow> segmentation (rest @ text2) ts rest' \<Longrightarrow>
     segmentation (text @ text2) (ss @ ts) rest'"
  by (induction rule: segmentation.induct) (auto intro: segmentation.intros)

lemma segmentation_step:
  assumes "segmentation (dropWhile isspace (drop b buf)) ss rest"
  shows "segmentation buf (if trim (take b buf) = [] then ss else trim (take b buf) # ss) rest"
proof -
  obtain g h where gh: "take b buf = g @ trim (take b buf) @ h" "list_all isspace g" "list_all isspace h"
    by (rule trim_split)
  let ?w = "takeWhile isspace (drop b buf)"
  have w: "list_all isspace ?w" by (auto simp: list_all_iff dest: set_takeWhileD)
  have buf: "buf = g @ trim (take b buf) @ h @ ?w @ dropWhile isspace (drop b buf)"
    by (metis append.assoc append_take_drop_id gh(1) takeWhile_dropWhile_id)
  have "segmentation (h @ ?w @ dropWhile isspace (drop b buf)) ss rest"
    using assms gh(3) w by (blast intro: segmentation_spaces)
  then have "segmentation (trim (take b buf) @ h @ ?w @ dropWhile isspace (drop b buf))
      (if trim (take b buf) = [] then ss else trim (take b buf) # ss) rest"
    by (auto intro: seg_sentence)
  with gh(2) have "segmentation (g @ trim (take b buf) @ h @ ?w @ dropWhile isspace (drop b buf))
      (if trim (take b buf) = [] then ss else trim (take b buf) # ss) rest"
    by (rule segmentation_spaces)
  with buf show ?thesis by simp
qed

lemma extract_segmentation:
  "segmenter_extract c fl out buf = (Inr out', buf') \<Longrightarrow>
     \<exists>new. out' = out @ new \<and> segmentation buf new buf' \<and> list_all trimmed new"
proof (induction c fl out buf rule: segmenter_extract.induct)
  case (1 c fl out buf)
  note eq = "1.prems" [unfolded segmenter_extract.simps [of c fl out buf]]
  show ?case
  proof (cases "buf = [] \<or> find_boundary c fl buf (complete_utf8_prefix buf) = None")
    case True
    with eq show ?thesis by (auto split: if_splits intro: seg_rest)
  next
    case False
    then obtain b where b: "find_boundary c fl buf (complete_utf8_prefix buf) = Some b" by auto
    let ?s = "trim (take b buf)" and ?r = "dropWhile isspace (drop b buf)"
    from eq False b have ok: "\<not> (fl \<and> complete_utf8_prefix buf \<noteq> length buf)"
      and rec: "segmenter_extract c fl (if ?s = [] then out else out @ [?s]) ?r = (Inr out', buf')"
      by (auto simp: Let_def split: if_splits)
    from "1.IH" [OF _ ok b refl refl rec] False obtain new where
      new: "out' = (if ?s = [] then out else out @ [?s]) @ new" "segmentation ?r new buf'"
        "list_all trimmed new" by blast
    from segmentation_step [OF new(2)] new trim_trimmed [of "take b buf"] show ?thesis
      by (intro exI [of _ "if ?s = [] then new else ?s # new"]) auto
  qed
qed

section \<open>UTF-8 structure\<close>

text \<open>
  A string is structurally well-formed when it splits into lead bytes each followed by the
  continuation bytes its width announces; a stream prefix may end inside the last sequence.
\<close>

function utf8_ok :: "string \<Rightarrow> bool" where
  "utf8_ok [] = True"
| "utf8_ok (c # cs) =
     (let w = lead_width c - 1
      in \<not> is_cont c \<and> w \<le> length cs \<and> list_all is_cont (take w cs) \<and> utf8_ok (drop w cs))"
  by pat_completeness auto
termination
  by (relation "measure length") (auto simp: less_Suc_eq_le)

function utf8_prefix :: "string \<Rightarrow> bool" where
  "utf8_prefix [] = True"
| "utf8_prefix (c # cs) =
     (let w = lead_width c - 1
      in \<not> is_cont c \<and> list_all is_cont (take w cs) \<and> (w \<le> length cs \<longrightarrow> utf8_prefix (drop w cs)))"
  by pat_completeness auto
termination
  by (relation "measure length") (auto simp: less_Suc_eq_le)

lemma utf8_ok_append: "utf8_ok s \<Longrightarrow> utf8_ok t \<Longrightarrow> utf8_ok (s @ t)"
  by (induction s rule: utf8_ok.induct) (auto simp: Let_def)

lemma utf8_ok_append_prefix: "utf8_ok s \<Longrightarrow> utf8_prefix t \<Longrightarrow> utf8_prefix (s @ t)"
  by (induction s rule: utf8_ok.induct) (auto simp: Let_def)

lemma utf8_ok_prefix: "utf8_ok s \<Longrightarrow> utf8_prefix s"
  using utf8_ok_append_prefix [of s "[]"] by simp

lemma outside_sequence:
  "list_all is_cont (take w cs) \<Longrightarrow> i < length cs \<Longrightarrow> \<not> is_cont (cs ! i) \<Longrightarrow> w \<le> i"
  by (fastforce simp: list_all_length not_le)

lemma utf8_prefix_cut:
  "utf8_prefix s \<Longrightarrow> b < length s \<Longrightarrow> \<not> is_cont (s ! b) \<Longrightarrow>
     utf8_ok (take b s) \<and> utf8_prefix (drop b s)"
proof (induction s arbitrary: b rule: utf8_prefix.induct)
  case (2 c cs)
  define w where "w = lead_width c - Suc 0"
  from "2.prems"(1) have c: "\<not> is_cont c" "list_all is_cont (take w cs)"
      "w \<le> length cs \<longrightarrow> utf8_prefix (drop w cs)"
    by (simp_all add: Let_def w_def)
  show ?case
  proof (cases b)
    case 0
    with 2 show ?thesis by simp
  next
    case (Suc i)
    with "2.prems" c have w: "w \<le> i" "i < length cs" by (auto intro: outside_sequence)
    then have "utf8_ok (take (i - w) (drop w cs)) \<and> utf8_prefix (drop (i - w) (drop w cs))"
      using "2.prems" c Suc unfolding w_def by (intro "2.IH") auto
    moreover have "take w (take i cs) = take w cs" "drop w (take i cs) = take (i - w) (drop w cs)"
      using w by (simp_all add: min_def drop_take)
    ultimately show ?thesis using w c Suc by (simp add: Let_def w_def [symmetric])
  qed
qed simp

lemma utf8_ok_drop:
  "utf8_ok s \<Longrightarrow> b < length s \<Longrightarrow> \<not> is_cont (s ! b) \<Longrightarrow> utf8_ok (drop b s)"
proof (induction s arbitrary: b rule: utf8_ok.induct)
  case (2 c cs)
  define w where "w = lead_width c - Suc 0"
  from "2.prems"(1) have c: "list_all is_cont (take w cs)" "w \<le> length cs" "utf8_ok (drop w cs)"
    by (simp_all add: Let_def w_def)
  show ?case
  proof (cases b)
    case 0
    with 2 show ?thesis by simp
  next
    case (Suc i)
    with "2.prems" c have w: "w \<le> i" "i < length cs" by (auto intro: outside_sequence)
    then have "utf8_ok (drop (i - w) (drop w cs))"
      using "2.prems" c Suc unfolding w_def by (intro "2.IH") auto
    with w Suc show ?thesis by simp
  qed
qed simp

lemma utf8_ok_cut:
  assumes "utf8_ok s" and "b \<le> length s" and "b < length s \<Longrightarrow> \<not> is_cont (s ! b)"
  shows "utf8_ok (take b s) \<and> utf8_ok (drop b s)"
  using assms utf8_prefix_cut [OF utf8_ok_prefix, of s b] utf8_ok_drop [of s b]
  by (cases "b < length s") auto

lemma utf8_ok_next:
  assumes "utf8_ok s" and "i < length s" and "\<not> is_cont (s ! i)"
  shows "i + lead_width (s ! i) \<le> length s"
    and "i + lead_width (s ! i) < length s \<Longrightarrow> \<not> is_cont (s ! (i + lead_width (s ! i)))"
proof -
  have d: "utf8_ok (drop i s)" using utf8_ok_cut [of s i] assms by simp
  have e: "drop i s = s ! i # drop (Suc i) s" using assms(2) by (simp add: Cons_nth_drop_Suc)
  from d have ok: "lead_width (s ! i) - 1 \<le> length (drop (Suc i) s)"
      "utf8_ok (drop (lead_width (s ! i) - 1) (drop (Suc i) s))"
    unfolding e by (simp_all add: Let_def)
  with assms(2) width_pos [of "s ! i"] show "i + lead_width (s ! i) \<le> length s" by simp
  assume l: "i + lead_width (s ! i) < length s"
  have "drop (lead_width (s ! i) - 1) (drop (Suc i) s) = drop (i + lead_width (s ! i)) s"
    using width_pos [of "s ! i"] by (simp add: add.commute)
  with ok(2) l show "\<not> is_cont (s ! (i + lead_width (s ! i)))"
    by (metis Cons_nth_drop_Suc utf8_ok.simps(2))
qed

section \<open>The complete prefix\<close>

lemma lead_start_props:
  "n < length s \<Longrightarrow> (lead_start s n = 0 \<or> \<not> is_cont (s ! lead_start s n)) \<and>
     (\<forall>j. lead_start s n < j \<and> j \<le> n \<longrightarrow> is_cont (s ! j))"
  by (induction n) (auto simp: le_Suc_eq)

lemma utf8_prefix_single:
  assumes "utf8_prefix (c # cs)" and "list_all is_cont cs"
  shows "length cs < lead_width c" and "Suc (length cs) = lead_width c \<Longrightarrow> utf8_ok (c # cs)"
proof -
  let ?w = "lead_width c - 1"
  have "length cs \<le> ?w"
  proof (rule ccontr)
    assume "\<not> length cs \<le> ?w"
    then obtain d ds where "drop ?w cs = d # ds" by (metis drop_eq_Nil neq_Nil_conv)
    moreover from this have "is_cont d"
      using assms(2) by (metis in_set_dropD list.set_intros(1) list_all_iff)
    ultimately show False using assms(1) \<open>\<not> length cs \<le> ?w\<close> by (simp add: Let_def)
  qed
  then show "length cs < lead_width c" using width_pos [of c] by simp
  assume "Suc (length cs) = lead_width c"
  then have "?w = length cs" by simp
  with assms show "utf8_ok (c # cs)" by (simp add: Let_def)
qed

lemma complete_prefix_correct:
  assumes "utf8_prefix s"
  shows "utf8_ok (take (complete_utf8_prefix s) s) \<and> utf8_prefix (drop (complete_utf8_prefix s) s)
    \<and> (complete_utf8_prefix s = length s \<longleftrightarrow> utf8_ok s)"
proof (cases "s = []")
  case False
  let ?st = "lead_start s (length s - 1)"
  from False have lt: "?st < length s"
    using lead_start_le [of s "length s - 1"] by (cases s) auto
  from False have nc0: "\<not> is_cont (s ! 0)" using assms by (cases s) (auto simp: Let_def)
  from lead_start_props [of "length s - 1" s] False nc0
  have nc: "\<not> is_cont (s ! ?st)" and conts: "\<And>j. ?st < j \<Longrightarrow> j \<le> length s - 1 \<Longrightarrow> is_cont (s ! j)"
    by fastforce+
  from utf8_prefix_cut [OF assms lt nc]
  have tk: "utf8_ok (take ?st s)" and dr: "utf8_prefix (drop ?st s)" by auto
  have e: "drop ?st s = s ! ?st # drop (Suc ?st) s" using lt by (simp add: Cons_nth_drop_Suc)
  have lc: "list_all is_cont (drop (Suc ?st) s)"
    using conts by (auto simp: list_all_length)
  note sgl = utf8_prefix_single [OF dr [unfolded e] lc]
  show ?thesis
  proof (cases "length s - ?st < lead_width (s ! ?st)")
    case True
    then have cb: "complete_utf8_prefix s = ?st" using False by (simp add: complete_utf8_prefix_def)
    have "\<not> utf8_ok s"
    proof
      assume "utf8_ok s"
      from utf8_ok_next(1) [OF this lt nc] True show False by simp
    qed
    with cb tk dr lt show ?thesis by auto
  next
    case False2: False
    then have cb: "complete_utf8_prefix s = length s" using False by (simp add: complete_utf8_prefix_def)
    have "Suc (length (drop (Suc ?st) s)) = lead_width (s ! ?st)"
      using False2 sgl(1) lt unfolding length_drop by arith
    then have "utf8_ok (drop ?st s)" unfolding e by (rule sgl(2))
    with tk have "utf8_ok s" by (metis append_take_drop_id utf8_ok_append)
    with cb show ?thesis by simp
  qed
qed (simp add: complete_utf8_prefix_def)

section \<open>Boundaries fall between code points\<close>

text \<open>A cut position of a complete buffer: its end, or a byte that starts a sequence.\<close>

definition at_lead :: "string \<Rightarrow> nat \<Rightarrow> nat \<Rightarrow> bool" where
  "at_lead buf n b \<longleftrightarrow> b \<le> n \<and> (b < n \<longrightarrow> \<not> is_cont (buf ! b))"

lemma mark_bytes:
  "byte (ideographic_full_stop ! 0) = 0xe3" "byte (fullwidth_exclamation ! 0) = 0xef"
  "byte (fullwidth_question ! 0) = 0xef" "byte (fullwidth_semicolon ! 0) = 0xef"
  "byte (fullwidth_comma ! 0) = 0xef"
  by (simp_all add: byte_def ideographic_full_stop_def fullwidth_exclamation_def
      fullwidth_question_def fullwidth_semicolon_def fullwidth_comma_def utf8_def)

lemma starts_at_first: "starts_at buf i tok \<Longrightarrow> length tok = 3 \<Longrightarrow> buf ! i = tok ! 0"
  using starts_at_mark_bound [of buf i tok]
  by (metis add_lessD1 drop_drop hd_conv_nth hd_drop_conv_nth less_le_trans list.size(3)
      numeral_3_eq_3 starts_at_def take_eq_Nil2 zero_less_Suc hd_take less_add_same_cancel1
      zero_neq_numeral)

lemma punctuation_lead:
  assumes "punctuation_at buf i = (p, strong)" and "p \<noteq> 0" and "i < length buf"
  shows "\<not> is_cont (buf ! i) \<and> lead_width (buf ! i) = p"
proof -
  have w3: "byte c = 0xe3 \<or> byte c = 0xef \<Longrightarrow> \<not> is_cont c \<and> lead_width c = 3" for c
    by (auto simp: is_cont_iff lead_width_def)
  have w1: "c \<in> set (CHR 0x0A # ''!?;,.'') \<Longrightarrow> \<not> is_cont c \<and> lead_width c = 1" for c
    by (auto simp: is_cont_iff lead_width_def byte_def)
  have m: "starts_at buf i tok \<Longrightarrow> tok \<in> {ideographic_full_stop, fullwidth_exclamation,
      fullwidth_question, fullwidth_semicolon, fullwidth_comma}
      \<Longrightarrow> \<not> is_cont (buf ! i) \<and> lead_width (buf ! i) = 3" for tok
    by (rule w3) (auto dest!: starts_at_first simp: mark_bytes)
  from assms show ?thesis
    unfolding punctuation_at_def
    by (auto split: if_splits dest: m simp: w1 simp del: One_nat_def)
qed

lemma punctuation_at_lead:
  assumes "utf8_ok (take n buf)" and "n \<le> length buf" and "i < n"
    and "punctuation_at buf i = (p, strong)" and "p \<noteq> 0"
  shows "at_lead buf n (i + p)"
proof -
  from assms punctuation_lead [of buf i p strong] have l: "\<not> is_cont (buf ! i)" "lead_width (buf ! i) = p"
    by auto
  have "length (take n buf) = n" using assms(2) by simp
  with l assms utf8_ok_next [of "take n buf" i] show ?thesis by (simp add: at_lead_def)
qed

lemma scan_at_lead:
  assumes "utf8_ok (take n buf)" and "n \<le> length buf"
    and "case soft of None \<Rightarrow> True | Some b \<Rightarrow> at_lead buf n b"
  shows "case scan c buf n soft i of Inl e \<Rightarrow> at_lead buf n e
    | Inr None \<Rightarrow> True | Inr (Some b) \<Rightarrow> at_lead buf n b"
  using assms
proof (induction c buf n soft i rule: scan.induct)
  case (1 c buf n soft i)
  obtain p strong where p: "punctuation_at buf i = (p, strong)" by fastforce
  show ?case
  proof (cases "i < n")
    case True
    with "1.prems" p have "p \<noteq> 0 \<Longrightarrow> at_lead buf n (i + p)" by (auto intro: punctuation_at_lead)
    with True p "1.prems" "1.IH" [OF True p [symmetric]] show ?thesis
      by (auto simp: scan.simps [of c buf n soft i] Let_def split: option.splits)
  next
    case False
    with "1.prems" show ?thesis
      by (auto simp: scan.simps [of c buf n soft i] split: option.splits)
  qed
qed

lemma skip_cont_at_lead: "b \<le> n \<Longrightarrow> at_lead buf n (skip_cont buf n b)"
proof (induction buf n b rule: skip_cont.induct)
  case (1 buf n b)
  then show ?case by (auto simp: skip_cont.simps [of buf n b] at_lead_def)
qed

lemma hard_cut_at_lead:
  assumes "case sp of None \<Rightarrow> True | Some b \<Rightarrow> b \<le> i" and "hard_cut c buf n k sp i = Some b"
  shows "at_lead buf n b"
  using assms
proof (induction c buf n k sp i rule: hard_cut.induct)
  case (1 c buf n k sp i)
  let ?k = "if is_cont (buf ! i) then k else k + 1"
  let ?sp = "if isspace (buf ! i) then Some (i + 1) else sp"
  let ?b = "case ?sp of None \<Rightarrow> i + 1 | Some s \<Rightarrow> s"
  from "1.prems"(2) have i: "i < n" by (auto simp: hard_cut.simps [of c buf n k sp i] split: if_splits)
  from "1.prems"(1) have b: "?b \<le> Suc i" by (auto split: option.splits)
  show ?case
  proof (cases "target_characters c \<le> ?k")
    case True
    with i "1.prems"(2) have "b = skip_cont buf n ?b"
      by (auto simp: hard_cut.simps [of c buf n k sp i] Let_def)
    with b i show ?thesis by (auto intro: skip_cont_at_lead)
  next
    case False
    have "case ?sp of None \<Rightarrow> True | Some b \<Rightarrow> b \<le> Suc i"
      using "1.prems"(1) by (auto split: option.splits)
    moreover from False i "1.prems"(2) have "hard_cut c buf n ?k ?sp (Suc i) = Some b"
      by (simp add: hard_cut.simps [of c buf n k sp i] Let_def del: if_split_asm)
    ultimately show ?thesis using "1.IH" [OF i refl refl False] by blast
  qed
qed

lemma find_boundary_at_lead:
  assumes "utf8_ok (take n buf)" and "n \<le> length buf" and "fl \<longrightarrow> n = length buf"
    and "find_boundary c fl buf n = Some b"
  shows "at_lead buf n b"
proof -
  have s: "case scan c buf n None 0 of Inl e \<Rightarrow> at_lead buf n e | Inr None \<Rightarrow> True
      | Inr (Some b) \<Rightarrow> at_lead buf n b"
    using assms by (intro scan_at_lead) auto
  have h: "hard_cut c buf n 0 None 0 = Some e \<Longrightarrow> at_lead buf n e" for e
    by (rule hard_cut_at_lead [where sp = None]) auto
  have l: "fl \<Longrightarrow> at_lead buf n (length buf)" using assms(3) by (simp add: at_lead_def)
  show ?thesis
    using assms(4) s h l
    by (auto simp: find_boundary_def Let_def split: if_splits sum.splits option.splits)
qed

lemma drop_take_append: "b \<le> n \<Longrightarrow> drop b s = drop b (take n s) @ drop n s"
  using append_take_drop_id [of "n - b" "drop b s"] by (simp add: drop_take)

lemma find_boundary_cut:
  assumes "utf8_prefix buf" and "fl \<longrightarrow> complete_utf8_prefix buf = length buf"
    and "find_boundary c fl buf (complete_utf8_prefix buf) = Some b"
  shows "utf8_ok (take b buf) \<and> utf8_prefix (drop b buf) \<and> (utf8_ok buf \<longrightarrow> utf8_ok (drop b buf))"
proof -
  define n where "n = complete_utf8_prefix buf"
  from complete_prefix_correct [OF assms(1)]
  have n: "utf8_ok (take n buf)" "utf8_prefix (drop n buf)" "utf8_ok buf \<longrightarrow> n = length buf"
      "n \<le> length buf"
    using complete_utf8_prefix_le [of buf] by (auto simp: n_def)
  have "at_lead buf n b"
    using find_boundary_at_lead [OF n(1,4), of fl c b] assms by (simp add: n_def)
  then have b: "b \<le> n" and ok: "utf8_ok (take b buf)" "utf8_ok (drop b (take n buf))"
    using utf8_ok_cut [OF n(1), of b] n(4) by (simp_all add: at_lead_def min_absorb1)
  from ok(2) n(2) have "utf8_prefix (drop b buf)"
    unfolding drop_take_append [OF b, of buf] by (rule utf8_ok_append_prefix)
  with ok n(3) show ?thesis by auto
qed

lemma utf8_ok_suffix: "utf8_ok (s @ t) \<Longrightarrow> utf8_ok s \<Longrightarrow> utf8_ok t"
  by (induction s rule: utf8_ok.induct) (auto simp: Let_def)

lemma utf8_prefix_left: "utf8_prefix (s @ t) \<Longrightarrow> utf8_prefix s"
proof (induction s rule: utf8_prefix.induct)
  case (2 c cs)
  then show ?case by (auto simp: Let_def list_all_iff dest: in_set_takeD split: if_splits)
qed simp

lemma utf8_ok_spaces: "list_all isspace w \<Longrightarrow> utf8_ok w"
  by (induction w) (auto simp: Let_def space_width space_not_cont)

lemma utf8_trim: "utf8_ok s \<Longrightarrow> utf8_ok (trim s)"
proof -
  assume s: "utf8_ok s"
  obtain g h where gh: "s = g @ trim s @ h" "list_all isspace g" "list_all isspace h"
    by (rule trim_split)
  with s have "utf8_ok (trim s @ h)" by (metis utf8_ok_spaces utf8_ok_suffix)
  then show ?thesis
    using utf8_ok_cut [of "trim s @ h" "length (trim s)"] gh(3)
    by (cases h) (auto simp: space_not_cont)
qed

lemma extract_utf8:
  "segmenter_extract c fl out buf = (Inr out', buf') \<Longrightarrow> utf8_ok (buf @ t) \<Longrightarrow>
     list_all utf8_ok out \<Longrightarrow> list_all utf8_ok out' \<and> utf8_ok (buf' @ t)"
proof (induction c fl out buf rule: segmenter_extract.induct)
  case (1 c fl out buf)
  note eq = "1.prems"(1) [unfolded segmenter_extract.simps [of c fl out buf]]
  show ?case
  proof (cases "buf = [] \<or> find_boundary c fl buf (complete_utf8_prefix buf) = None")
    case True
    with eq "1.prems" show ?thesis by (auto split: if_splits)
  next
    case False
    then obtain b where b: "find_boundary c fl buf (complete_utf8_prefix buf) = Some b" by auto
    let ?s = "trim (take b buf)" and ?r = "dropWhile isspace (drop b buf)"
      and ?w = "takeWhile isspace (drop b buf)"
    from eq False b have ok: "\<not> (fl \<and> complete_utf8_prefix buf \<noteq> length buf)"
      and rec: "segmenter_extract c fl (if ?s = [] then out else out @ [?s]) ?r = (Inr out', buf')"
      by (auto simp: Let_def split: if_splits)
    from "1.prems"(2) have "utf8_prefix buf" by (metis utf8_ok_prefix utf8_prefix_left)
    from find_boundary_cut [OF this _ b] ok have tk: "utf8_ok (take b buf)" by auto
    have "buf @ t = take b buf @ ?w @ ?r @ t"
      by (metis append.assoc append_take_drop_id takeWhile_dropWhile_id)
    moreover have "utf8_ok ?w" by (auto intro!: utf8_ok_spaces simp: list_all_iff dest: set_takeWhileD)
    ultimately have r: "utf8_ok (?r @ t)" using tk "1.prems"(2) by (metis utf8_ok_suffix)
    from "1.IH" [OF _ ok b refl refl rec r] False "1.prems"(3) utf8_trim [OF tk]
    show ?thesis by auto
  qed
qed

section \<open>What is left in the buffer\<close>

lemma push_total: "\<exists>out' buf'. segmenter_extract c False out buf = (Inr out', buf')"
proof (induction c False out buf rule: segmenter_extract.induct)
  case (1 c out buf)
  then show ?case
    by (auto simp: segmenter_extract.simps [of c False out buf] Let_def split: option.splits)
qed

lemma flush_total:
  "utf8_ok buf \<Longrightarrow> \<exists>out'. segmenter_extract c True out buf = (Inr out', [])"
proof (induction c True out buf rule: segmenter_extract.induct)
  case (1 c out buf)
  show ?case
  proof (cases "buf = []")
    case False
    have n: "complete_utf8_prefix buf = length buf"
      using complete_prefix_correct [of buf] utf8_ok_prefix "1.prems" by blast
    have "find_boundary c True buf (complete_utf8_prefix buf) \<noteq> None"
      by (simp add: find_boundary_def Let_def)
    then obtain b where b: "find_boundary c True buf (complete_utf8_prefix buf) = Some b" by blast
    let ?w = "takeWhile isspace (drop b buf)" and ?r = "dropWhile isspace (drop b buf)"
    from find_boundary_cut [OF utf8_ok_prefix [OF "1.prems"] _ b] n "1.prems"
    have "utf8_ok (?w @ ?r)" by simp
    moreover have "utf8_ok ?w" by (auto intro!: utf8_ok_spaces simp: list_all_iff dest: set_takeWhileD)
    ultimately have "utf8_ok ?r" by (rule utf8_ok_suffix)
    with "1.hyps" [OF False _ b refl refl] n b False show ?thesis
      by (simp add: segmenter_extract.simps [of c True out buf] Let_def)
  qed (simp add: segmenter_extract.simps)
qed

lemma hard_cut_found:
  "n \<le> length buf \<Longrightarrow> i < n \<or> k < target_characters c \<Longrightarrow> i \<le> n \<Longrightarrow>
     target_characters c \<le> k + length (filter (\<lambda>c. \<not> is_cont c) (take (n - i) (drop i buf))) \<Longrightarrow>
     hard_cut c buf n k sp i \<noteq> None"
proof (induction c buf n k sp i rule: hard_cut.induct)
  case (1 c buf n k sp i)
  let ?k = "if is_cont (buf ! i) then k else k + 1"
  let ?sp = "if isspace (buf ! i) then Some (i + 1) else sp"
  show ?case
  proof (cases "i < n")
    case True
    then have "take (n - i) (drop i buf) = buf ! i # take (n - Suc i) (drop (Suc i) buf)"
      using "1.prems"(1) by (metis Cons_nth_drop_Suc Suc_diff_Suc less_le_trans take_Suc_Cons)
    then have cnt: "k + length (filter (\<lambda>c. \<not> is_cont c) (take (n - i) (drop i buf)))
        = ?k + length (filter (\<lambda>c. \<not> is_cont c) (take (n - Suc i) (drop (Suc i) buf)))"
      by simp
    show ?thesis
    proof (cases "target_characters c \<le> ?k")
      case False
      with True "1.prems" cnt have "hard_cut c buf n ?k ?sp (Suc i) \<noteq> None"
        by (intro "1.IH" [OF True refl refl False]) simp_all
      with True False show ?thesis
        by (simp add: hard_cut.simps [of c buf n k sp i] Let_def del: if_split_asm)
    qed (use True in \<open>simp add: hard_cut.simps [of c buf n k sp i] Let_def\<close>)
  qed (use "1.prems" in auto)
qed

lemma no_boundary_small:
  assumes "valid_limits c" and "buf \<noteq> []" and "find_boundary c fl buf n = None" and "n \<le> length buf"
  shows "character_count buf n < hard_max_characters c"
proof (rule ccontr)
  assume big: "\<not> character_count buf n < hard_max_characters c"
  with assms(1) have "0 < n" by (cases n) (auto simp: character_count_def valid_limits_def)
  with big assms(1,4) have "hard_cut c buf n 0 None 0 \<noteq> None"
    by (intro hard_cut_found) (auto simp: character_count_def valid_limits_def)
  with big assms(3) show False
    by (auto simp: find_boundary_def Let_def split: sum.splits option.splits if_splits)
qed

lemma push_leaves_small:
  "valid_limits c \<Longrightarrow> segmenter_extract c False out buf = (Inr out', buf') \<Longrightarrow>
     character_count buf' (complete_utf8_prefix buf') < hard_max_characters c"
proof (induction c False out buf rule: segmenter_extract.induct)
  case (1 c out buf)
  note eq = "1.prems"(2) [unfolded segmenter_extract.simps [of c False out buf]]
  show ?case
  proof (cases "find_boundary c False buf (complete_utf8_prefix buf)")
    case None
    with eq have "buf' = buf" by (auto split: if_splits)
    with None "1.prems"(1) no_boundary_small [of c buf False] complete_utf8_prefix_le [of buf] show ?thesis
      by (cases "buf = []") (auto simp: character_count_def valid_limits_def)
  next
    case (Some b)
    show ?thesis
    proof (cases "buf = []")
      case True
      with eq "1.prems"(1) show ?thesis by (auto simp: character_count_def valid_limits_def)
    next
      case False
      with eq Some "1.hyps" [OF False _ Some refl refl "1.prems"(1)] show ?thesis
        by (auto simp: Let_def)
    qed
  qed
qed

text \<open>
  A whole text stream: every delta is pushed, then the segmenter is flushed, as the text-delta
  sink and the completion callback of \<open>Conversation::on_transcript\<close> do.
\<close>

fun segmenter_stream ::
  "SentenceSegmenter \<Rightarrow> string list \<Rightarrow> (segmenter_error + string list) \<times> SentenceSegmenter" where
  "segmenter_stream s [] = segmenter_flush s"
| "segmenter_stream s (d # ds) =
     (case segmenter_push s d of
        (Inl e, s') \<Rightarrow> (Inl e, s')
      | (Inr out, s') \<Rightarrow>
          (case segmenter_stream s' ds of
             (Inl e, s'') \<Rightarrow> (Inl e, s'')
           | (Inr out', s'') \<Rightarrow> (Inr (out @ out'), s'')))"

definition default_segmenter :: SentenceSegmenter where
  "default_segmenter =
     \<lparr>seg_config = \<lparr>min_characters = 12, target_characters = 60, hard_max_characters = 140\<rparr>,
      seg_buffer = []\<rparr>"

section \<open>Properties\<close>

text \<open>
  C9: pushing any sequence of text deltas and then flushing always succeeds when the whole
  text is structurally well-formed UTF-8, however the deltas cut its code points. The
  sentences, in order and separated by nothing but white space, are exactly the text; each one
  is non-empty, trimmed and well-formed UTF-8; and nothing is left in the buffer.
\<close>

theorem segmenter_stream_total:
  "utf8_ok (seg_buffer s @ concat deltas) \<Longrightarrow>
     \<exists>out s'. segmenter_stream s deltas = (Inr out, s') \<and> seg_buffer s' = []
       \<and> segmentation (seg_buffer s @ concat deltas) out []
       \<and> list_all trimmed out \<and> list_all utf8_ok out"
proof (induction deltas arbitrary: s)
  case Nil
  then have ok: "utf8_ok (seg_buffer s)" by simp
  from flush_total [OF this, of "seg_config s" "[]"] obtain out where
    out: "segmenter_extract (seg_config s) True [] (seg_buffer s) = (Inr out, [])" by blast
  from extract_segmentation [OF out] extract_utf8 [OF out, of "[]"] ok out show ?case
    by (simp add: segmenter_flush_def)
next
  case (Cons d ds)
  obtain out buf where out: "segmenter_extract (seg_config s) False [] (seg_buffer s @ d) = (Inr out, buf)"
    using push_total by blast
  from extract_utf8 [OF out, of "concat ds"] Cons.prems
  have u: "list_all utf8_ok out" "utf8_ok (buf @ concat ds)" by auto
  from extract_segmentation [OF out] have sg: "segmentation (seg_buffer s @ d) out buf" "list_all trimmed out"
    by auto
  from Cons.IH [of "s\<lparr>seg_buffer := buf\<rparr>"] u(2) obtain out' s' where
    IH: "segmenter_stream (s\<lparr>seg_buffer := buf\<rparr>) ds = (Inr out', s')" "seg_buffer s' = []"
      "segmentation (buf @ concat ds) out' []" "list_all trimmed out'" "list_all utf8_ok out'" by auto
  from segmentation_append [OF sg(1) IH(3)] IH u sg out show ?case
    by (simp add: segmenter_push_def)
qed

theorem segmenter_stream_total_witness:
  "utf8_ok (utf8 [0xe4, 0xbd] @ utf8 [0xa0, 0x21]) \<and>
   segmenter_stream default_segmenter [utf8 [0xe4, 0xbd], utf8 [0xa0, 0x21]]
     = (Inr [utf8 [0xe4, 0xbd, 0xa0, 0x21]], default_segmenter) \<and>
   segmentation (utf8 [0xe4, 0xbd, 0xa0, 0x21]) [utf8 [0xe4, 0xbd, 0xa0, 0x21]] []"
proof -
  have u: "utf8_ok (utf8 [0xe4, 0xbd] @ utf8 [0xa0, 0x21])" by code_simp
  have r: "segmenter_stream default_segmenter [utf8 [0xe4, 0xbd], utf8 [0xa0, 0x21]]
     = (Inr [utf8 [0xe4, 0xbd, 0xa0, 0x21]], default_segmenter)" by code_simp
  from segmenter_stream_total [of default_segmenter "[utf8 [0xe4, 0xbd], utf8 [0xa0, 0x21]]"] u r
  show ?thesis by (simp add: default_segmenter_def utf8_def)
qed

text \<open>
  Under valid limits a push never fails and leaves fewer than \<open>hard_max_characters\<close>
  complete characters buffered, whatever the size of the delta.
\<close>

theorem segmenter_push_bounded:
  assumes "valid_limits (seg_config s)"
  shows "\<exists>out. fst (segmenter_push s delta) = Inr out \<and>
    (let buf = seg_buffer (snd (segmenter_push s delta))
     in character_count buf (complete_utf8_prefix buf) < hard_max_characters (seg_config s))"
  using push_total [of "seg_config s" "[]" "seg_buffer s @ delta"] assms
  by (auto simp: segmenter_push_def dest: push_leaves_small)

theorem segmenter_push_bounded_witness:
  "valid_limits (seg_config default_segmenter) \<and>
   (let buf = seg_buffer (snd (segmenter_push default_segmenter ''partial sentence''))
    in character_count buf (complete_utf8_prefix buf) < 140)"
  using segmenter_push_bounded [of default_segmenter "''partial sentence''"]
  by (auto simp: default_segmenter_def valid_limits_def Let_def)

text \<open>
  Flushing a stream that ends inside a UTF-8 sequence reports the error and leaves the
  buffer as it was: no partial sentence is spoken.
\<close>

theorem segmenter_flush_incomplete:
  assumes "utf8_prefix (seg_buffer s)" and "\<not> utf8_ok (seg_buffer s)"
  shows "segmenter_flush s = (Inl IncompleteUtf8, s)"
  using assms complete_prefix_correct [of "seg_buffer s"]
  by (auto simp: segmenter_flush_def segmenter_extract.simps [of _ True])

theorem segmenter_flush_incomplete_witness:
  "segmenter_flush (default_segmenter\<lparr>seg_buffer := utf8 [0x68, 0xe4, 0xbd]\<rparr>)
     = (Inl IncompleteUtf8, default_segmenter\<lparr>seg_buffer := utf8 [0x68, 0xe4, 0xbd]\<rparr>)"
  by (rule segmenter_flush_incomplete) code_simp+

section \<open>The hard limit\<close>

text \<open>Bytes of a word: ASCII, neither white space nor one of the marks.\<close>

definition word_byte :: "char \<Rightarrow> bool" where
  "word_byte c \<longleftrightarrow> byte c < 128 \<and> \<not> isspace c \<and> c \<notin> set ''!?;,.''"

lemma word_byte_plain:
  "word_byte c \<Longrightarrow> \<not> is_cont c" "word_byte c \<Longrightarrow> \<not> isspace c" "word_byte c \<Longrightarrow> lead_width c = 1"
  by (simp_all add: word_byte_def is_cont_iff ascii_width)

lemma starts_at_head: "starts_at buf i (x # xs) \<Longrightarrow> i < length buf \<Longrightarrow> buf ! i = x"
  by (cases "drop i buf") (auto simp: starts_at_def simp flip: Cons_nth_drop_Suc)

lemma word_no_punctuation:
  assumes "word_byte (buf ! i)" and "i < length buf"
  shows "punctuation_at buf i = (0, False)"
proof -
  have small: "byte (buf ! i) < 128" and marks: "buf ! i \<notin> set ''!?;,.''" and "\<not> isspace (buf ! i)"
    using assms(1) by (simp_all add: word_byte_def)
  then have nl: "buf ! i \<noteq> CHR 0x0A" by (auto simp: isspace_def byte_def)
  have "\<not> starts_at buf i (utf8 (n # ns))" if "n \<in> {0xe3, 0xef}" for n ns
    using starts_at_head [of buf i "char_of n" "utf8 ns"] assms(2) small that
    by (auto simp: utf8_def byte_def)
  then have "\<not> starts_at buf i tok"
    if "tok \<in> {ideographic_full_stop, fullwidth_exclamation, fullwidth_question, fullwidth_semicolon, fullwidth_comma}"
    for tok
    using that by (auto simp: ideographic_full_stop_def fullwidth_exclamation_def fullwidth_question_def
        fullwidth_semicolon_def fullwidth_comma_def)
  then show ?thesis using marks nl by (simp add: punctuation_at_def)
qed

lemma scan_word:
  assumes "\<And>j. j < k \<Longrightarrow> word_byte (buf ! j)" and "k \<le> n" and "n \<le> length buf"
  shows "i \<le> k \<Longrightarrow> scan c buf n soft i = scan c buf n soft k"
proof (induction "k - i" arbitrary: i)
  case (Suc m)
  then have "i < k" by simp
  then have "scan c buf n soft i = scan c buf n soft (Suc i)"
    using word_no_punctuation [OF assms(1)] assms(2,3) by (subst scan.simps) simp
  then show ?case using Suc.hyps \<open>i < k\<close> by simp
qed simp

lemma ascii_prefix:
  assumes "list_all (\<lambda>c. \<not> is_cont c \<and> lead_width c = 1) buf"
  shows "complete_utf8_prefix buf = length buf" "character_count buf (length buf) = length buf"
proof -
  show "character_count buf (length buf) = length buf"
    using assms by (simp add: character_count_def list_all_iff filter_id_conv)
  show "complete_utf8_prefix buf = length buf"
  proof (cases "buf = []")
    case False
    then have last: "length buf - 1 < length buf" by simp
    then have "\<not> is_cont (buf ! (length buf - 1))" "lead_width (buf ! (length buf - 1)) = 1"
      using assms by (simp_all add: list_all_length)
    moreover have "lead_start buf n = n" if "\<not> is_cont (buf ! n)" for n
      using that by (cases n) simp_all
    moreover have "\<not> length buf \<le> length buf - Suc 0" using last by simp
    ultimately show ?thesis using False by (simp add: complete_utf8_prefix_def Let_def)
  qed (simp add: complete_utf8_prefix_def)
qed

lemma word_ascii: "list_all word_byte w \<Longrightarrow> list_all (\<lambda>c. \<not> is_cont c \<and> lead_width c = 1) w"
  by (simp add: list_all_iff word_byte_plain)

lemma hard_cut_word:
  assumes "list_all word_byte w" and "target_characters c \<le> length w"
  shows "i < target_characters c \<Longrightarrow> hard_cut c w (length w) i None i = Some (target_characters c)"
proof (induction "target_characters c - i" arbitrary: i)
  case (Suc m)
  have i: "i < length w" "word_byte (w ! i)" using Suc.prems assms by (simp_all add: list_all_length)
  have step: "hard_cut c w (length w) i None i =
      (if target_characters c \<le> i + 1 then Some (skip_cont w (length w) (i + 1))
       else hard_cut c w (length w) (i + 1) None (Suc i))"
    using i word_byte_plain by (subst hard_cut.simps) simp
  show ?case
  proof (cases "target_characters c \<le> i + 1")
    case True
    then have t: "target_characters c = i + 1" using Suc.prems by simp
    have "skip_cont w (length w) (i + 1) = i + 1"
      using assms(1) word_byte_plain(1) by (subst skip_cont.simps) (auto simp: list_all_length)
    then show ?thesis using step t by simp
  next
    case False
    then show ?thesis using step Suc.hyps by simp
  qed
qed simp

lemma dropWhile_word: "list_all (\<lambda>c. \<not> isspace c) w \<Longrightarrow> dropWhile isspace w = w"
  by (cases w) simp_all

lemma trim_word: "list_all (\<lambda>c. \<not> isspace c) w \<Longrightarrow> trim w = w"
  using dropWhile_word [of w] dropWhile_word [of "rev w"] by (simp add: trim_eq)

lemma word_boundary:
  assumes "valid_limits c" and "list_all word_byte w"
  shows "find_boundary c False w (length w) =
    (if hard_max_characters c \<le> length w then Some (target_characters c) else None)"
proof -
  have "scan c w (length w) None 0 = scan c w (length w) None (length w)"
    by (rule scan_word) (use assms(2) in \<open>simp_all add: list_all_length\<close>)
  then have "scan c w (length w) None 0 = Inr None" by (simp add: scan.simps)
  moreover have "hard_cut c w (length w) 0 None 0 = Some (target_characters c)"
    if "hard_max_characters c \<le> length w"
    by (rule hard_cut_word) (use assms that in \<open>auto simp: valid_limits_def\<close>)
  ultimately show ?thesis
    using ascii_prefix(2) [OF word_ascii [OF assms(2)]] by (simp add: find_boundary_def Let_def)
qed

lemma extract_word:
  assumes "valid_limits c"
  shows "list_all word_byte w \<Longrightarrow> \<exists>cuts rest. segmenter_extract c False out w = (Inr (out @ cuts), rest) \<and>
    concat cuts @ rest = w \<and> list_all (\<lambda>x. length x = target_characters c) cuts \<and>
    length rest < hard_max_characters c"
proof (induction "length w" arbitrary: w out rule: less_induct)
  case less
  have limits: "0 < target_characters c" "target_characters c \<le> hard_max_characters c"
    using assms by (auto simp: valid_limits_def)
  note prefix = ascii_prefix(1) [OF word_ascii [OF less.prems]]
  have step: "segmenter_extract c False out w =
      (if w = [] then (Inr out, w)
       else case find_boundary c False w (length w) of
           None \<Rightarrow> (Inr out, w)
         | Some boundary \<Rightarrow>
             (let sentence = trim (take boundary w); rest = dropWhile isspace (drop boundary w)
              in segmenter_extract c False (if sentence = [] then out else out @ [sentence]) rest))"
    by (subst segmenter_extract.simps) (simp add: prefix)
  show ?case
  proof (cases "w \<noteq> [] \<and> hard_max_characters c \<le> length w")
    case True
    let ?t = "target_characters c" and ?rest = "drop (target_characters c) w"
    have len: "length (take ?t w) = ?t" using True limits by simp
    have words: "list_all word_byte (take ?t w)" "list_all word_byte ?rest"
      using less.prems by (auto simp: list_all_iff dest: in_set_takeD in_set_dropD)
    have "trim (take ?t w) = take ?t w"
      using words(1) by (intro trim_word) (simp add: list_all_iff word_byte_plain)
    moreover have "dropWhile isspace ?rest = ?rest"
      using words(2) by (cases ?rest) (simp_all add: word_byte_plain)
    moreover have "take ?t w \<noteq> []" using len limits by auto
    ultimately have "segmenter_extract c False out w = segmenter_extract c False (out @ [take ?t w]) ?rest"
      using True step by (simp add: word_boundary [OF assms less.prems])
    moreover have "length ?rest < length w" using True limits by simp
    then obtain cuts rest where *: "segmenter_extract c False (out @ [take ?t w]) ?rest = (Inr ((out @ [take ?t w]) @ cuts), rest)"
      "concat cuts @ rest = ?rest" "list_all (\<lambda>x. length x = ?t) cuts" "length rest < hard_max_characters c"
      using less.hyps [OF _ words(2)] by blast
    ultimately show ?thesis
      using len by (intro exI [of _ "take ?t w # cuts"] exI [of _ rest]) simp
  next
    case False
    then have "segmenter_extract c False out w = (Inr out, w)" "length w < hard_max_characters c"
      using step limits by (auto simp: word_boundary [OF assms less.prems])
    then show ?thesis by (intro exI [of _ "[]"] exI [of _ w]) simp
  qed
qed

lemma extract_marked_word:
  assumes "list_all word_byte w" and "min_characters c \<le> length w + 1"
  shows "segmenter_extract c False [] (w @ ''!'') = (Inr [w @ ''!''], [])"
proof -
  let ?buf = "w @ ''!''"
  have ascii: "list_all (\<lambda>c. \<not> is_cont c \<and> lead_width c = 1) ?buf"
    using word_ascii [OF assms(1)] by (simp add: is_cont_iff ascii_width byte_def)
  have "scan c ?buf (length ?buf) None 0 = scan c ?buf (length ?buf) None (length w)"
    by (rule scan_word) (use assms(1) in \<open>simp_all add: list_all_length nth_append\<close>)
  also have "\<dots> = Inl (length ?buf)"
    using assms(2) ascii_prefix(2) [OF ascii] by (subst scan.simps) (simp add: punctuation_at_def)
  finally have "find_boundary c False ?buf (length ?buf) = Some (length ?buf)"
    by (simp add: find_boundary_def)
  moreover have "trim ?buf = ?buf"
  proof (rule trim_word)
    have "\<not> isspace (CHR ''!'')" by code_simp
    then show "list_all (\<lambda>c. \<not> isspace c) ?buf" using assms(1) by (simp add: list_all_iff word_byte_plain)
  qed
  ultimately show ?thesis
    by (subst segmenter_extract.simps) (simp add: ascii_prefix(1) [OF ascii] segmenter_extract.simps)
qed

text \<open>
  C39: \<open>hard_max_characters\<close> bounds what stays buffered, not the size of a sentence. Under all valid
  limits, a delta of a word without white space and marks, of any length, is cut into pieces of
  \<open>target_characters\<close> with less than the hard limit left buffered; but the same word with an
  exclamation mark behind it comes out as one sentence, however much longer than the hard limit it is,
  since a strong mark anywhere in the buffer wins over the limit.
\<close>

theorem segmenter_hard_max_exceeded:
  assumes "valid_limits c" and "list_all word_byte w"
  shows "(\<exists>cuts rest. segmenter_push \<lparr>seg_config = c, seg_buffer = []\<rparr> w =
        (Inr cuts, \<lparr>seg_config = c, seg_buffer = rest\<rparr>) \<and>
      concat cuts @ rest = w \<and> list_all (\<lambda>x. length x = target_characters c) cuts \<and>
      length rest < hard_max_characters c) \<and>
    (min_characters c \<le> length w + 1 \<longrightarrow>
      segmenter_push \<lparr>seg_config = c, seg_buffer = []\<rparr> (w @ ''!'') =
        (Inr [w @ ''!''], \<lparr>seg_config = c, seg_buffer = []\<rparr>))"
proof -
  obtain cuts rest where "segmenter_extract c False [] w = (Inr ([] @ cuts), rest)"
    "concat cuts @ rest = w" "list_all (\<lambda>x. length x = target_characters c) cuts"
    "length rest < hard_max_characters c"
    using extract_word [OF assms] by blast
  then show ?thesis using extract_marked_word [OF assms(2)] by (simp add: segmenter_push_def)
qed

theorem segmenter_hard_max_exceeded_witness:
  "segmenter_push \<lparr>seg_config = \<lparr>min_characters = 1, target_characters = 2, hard_max_characters = 3\<rparr>, seg_buffer = []\<rparr>
     ''abcdefgh!'' =
   (Inr [''abcdefgh!''],
    \<lparr>seg_config = \<lparr>min_characters = 1, target_characters = 2, hard_max_characters = 3\<rparr>, seg_buffer = []\<rparr>)"
proof -
  have "list_all word_byte ''abcdefgh''" by code_simp
  then show ?thesis
    using segmenter_hard_max_exceeded
      [of "\<lparr>min_characters = 1, target_characters = 2, hard_max_characters = 3\<rparr>" "''abcdefgh''"]
    by (simp add: valid_limits_def)
qed

end
