(* ===== verification/Event_Bus.thy ===== *)
theory Event_Bus
  imports Byteturn_Types
begin

text \<open>
  \<open>EventBus\<close> (\<open>event.h\<close>, \<open>event.cpp\<close>): subscription, removal and synchronous delivery of events
  by any number of threads. A handler is its \<open>HandlerEntry\<close>, an index into the list of entries
  ever allocated; the thread-local chain of \<open>ActiveHandler\<close> frames is part of each thread's
  stack. Every section under one mutex is one step. The lemmas show that the call counter of
  an entry is the number of frames executing it, and that a removal which has returned has
  quiesced the handler for good.
\<close>

named_theorems bus_defs \<open>operations of the event bus\<close>

section \<open>State\<close>

record HandlerEntry =
  he_active_calls :: nat
  he_enabled :: bool

text \<open>
  One activation on a thread's stack: an event whose sequence \<open>publish\<close> has assigned and which
  \<open>deliver\<close> has not yet taken up, or a running \<open>deliver\<close> with the snapshot entries it still has
  to visit, the entry whose handler it is calling, and its failure count.
\<close>

datatype Frame =
    Assigned Event
  | Delivering Event "nat list" "nat option" nat

text \<open>Where a thread is inside \<open>unsubscribe\<close>: not in it, past the map, or waiting.\<close>

datatype Removal = NotRemoving | Erased nat | Waiting nat

record EventBus =
  eb_handlers :: "(u64, nat) umap"
  eb_next_subscription :: u64
  eb_next_sequence :: u64
  eb_entries :: "HandlerEntry list"
  eb_threads :: "Frame list list"
  eb_removing :: "Removal list"

datatype bus_error = HandlerRequired

definition bus_new :: "nat \<Rightarrow> EventBus" where
  "bus_new threads =
     \<lparr>eb_handlers = [], eb_next_subscription = 1, eb_next_sequence = 1, eb_entries = [],
      eb_threads = replicate threads [], eb_removing = replicate threads NotRemoving\<rparr>"

fun frame_entry :: "Frame \<Rightarrow> nat option" where
  "frame_entry (Assigned e) = None"
| "frame_entry (Delivering e rest cur failures) = cur"

text \<open>\<open>calls_on_this_thread\<close>: the frames of the thread's chain that belong to the entry.\<close>

definition calls_on_stack :: "nat \<Rightarrow> Frame list \<Rightarrow> nat" where
  "calls_on_stack r stack = length (filter (\<lambda>f. frame_entry f = Some r) stack)"

definition calls_on_this_thread :: "nat \<Rightarrow> nat \<Rightarrow> EventBus \<Rightarrow> nat" where
  "calls_on_this_thread t r s = calls_on_stack r (eb_threads s ! t)"

definition in_callback :: "nat \<Rightarrow> EventBus \<Rightarrow> bool" where
  "in_callback t s \<longleftrightarrow> list_ex (\<lambda>f. frame_entry f \<noteq> None) (eb_threads s ! t)"

section \<open>Operations\<close>

definition bus_subscribe :: "bool \<Rightarrow> EventBus \<Rightarrow> bus_error + (u64 \<times> EventBus)" where
  "bus_subscribe handler_given s =
     (if \<not> handler_given then Inl HandlerRequired
      else let id = eb_next_subscription s
        in Inr (id, s\<lparr>eb_next_subscription := id + 1,
             eb_handlers := umap_emplace id (length (eb_entries s)) (eb_handlers s),
             eb_entries := eb_entries s @ [\<lparr>he_active_calls = 0, he_enabled = True\<rparr>]\<rparr>))"

text \<open>The two locked sections of \<open>unsubscribe\<close>, and the condition its wait returns on.\<close>

definition bus_unsubscribe_erase :: "nat \<Rightarrow> u64 \<Rightarrow> EventBus \<Rightarrow> EventBus" where
  "bus_unsubscribe_erase t subscription s =
     (case map_of (eb_handlers s) subscription of
        None \<Rightarrow> s
      | Some r \<Rightarrow> s\<lparr>eb_handlers := umap_erase subscription (eb_handlers s),
          eb_removing := (eb_removing s)[t := Erased r]\<rparr>)"

definition bus_unsubscribe_disable :: "nat \<Rightarrow> nat \<Rightarrow> EventBus \<Rightarrow> EventBus" where
  "bus_unsubscribe_disable t r s =
     s\<lparr>eb_entries := (eb_entries s)[r := (eb_entries s ! r)\<lparr>he_enabled := False\<rparr>],
       eb_removing := (eb_removing s)[t := Waiting r]\<rparr>"

definition bus_unsubscribe_ready :: "nat \<Rightarrow> nat \<Rightarrow> EventBus \<Rightarrow> bool" where
  "bus_unsubscribe_ready t r s \<longleftrightarrow>
     he_active_calls (eb_entries s ! r) \<le> calls_on_this_thread t r s"

definition bus_unsubscribe_return :: "nat \<Rightarrow> EventBus \<Rightarrow> EventBus" where
  "bus_unsubscribe_return t s = s\<lparr>eb_removing := (eb_removing s)[t := NotRemoving]\<rparr>"

text \<open>The locked section of \<open>publish\<close>: sequence, receive time, source time and trace.\<close>

definition bus_normalize :: "time_point \<Rightarrow> Event \<Rightarrow> EventBus \<Rightarrow> Event \<times> EventBus" where
  "bus_normalize now e s =
     (let e = e\<lparr>ev_sequence := eb_next_sequence s\<rparr>;
          e = (if ev_received_at e = 0 then e\<lparr>ev_received_at := now\<rparr> else e);
          e = (if ev_timestamp e = 0 then e\<lparr>ev_timestamp := ev_received_at e\<rparr> else e)
      in (derive_trace e, s\<lparr>eb_next_sequence := eb_next_sequence s + 1\<rparr>))"

definition set_stack :: "nat \<Rightarrow> Frame list \<Rightarrow> EventBus \<Rightarrow> EventBus" where
  "set_stack t stack s = s\<lparr>eb_threads := (eb_threads s)[t := stack]\<rparr>"

definition bus_publish :: "nat \<Rightarrow> time_point \<Rightarrow> Event \<Rightarrow> EventBus \<Rightarrow> EventBus" where
  "bus_publish t now e s =
     (case bus_normalize now e s of (e', s') \<Rightarrow> set_stack t (Assigned e' # eb_threads s ! t) s')"

text \<open>
  \<open>deliver\<close>: the snapshot of the handler map, the locked entry check before each call, and the
  bookkeeping after it; \<open>threw\<close> says whether the handler threw.
\<close>

definition bus_deliver_begin :: "nat \<Rightarrow> Event \<Rightarrow> Frame list \<Rightarrow> EventBus \<Rightarrow> EventBus" where
  "bus_deliver_begin t e below s =
     set_stack t (Delivering e (map snd (eb_handlers s)) None 0 # below) s"

definition bus_enter :: "nat \<Rightarrow> Event \<Rightarrow> nat \<Rightarrow> nat list \<Rightarrow> nat \<Rightarrow> Frame list \<Rightarrow> EventBus \<Rightarrow> EventBus" where
  "bus_enter t e r rest failures below s =
     (if \<not> he_enabled (eb_entries s ! r)
      then set_stack t (Delivering e rest None failures # below) s
      else set_stack t (Delivering e rest (Some r) failures # below)
        (s\<lparr>eb_entries := (eb_entries s)[r := (eb_entries s ! r)
            \<lparr>he_active_calls := he_active_calls (eb_entries s ! r) + 1\<rparr>]\<rparr>))"

definition bus_leave ::
  "nat \<Rightarrow> bool \<Rightarrow> Event \<Rightarrow> nat \<Rightarrow> nat list \<Rightarrow> nat \<Rightarrow> Frame list \<Rightarrow> EventBus \<Rightarrow> EventBus" where
  "bus_leave t threw e r rest failures below s =
     set_stack t (Delivering e rest None (if threw then failures + 1 else failures) # below)
       (s\<lparr>eb_entries := (eb_entries s)[r := (eb_entries s ! r)
           \<lparr>he_active_calls := he_active_calls (eb_entries s ! r) - 1\<rparr>]\<rparr>)"

text \<open>The value \<open>deliver\<close> returns when its snapshot is done.\<close>

definition bus_deliver_result :: "Frame \<Rightarrow> nat option" where
  "bus_deliver_result f =
     (case f of Delivering e [] None failures \<Rightarrow> Some failures | _ \<Rightarrow> None)"

lemmas [bus_defs] = bus_subscribe_def bus_unsubscribe_erase_def bus_unsubscribe_disable_def
  bus_unsubscribe_return_def bus_normalize_def set_stack_def bus_publish_def
  bus_deliver_begin_def bus_enter_def bus_leave_def

section \<open>Steps\<close>

text \<open>
  A thread runs unless it waits in \<open>unsubscribe\<close>. It may call the bus from its own code, that
  is with no activation on its stack or from inside a handler; otherwise the frame on top of
  its stack says how its own delivery goes on.
\<close>

abbreviation running :: "nat \<Rightarrow> EventBus \<Rightarrow> bool" where
  "running t s \<equiv> t < length (eb_threads s) \<and> eb_removing s ! t = NotRemoving"

definition in_client :: "nat \<Rightarrow> EventBus \<Rightarrow> bool" where
  "in_client t s \<longleftrightarrow>
     (case eb_threads s ! t of [] \<Rightarrow> True | f # below \<Rightarrow> frame_entry f \<noteq> None)"

inductive bus_step :: "EventBus \<Rightarrow> EventBus \<Rightarrow> bool" where
  subscribe: "running t s \<Longrightarrow> in_client t s \<Longrightarrow> bus_subscribe True s = Inr (sub, s') \<Longrightarrow>
    bus_step s s'"
| unsubscribe_erase: "running t s \<Longrightarrow> in_client t s \<Longrightarrow> bus_step s (bus_unsubscribe_erase t sub s)"
| unsubscribe_disable: "t < length (eb_threads s) \<Longrightarrow> eb_removing s ! t = Erased r \<Longrightarrow>
    bus_step s (bus_unsubscribe_disable t r s)"
| unsubscribe_return: "t < length (eb_threads s) \<Longrightarrow> eb_removing s ! t = Waiting r \<Longrightarrow>
    bus_unsubscribe_ready t r s \<Longrightarrow> bus_step s (bus_unsubscribe_return t s)"
| publish: "running t s \<Longrightarrow> in_client t s \<Longrightarrow> bus_step s (bus_publish t now e s)"
| deliver_published: "running t s \<Longrightarrow> eb_threads s ! t = Assigned e # below \<Longrightarrow>
    bus_step s (bus_deliver_begin t e below s)"
| deliver_direct: "running t s \<Longrightarrow> in_client t s \<Longrightarrow> eb_threads s ! t = below \<Longrightarrow>
    bus_step s (bus_deliver_begin t e below s)"
| enter: "running t s \<Longrightarrow> eb_threads s ! t = Delivering e (r # rest) None failures # below \<Longrightarrow>
    bus_step s (bus_enter t e r rest failures below s)"
| leave: "running t s \<Longrightarrow> eb_threads s ! t = Delivering e rest (Some r) failures # below \<Longrightarrow>
    bus_step s (bus_leave t threw e r rest failures below s)"
| deliver_end: "running t s \<Longrightarrow> eb_threads s ! t = f # below \<Longrightarrow>
    bus_deliver_result f = Some failures \<Longrightarrow> bus_step s (set_stack t below s)"

inductive_cases bus_stepE: "bus_step s s'"

section \<open>Invariant\<close>

text \<open>The number of frames, over all threads, that are executing an entry.\<close>

definition executing :: "nat \<Rightarrow> EventBus \<Rightarrow> nat" where
  "executing r s = sum_list (map (calls_on_stack r) (eb_threads s))"

fun frame_refs :: "Frame \<Rightarrow> nat list" where
  "frame_refs (Assigned e) = []"
| "frame_refs (Delivering e rest cur failures) = rest @ (case cur of None \<Rightarrow> [] | Some r \<Rightarrow> [r])"

fun removal_ref :: "Removal \<Rightarrow> nat option" where
  "removal_ref NotRemoving = None"
| "removal_ref (Erased r) = Some r"
| "removal_ref (Waiting r) = Some r"

definition refs_valid :: "EventBus \<Rightarrow> bool" where
  "refs_valid s \<longleftrightarrow> (let n = length (eb_entries s) in
     (\<forall>p\<in>set (eb_handlers s). snd p < n) \<and>
     (\<forall>stack\<in>set (eb_threads s). \<forall>f\<in>set stack. \<forall>r\<in>set (frame_refs f). r < n) \<and>
     (\<forall>w\<in>set (eb_removing s). \<forall>r. removal_ref w = Some r \<longrightarrow> r < n))"

definition bus_inv :: "EventBus \<Rightarrow> bool" where
  "bus_inv s \<longleftrightarrow>
     length (eb_removing s) = length (eb_threads s) \<and> refs_valid s \<and>
     (\<forall>r < length (eb_entries s). he_active_calls (eb_entries s ! r) = executing r s) \<and>
     (\<forall>r. Waiting r \<in> set (eb_removing s) \<longrightarrow> \<not> he_enabled (eb_entries s ! r))"

lemma calls_on_stack_simps [simp]:
  "calls_on_stack r [] = 0"
  "calls_on_stack r (f # fs) = (if frame_entry f = Some r then 1 else 0) + calls_on_stack r fs"
  by (simp_all add: calls_on_stack_def)

lemma executing_update:
  assumes "t < length (eb_threads s)"
  shows "executing r (set_stack t stack s) + calls_on_stack r (eb_threads s ! t)
    = executing r s + calls_on_stack r stack"
proof -
  let ?xs = "map (calls_on_stack r) (eb_threads s)"
  have "?xs ! t \<le> sum_list ?xs" using assms by (intro elem_le_sum_list) simp
  moreover have "sum_list (?xs[t := calls_on_stack r stack])
      = sum_list ?xs + calls_on_stack r stack - ?xs ! t"
    using assms by (simp add: sum_list_update)
  ultimately show ?thesis
    using assms by (simp add: executing_def set_stack_def map_update)
qed

lemma executing_simps [simp]:
  "executing r (s\<lparr>eb_handlers := h\<rparr>) = executing r s"
  "executing r (s\<lparr>eb_entries := es\<rparr>) = executing r s"
  "executing r (s\<lparr>eb_removing := w\<rparr>) = executing r s"
  "executing r (s\<lparr>eb_next_sequence := q\<rparr>) = executing r s"
  "executing r (s\<lparr>eb_next_subscription := q\<rparr>) = executing r s"
  by (simp_all add: executing_def)

lemma executing_on_thread:
  "t < length (eb_threads s) \<Longrightarrow> calls_on_stack r (eb_threads s ! t) \<le> executing r s"
  using elem_le_sum_list [of t "map (calls_on_stack r) (eb_threads s)"] by (simp add: executing_def)

lemma executing_out_of_range:
  "refs_valid s \<Longrightarrow> length (eb_entries s) \<le> r \<Longrightarrow> executing r s = 0"
  unfolding executing_def refs_valid_def calls_on_stack_def Let_def
  by (fastforce simp: sum_list_eq_0_iff filter_empty_conv elim!: frame_entry.elims)

lemma refs_valid_stack:
  assumes "refs_valid s" and "\<forall>f\<in>set stack. \<forall>r\<in>set (frame_refs f). r < length (eb_entries s)"
  shows "refs_valid (set_stack t stack s)"
  using assms unfolding refs_valid_def set_stack_def Let_def
  by (auto dest!: set_update_subset_insert [THEN subsetD])

lemma refs_valid_entries:
  "refs_valid s \<Longrightarrow> length es = length (eb_entries s) \<Longrightarrow> refs_valid (s\<lparr>eb_entries := es\<rparr>)"
  by (simp add: refs_valid_def)

lemma refs_valid_stackD:
  "refs_valid s \<Longrightarrow> t < length (eb_threads s) \<Longrightarrow> f \<in> set (eb_threads s ! t) \<Longrightarrow> r \<in> set (frame_refs f)
     \<Longrightarrow> r < length (eb_entries s)"
  unfolding refs_valid_def Let_def by (metis nth_mem)

lemma bus_inv_init: "bus_inv (bus_new n)"
  by (auto simp: bus_inv_def bus_new_def refs_valid_def)

lemma bus_inv_stack:
  assumes "bus_inv s" and "t < length (eb_threads s)"
    and "\<forall>f\<in>set stack. \<forall>r\<in>set (frame_refs f). r < length (eb_entries s)"
    and "\<And>r. calls_on_stack r stack = calls_on_stack r (eb_threads s ! t)"
  shows "bus_inv (set_stack t stack s)"
proof -
  have "executing r (set_stack t stack s) = executing r s" for r
    using executing_update [OF assms(2), of r stack] assms(4) by simp
  with assms show ?thesis
    by (auto simp: bus_inv_def set_stack_def intro!: refs_valid_stack [unfolded set_stack_def])
qed


lemma bus_inv_subscribe:
  assumes "bus_inv s" and "bus_subscribe True s = Inr (sub, s')"
  shows "bus_inv s'"
proof -
  from assms(2) have s': "s' = s\<lparr>eb_next_subscription := eb_next_subscription s + 1,
      eb_handlers := umap_emplace (eb_next_subscription s) (length (eb_entries s)) (eb_handlers s),
      eb_entries := eb_entries s @ [\<lparr>he_active_calls = 0, he_enabled = True\<rparr>]\<rparr>"
    by (auto simp: bus_subscribe_def Let_def)
  from assms(1) have v: "refs_valid s" and w: "length (eb_removing s) = length (eb_threads s)"
    and act: "\<And>r. r < length (eb_entries s) \<Longrightarrow> he_active_calls (eb_entries s ! r) = executing r s"
    and dis: "\<And>r. Waiting r \<in> set (eb_removing s) \<Longrightarrow> \<not> he_enabled (eb_entries s ! r)"
    by (auto simp: bus_inv_def)
  have "refs_valid s'"
    using v unfolding s' refs_valid_def Let_def
    by (simp add: umap_emplace_def) (meson less_SucI)
  moreover have "he_active_calls (eb_entries s' ! r) = executing r s'" if "r < length (eb_entries s')" for r
    using that act executing_out_of_range [OF v, of r]
    by (auto simp: s' executing_def nth_append less_Suc_eq)
  moreover have "\<not> he_enabled (eb_entries s' ! r)" if "Waiting r \<in> set (eb_removing s')" for r
    using that dis v unfolding s' refs_valid_def Let_def by (fastforce simp: nth_append)
  ultimately show ?thesis using w by (simp add: bus_inv_def s')
qed

lemma bus_inv_erase: "bus_inv s \<Longrightarrow> bus_inv (bus_unsubscribe_erase t sub s)"
  unfolding bus_inv_def bus_unsubscribe_erase_def refs_valid_def Let_def umap_erase_def
  by (auto split: option.splits dest!: map_of_SomeD set_update_subset_insert [THEN subsetD])

lemma bus_inv_disable:
  assumes "bus_inv s" and "t < length (eb_threads s)" and "eb_removing s ! t = Erased r"
  shows "bus_inv (bus_unsubscribe_disable t r s)"
proof -
  from assms have "r < length (eb_entries s)"
    unfolding bus_inv_def refs_valid_def Let_def by (metis nth_mem removal_ref.simps(2))
  with assms show ?thesis
    unfolding bus_inv_def bus_unsubscribe_disable_def refs_valid_def Let_def
    by (auto simp: nth_list_update dest!: set_update_subset_insert [THEN subsetD])
qed

lemma bus_inv_return: "bus_inv s \<Longrightarrow> bus_inv (bus_unsubscribe_return t s)"
  unfolding bus_inv_def bus_unsubscribe_return_def refs_valid_def Let_def
  by (auto dest!: set_update_subset_insert [THEN subsetD])

lemma bus_publish_eq:
  "bus_publish t now e s = set_stack t
     (Assigned (fst (bus_normalize now e s)) # eb_threads s ! t)
     (s\<lparr>eb_next_sequence := eb_next_sequence s + 1\<rparr>)"
  by (simp add: bus_publish_def bus_normalize_def Let_def)

lemma bus_inv_publish:
  assumes "bus_inv s" and "t < length (eb_threads s)"
  shows "bus_inv (bus_publish t now e s)"
proof -
  let ?q = "s\<lparr>eb_next_sequence := eb_next_sequence s + 1\<rparr>"
  have v: "refs_valid s" and q: "bus_inv ?q"
    using assms(1) by (simp_all add: bus_inv_def refs_valid_def)
  have "\<forall>f\<in>set (eb_threads s ! t). \<forall>r\<in>set (frame_refs f). r < length (eb_entries s)"
    using refs_valid_stackD [OF v assms(2)] by blast
  with q assms(2) show ?thesis unfolding bus_publish_eq by (intro bus_inv_stack) simp_all
qed

lemma bus_inv_begin:
  assumes "bus_inv s" and "t < length (eb_threads s)"
    and "eb_threads s ! t = below \<or> eb_threads s ! t = Assigned e # below"
  shows "bus_inv (bus_deliver_begin t e below s)"
proof -
  have v: "refs_valid s" using assms(1) by (simp add: bus_inv_def)
  from assms(3) have "set below \<subseteq> set (eb_threads s ! t)" by auto
  with v assms(2) have "\<forall>f\<in>set below. \<forall>r\<in>set (frame_refs f). r < length (eb_entries s)"
    by (blast dest: refs_valid_stackD)
  moreover have "\<forall>r\<in>snd ` set (eb_handlers s). r < length (eb_entries s)"
    using v by (auto simp: refs_valid_def Let_def)
  ultimately show ?thesis
    unfolding bus_deliver_begin_def using assms by (intro bus_inv_stack) auto
qed

lemma bus_inv_count:
  assumes "bus_inv s" and "t < length (eb_threads s)" and "r < length (eb_entries s)"
    and "\<forall>f\<in>set stack. \<forall>r\<in>set (frame_refs f). r < length (eb_entries s)"
    and "\<And>q. calls_on_stack q stack + (if q = r then m else 0) = calls_on_stack q (eb_threads s ! t) + (if q = r then n else 0)"
    and "e = (eb_entries s ! r)\<lparr>he_active_calls := k\<rparr>" and "k + m = he_active_calls (eb_entries s ! r) + n"
  shows "bus_inv (set_stack t stack (s\<lparr>eb_entries := (eb_entries s)[r := e]\<rparr>))"
proof -
  let ?s = "s\<lparr>eb_entries := (eb_entries s)[r := e]\<rparr>"
  have ex: "executing q (set_stack t stack ?s) + (if q = r then m else 0) = executing q s + (if q = r then n else 0)" for q
    using executing_update [of t ?s q stack] assms(2) assms(5) [of q] by auto
  have "refs_valid (set_stack t stack ?s)"
    using assms by (intro refs_valid_stack refs_valid_entries) (auto simp: bus_inv_def)
  moreover have "he_active_calls (eb_entries ?s ! q) = executing q (set_stack t stack ?s)"
    if "q < length (eb_entries s)" for q
    using that ex [of q] assms by (auto simp: bus_inv_def nth_list_update)
  moreover have "\<not> he_enabled (eb_entries ?s ! q)" if "Waiting q \<in> set (eb_removing s)" for q
    using that assms by (auto simp: bus_inv_def nth_list_update)
  ultimately show ?thesis using assms(1) by (simp add: bus_inv_def set_stack_def)
qed

lemma bus_inv_enter:
  assumes "bus_inv s" and "t < length (eb_threads s)"
    and "eb_threads s ! t = Delivering e (r # rest) None failures # below"
  shows "bus_inv (bus_enter t e r rest failures below s)"
proof -
  have v: "\<forall>f\<in>set (eb_threads s ! t). \<forall>r\<in>set (frame_refs f). r < length (eb_entries s)"
    using assms by (auto simp: bus_inv_def dest: refs_valid_stackD)
  show ?thesis
  proof (cases "he_enabled (eb_entries s ! r)")
    case True
    with assms v show ?thesis
      by (simp add: bus_enter_def) (rule bus_inv_count [where m = 0 and n = 1], auto)
  next
    case False
    with assms v show ?thesis
      by (simp add: bus_enter_def) (rule bus_inv_stack, auto)
  qed
qed

lemma bus_inv_leave:
  assumes "bus_inv s" and "t < length (eb_threads s)"
    and "eb_threads s ! t = Delivering e rest (Some r) failures # below"
  shows "bus_inv (bus_leave t threw e r rest failures below s)"
proof -
  have v: "\<forall>f\<in>set (eb_threads s ! t). \<forall>r\<in>set (frame_refs f). r < length (eb_entries s)"
    using assms by (auto simp: bus_inv_def dest: refs_valid_stackD)
  then have r: "r < length (eb_entries s)" using assms(3) by simp
  have "0 < executing r s" using executing_on_thread [OF assms(2), of r] assms(3) by simp
  with r assms(1) have "0 < he_active_calls (eb_entries s ! r)" by (simp add: bus_inv_def)
  with assms v r show ?thesis
    unfolding bus_leave_def by (intro bus_inv_count [where m = 1 and n = 0]) auto
qed

lemma bus_inv_end:
  assumes "bus_inv s" and "t < length (eb_threads s)" and "eb_threads s ! t = f # below"
    and "bus_deliver_result f = Some n"
  shows "bus_inv (set_stack t below s)"
proof -
  have "frame_entry f = None"
    using assms(4) by (auto simp: bus_deliver_result_def split: Frame.splits list.splits option.splits)
  moreover have "\<forall>f\<in>set below. \<forall>r\<in>set (frame_refs f). r < length (eb_entries s)"
    using assms by (auto simp: bus_inv_def dest!: refs_valid_stackD)
  ultimately show ?thesis using assms by (intro bus_inv_stack) auto
qed

lemma bus_step_inv: "bus_inv s \<Longrightarrow> bus_step s s' \<Longrightarrow> bus_inv s'"
  by (erule bus_stepE)
    (simp_all add: bus_inv_erase bus_inv_disable bus_inv_return bus_inv_publish bus_inv_begin
      bus_inv_enter bus_inv_leave bus_inv_end bus_inv_subscribe)

abbreviation bus_init :: "EventBus \<Rightarrow> bool" where
  "bus_init s \<equiv> \<exists>n. s = bus_new n"

interpretation bus: invariant_system bus_init bus_step bus_inv
proof
  show "bus_inv s" if "bus_init s" for s using that bus_inv_init by blast
  show "bus_inv s'" if "bus_inv s" "bus_step s s'" for s s' using that by (rule bus_step_inv)
qed

section \<open>Removal\<close>

definition bus_disabled :: "nat \<Rightarrow> EventBus \<Rightarrow> bool" where
  "bus_disabled r s \<longleftrightarrow> r < length (eb_entries s) \<and> \<not> he_enabled (eb_entries s ! r)"

lemma calls_set_stack [simp]:
  "t < length (eb_threads s) \<Longrightarrow> calls_on_this_thread u r (set_stack t stack s)
     = (if u = t then calls_on_stack r stack else calls_on_this_thread u r s)"
  by (simp add: calls_on_this_thread_def set_stack_def nth_list_update)

lemma calls_simps [simp]:
  "calls_on_this_thread u r (s\<lparr>eb_handlers := h\<rparr>) = calls_on_this_thread u r s"
  "calls_on_this_thread u r (s\<lparr>eb_entries := es\<rparr>) = calls_on_this_thread u r s"
  "calls_on_this_thread u r (s\<lparr>eb_removing := w\<rparr>) = calls_on_this_thread u r s"
  "calls_on_this_thread u r (s\<lparr>eb_next_sequence := q\<rparr>) = calls_on_this_thread u r s"
  "calls_on_this_thread u r (s\<lparr>eb_next_subscription := q\<rparr>) = calls_on_this_thread u r s"
  by (simp_all add: calls_on_this_thread_def)

lemma disabled_set_stack [simp]: "bus_disabled r (set_stack t stack s) = bus_disabled r s"
  by (simp add: bus_disabled_def set_stack_def)

text \<open>A disabled entry stays disabled, and no thread starts another call of it.\<close>

lemma bus_disabled_step:
  assumes "bus_disabled r s" and "bus_step s s'"
  shows "bus_disabled r s' \<and> calls_on_this_thread u r s' \<le> calls_on_this_thread u r s"
  using assms(2,1)
proof (cases rule: bus_step.cases)
  case (subscribe t sub)
  with assms(1) show ?thesis
    by (auto simp: bus_subscribe_def Let_def bus_disabled_def nth_append)
next
  case (unsubscribe_erase t sub)
  with assms(1) show ?thesis
    by (auto simp: bus_unsubscribe_erase_def bus_disabled_def split: option.splits)
next
  case (unsubscribe_disable t q)
  with assms(1) show ?thesis
    by (cases "q = r") (simp_all add: bus_unsubscribe_disable_def bus_disabled_def)
next
  case (unsubscribe_return t q)
  with assms(1) show ?thesis by (simp add: bus_unsubscribe_return_def bus_disabled_def)
next
  case (publish t now e)
  with assms(1) show ?thesis
    by (simp add: bus_publish_eq) (simp add: bus_disabled_def calls_on_this_thread_def)
next
  case (deliver_published t e below)
  with assms(1) show ?thesis
    by (simp add: bus_deliver_begin_def) (simp add: calls_on_this_thread_def)
next
  case (deliver_direct t below e)
  with assms(1) show ?thesis
    by (simp add: bus_deliver_begin_def) (simp add: calls_on_this_thread_def)
next
  case (enter t e q rest failures below)
  with assms(1) show ?thesis
    by (cases "q = r"; cases "u = t")
      (simp_all add: bus_enter_def bus_disabled_def calls_on_this_thread_def set_stack_def)
next
  case (leave t e rest q failures below threw)
  with assms(1) show ?thesis
    by (cases "q = r"; cases "u = t")
      (simp_all add: bus_leave_def bus_disabled_def calls_on_this_thread_def set_stack_def)
next
  case (deliver_end t f below failures)
  with assms(1) show ?thesis by simp (simp add: calls_on_this_thread_def)
qed

lemma bus_disabled_steps:
  assumes "steps bus_step s s'" and "bus_disabled r s"
  shows "bus_disabled r s' \<and> calls_on_this_thread u r s' \<le> calls_on_this_thread u r s"
  using assms
proof (induction rule: steps.induct)
  case (steps_step s t v)
  then have "bus_disabled r t" and le: "calls_on_this_thread u r t \<le> calls_on_this_thread u r s"
    by simp_all
  from bus_disabled_step [OF this(1) steps_step.hyps(2), of u] le show ?case
    by (blast intro: order_trans)
qed simp

lemma executing_le_thread_iff:
  assumes "t < length (eb_threads s)"
  shows "executing r s \<le> calls_on_this_thread t r s \<longleftrightarrow>
    (\<forall>u < length (eb_threads s). u \<noteq> t \<longrightarrow> calls_on_this_thread u r s = 0)"
proof -
  have "executing r s = (\<Sum>u<length (eb_threads s). calls_on_this_thread u r s)"
    by (simp add: executing_def calls_on_this_thread_def sum_list_sum_nth atLeast0LessThan)
  also have "\<dots> = calls_on_this_thread t r s
      + (\<Sum>u\<in>{..<length (eb_threads s)} - {t}. calls_on_this_thread u r s)"
    using assms by (intro sum.remove) auto
  finally show ?thesis by auto
qed

lemma waiting_disabled:
  assumes "bus_inv s" and "t < length (eb_threads s)" and "eb_removing s ! t = Waiting r"
  shows "bus_disabled r s"
proof -
  from assms have w: "Waiting r \<in> set (eb_removing s)"
    unfolding bus_inv_def by (metis nth_mem)
  with assms(1) have "r < length (eb_entries s)"
    unfolding bus_inv_def refs_valid_def Let_def by (metis removal_ref.simps(3))
  with assms(1) w show ?thesis by (simp add: bus_inv_def bus_disabled_def)
qed

lemma ready_iff_quiet:
  assumes "bus_inv s" and "t < length (eb_threads s)" and "eb_removing s ! t = Waiting r"
  shows "bus_unsubscribe_ready t r s \<longleftrightarrow>
    (\<forall>u < length (eb_threads s). u \<noteq> t \<longrightarrow> calls_on_this_thread u r s = 0)"
proof -
  have "r < length (eb_entries s)" using waiting_disabled [OF assms] by (simp add: bus_disabled_def)
  with assms(1) have "he_active_calls (eb_entries s ! r) = executing r s" by (simp add: bus_inv_def)
  then show ?thesis by (simp add: bus_unsubscribe_ready_def executing_le_thread_iff [OF assms(2)])
qed

section \<open>Properties\<close>

text \<open>
  In every state the bus can reach, a thread that waits in \<open>unsubscribe\<close> may return exactly
  when no other thread executes the removed handler. Calls on the waiting thread's own stack
  never keep it waiting, however deeply the handler is nested there.
\<close>

theorem bus_unsubscribe_waits_for_others:
  assumes "reachable bus_init bus_step s" and "t < length (eb_threads s)"
    and "eb_removing s ! t = Waiting r"
  shows "bus_unsubscribe_ready t r s \<longleftrightarrow>
    (\<forall>u < length (eb_threads s). u \<noteq> t \<longrightarrow> calls_on_this_thread u r s = 0)"
  using assms by (intro ready_iff_quiet bus.reachable_inv)

text \<open>
  C17: once \<open>unsubscribe\<close> has returned, no other thread is inside the removed handler in any later
  state, whatever the threads do, and the caller's own thread never gains a call of it: a
  snapshot taken before the removal does not bring the handler back.
\<close>

theorem bus_unsubscribe_quiesces:
  assumes "reachable bus_init bus_step s" and "t < length (eb_threads s)"
    and "eb_removing s ! t = Waiting r" and "bus_unsubscribe_ready t r s"
    and "steps bus_step (bus_unsubscribe_return t s) s'" and "u < length (eb_threads s)"
  shows "calls_on_this_thread u r s' \<le> (if u = t then calls_on_this_thread t r s else 0)"
proof -
  let ?s = "bus_unsubscribe_return t s"
  have inv: "bus_inv s" using assms(1) by (rule bus.reachable_inv)
  have "bus_disabled r ?s"
    using waiting_disabled [OF inv assms(2,3)]
    by (simp add: bus_disabled_def bus_unsubscribe_return_def)
  from bus_disabled_steps [OF assms(5) this, of u]
  have "calls_on_this_thread u r s' \<le> calls_on_this_thread u r s"
    by (simp add: bus_unsubscribe_return_def)
  with ready_iff_quiet [OF inv assms(2,3)] assms(4,6) show ?thesis by auto
qed

text \<open>
  The run of the two witnesses: thread 0 publishes to one subscriber, whose handler removes
  itself; thread 1 has no call of it.
\<close>

definition bus_example :: EventBus where
  "bus_example =
     (let e = mk_event TurnStarted ''s'' ''t'' [] [] [];
          s = snd (projr (bus_subscribe True (bus_new 2)));
          s = bus_deliver_begin 0 e [] s;
          s = bus_enter 0 e 0 [] 0 [] s;
          s = bus_unsubscribe_erase 0 1 s
      in bus_unsubscribe_disable 0 0 s)"

lemma bus_example_eval:
  "bus_example =
    \<lparr>eb_handlers = [], eb_next_subscription = 2, eb_next_sequence = 1,
     eb_entries = [\<lparr>he_active_calls = 1, he_enabled = False\<rparr>],
     eb_threads = [[Delivering (mk_event TurnStarted ''s'' ''t'' [] [] []) [] (Some 0) 0], []],
     eb_removing = [Waiting 0, NotRemoving]\<rparr>"
  by (simp add: bus_example_def bus_new_def bus_defs Let_def umap_emplace_def umap_erase_def numeral_2_eq_2)

lemma bus_example_reachable: "reachable bus_init bus_step bus_example"
proof -
  let ?e = "mk_event TurnStarted ''s'' ''t'' [] [] []"
  let ?R = "reachable bus_init bus_step"
  define a where "a = snd (projr (bus_subscribe True (bus_new 2)))"
  define b where "b = bus_deliver_begin 0 ?e [] a"
  define c where "c = bus_enter 0 ?e 0 [] 0 [] b"
  define d where "d = bus_unsubscribe_erase 0 1 c"
  note defs = a_def b_def c_def d_def bus_new_def bus_defs umap_emplace_def umap_erase_def in_client_def
    numeral_2_eq_2
  have "?R (bus_new 2)" by (intro reach_init) blast
  then have "?R a"
    by (rule reach_step, intro bus_step.subscribe [of 0 _ 1]) (simp_all add: defs)
  then have "?R b"
    unfolding b_def by (rule reach_step, intro bus_step.deliver_direct) (simp_all add: defs)
  then have "?R c"
    unfolding c_def by (rule reach_step, intro bus_step.enter) (simp_all add: defs)
  then have "?R d"
    unfolding d_def by (rule reach_step, intro bus_step.unsubscribe_erase) (simp_all add: defs)
  then have "?R (bus_unsubscribe_disable 0 0 d)"
    by (rule reach_step, intro bus_step.unsubscribe_disable) (simp_all add: defs)
  then show ?thesis by (simp add: bus_example_def Let_def a_def b_def c_def d_def)
qed

theorem bus_unsubscribe_waits_for_others_witness:
  "calls_on_this_thread 0 0 bus_example = 1 \<and> bus_unsubscribe_ready 0 0 bus_example \<and>
   calls_on_this_thread 1 0 bus_example = 0"
proof -
  have "calls_on_this_thread 0 0 bus_example = 1 \<and> bus_unsubscribe_ready 0 0 bus_example"
    by (simp add: bus_example_eval bus_unsubscribe_ready_def calls_on_this_thread_def)
  then show ?thesis
    using bus_unsubscribe_waits_for_others [OF bus_example_reachable, of 0 0]
    by (simp add: bus_example_eval)
qed

theorem bus_unsubscribe_quiesces_witness:
  "calls_on_this_thread 1 0 (bus_unsubscribe_return 0 bus_example) = 0 \<and>
   bus_unsubscribe_ready 0 0 bus_example \<and> calls_on_this_thread 0 0 bus_example = 1"
  using bus_unsubscribe_quiesces
      [OF bus_example_reachable, of 0 0 "bus_unsubscribe_return 0 bus_example" 1]
  by (simp add: bus_example_eval bus_unsubscribe_ready_def calls_on_this_thread_def steps_refl)

end
