(* ===== verification/Event_Timeline.thy ===== *)
theory Event_Timeline
  imports Event_Bus "HOL-Library.Sublist"
begin

text \<open>
  \<open>EventTimeline\<close> (\<open>event_timeline.h\<close>, \<open>event_timeline.cpp\<close>): the bounded journal and its single
  ordered delivery lane. The state is \<open>EventTimeline::State\<close> plus the position of the
  dispatcher thread; the clock, the outcome of the notification allocation and the number of
  failing observers are arguments of the steps that read them. A run carries two histories
  that the code does not keep, every admitted event and every delivered one, and the lemmas
  relate the bounded queues and the counters to them.
\<close>

named_theorems timeline_defs \<open>operations of the timeline\<close>

section \<open>State\<close>

record TimelineConfig =
  tlc_max_events :: nat
  tlc_max_pending_notifications :: nat
  tlc_max_event_bytes :: u64
  tlc_session_id :: string
  tlc_generation :: u64

datatype TimelineStatus = Accepted | TimelineClosed | WrongSession | StaleGeneration | EventTooLarge

record TimelineAppendResult =
  ar_status :: TimelineStatus
  ar_sequence :: u64
  ar_notification_enqueued :: bool

definition default_append_result :: TimelineAppendResult where
  "default_append_result =
     \<lparr>ar_status = TimelineClosed, ar_sequence = 0, ar_notification_enqueued = False\<rparr>"

record TimelineStats =
  ts_accepted :: u64
  ts_evicted :: u64
  ts_rejected :: u64
  ts_dropped_notifications :: u64
  ts_observer_failures :: u64
  ts_notification_allocation_failures :: u64
  ts_first_dropped_sequence :: u64
  ts_last_dropped_sequence :: u64
  ts_oldest_sequence :: u64
  ts_newest_sequence :: u64
  ts_retained :: nat
  ts_pending_notifications :: nat
  ts_notification_high_watermark :: nat

definition zero_stats :: TimelineStats where
  "zero_stats =
     \<lparr>ts_accepted = 0, ts_evicted = 0, ts_rejected = 0, ts_dropped_notifications = 0,
      ts_observer_failures = 0, ts_notification_allocation_failures = 0,
      ts_first_dropped_sequence = 0, ts_last_dropped_sequence = 0, ts_oldest_sequence = 0,
      ts_newest_sequence = 0, ts_retained = 0, ts_pending_notifications = 0,
      ts_notification_high_watermark = 0\<rparr>"

text \<open>Where \<open>dispatch_loop\<close> is: at its wait, outside the lock with an event, or past the loop.\<close>

datatype Dispatcher = DispatchWaiting | DispatchDelivering Event | DispatchExited

record Timeline =
  tl_config :: TimelineConfig
  tl_events :: "Event list"
  tl_pending :: "Event list"
  tl_counters :: TimelineStats
  tl_enqueued :: u64
  tl_completed :: u64
  tl_closed :: bool
  tl_dispatcher :: Dispatcher

datatype timeline_error = InvalidTimeline | JoinInsideCallback

definition timeline_new :: "bool \<Rightarrow> TimelineConfig \<Rightarrow> timeline_error + Timeline" where
  "timeline_new clock_given c =
     (if tlc_max_events c = 0 \<or> tlc_max_pending_notifications c = 0 \<or> tlc_max_event_bytes c = 0
         \<or> tlc_generation c = 0 \<or> \<not> clock_given
      then Inl InvalidTimeline
      else Inr \<lparr>tl_config = c, tl_events = [], tl_pending = [], tl_counters = zero_stats,
        tl_enqueued = 0, tl_completed = 0, tl_closed = False,
        tl_dispatcher = DispatchWaiting\<rparr>)"

section \<open>Admission\<close>

text \<open>\<open>fits\<close> on \<open>std::size_t\<close>: the running total \<open>used\<close> and \<open>limit - used\<close> are machine words.\<close>

fun fits_loop :: "u64 \<Rightarrow> u64 \<Rightarrow> string list \<Rightarrow> bool" where
  "fits_loop limit used [] = True"
| "fits_loop limit used (field # others) =
     (if of_nat (length field) > limit - used then False
      else fits_loop limit (used + of_nat (length field)) others)"

definition event_fields :: "Event \<Rightarrow> string list" where
  "event_fields e = [ev_session_id e, ev_turn_id e, ev_name e, ev_data e, ev_trace_id e]"

definition fits :: "Event \<Rightarrow> u64 \<Rightarrow> bool" where
  "fits e limit = fits_loop limit 0 (event_fields e)"

definition timeline_reject ::
  "TimelineStatus \<Rightarrow> Timeline \<Rightarrow> TimelineAppendResult \<times> Event option \<times> Timeline" where
  "timeline_reject status s =
     (\<lparr>ar_status = status, ar_sequence = 0, ar_notification_enqueued = False\<rparr>, None,
      s\<lparr>tl_counters := (tl_counters s)\<lparr>ts_rejected := ts_rejected (tl_counters s) + 1\<rparr>\<rparr>)"

text \<open>The metadata an accepted event is stored with.\<close>

definition timeline_normalize :: "time_point \<Rightarrow> u64 \<Rightarrow> Event \<Rightarrow> Event" where
  "timeline_normalize now sequence e =
     (let e = e\<lparr>ev_received_at := now\<rparr>;
          e = (if ev_timestamp e = 0 then e\<lparr>ev_timestamp := ev_received_at e\<rparr> else e)
      in e\<lparr>ev_sequence := sequence\<rparr>)"

definition timeline_store :: "Event \<Rightarrow> Timeline \<Rightarrow> Timeline" where
  "timeline_store admitted s =
     (let events = tl_events s @ [admitted];
          c = (tl_counters s)\<lparr>ts_accepted := ts_accepted (tl_counters s) + 1\<rparr>
      in if length events > tlc_max_events (tl_config s)
         then s\<lparr>tl_events := tl events, tl_counters := c\<lparr>ts_evicted := ts_evicted c + 1\<rparr>\<rparr>
         else s\<lparr>tl_events := events, tl_counters := c\<rparr>)"

text \<open>The notification part: \<open>alloc_ok\<close> says whether \<open>pending.push_back\<close> found memory.\<close>

definition timeline_drop :: "Event \<Rightarrow> Timeline \<Rightarrow> Timeline" where
  "timeline_drop admitted s =
     (let c = tl_counters s;
          c = c\<lparr>ts_dropped_notifications := ts_dropped_notifications c + 1\<rparr>;
          c = (if ts_first_dropped_sequence c = 0
               then c\<lparr>ts_first_dropped_sequence := ev_sequence admitted\<rparr> else c);
          c = c\<lparr>ts_last_dropped_sequence := ev_sequence admitted\<rparr>
      in s\<lparr>tl_counters := c\<rparr>)"

definition timeline_notify :: "bool \<Rightarrow> Event \<Rightarrow> Timeline \<Rightarrow> bool \<times> Timeline" where
  "timeline_notify alloc_ok admitted s =
     (if length (tl_pending s) < tlc_max_pending_notifications (tl_config s)
      then if alloc_ok
        then (True, s\<lparr>tl_pending := tl_pending s @ [admitted],
          tl_enqueued := tl_enqueued s + 1,
          tl_counters := (tl_counters s)\<lparr>ts_notification_high_watermark :=
            max (ts_notification_high_watermark (tl_counters s))
              (length (tl_pending s @ [admitted]))\<rparr>\<rparr>)
        else (False, timeline_drop admitted (s\<lparr>tl_counters := (tl_counters s)
          \<lparr>ts_notification_allocation_failures :=
             ts_notification_allocation_failures (tl_counters s) + 1\<rparr>\<rparr>))
      else (False, timeline_drop admitted s))"

definition timeline_admit ::
  "time_point \<Rightarrow> bool \<Rightarrow> Event \<Rightarrow> Timeline \<Rightarrow> TimelineAppendResult \<times> Event option \<times> Timeline" where
  "timeline_admit now alloc_ok e s =
     (let config = tl_config s in
      if tl_closed s then timeline_reject TimelineClosed s
      else if tlc_session_id config \<noteq> [] \<and> ev_session_id e \<noteq> []
          \<and> ev_session_id e \<noteq> tlc_session_id config
      then timeline_reject WrongSession s
      else
        let e = (if tlc_session_id config \<noteq> []
                 then e\<lparr>ev_session_id := tlc_session_id config\<rparr> else e)
        in if ev_generation e \<noteq> 0 \<and> ev_generation e \<noteq> tlc_generation config
        then timeline_reject StaleGeneration s
        else
          let e = derive_trace (e\<lparr>ev_generation := tlc_generation config\<rparr>)
          in if \<not> fits e (tlc_max_event_bytes config)
          then timeline_reject EventTooLarge s
          else
            let admitted = timeline_normalize now (ts_accepted (tl_counters s) + 1) e;
                (enqueued, s) = timeline_notify alloc_ok admitted (timeline_store admitted s)
            in (\<lparr>ar_status = Accepted, ar_sequence = ev_sequence admitted,
                 ar_notification_enqueued = enqueued\<rparr>, Some admitted, s))"

definition timeline_append ::
  "time_point \<Rightarrow> bool \<Rightarrow> Event \<Rightarrow> Timeline \<Rightarrow> TimelineAppendResult \<times> Event option \<times> Timeline" where
  "timeline_append now alloc_ok e s = timeline_admit now alloc_ok e s"

text \<open>The weak sink: \<open>None\<close> is the state that destruction has released.\<close>

definition timeline_sink ::
  "time_point \<Rightarrow> bool \<Rightarrow> Event \<Rightarrow> Timeline option \<Rightarrow> TimelineAppendResult \<times> Timeline option" where
  "timeline_sink now alloc_ok e weak =
     (case weak of
        None \<Rightarrow> (default_append_result, None)
      | Some s \<Rightarrow> (case timeline_admit now alloc_ok e s of (r, _, s') \<Rightarrow> (r, Some s')))"

section \<open>Observation\<close>

definition timeline_snapshot :: "Timeline \<Rightarrow> Event list" where
  "timeline_snapshot s = tl_events s"

definition timeline_size :: "Timeline \<Rightarrow> nat" where
  "timeline_size s = length (tl_events s)"

definition timeline_stats :: "Timeline \<Rightarrow> TimelineStats" where
  "timeline_stats s =
     (let result = (tl_counters s)\<lparr>ts_retained := length (tl_events s),
            ts_pending_notifications := length (tl_pending s)\<rparr>
      in if tl_events s \<noteq> []
         then result\<lparr>ts_oldest_sequence := ev_sequence (hd (tl_events s)),
                ts_newest_sequence := ev_sequence (last (tl_events s))\<rparr>
         else result)"

text \<open>\<open>flush\<close>: the refusal inside callbacks, the target it reads, and its wait condition.\<close>

definition timeline_flush_begin :: "bool \<Rightarrow> bool \<Rightarrow> Timeline \<Rightarrow> u64 option" where
  "timeline_flush_begin on_dispatch_thread inside_callback s =
     (if on_dispatch_thread \<or> inside_callback then None else Some (tl_enqueued s))"

definition timeline_flush_ready :: "u64 \<Rightarrow> Timeline \<Rightarrow> bool" where
  "timeline_flush_ready target s \<longleftrightarrow> target \<le> tl_completed s"

section \<open>Closing and dispatch\<close>

definition timeline_close :: "Timeline \<Rightarrow> Timeline" where
  "timeline_close s = s\<lparr>tl_closed := True\<rparr>"

text \<open>\<open>shutdown\<close> up to its join; the join returns when the dispatcher has exited.\<close>

definition timeline_shutdown :: "bool \<Rightarrow> Timeline \<Rightarrow> (timeline_error + unit) \<times> Timeline" where
  "timeline_shutdown on_dispatch_thread s =
     (if on_dispatch_thread then (Inl JoinInsideCallback, timeline_close s)
      else (Inr (), timeline_close s))"

definition timeline_join_ready :: "Timeline \<Rightarrow> bool" where
  "timeline_join_ready s \<longleftrightarrow> tl_dispatcher s = DispatchExited"

text \<open>\<open>dispatch_loop\<close>: the section before a delivery and the one after it.\<close>

definition timeline_dispatch_take :: "Timeline \<Rightarrow> Timeline" where
  "timeline_dispatch_take s =
     (case tl_pending s of
        [] \<Rightarrow> s\<lparr>tl_dispatcher := DispatchExited\<rparr>
      | e # rest \<Rightarrow> s\<lparr>tl_pending := rest, tl_dispatcher := DispatchDelivering e\<rparr>)"

definition timeline_dispatch_done :: "u64 \<Rightarrow> Timeline \<Rightarrow> Timeline" where
  "timeline_dispatch_done failures s =
     s\<lparr>tl_counters := (tl_counters s)
         \<lparr>ts_observer_failures := ts_observer_failures (tl_counters s) + failures\<rparr>,
       tl_completed := tl_completed s + 1, tl_dispatcher := DispatchWaiting\<rparr>"

lemmas [timeline_defs] = timeline_reject_def timeline_normalize_def timeline_store_def
  timeline_drop_def timeline_notify_def timeline_admit_def timeline_append_def
  timeline_close_def timeline_dispatch_take_def timeline_dispatch_done_def

section \<open>Runs\<close>

text \<open>
  A run pairs the state with its histories: every admitted event with whether it was enqueued
  for the observers, and the events whose delivery is complete.
\<close>

record timeline_run =
  tr_state :: Timeline
  tr_log :: "(Event \<times> bool) list"
  tr_delivered :: "Event list"

abbreviation timeline_init :: "timeline_run \<Rightarrow> bool" where
  "timeline_init r \<equiv> \<exists>c s. timeline_new True c = Inr s \<and>
     r = \<lparr>tr_state = s, tr_log = [], tr_delivered = []\<rparr>"

definition log_admission ::
  "TimelineAppendResult \<times> Event option \<times> Timeline \<Rightarrow> timeline_run \<Rightarrow> timeline_run" where
  "log_admission result r =
     (case result of (ar, admitted, s) \<Rightarrow> r\<lparr>tr_state := s,
        tr_log := tr_log r @ (case admitted of None \<Rightarrow> []
          | Some e \<Rightarrow> [(e, ar_notification_enqueued ar)])\<rparr>)"

inductive timeline_step :: "timeline_run \<Rightarrow> timeline_run \<Rightarrow> bool" where
  append: "timeline_step r (log_admission (timeline_append now alloc_ok e (tr_state r)) r)"
| close: "timeline_step r (r\<lparr>tr_state := timeline_close (tr_state r)\<rparr>)"
| dispatch_take: "tl_dispatcher (tr_state r) = DispatchWaiting \<Longrightarrow>
    tl_closed (tr_state r) \<or> tl_pending (tr_state r) \<noteq> [] \<Longrightarrow>
    timeline_step r (r\<lparr>tr_state := timeline_dispatch_take (tr_state r)\<rparr>)"
| dispatch_done: "tl_dispatcher (tr_state r) = DispatchDelivering e \<Longrightarrow>
    timeline_step r (r\<lparr>tr_state := timeline_dispatch_done failures (tr_state r),
      tr_delivered := tr_delivered r @ [e]\<rparr>)"

inductive_cases timeline_stepE: "timeline_step r r'"

section \<open>The size check\<close>

lemma fits_loop_iff:
  assumes "\<forall>f\<in>set fs. length f < 2 ^ 64" and "used \<le> limit"
  shows "fits_loop limit used fs \<longleftrightarrow> unat used + sum_list (map length fs) \<le> unat limit"
  using assms
proof (induction fs arbitrary: used)
  case (Cons f fs)
  have len: "unat (of_nat (length f) :: u64) = length f"
    using Cons.prems(1) by (simp add: u64_of_nat)
  have diff: "unat (limit - used) = unat limit - unat used"
    using Cons.prems(2) by (simp add: unat_sub)
  show ?case
  proof (cases "length f \<le> unat limit - unat used")
    case True
    with Cons.prems(2) have le: "unat used + length f \<le> unat limit"
      by (simp add: word_le_nat_alt)
    moreover have "unat limit < 2 ^ LENGTH(64)" by (rule unsigned_less)
    ultimately have "unat used + length f < 2 ^ 64" by simp
    then have add: "unat (used + of_nat (length f)) = unat used + length f"
      by (simp add: unat_word_ariths len)
    with le have "used + of_nat (length f) \<le> limit" by (simp add: word_le_nat_alt)
    moreover have "\<not> of_nat (length f) > limit - used"
      using True by (simp add: word_less_nat_alt len diff)
    ultimately show ?thesis using Cons add by (simp add: add.assoc)
  next
    case False
    then have "of_nat (length f) > limit - used" by (simp add: word_less_nat_alt len diff)
    with False show ?thesis by simp
  qed
qed (simp add: word_le_nat_alt)

lemma fits_iff:
  "\<forall>f\<in>set (event_fields e). length f < 2 ^ 64 \<Longrightarrow>
     fits e limit \<longleftrightarrow> sum_list (map length (event_fields e)) \<le> unat limit"
  unfolding fits_def by (subst fits_loop_iff) simp_all

section \<open>Admission by cases\<close>

text \<open>The event the checks see: scoped to the session and generation, with its trace.\<close>

definition timeline_scope :: "TimelineConfig \<Rightarrow> Event \<Rightarrow> Event" where
  "timeline_scope c e =
     (let e = (if tlc_session_id c \<noteq> [] then e\<lparr>ev_session_id := tlc_session_id c\<rparr> else e)
      in derive_trace (e\<lparr>ev_generation := tlc_generation c\<rparr>))"

definition admission_status :: "Event \<Rightarrow> Timeline \<Rightarrow> TimelineStatus" where
  "admission_status e s =
     (let c = tl_config s in
      if tl_closed s then TimelineClosed
      else if tlc_session_id c \<noteq> [] \<and> ev_session_id e \<noteq> [] \<and> ev_session_id e \<noteq> tlc_session_id c
      then WrongSession
      else if ev_generation e \<noteq> 0 \<and> ev_generation e \<noteq> tlc_generation c then StaleGeneration
      else if \<not> fits (timeline_scope c e) (tlc_max_event_bytes c) then EventTooLarge
      else Accepted)"

definition admitted_event :: "time_point \<Rightarrow> Event \<Rightarrow> Timeline \<Rightarrow> Event" where
  "admitted_event now e s =
     timeline_normalize now (ts_accepted (tl_counters s) + 1) (timeline_scope (tl_config s) e)"

lemma timeline_admit_eq:
  "timeline_admit now alloc_ok e s =
     (if admission_status e s = Accepted
      then let a = admitted_event now e s; (q, s') = timeline_notify alloc_ok a (timeline_store a s)
        in (\<lparr>ar_status = Accepted, ar_sequence = ev_sequence a, ar_notification_enqueued = q\<rparr>,
            Some a, s')
      else timeline_reject (admission_status e s) s)"
  by (simp add: timeline_admit_def admission_status_def admitted_event_def timeline_scope_def Let_def)

lemma admitted_event_simps [simp]:
  "ev_sequence (admitted_event now e s) = ts_accepted (tl_counters s) + 1"
  "ev_received_at (admitted_event now e s) = now"
  "ev_generation (admitted_event now e s) = tlc_generation (tl_config s)"
  "event_fields (admitted_event now e s) = event_fields (timeline_scope (tl_config s) e)"
  "ev_session_id (admitted_event now e s) = (if tlc_session_id (tl_config s) \<noteq> []
     then tlc_session_id (tl_config s) else ev_session_id e)"
  by (simp_all add: admitted_event_def timeline_normalize_def timeline_scope_def Let_def event_fields_def)

lemma timeline_store_simps [simp]:
  "tl_config (timeline_store a s) = tl_config s" "tl_pending (timeline_store a s) = tl_pending s"
  "tl_enqueued (timeline_store a s) = tl_enqueued s"
  "tl_completed (timeline_store a s) = tl_completed s"
  "tl_closed (timeline_store a s) = tl_closed s"
  "tl_dispatcher (timeline_store a s) = tl_dispatcher s"
  by (simp_all add: timeline_store_def Let_def)

lemma timeline_notify_frame [simp]:
  "tl_config (snd (timeline_notify ok a s)) = tl_config s"
  "tl_events (snd (timeline_notify ok a s)) = tl_events s"
  "tl_completed (snd (timeline_notify ok a s)) = tl_completed s"
  "tl_closed (snd (timeline_notify ok a s)) = tl_closed s"
  "tl_dispatcher (snd (timeline_notify ok a s)) = tl_dispatcher s"
  "ts_accepted (tl_counters (snd (timeline_notify ok a s))) = ts_accepted (tl_counters s)"
  "ts_evicted (tl_counters (snd (timeline_notify ok a s))) = ts_evicted (tl_counters s)"
  "ts_rejected (tl_counters (snd (timeline_notify ok a s))) = ts_rejected (tl_counters s)"
  by (simp_all add: timeline_notify_def timeline_drop_def Let_def)

section \<open>Invariant\<close>

abbreviation tr_admitted :: "timeline_run \<Rightarrow> Event list" where
  "tr_admitted r \<equiv> map fst (tr_log r)"

definition tr_enqueued :: "timeline_run \<Rightarrow> Event list" where
  "tr_enqueued r = map fst (filter snd (tr_log r))"

definition tr_dropped :: "timeline_run \<Rightarrow> Event list" where
  "tr_dropped r = map fst (filter (\<lambda>p. \<not> snd p) (tr_log r))"

fun in_flight :: "Dispatcher \<Rightarrow> Event list" where
  "in_flight (DispatchDelivering e) = [e]"
| "in_flight d = []"

definition in_scope :: "TimelineConfig \<Rightarrow> Event \<Rightarrow> bool" where
  "in_scope c e \<longleftrightarrow> ev_generation e = tlc_generation c \<and>
     (tlc_session_id c = [] \<or> ev_session_id e = tlc_session_id c) \<and>
     fits e (tlc_max_event_bytes c)"

text \<open>The journal is the end of the history; its counters and sequences follow the history.\<close>

definition journal_inv :: "timeline_run \<Rightarrow> bool" where
  "journal_inv r \<longleftrightarrow>
     (let s = tr_state r; c = tl_config s; n = length (tr_log r) in
      0 < tlc_max_events c \<and>
      tl_events s = drop (n - tlc_max_events c) (tr_admitted r) \<and>
      ts_accepted (tl_counters s) = of_nat n \<and>
      ts_evicted (tl_counters s) = of_nat (n - tlc_max_events c) \<and>
      map ev_sequence (tr_admitted r) = map (\<lambda>i. of_nat (Suc i)) [0..<n] \<and>
      list_all (in_scope c) (tr_admitted r))"

text \<open>The lane holds exactly the enqueued events that are not delivered yet, in order.\<close>

definition lane_inv :: "timeline_run \<Rightarrow> bool" where
  "lane_inv r \<longleftrightarrow>
     (let s = tr_state r in
      tr_delivered r @ in_flight (tl_dispatcher s) @ tl_pending s = tr_enqueued r \<and>
      tl_enqueued s = of_nat (length (tr_enqueued r)) \<and>
      tl_completed s = of_nat (length (tr_delivered r)) \<and>
      length (tl_pending s) \<le> ts_notification_high_watermark (tl_counters s) \<and>
      ts_notification_high_watermark (tl_counters s)
        \<le> tlc_max_pending_notifications (tl_config s) \<and>
      (tl_dispatcher s = DispatchExited \<longrightarrow> tl_closed s \<and> tl_pending s = []))"

text \<open>The drop counter is exact and the span starts and ends at a dropped event.\<close>

definition gap_inv :: "timeline_run \<Rightarrow> bool" where
  "gap_inv r \<longleftrightarrow>
     (let k = tl_counters (tr_state r); d = tr_dropped r in
      ts_dropped_notifications k = of_nat (length d) \<and>
      (length (tr_log r) < 2 ^ 64 \<longrightarrow>
        ts_first_dropped_sequence k = (if d = [] then 0 else ev_sequence (hd d)) \<and>
        ts_last_dropped_sequence k = (if d = [] then 0 else ev_sequence (last d))))"

definition timeline_inv :: "timeline_run \<Rightarrow> bool" where
  "timeline_inv r \<longleftrightarrow> journal_inv r \<and> lane_inv r \<and> gap_inv r"

lemma timeline_inv_init: "timeline_init r \<Longrightarrow> timeline_inv r"
  by (auto simp: timeline_inv_def journal_inv_def lane_inv_def gap_inv_def timeline_new_def
      zero_stats_def tr_enqueued_def tr_dropped_def split: if_splits)

lemma drop_append_one:
  assumes "0 < m"
  shows "drop (Suc (length xs) - m) (xs @ [x]) =
    (if m < Suc (length (drop (length xs - m) xs))
     then tl (drop (length xs - m) xs @ [x]) else drop (length xs - m) xs @ [x])"
proof (cases "m \<le> length xs")
  case True
  with assms have "Suc (length xs) - m = Suc (length xs - m)" and "length xs - m < length xs" by auto
  with True show ?thesis
    by (simp add: drop_Suc tl_append drop_tl split: list.splits)
next
  case False
  with assms show ?thesis by auto
qed

lemma timeline_store_journal:
  assumes "0 < tlc_max_events (tl_config s)"
    and "tl_events s = drop (length xs - tlc_max_events (tl_config s)) xs"
    and "ts_evicted (tl_counters s) = of_nat (length xs - tlc_max_events (tl_config s))"
  shows "tl_events (timeline_store a s)
      = drop (Suc (length xs) - tlc_max_events (tl_config s)) (xs @ [a])"
    and "ts_evicted (tl_counters (timeline_store a s))
      = of_nat (Suc (length xs) - tlc_max_events (tl_config s))"
    and "ts_accepted (tl_counters (timeline_store a s)) = ts_accepted (tl_counters s) + 1"
proof -
  let ?m = "tlc_max_events (tl_config s)"
  show "tl_events (timeline_store a s) = drop (Suc (length xs) - ?m) (xs @ [a])"
    unfolding drop_append_one [OF assms(1)] using assms(2) by (simp add: timeline_store_def Let_def)
  have "?m < Suc (length (tl_events s)) \<longleftrightarrow> ?m \<le> length xs" using assms(1,2) by auto
  moreover have "?m \<le> length xs \<Longrightarrow> Suc (length xs) - ?m = Suc (length xs - ?m)" by simp
  moreover have "\<not> ?m \<le> length xs \<Longrightarrow> Suc (length xs) - ?m = length xs - ?m" by simp
  ultimately show "ts_evicted (tl_counters (timeline_store a s)) = of_nat (Suc (length xs) - ?m)"
    using assms(3) by (simp add: timeline_store_def Let_def)
  show "ts_accepted (tl_counters (timeline_store a s)) = ts_accepted (tl_counters s) + 1"
    by (simp add: timeline_store_def Let_def)
qed

lemma accept_step:
  assumes "admission_status e (tr_state r) = Accepted"
  shows "log_admission (timeline_append now ok e (tr_state r)) r =
    (let a = admitted_event now e (tr_state r); n = timeline_notify ok a (timeline_store a (tr_state r))
     in r\<lparr>tr_state := snd n, tr_log := tr_log r @ [(a, fst n)]\<rparr>)"
  using assms
  by (simp add: timeline_append_def timeline_admit_eq log_admission_def Let_def split: prod.splits)

lemma reject_step:
  assumes "admission_status e (tr_state r) \<noteq> Accepted"
  shows "log_admission (timeline_append now ok e (tr_state r)) r =
    r\<lparr>tr_state := (tr_state r)\<lparr>tl_counters := (tl_counters (tr_state r))
      \<lparr>ts_rejected := ts_rejected (tl_counters (tr_state r)) + 1\<rparr>\<rparr>\<rparr>"
  using assms by (simp add: timeline_append_def timeline_admit_eq log_admission_def timeline_reject_def)

lemma journal_inv_accept:
  assumes "journal_inv r" and "admission_status e (tr_state r) = Accepted"
  shows "journal_inv (log_admission (timeline_append now ok e (tr_state r)) r)"
proof -
  let ?s = "tr_state r" and ?a = "admitted_event now e (tr_state r)"
  have scope: "in_scope (tl_config ?s) ?a"
    using assms(2)
    by (auto simp: in_scope_def admission_status_def Let_def fits_def split: if_splits)
  note j = assms(1) [unfolded journal_inv_def Let_def]
  note st = timeline_store_journal [of ?s "tr_admitted r" ?a]
  show ?thesis
    unfolding accept_step [OF assms(2)] journal_inv_def Let_def
    using j st scope by (simp del: drop_append)
qed

lemma timeline_notify_cases:
  obtains (enqueue) "fst (timeline_notify ok a s)"
      "length (tl_pending s) < tlc_max_pending_notifications (tl_config s)"
      "tl_pending (snd (timeline_notify ok a s)) = tl_pending s @ [a]"
      "tl_enqueued (snd (timeline_notify ok a s)) = tl_enqueued s + 1"
      "ts_notification_high_watermark (tl_counters (snd (timeline_notify ok a s)))
        = max (ts_notification_high_watermark (tl_counters s)) (Suc (length (tl_pending s)))"
      "ts_dropped_notifications (tl_counters (snd (timeline_notify ok a s)))
        = ts_dropped_notifications (tl_counters s)"
      "ts_first_dropped_sequence (tl_counters (snd (timeline_notify ok a s)))
        = ts_first_dropped_sequence (tl_counters s)"
      "ts_last_dropped_sequence (tl_counters (snd (timeline_notify ok a s)))
        = ts_last_dropped_sequence (tl_counters s)"
  | (gap) "\<not> fst (timeline_notify ok a s)"
      "tl_pending (snd (timeline_notify ok a s)) = tl_pending s"
      "tl_enqueued (snd (timeline_notify ok a s)) = tl_enqueued s"
      "ts_notification_high_watermark (tl_counters (snd (timeline_notify ok a s)))
        = ts_notification_high_watermark (tl_counters s)"
      "ts_dropped_notifications (tl_counters (snd (timeline_notify ok a s)))
        = ts_dropped_notifications (tl_counters s) + 1"
      "ts_first_dropped_sequence (tl_counters (snd (timeline_notify ok a s)))
        = (if ts_first_dropped_sequence (tl_counters s) = 0 then ev_sequence a
           else ts_first_dropped_sequence (tl_counters s))"
      "ts_last_dropped_sequence (tl_counters (snd (timeline_notify ok a s))) = ev_sequence a"
proof (cases "length (tl_pending s) < tlc_max_pending_notifications (tl_config s) \<and> ok")
  case True
  then show ?thesis by (intro enqueue) (simp_all add: timeline_notify_def)
next
  case False
  then show ?thesis by (intro gap) (auto simp: timeline_notify_def timeline_drop_def Let_def)
qed

lemma timeline_store_counters [simp]:
  "ts_notification_high_watermark (tl_counters (timeline_store a s))
     = ts_notification_high_watermark (tl_counters s)"
  "ts_dropped_notifications (tl_counters (timeline_store a s)) = ts_dropped_notifications (tl_counters s)"
  "ts_first_dropped_sequence (tl_counters (timeline_store a s)) = ts_first_dropped_sequence (tl_counters s)"
  "ts_last_dropped_sequence (tl_counters (timeline_store a s)) = ts_last_dropped_sequence (tl_counters s)"
  by (simp_all add: timeline_store_def Let_def)

lemma lane_inv_accept:
  assumes "lane_inv r" and "admission_status e (tr_state r) = Accepted"
  shows "lane_inv (log_admission (timeline_append now ok e (tr_state r)) r)"
proof -
  have "tl_dispatcher (tr_state r) \<noteq> DispatchExited"
    using assms by (auto simp: lane_inv_def admission_status_def Let_def)
  with assms(1) show ?thesis
    unfolding accept_step [OF assms(2)] Let_def
    by (rule_tac ok = ok and a = "admitted_event now e (tr_state r)"
        and s = "timeline_store (admitted_event now e (tr_state r)) (tr_state r)" in timeline_notify_cases)
      (auto simp: lane_inv_def tr_enqueued_def Let_def)
qed

text \<open>A dropped event has a sequence other than zero as long as the counter has not wrapped.\<close>

lemma dropped_sequence_nonzero:
  assumes "journal_inv r" and "length (tr_log r) < 2 ^ 64" and "d \<in> set (tr_dropped r)"
  shows "ev_sequence d \<noteq> 0"
proof -
  from assms(3) have "d \<in> set (tr_admitted r)" by (auto simp: tr_dropped_def)
  then obtain i where i: "i < length (tr_log r)" "d = tr_admitted r ! i"
    by (metis in_set_conv_nth length_map)
  have "ev_sequence d = map ev_sequence (tr_admitted r) ! i" using i by simp
  also have "\<dots> = of_nat (Suc i)"
    using assms(1) i by (simp only: journal_inv_def Let_def) simp
  finally have "unat (ev_sequence d) = Suc i"
    using u64_of_nat [of "Suc i"] i assms(2) by (simp del: of_nat_Suc)
  then show ?thesis by auto
qed

lemma gap_inv_accept:
  assumes "gap_inv r" and "journal_inv r" and "admission_status e (tr_state r) = Accepted"
  shows "gap_inv (log_admission (timeline_append now ok e (tr_state r)) r)"
proof -
  let ?a = "admitted_event now e (tr_state r)"
  have "ev_sequence (hd (tr_dropped r)) \<noteq> 0"
    if "Suc (length (tr_log r)) < 2 ^ 64" "tr_dropped r \<noteq> []"
    using dropped_sequence_nonzero [OF assms(2)] that by simp
  with assms(1) show ?thesis
    unfolding accept_step [OF assms(3)] Let_def
    by (rule_tac ok = ok and a = ?a and s = "timeline_store ?a (tr_state r)" in timeline_notify_cases)
      (auto simp: gap_inv_def tr_dropped_def Let_def hd_append)
qed

lemma timeline_inv_append:
  assumes "timeline_inv r"
  shows "timeline_inv (log_admission (timeline_append now ok e (tr_state r)) r)"
proof (cases "admission_status e (tr_state r) = Accepted")
  case True
  with assms show ?thesis
    by (simp add: timeline_inv_def journal_inv_accept lane_inv_accept gap_inv_accept)
next
  case False
  with assms show ?thesis
    by (simp add: reject_step timeline_inv_def journal_inv_def lane_inv_def gap_inv_def
        tr_enqueued_def tr_dropped_def Let_def)
qed

lemma timeline_step_inv: "timeline_inv r \<Longrightarrow> timeline_step r r' \<Longrightarrow> timeline_inv r'"
proof (erule timeline_stepE)
  show "timeline_inv r \<Longrightarrow> r' = log_admission (timeline_append now ok e (tr_state r)) r \<Longrightarrow> timeline_inv r'"
    for now ok e by (simp add: timeline_inv_append)
  show "timeline_inv r \<Longrightarrow> r' = r\<lparr>tr_state := timeline_close (tr_state r)\<rparr> \<Longrightarrow> timeline_inv r'"
    by (simp add: timeline_inv_def journal_inv_def lane_inv_def gap_inv_def timeline_close_def
        tr_enqueued_def tr_dropped_def Let_def)
  show "timeline_inv r \<Longrightarrow> r' = r\<lparr>tr_state := timeline_dispatch_take (tr_state r)\<rparr> \<Longrightarrow>
      tl_dispatcher (tr_state r) = DispatchWaiting \<Longrightarrow>
      tl_closed (tr_state r) \<or> tl_pending (tr_state r) \<noteq> [] \<Longrightarrow> timeline_inv r'"
    by (cases "tl_pending (tr_state r)")
      (auto simp: timeline_inv_def journal_inv_def lane_inv_def gap_inv_def timeline_dispatch_take_def
        tr_enqueued_def tr_dropped_def Let_def)
  show "timeline_inv r \<Longrightarrow> r' = r\<lparr>tr_state := timeline_dispatch_done f (tr_state r),
        tr_delivered := tr_delivered r @ [e]\<rparr> \<Longrightarrow>
      tl_dispatcher (tr_state r) = DispatchDelivering e \<Longrightarrow> timeline_inv r'" for e f
    by (auto simp: timeline_inv_def journal_inv_def lane_inv_def gap_inv_def timeline_dispatch_done_def
        tr_enqueued_def tr_dropped_def Let_def)
qed

interpretation timeline: invariant_system timeline_init timeline_step timeline_inv
proof
  show "timeline_inv r" if "timeline_init r" for r using that by (rule timeline_inv_init)
  show "timeline_inv r'" if "timeline_inv r" "timeline_step r r'" for r r'
    using that by (rule timeline_step_inv)
qed

section \<open>Histories\<close>

lemma timeline_step_history:
  assumes "timeline_step r r'"
  shows "\<exists>new. tr_log r' = tr_log r @ new \<and> (tl_closed (tr_state r) \<longrightarrow> new = [])"
  using assms
  by (rule timeline_stepE)
    (auto simp: log_admission_def timeline_append_def timeline_admit_eq timeline_reject_def
      admission_status_def Let_def split: prod.splits option.splits)

lemma timeline_step_closed:
  "timeline_step r r' \<Longrightarrow> tl_closed (tr_state r) \<Longrightarrow> tl_closed (tr_state r')"
  by (erule timeline_stepE)
    (auto simp: log_admission_def timeline_append_def timeline_admit_eq timeline_reject_def
      admission_status_def timeline_close_def timeline_dispatch_take_def
      timeline_dispatch_done_def Let_def split: prod.splits option.splits list.splits)

lemma timeline_steps_history:
  assumes "steps timeline_step r r'"
  shows "\<exists>new. tr_log r' = tr_log r @ new \<and> (tl_closed (tr_state r) \<longrightarrow> new = [] \<and> tl_closed (tr_state r'))"
  using assms
proof (induction rule: steps.induct)
  case (steps_step r t u)
  then obtain a where a: "tr_log t = tr_log r @ a"
      "tl_closed (tr_state r) \<longrightarrow> a = [] \<and> tl_closed (tr_state t)" by blast
  from timeline_step_history [OF steps_step.hyps(2)] obtain b where
    b: "tr_log u = tr_log t @ b" "tl_closed (tr_state t) \<longrightarrow> b = []" by blast
  with a timeline_step_closed [OF steps_step.hyps(2)] show ?case
    by (intro exI [of _ "a @ b"]) auto
qed simp

lemma enqueued_mono: "tr_log r' = tr_log r @ new \<Longrightarrow> prefix (tr_enqueued r) (tr_enqueued r')"
  by (simp add: tr_enqueued_def)

lemma subseq_enqueued: "subseq (tr_enqueued r) (tr_admitted r)"
  unfolding tr_enqueued_def by (intro subseq_map subseq_filter_left)

lemma sequences_sorted:
  assumes "journal_inv r" and "length (tr_log r) < 2 ^ 64"
  shows "map (unat \<circ> ev_sequence) (tr_admitted r) = map Suc [0..<length (tr_log r)]"
proof -
  have "map (unat \<circ> ev_sequence) (tr_admitted r) = map unat (map ev_sequence (tr_admitted r))" by simp
  also have "map ev_sequence (tr_admitted r) = map (\<lambda>i. of_nat (Suc i)) [0..<length (tr_log r)]"
    using assms(1) unfolding journal_inv_def Let_def by blast
  also have "map unat \<dots> = map Suc [0..<length (tr_log r)]"
    unfolding map_map by (rule map_cong [OF refl])
      (use assms(2) in \<open>simp add: u64_of_nat del: of_nat_Suc\<close>)
  finally show ?thesis .
qed

lemma dropped_sorted:
  assumes "journal_inv r" and "length (tr_log r) < 2 ^ 64"
  shows "sorted (map (unat \<circ> ev_sequence) (tr_dropped r))"
proof -
  have "sorted (map (unat \<circ> ev_sequence) (tr_admitted r))"
    unfolding sequences_sorted [OF assms] map_Suc_upt by (rule sorted_upt)
  then have "sorted (map ((unat \<circ> ev_sequence) \<circ> fst) (tr_log r))" by simp
  then have "sorted (map ((unat \<circ> ev_sequence) \<circ> fst) (filter (\<lambda>p. \<not> snd p) (tr_log r)))"
    by (rule sorted_filter)
  then show ?thesis by (simp add: tr_dropped_def)
qed

lemma sorted_span:
  "sorted (map f xs) \<Longrightarrow> x \<in> set xs \<Longrightarrow> f (hd xs) \<le> f x \<and> f x \<le> (f (last xs) :: nat)"
  by (induction xs) (auto split: if_splits)

text \<open>The dispatcher alone empties a closed lane.\<close>

lemma timeline_drain:
  assumes "timeline_inv r" and "tl_closed (tr_state r)"
  shows "\<exists>r'. steps timeline_step r r' \<and> timeline_join_ready (tr_state r')"
  using assms
proof (induction "2 * length (tl_pending (tr_state r)) + length (in_flight (tl_dispatcher (tr_state r)))"
    arbitrary: r rule: less_induct)
  case less
  let ?s = "tr_state r"
  have go: "\<exists>r'. steps timeline_step r r' \<and> timeline_join_ready (tr_state r')"
    if step: "timeline_step r t" and dec: "2 * length (tl_pending (tr_state t)) + length (in_flight (tl_dispatcher (tr_state t)))
      < 2 * length (tl_pending ?s) + length (in_flight (tl_dispatcher ?s))" for t
  proof -
    have "timeline_inv t" and "tl_closed (tr_state t)"
      using timeline_step_inv [OF less.prems(1) step] timeline_step_closed [OF step less.prems(2)]
      by simp_all
    from less.hyps [OF dec this] obtain u where u: "steps timeline_step t u" "timeline_join_ready (tr_state u)"
      by blast
    from steps_first [where step = timeline_step, OF step u(1)] u(2) show ?thesis by blast
  qed
  show ?case
  proof (cases "tl_dispatcher ?s")
    case DispatchExited
    then have "timeline_join_ready ?s" by (simp add: timeline_join_ready_def)
    then show ?thesis by (intro exI [of _ r]) (simp add: steps_refl)
  next
    case (DispatchDelivering e)
    then show ?thesis
      by (intro go [OF timeline_step.dispatch_done [where failures = 0]])
        (simp_all add: timeline_dispatch_done_def)
  next
    case DispatchWaiting
    have step: "timeline_step r (r\<lparr>tr_state := timeline_dispatch_take ?s\<rparr>)"
      using DispatchWaiting less.prems(2) by (intro timeline_step.dispatch_take) simp_all
    show ?thesis
    proof (cases "tl_pending ?s")
      case Nil
      then have "timeline_join_ready (timeline_dispatch_take ?s)"
        by (simp add: timeline_dispatch_take_def timeline_join_ready_def)
      with step show ?thesis 
        by (intro exI [of _ "r\<lparr>tr_state := timeline_dispatch_take ?s\<rparr>"] conjI steps_one) simp_all
    next
      case (Cons e rest)
      with DispatchWaiting show ?thesis
        by (intro go [OF step]) (simp add: timeline_dispatch_take_def)
    qed
  qed
qed

section \<open>The interface of the journal\<close>

text \<open>
  What an owner of a timeline relies on: histories only grow, and closing stops them. A client
  whose steps either leave its journal alone or are journal steps inherits both.
\<close>

locale journal =
  fixes admitted :: "'j \<Rightarrow> 'e list" and closed :: "'j \<Rightarrow> bool" and jstep :: "'j \<Rightarrow> 'j \<Rightarrow> bool"
  assumes grow: "jstep j j' \<Longrightarrow> prefix (admitted j) (admitted j')"
    and closed_final: "jstep j j' \<Longrightarrow> closed j \<Longrightarrow> closed j' \<and> admitted j' = admitted j"
begin

lemma client_history:
  assumes "\<And>s t. step s t \<Longrightarrow> proj t = proj s \<or> jstep (proj s) (proj t)" and "steps step s t"
  shows "prefix (admitted (proj s)) (admitted (proj t)) \<and>
    (closed (proj s) \<longrightarrow> closed (proj t) \<and> admitted (proj t) = admitted (proj s))"
  using assms(2)
proof (induction rule: steps.induct)
  case (steps_step s t u)
  then show ?case
    using assms(1) [OF steps_step.hyps(2)] grow [of "proj t" "proj u"] closed_final [of "proj t" "proj u"]
    by (metis prefix_order.trans)
qed simp

end

lemma timeline_journal_step:
  assumes "timeline_step r r'"
  shows "prefix (tr_admitted r) (tr_admitted r')"
    and "tl_closed (tr_state r) \<Longrightarrow> tl_closed (tr_state r') \<and> tr_admitted r' = tr_admitted r"
  using timeline_step_history [OF assms] timeline_step_closed [OF assms] by auto

interpretation lane: journal tr_admitted "\<lambda>r. tl_closed (tr_state r)" timeline_step
  by unfold_locales (simp_all add: timeline_journal_step)

section \<open>Properties\<close>

text \<open>
  C18: refinement of an unbounded log. In every reachable run the journal that \<open>snapshot\<close> returns
  is the last \<open>max_events\<close> admitted events in admission order, their sequence numbers are
  consecutive from 1 (as machine words), every one carries the configured generation and
  session and fits the byte bound, and the counters account for every admission.
\<close>

theorem timeline_journal_refines:
  assumes "reachable timeline_init timeline_step r"
  shows "timeline_snapshot (tr_state r)
      = drop (length (tr_log r) - tlc_max_events (tl_config (tr_state r))) (tr_admitted r) \<and>
    map ev_sequence (tr_admitted r) = map (\<lambda>i. of_nat (Suc i)) [0..<length (tr_log r)] \<and>
    list_all (in_scope (tl_config (tr_state r))) (tr_admitted r) \<and>
    timeline_size (tr_state r) \<le> tlc_max_events (tl_config (tr_state r)) \<and>
    ts_accepted (timeline_stats (tr_state r)) = of_nat (length (tr_log r)) \<and>
    ts_accepted (timeline_stats (tr_state r)) = ts_evicted (timeline_stats (tr_state r))
      + of_nat (ts_retained (timeline_stats (tr_state r)))"
proof -
  let ?n = "length (tr_log r)" and ?m = "tlc_max_events (tl_config (tr_state r))"
  have "journal_inv r" using timeline.reachable_inv [OF assms] by (simp add: timeline_inv_def)
  moreover have "?n = (?n - ?m) + (?n - (?n - ?m))" by simp
  then have "(of_nat ?n :: u64) = of_nat (?n - ?m) + of_nat (?n - (?n - ?m))"
    by (metis of_nat_add)
  moreover have "?n - (?n - ?m) \<le> ?m" by simp
  ultimately show ?thesis
    unfolding journal_inv_def Let_def timeline_snapshot_def timeline_size_def timeline_stats_def
    by (simp del: of_nat_diff of_nat_Suc)
qed

text \<open>
  C19: delivery is in order, exactly once, and never of an event that was not admitted. The
  events delivered, in delivery and pending are exactly the admitted events reported as
  enqueued, in admission order; the queue never exceeds its bound and the counters of
  enqueued, completed and dropped notifications are exact.
\<close>

theorem timeline_delivers_in_order:
  assumes "reachable timeline_init timeline_step r"
  shows "tr_delivered r @ in_flight (tl_dispatcher (tr_state r)) @ tl_pending (tr_state r)
      = tr_enqueued r \<and>
    subseq (tr_delivered r) (tr_admitted r) \<and>
    length (tl_pending (tr_state r)) \<le> tlc_max_pending_notifications (tl_config (tr_state r)) \<and>
    tl_completed (tr_state r) = of_nat (length (tr_delivered r)) \<and>
    tl_enqueued (tr_state r) + ts_dropped_notifications (timeline_stats (tr_state r))
      = ts_accepted (timeline_stats (tr_state r))"
proof -
  have j: "journal_inv r" and l: "lane_inv r" and g: "gap_inv r"
    using timeline.reachable_inv [OF assms] by (simp_all add: timeline_inv_def)
  from l have eq: "tr_delivered r @ in_flight (tl_dispatcher (tr_state r)) @ tl_pending (tr_state r)
      = tr_enqueued r" by (simp add: lane_inv_def Let_def)
  then have "prefix (tr_delivered r) (tr_enqueued r)" by (metis prefixI)
  then have sub: "subseq (tr_delivered r) (tr_admitted r)"
    using subseq_enqueued prefix_imp_subseq subseq_order.order_trans by blast
  have "length (tr_enqueued r) + length (tr_dropped r) = length (tr_log r)"
    unfolding tr_enqueued_def tr_dropped_def length_map by (rule sum_length_filter_compl)
  then have "(of_nat (length (tr_enqueued r)) + of_nat (length (tr_dropped r)) :: u64)
      = of_nat (length (tr_log r))" by (metis of_nat_add)
  with j l g eq sub show ?thesis
    by (simp add: journal_inv_def lane_inv_def gap_inv_def timeline_stats_def Let_def)
qed

text \<open>
  The reported gap covers every dropped notification. As long as fewer than \<open>2\<^sup>6\<^sup>4\<close> events
  were admitted, the sequence of every admitted event whose notification was dropped lies
  between \<open>first_dropped_sequence\<close> and \<open>last_dropped_sequence\<close>, and both are zero exactly when
  nothing was dropped.
\<close>

theorem timeline_gap_covers_drops:
  assumes "reachable timeline_init timeline_step r" and "length (tr_log r) < 2 ^ 64"
  shows "(\<forall>d\<in>set (tr_dropped r).
      ts_first_dropped_sequence (timeline_stats (tr_state r)) \<le> ev_sequence d \<and>
      ev_sequence d \<le> ts_last_dropped_sequence (timeline_stats (tr_state r))) \<and>
    (ts_first_dropped_sequence (timeline_stats (tr_state r)) = 0 \<longleftrightarrow> tr_dropped r = []) \<and>
    (ts_last_dropped_sequence (timeline_stats (tr_state r)) = 0 \<longleftrightarrow> tr_dropped r = [])"
proof -
  have j: "journal_inv r" and g: "gap_inv r"
    using timeline.reachable_inv [OF assms(1)] by (simp_all add: timeline_inv_def)
  have "ev_sequence (hd (tr_dropped r)) \<le> ev_sequence d \<and> ev_sequence d \<le> ev_sequence (last (tr_dropped r))"
    if "d \<in> set (tr_dropped r)" for d
    using sorted_span [OF dropped_sorted [OF j assms(2)] that] by (simp add: word_le_nat_alt)
  moreover have "tr_dropped r \<noteq> [] \<Longrightarrow> ev_sequence (hd (tr_dropped r)) \<noteq> 0"
    and "tr_dropped r \<noteq> [] \<Longrightarrow> ev_sequence (last (tr_dropped r)) \<noteq> 0"
    using dropped_sequence_nonzero [OF j assms(2)] by simp_all
  ultimately show ?thesis
    using g assms(2) by (auto simp: gap_inv_def timeline_stats_def Let_def)
qed

text \<open>
  C29: admission decides exactly as documented. Over events whose strings have representable
  sizes, \<open>append\<close> accepts if and only if the timeline is open, the event names no foreign
  session and no foreign generation, and the bytes of its scoped form are at most
  \<open>max_event_bytes\<close>; the word arithmetic of \<open>fits\<close> never wraps. A refusal leaves journal,
  queue and every counter but \<open>rejected\<close> as they were.
\<close>

theorem timeline_admission_exact:
  assumes "\<forall>f\<in>set (event_fields (timeline_scope (tl_config s) e)). length f < 2 ^ 64"
    and "timeline_append now alloc_ok e s = (result, normalized, s')"
  shows "(ar_status result = Accepted \<longleftrightarrow>
      \<not> tl_closed s \<and>
      (tlc_session_id (tl_config s) = [] \<or> ev_session_id e \<in> {[], tlc_session_id (tl_config s)}) \<and>
      ev_generation e \<in> {0, tlc_generation (tl_config s)} \<and>
      sum_list (map length (event_fields (timeline_scope (tl_config s) e)))
        \<le> unat (tlc_max_event_bytes (tl_config s))) \<and>
    (ar_status result \<noteq> Accepted \<longrightarrow> normalized = None \<and> s' = s\<lparr>tl_counters :=
      (tl_counters s)\<lparr>ts_rejected := ts_rejected (tl_counters s) + 1\<rparr>\<rparr>)"
proof -
  have status: "ar_status result = admission_status e s"
    using assms(2) by (auto simp: timeline_append_def timeline_admit_eq timeline_reject_def Let_def
        split: prod.splits if_splits)
  have "ar_status result \<noteq> Accepted \<Longrightarrow> normalized = None \<and> s' = s\<lparr>tl_counters :=
      (tl_counters s)\<lparr>ts_rejected := ts_rejected (tl_counters s) + 1\<rparr>\<rparr>"
    using assms(2) by (auto simp: timeline_append_def timeline_admit_eq timeline_reject_def Let_def
        split: prod.splits if_splits)
  moreover have "admission_status e s = Accepted \<longleftrightarrow>
      \<not> tl_closed s \<and>
      (tlc_session_id (tl_config s) = [] \<or> ev_session_id e \<in> {[], tlc_session_id (tl_config s)}) \<and>
      ev_generation e \<in> {0, tlc_generation (tl_config s)} \<and>
      fits (timeline_scope (tl_config s) e) (tlc_max_event_bytes (tl_config s))"
    by (auto simp: admission_status_def Let_def)
  ultimately show ?thesis unfolding status fits_iff [OF assms(1)] by blast
qed

text \<open>
  A \<open>flush\<close> that returns true has seen the delivery of every notification enqueued before
  the call: when its condition holds in a later state, the events enqueued at the call form a
  prefix of the delivered ones.
\<close>

theorem timeline_flush_sound:
  assumes "reachable timeline_init timeline_step r"
    and "timeline_flush_begin False False (tr_state r) = Some target"
    and "steps timeline_step r r'" and "length (tr_log r') < 2 ^ 64"
    and "timeline_flush_ready target (tr_state r')"
  shows "prefix (tr_enqueued r) (tr_delivered r')"
proof -
  obtain new where log: "tr_log r' = tr_log r @ new" using timeline_steps_history [OF assms(3)] by blast
  have l: "lane_inv r" and l': "lane_inv r'"
    using timeline.reachable_inv assms(1) reachable_steps [OF assms(3,1)]
    by (simp_all add: timeline_inv_def)
  have bound: "length (tr_enqueued r) < 2 ^ 64" "length (tr_delivered r') < 2 ^ 64"
  proof -
    have "length (tr_enqueued r') \<le> length (tr_log r')" by (simp add: tr_enqueued_def)
    moreover have "length (tr_delivered r') \<le> length (tr_enqueued r')"
      using l' by (simp add: lane_inv_def Let_def) (metis le_add1 length_append)
    moreover have "length (tr_enqueued r) \<le> length (tr_enqueued r')"
      using enqueued_mono [OF log] by (rule prefix_length_le)
    ultimately show "length (tr_enqueued r) < 2 ^ 64" "length (tr_delivered r') < 2 ^ 64"
      using assms(4) by auto
  qed
  have "length (tr_enqueued r) \<le> length (tr_delivered r')"
    using assms(2,5) l l' bound
    by (simp add: timeline_flush_begin_def timeline_flush_ready_def lane_inv_def Let_def
        word_le_nat_alt u64_of_nat)
  moreover have "prefix (tr_delivered r') (tr_enqueued r')"
    using l' by (simp add: lane_inv_def Let_def) (metis prefixI)
  ultimately show ?thesis
    using enqueued_mono [OF log] by (metis prefix_length_prefix)
qed

text \<open>
  C28: closing is final and drains. After \<open>close\<close> no later state admits another event, and the
  dispatcher's own steps lead to a state in which \<open>shutdown\<close> can join it; there every
  notification that was ever enqueued has been delivered.
\<close>

theorem timeline_close_drains:
  assumes "reachable timeline_init timeline_step r" and "tl_closed (tr_state r)"
  shows "(\<forall>r'. steps timeline_step r r' \<longrightarrow> tr_log r' = tr_log r) \<and>
    (\<exists>r'. steps timeline_step r r' \<and> timeline_join_ready (tr_state r') \<and>
      tr_delivered r' = tr_enqueued r)"
proof -
  have inv: "timeline_inv r" using assms(1) by (rule timeline.reachable_inv)
  have log: "tr_log r' = tr_log r" if "steps timeline_step r r'" for r'
    using timeline_steps_history [OF that] assms(2) by auto
  obtain r' where r': "steps timeline_step r r'" "timeline_join_ready (tr_state r')"
    using timeline_drain [OF inv assms(2)] by blast
  have "lane_inv r'" using timeline.steps_inv [OF r'(1) inv] by (simp add: timeline_inv_def)
  with r'(2) log [OF r'(1)] have "tr_delivered r' = tr_enqueued r"
    by (auto simp: lane_inv_def timeline_join_ready_def tr_enqueued_def Let_def)
  with log r' show ?thesis by blast
qed

text \<open>
  The run of the witnesses: a journal of one event and a lane of one notification, two
  admissions (the second evicts the first and its notification is dropped), then \<open>close\<close>.
\<close>

definition timeline_example_config :: TimelineConfig where
  "timeline_example_config =
     \<lparr>tlc_max_events = 1, tlc_max_pending_notifications = 1, tlc_max_event_bytes = 64,
      tlc_session_id = ''s'', tlc_generation = 1\<rparr>"

definition timeline_example_event :: Event where
  "timeline_example_event = mk_event TurnStarted [] ''t'' [] [] []"

definition timeline_example_start :: timeline_run where
  "timeline_example_start =
     \<lparr>tr_state = projr (timeline_new True timeline_example_config), tr_log = [], tr_delivered = []\<rparr>"

definition timeline_example_append :: "timeline_run \<Rightarrow> timeline_run" where
  "timeline_example_append r =
     log_admission (timeline_append 7 True timeline_example_event (tr_state r)) r"

definition timeline_example :: timeline_run where
  "timeline_example = timeline_example_append (timeline_example_append timeline_example_start)"

definition timeline_example_closed :: timeline_run where
  "timeline_example_closed =
     timeline_example\<lparr>tr_state := timeline_close (tr_state timeline_example)\<rparr>"

lemma timeline_example_start_reachable:
  "reachable timeline_init timeline_step timeline_example_start"
proof (rule reach_init, intro exI conjI)
  show "timeline_new True timeline_example_config = Inr (tr_state timeline_example_start)"
    by (simp add: timeline_example_start_def timeline_new_def timeline_example_config_def)
qed (simp add: timeline_example_start_def)

lemma timeline_example_reachable: "reachable timeline_init timeline_step timeline_example"
  unfolding timeline_example_def timeline_example_append_def
  by (rule reach_step [OF reach_step [OF timeline_example_start_reachable]];
      rule timeline_step.append)

lemma timeline_example_closed_reachable:
  "reachable timeline_init timeline_step timeline_example_closed"
  unfolding timeline_example_closed_def
  by (rule reach_step [OF timeline_example_reachable timeline_step.close])

lemma timeline_example_log: "length (tr_log timeline_example) = 2"
  by code_simp

theorem timeline_journal_refines_witness:
  "map ev_sequence (timeline_snapshot (tr_state timeline_example)) = [2] \<and>
   timeline_size (tr_state timeline_example) \<le> 1"
proof -
  have "map ev_sequence (timeline_snapshot (tr_state timeline_example)) = [2]" by code_simp
  moreover have "tlc_max_events (tl_config (tr_state timeline_example)) = 1" by code_simp
  ultimately show ?thesis using timeline_journal_refines [OF timeline_example_reachable] by simp
qed

theorem timeline_delivers_in_order_witness:
  "tl_enqueued (tr_state timeline_example)
     + ts_dropped_notifications (timeline_stats (tr_state timeline_example)) = 2"
proof -
  have "ts_accepted (timeline_stats (tr_state timeline_example)) = 2" by code_simp
  then show ?thesis using timeline_delivers_in_order [OF timeline_example_reachable] by simp
qed

theorem timeline_gap_covers_drops_witness:
  "ts_first_dropped_sequence (timeline_stats (tr_state timeline_example))
     \<le> ev_sequence (hd (tr_dropped timeline_example)) \<and>
   ts_first_dropped_sequence (timeline_stats (tr_state timeline_example)) \<noteq> 0"
proof -
  have "tr_dropped timeline_example \<noteq> []" by code_simp
  then show ?thesis
    using timeline_gap_covers_drops [OF timeline_example_reachable] timeline_example_log by simp
qed

theorem timeline_admission_exact_witness:
  "ar_status (fst (timeline_append 7 True timeline_example_event (tr_state timeline_example_start)))
     = Accepted"
proof -
  let ?s = "tr_state timeline_example_start"
  let ?e = "timeline_example_event"
  have "\<forall>f\<in>set (event_fields (timeline_scope (tl_config ?s) ?e)). length f < 2 ^ 64"
    and "\<not> tl_closed ?s" and "ev_session_id ?e = []" and "ev_generation ?e = 0"
    and "sum_list (map length (event_fields (timeline_scope (tl_config ?s) ?e)))
      \<le> unat (tlc_max_event_bytes (tl_config ?s))"
    by code_simp+
  then show ?thesis
    by (metis (no_types, lifting) insertCI prod.collapse timeline_admission_exact)
qed

theorem timeline_flush_sound_witness:
  "prefix (tr_enqueued timeline_example_start) (tr_delivered timeline_example) \<and>
   timeline_flush_begin False False (tr_state timeline_example_start) = Some 0"
proof -
  have go: "steps timeline_step timeline_example_start timeline_example"
  proof -
    have one: "timeline_step r (timeline_example_append r)" for r
      unfolding timeline_example_append_def by (rule timeline_step.append)
    show ?thesis
      unfolding timeline_example_def
      by (rule steps_step [where step = timeline_step,
            OF steps_one [where step = timeline_step, OF one] one])
  qed
  have "timeline_flush_begin False False (tr_state timeline_example_start) = Some 0"
    and "timeline_flush_ready 0 (tr_state timeline_example)" by code_simp+
  then show ?thesis
    using timeline_flush_sound [OF timeline_example_start_reachable _ go, of 0] timeline_example_log by simp
qed

theorem timeline_close_drains_witness:
  "\<exists>r'. steps timeline_step timeline_example_closed r' \<and> timeline_join_ready (tr_state r') \<and>
     tr_delivered r' = tr_enqueued timeline_example_closed"
proof -
  have "tl_closed (tr_state timeline_example_closed)" by code_simp
  then show ?thesis using timeline_close_drains [OF timeline_example_closed_reachable] by blast
qed

end
