(* ===== verification/Turn_Executor.thy ===== *)
theory Turn_Executor
  imports Byteturn_Types
begin

text \<open>
  \<open>SessionExecutor\<close> and \<open>TurnContext\<close> (\<open>executor.h\<close>, \<open>executor.cpp\<close>, \<open>turn_context.h\<close>,
  \<open>turn_context.cpp\<close>): per-session serialized lanes over a pool of workers. A \<open>Work\<close> object is an
  index into the list of works ever submitted, so a smaller index is an earlier submission.
  Sizes and the pending counter are \<open>std::size_t\<close> words. Tasks are client code: the step in
  which a task ends carries its outcome. The lemmas show that the pending counter is exact
  and bounded, that a session runs one turn at a time and in submission order, that no worker
  dies on \<open>sessions_.at\<close> and no promise is set twice, and that shutdown joins.
\<close>

named_theorems executor_defs \<open>operations of the session executor\<close>

section \<open>State\<close>

datatype TurnState =
    Queued | Running | ModelStreaming | ToolExecuting | Synthesizing | Completed | Cancelled
  | TimedOut | Failed

record TurnOptions =
  to_turn_id :: string
  to_trace_id :: string
  to_timeout :: duration_ms

definition default_turn_options :: TurnOptions where
  "default_turn_options = \<lparr>to_turn_id = [], to_trace_id = [], to_timeout = 15000\<rparr>"

text \<open>What a turn's shared future gives: a value or a rethrown exception's message.\<close>

datatype TurnResult = TurnValue string | TurnException string

text \<open>A \<open>Work\<close> with its \<open>TurnContext\<close> and its cancellation flag.\<close>

record Work =
  wk_session_id :: string
  wk_turn_id :: string
  wk_trace_id :: string
  wk_deadline :: time_point
  wk_cancelled :: bool
  wk_state :: TurnState
  wk_promise :: "TurnResult promise"

record Session =
  se_queue :: "nat list"
  se_running :: "nat option"
  se_scheduled :: bool

definition empty_session :: Session where
  "empty_session = \<lparr>se_queue = [], se_running = None, se_scheduled = False\<rparr>"

record SessionExecutorConfig =
  ec_worker_count :: nat
  ec_max_pending_per_session :: u64
  ec_max_pending_total :: u64

text \<open>
  Where a worker is in \<open>worker_loop\<close>. \<open>WorkerCrashed\<close> is \<open>sessions_.at\<close> throwing outside any
  handler, which ends the process.
\<close>

datatype Worker =
    WorkerWaiting | WorkerStarting string nat | WorkerInTask string nat | WorkerDone string nat
  | WorkerExited | WorkerCrashed

record Executor =
  ex_works :: "Work list"
  ex_sessions :: "(string, Session) umap"
  ex_ready_sessions :: "string list"
  ex_workers :: "Worker list"
  ex_next_turn_id :: u64
  ex_config :: SessionExecutorConfig
  ex_pending_total :: u64
  ex_stopping :: bool

datatype executor_error =
    QueueLimitsNotPositive | SessionIdRequired | TimeoutNotPositive | ExecutorStopped
  | SessionPendingLimit | ExecutorPendingLimit

definition executor_new :: "nat \<Rightarrow> SessionExecutorConfig \<Rightarrow> executor_error + Executor" where
  "executor_new hardware_concurrency config =
     (let config = (if ec_worker_count config = 0
            then config\<lparr>ec_worker_count := max 1 hardware_concurrency\<rparr> else config)
      in if ec_max_pending_per_session config = 0 \<or> ec_max_pending_total config = 0
      then Inl QueueLimitsNotPositive
      else Inr \<lparr>ex_works = [], ex_sessions = [], ex_ready_sessions = [],
        ex_workers = replicate (ec_worker_count config) WorkerWaiting, ex_next_turn_id = 1,
        ex_config = config, ex_pending_total = 0, ex_stopping = False\<rparr>)"

definition executor_new_workers :: "nat \<Rightarrow> nat \<Rightarrow> executor_error + Executor" where
  "executor_new_workers hardware_concurrency worker_count =
     executor_new hardware_concurrency
       \<lparr>ec_worker_count = worker_count, ec_max_pending_per_session = 4,
        ec_max_pending_total = 1024\<rparr>"

section \<open>Turn contexts\<close>

text \<open>A millisecond is a million ticks of the clock.\<close>

definition ticks_per_ms :: int where
  "ticks_per_ms = 1000000"

definition work_expired :: "time_point \<Rightarrow> Work \<Rightarrow> bool" where
  "work_expired now w \<longleftrightarrow> now \<ge> wk_deadline w"

definition work_stop_requested :: "time_point \<Rightarrow> Work \<Rightarrow> bool" where
  "work_stop_requested now w \<longleftrightarrow> wk_cancelled w \<or> work_expired now w"

definition work_remaining :: "time_point \<Rightarrow> Work \<Rightarrow> duration_ms" where
  "work_remaining now w =
     (if now \<ge> wk_deadline w then 0 else (wk_deadline w - now) div ticks_per_ms)"

definition work_transition :: "TurnState \<Rightarrow> Work \<Rightarrow> Work" where
  "work_transition state w = w\<lparr>wk_state := state\<rparr>"

definition work_cancel :: "Work \<Rightarrow> Work" where
  "work_cancel w = w\<lparr>wk_cancelled := True\<rparr>"

text \<open>The task \<open>submit\<close> wraps around a plain one; \<open>checked\<close> and \<open>now\<close> are its two clock reads.\<close>

definition submit_task ::
  "time_point \<Rightarrow> time_point \<Rightarrow> Work \<Rightarrow> string + string \<Rightarrow> string + string" where
  "submit_task checked now w outcome =
     (if work_stop_requested checked w
      then Inl (if work_expired now w then ''turn deadline exceeded'' else ''turn cancelled'')
      else outcome)"

section \<open>Client operations\<close>

definition executor_session :: "string \<Rightarrow> Executor \<Rightarrow> Session" where
  "executor_session sid s =
     (case map_of (ex_sessions s) sid of None \<Rightarrow> empty_session | Some session \<Rightarrow> session)"

definition executor_enqueue :: "string \<Rightarrow> Work \<Rightarrow> Executor \<Rightarrow> Executor" where
  "executor_enqueue sid work s =
     (let sessions = umap_emplace sid empty_session (ex_sessions s);
          session = executor_session sid s;
          session = session\<lparr>se_queue := se_queue session @ [length (ex_works s)]\<rparr>;
          wake = (\<not> se_scheduled session \<and> se_running session = None)
      in s\<lparr>ex_works := ex_works s @ [work],
           ex_pending_total := ex_pending_total s + 1,
           ex_sessions := umap_set sid
             (if wake then session\<lparr>se_scheduled := True\<rparr> else session) sessions,
           ex_ready_sessions := (if wake then ex_ready_sessions s @ [sid]
             else ex_ready_sessions s)\<rparr>)"

definition executor_submit_turn ::
  "time_point \<Rightarrow> string \<Rightarrow> TurnOptions \<Rightarrow> Executor \<Rightarrow> (executor_error + string) \<times> Executor" where
  "executor_submit_turn now sid options s =
     (if sid = [] then (Inl SessionIdRequired, s)
      else if to_timeout options \<le> 0 then (Inl TimeoutNotPositive, s)
      else if ex_stopping s then (Inl ExecutorStopped, s)
      else
        let (turn_id, s) = (if to_turn_id options = []
              then (to_string (unat (ex_next_turn_id s)),
                s\<lparr>ex_next_turn_id := ex_next_turn_id s + 1\<rparr>)
              else (to_turn_id options, s))
        in if map_of (ex_sessions s) sid \<noteq> None \<and>
            of_nat (length (se_queue (executor_session sid s)))
              \<ge> ec_max_pending_per_session (ex_config s)
        then (Inl SessionPendingLimit, s)
        else if ex_pending_total s \<ge> ec_max_pending_total (ex_config s)
        then (Inl ExecutorPendingLimit, s)
        else
          let trace_id = (if to_trace_id options = [] then sid @ '':'' @ turn_id
                          else to_trace_id options);
              work = \<lparr>wk_session_id = sid, wk_turn_id = turn_id, wk_trace_id = trace_id,
                wk_deadline = now + to_timeout options * ticks_per_ms, wk_cancelled = False,
                wk_state = Queued, wk_promise = Unset\<rparr>
          in (Inr turn_id, executor_enqueue sid work s))"

definition executor_submit ::
  "time_point \<Rightarrow> string \<Rightarrow> Executor \<Rightarrow> (executor_error + string) \<times> Executor" where
  "executor_submit now sid s = executor_submit_turn now sid default_turn_options s"

text \<open>Cancelling one session: its running turn is flagged, its queued turns are failed.\<close>

definition abort_work :: "string \<Rightarrow> Work \<Rightarrow> Work" where
  "abort_work reason w =
     (work_cancel w)\<lparr>wk_promise := promise_set (TurnException reason) (wk_promise w)\<rparr>"

definition update_work :: "nat \<Rightarrow> (Work \<Rightarrow> Work) \<Rightarrow> Work list \<Rightarrow> Work list" where
  "update_work i f works = works[i := f (works ! i)]"

definition abort_session :: "string \<Rightarrow> Session \<Rightarrow> Work list \<Rightarrow> Work list" where
  "abort_session reason session works =
     fold (\<lambda>i. update_work i (abort_work reason)) (se_queue session)
       (case se_running session of None \<Rightarrow> works | Some i \<Rightarrow> update_work i work_cancel works)"

definition executor_cancel_session :: "string \<Rightarrow> Executor \<Rightarrow> Executor" where
  "executor_cancel_session sid s =
     (case map_of (ex_sessions s) sid of
        None \<Rightarrow> s
      | Some session \<Rightarrow>
          s\<lparr>ex_works := abort_session ''turn cancelled'' session (ex_works s),
            ex_pending_total := ex_pending_total s - of_nat (length (se_queue session)),
            ex_sessions := umap_set sid (session\<lparr>se_queue := []\<rparr>) (ex_sessions s)\<rparr>)"

text \<open>The locked section of \<open>shutdown\<close>; its joins return when every worker has exited.\<close>

definition executor_shutdown :: "Executor \<Rightarrow> Executor" where
  "executor_shutdown s =
     (if ex_stopping s then s
      else s\<lparr>ex_stopping := True,
        ex_works := fold (\<lambda>(sid, session). abort_session ''executor stopped'' session)
          (ex_sessions s) (ex_works s),
        ex_pending_total := fold (\<lambda>(sid, session) total. total - of_nat (length (se_queue session)))
          (ex_sessions s) (ex_pending_total s),
        ex_sessions := map (\<lambda>(sid, session). (sid, session\<lparr>se_queue := []\<rparr>)) (ex_sessions s)\<rparr>)"

definition executor_joined :: "Executor \<Rightarrow> bool" where
  "executor_joined s \<longleftrightarrow> list_all (\<lambda>w. w = WorkerExited) (ex_workers s)"

section \<open>Workers\<close>

definition set_worker :: "nat \<Rightarrow> Worker \<Rightarrow> Executor \<Rightarrow> Executor" where
  "set_worker t pc s = s\<lparr>ex_workers := (ex_workers s)[t := pc]\<rparr>"

definition worker_ready :: "Executor \<Rightarrow> bool" where
  "worker_ready s \<longleftrightarrow> ex_stopping s \<or> ex_ready_sessions s \<noteq> []"

text \<open>The first locked section of the loop, entered when \<open>worker_ready\<close> holds.\<close>

definition worker_take :: "nat \<Rightarrow> Executor \<Rightarrow> Executor" where
  "worker_take t s =
     (case ex_ready_sessions s of
        [] \<Rightarrow> set_worker t WorkerExited s
      | sid # rest \<Rightarrow>
          let s = s\<lparr>ex_ready_sessions := rest\<rparr>
          in case map_of (ex_sessions s) sid of
            None \<Rightarrow> set_worker t WorkerCrashed s
          | Some session \<Rightarrow>
              (let session = session\<lparr>se_scheduled := False\<rparr>
               in case se_queue session of
                 [] \<Rightarrow> s\<lparr>ex_sessions := umap_set sid session (ex_sessions s)\<rparr>
               | i # queue \<Rightarrow> set_worker t (WorkerStarting sid i)
                   (s\<lparr>ex_sessions := umap_set sid
                        (session\<lparr>se_queue := queue, se_running := Some i\<rparr>) (ex_sessions s),
                      ex_pending_total := ex_pending_total s - 1\<rparr>)))"

text \<open>Outside the lock: the deadline check, the task and its outcome.\<close>

definition worker_start :: "nat \<Rightarrow> time_point \<Rightarrow> string \<Rightarrow> nat \<Rightarrow> Executor \<Rightarrow> Executor" where
  "worker_start t now sid i s =
     set_worker t (WorkerInTask sid i)
       (s\<lparr>ex_works := update_work i (\<lambda>w. work_transition Running
          (if work_expired now w then work_cancel w else w)) (ex_works s)\<rparr>)"

definition task_transition :: "TurnState \<Rightarrow> nat \<Rightarrow> Executor \<Rightarrow> Executor" where
  "task_transition state i s = s\<lparr>ex_works := update_work i (work_transition state) (ex_works s)\<rparr>"

definition finish_work :: "time_point \<Rightarrow> string + string \<Rightarrow> Work \<Rightarrow> Work" where
  "finish_work now outcome w =
     (case outcome of
        Inr v \<Rightarrow> work_transition Completed
          (w\<lparr>wk_promise := promise_set (TurnValue v) (wk_promise w)\<rparr>)
      | Inl e \<Rightarrow>
          (let w = work_transition (if work_expired now w then TimedOut
                else if wk_cancelled w then Cancelled else Failed) w
           in w\<lparr>wk_promise := promise_set (TurnException e) (wk_promise w)\<rparr>))"

definition worker_finish ::
  "nat \<Rightarrow> time_point \<Rightarrow> string + string \<Rightarrow> string \<Rightarrow> nat \<Rightarrow> Executor \<Rightarrow> Executor" where
  "worker_finish t now outcome sid i s =
     set_worker t (WorkerDone sid i)
       (s\<lparr>ex_works := update_work i (finish_work now outcome) (ex_works s)\<rparr>)"

text \<open>The last locked section: reschedule the session or drop its entry.\<close>

definition worker_release :: "nat \<Rightarrow> string \<Rightarrow> Executor \<Rightarrow> Executor" where
  "worker_release t sid s =
     (case map_of (ex_sessions s) sid of
        None \<Rightarrow> set_worker t WorkerCrashed s
      | Some session \<Rightarrow>
          (let session = session\<lparr>se_running := None\<rparr>
           in set_worker t WorkerWaiting
             (if se_queue session \<noteq> [] \<and> \<not> ex_stopping s
              then s\<lparr>ex_sessions := umap_set sid (session\<lparr>se_scheduled := True\<rparr>) (ex_sessions s),
                     ex_ready_sessions := ex_ready_sessions s @ [sid]\<rparr>
              else if se_queue session = []
              then s\<lparr>ex_sessions := umap_erase sid (ex_sessions s)\<rparr>
              else s\<lparr>ex_sessions := umap_set sid session (ex_sessions s)\<rparr>)))"

lemmas [executor_defs] = executor_enqueue_def executor_submit_turn_def executor_cancel_session_def
  executor_shutdown_def worker_take_def worker_start_def task_transition_def worker_finish_def
  worker_release_def set_worker_def update_work_def

section \<open>Steps\<close>

inductive executor_step :: "Executor \<Rightarrow> Executor \<Rightarrow> bool" where
  submit: "executor_step s (snd (executor_submit_turn now sid options s))"
| cancel: "executor_step s (executor_cancel_session sid s)"
| shutdown: "executor_step s (executor_shutdown s)"
| take: "t < length (ex_workers s) \<Longrightarrow> ex_workers s ! t = WorkerWaiting \<Longrightarrow> worker_ready s \<Longrightarrow>
    executor_step s (worker_take t s)"
| start: "t < length (ex_workers s) \<Longrightarrow> ex_workers s ! t = WorkerStarting sid i \<Longrightarrow>
    executor_step s (worker_start t now sid i s)"
| transition: "t < length (ex_workers s) \<Longrightarrow> ex_workers s ! t = WorkerInTask sid i \<Longrightarrow>
    executor_step s (task_transition state i s)"
| finish: "t < length (ex_workers s) \<Longrightarrow> ex_workers s ! t = WorkerInTask sid i \<Longrightarrow>
    executor_step s (worker_finish t now outcome sid i s)"
| release: "t < length (ex_workers s) \<Longrightarrow> ex_workers s ! t = WorkerDone sid i \<Longrightarrow>
    executor_step s (worker_release t sid s)"

inductive_cases executor_stepE: "executor_step s s'"

abbreviation executor_init :: "Executor \<Rightarrow> bool" where
  "executor_init s \<equiv> \<exists>hardware config. executor_new hardware config = Inr s"

section \<open>Invariant\<close>

text \<open>The turns of a session that have not ended, the running one first.\<close>

definition live :: "Session \<Rightarrow> nat list" where
  "live session = (case se_running session of None \<Rightarrow> [] | Some i \<Rightarrow> [i]) @ se_queue session"

definition session_ok :: "bool \<Rightarrow> Session \<Rightarrow> bool" where
  "session_ok stopping session \<longleftrightarrow>
     (se_scheduled session \<longrightarrow> se_running session = None) \<and>
     (se_running session = None \<and> se_queue session \<noteq> [] \<longrightarrow> se_scheduled session) \<and>
     (stopping \<longrightarrow> se_queue session = [])"

definition sched_inv :: "(string \<rightharpoonup> Session) \<Rightarrow> string list \<Rightarrow> bool \<Rightarrow> bool" where
  "sched_inv M ready stopping \<longleftrightarrow>
     distinct ready \<and>
     (\<forall>sid. sid \<in> set ready \<longleftrightarrow> (\<exists>session. M sid = Some session \<and> se_scheduled session)) \<and>
     (\<forall>sid session. M sid = Some session \<longrightarrow> session_ok stopping session)"

definition lane_ok :: "Work list \<Rightarrow> string \<Rightarrow> Session \<Rightarrow> bool" where
  "lane_ok works sid session \<longleftrightarrow>
     sorted_wrt (<) (live session) \<and>
     (\<forall>i\<in>set (live session). i < length works \<and> wk_session_id (works ! i) = sid) \<and>
     (\<forall>i\<in>set (se_queue session). wk_promise (works ! i) = Unset)"

definition work_ok :: "(string \<rightharpoonup> Session) \<Rightarrow> nat \<Rightarrow> Work \<Rightarrow> bool" where
  "work_ok M i w \<longleftrightarrow> wk_promise w \<noteq> Broken \<and>
     (wk_promise w = Unset \<longrightarrow>
       (\<exists>session. M (wk_session_id w) = Some session \<and> i \<in> set (live session)))"

definition work_inv :: "(string \<rightharpoonup> Session) \<Rightarrow> Work list \<Rightarrow> bool" where
  "work_inv M works \<longleftrightarrow>
     (\<forall>sid session. M sid = Some session \<longrightarrow> lane_ok works sid session) \<and>
     (\<forall>i < length works. work_ok M i (works ! i))"

fun busy :: "Worker \<Rightarrow> (string \<times> nat) option" where
  "busy (WorkerStarting sid i) = Some (sid, i)"
| "busy (WorkerInTask sid i) = Some (sid, i)"
| "busy (WorkerDone sid i) = Some (sid, i)"
| "busy _ = None"

definition runs :: "(string \<rightharpoonup> Session) \<Rightarrow> string \<Rightarrow> nat \<Rightarrow> bool" where
  "runs M sid i \<longleftrightarrow> (\<exists>session. M sid = Some session \<and> se_running session = Some i)"

fun worker_ok :: "Work list \<Rightarrow> bool \<Rightarrow> Worker \<Rightarrow> bool" where
  "worker_ok works stopping (WorkerStarting sid i) = (wk_promise (works ! i) = Unset)"
| "worker_ok works stopping (WorkerInTask sid i) = (wk_promise (works ! i) = Unset)"
| "worker_ok works stopping (WorkerDone sid i) = (wk_promise (works ! i) \<noteq> Unset)"
| "worker_ok works stopping WorkerCrashed = False"
| "worker_ok works stopping WorkerExited = stopping"
| "worker_ok works stopping WorkerWaiting = True"

text \<open>The running turns are exactly the ones a worker holds, and one worker holds each.\<close>

definition worker_inv :: "(string \<rightharpoonup> Session) \<Rightarrow> Work list \<Rightarrow> Worker list \<Rightarrow> bool \<Rightarrow> bool" where
  "worker_inv M works workers stopping \<longleftrightarrow>
     (\<forall>pc\<in>set workers. worker_ok works stopping pc) \<and>
     (\<forall>sid i. runs M sid i \<longleftrightarrow> (\<exists>t < length workers. busy (workers ! t) = Some (sid, i))) \<and>
     (\<forall>t u sid i j. t < length workers \<and> u < length workers \<and>
        busy (workers ! t) = Some (sid, i) \<and> busy (workers ! u) = Some (sid, j) \<longrightarrow> t = u)"

definition queued :: "(string, Session) umap \<Rightarrow> nat" where
  "queued = umap_sum (length \<circ> se_queue)"

definition count_inv :: "Executor \<Rightarrow> bool" where
  "count_inv s \<longleftrightarrow> umap_wf (ex_sessions s) \<and> ec_max_pending_per_session (ex_config s) \<noteq> 0 \<and>
     unat (ex_pending_total s) = queued (ex_sessions s) \<and>
     ex_pending_total s \<le> ec_max_pending_total (ex_config s) \<and>
     (\<forall>sid session. map_of (ex_sessions s) sid = Some session \<longrightarrow>
        length (se_queue session) \<le> unat (ec_max_pending_per_session (ex_config s)))"

definition executor_inv :: "Executor \<Rightarrow> bool" where
  "executor_inv s \<longleftrightarrow> count_inv s \<and>
     sched_inv (map_of (ex_sessions s)) (ex_ready_sessions s) (ex_stopping s) \<and>
     work_inv (map_of (ex_sessions s)) (ex_works s) \<and>
     worker_inv (map_of (ex_sessions s)) (ex_works s) (ex_workers s) (ex_stopping s)"

lemma executor_inv_init: "executor_init s \<Longrightarrow> executor_inv s"
  by (auto simp: executor_new_def executor_inv_def count_inv_def sched_inv_def work_inv_def
      worker_inv_def runs_def queued_def Let_def split: if_splits)

lemma sched_inv_update:
  assumes "sched_inv M ready stopping" and "session_ok stopping session" and "distinct ready'"
    and "\<And>k. k \<in> set ready' \<longleftrightarrow> (if k = sid then se_scheduled session else k \<in> set ready)"
  shows "sched_inv (M(sid \<mapsto> session)) ready' stopping"
  using assms by (auto simp: sched_inv_def)

lemma sched_inv_remove:
  assumes "sched_inv M ready stopping" and "sid \<notin> set ready"
  shows "sched_inv (M(sid := None)) ready stopping"
  using assms by (auto simp: sched_inv_def)

text \<open>Changing one session: the other lanes are not affected.\<close>

lemma queue_live: "i \<in> set (se_queue session) \<Longrightarrow> i \<in> set (live session)"
  by (simp add: live_def)

lemma lane_ok_cong:
  assumes "lane_ok works sid session"
    and "\<And>i. i \<in> set (live session) \<Longrightarrow> i < length works \<Longrightarrow> wk_session_id (works ! i) = sid \<Longrightarrow>
      i < length works' \<and> wk_session_id (works' ! i) = sid \<and>
      wk_promise (works' ! i) = wk_promise (works ! i)"
  shows "lane_ok works' sid session"
  using assms unfolding lane_ok_def by (blast dest: queue_live intro: trans)

lemma work_inv_update:
  assumes "work_inv M works" and "length works \<le> length works'"
    and "lane_ok works' sid session"
    and "\<And>i. i < length works \<Longrightarrow> wk_session_id (works ! i) \<noteq> sid \<Longrightarrow>
      wk_session_id (works' ! i) = wk_session_id (works ! i) \<and> wk_promise (works' ! i) = wk_promise (works ! i)"
    and "\<And>i. i < length works' \<Longrightarrow> length works \<le> i \<or> wk_session_id (works ! i) = sid \<Longrightarrow>
      wk_session_id (works' ! i) = sid \<and> wk_promise (works' ! i) \<noteq> Broken \<and>
      (wk_promise (works' ! i) = Unset \<longrightarrow> i \<in> set (live session))"
  shows "work_inv (M(sid \<mapsto> session)) works'"
proof -
  have "lane_ok works' k other" if "M k = Some other" "k \<noteq> sid" for k other
  proof (rule lane_ok_cong)
    show "lane_ok works k other" using that(1) assms(1) by (simp add: work_inv_def)
    show "i < length works' \<and> wk_session_id (works' ! i) = k \<and>
        wk_promise (works' ! i) = wk_promise (works ! i)"
      if "i < length works" "wk_session_id (works ! i) = k" for i
      using that \<open>k \<noteq> sid\<close> assms(2) assms(4) [of i] by simp
  qed
  moreover have "work_ok (M(sid \<mapsto> session)) i (works' ! i)" if "i < length works'" for i
  proof (cases "length works \<le> i \<or> wk_session_id (works ! i) = sid")
    case True
    with that assms(5) show ?thesis by (simp add: work_ok_def)
  next
    case False
    with assms(1,4) show ?thesis by (auto simp: work_inv_def work_ok_def)
  qed
  ultimately show ?thesis using assms(3) by (auto simp: work_inv_def)
qed

lemma worker_inv_frame:
  assumes "worker_inv M works workers stopping"
    and "\<And>sid i. runs M' sid i = runs M sid i"
    and "\<And>sid i. runs M sid i \<Longrightarrow> wk_promise (works' ! i) = Unset \<longleftrightarrow> wk_promise (works ! i) = Unset"
    and "stopping \<longrightarrow> stopping'"
  shows "worker_inv M' works' workers stopping'"
proof -
  have "worker_ok works' stopping' pc" if "pc \<in> set workers" for pc
  proof -
    have "worker_ok works stopping pc" using that assms(1) by (simp add: worker_inv_def)
    moreover have "runs M sid i" if "busy pc = Some (sid, i)" for sid i
      using that \<open>pc \<in> set workers\<close> assms(1) unfolding worker_inv_def by (metis in_set_conv_nth)
    ultimately show ?thesis using assms(3,4) by (cases pc) auto
  qed
  with assms(1,2) show ?thesis by (simp add: worker_inv_def)
qed

text \<open>One worker moves: its own check, and the turns it takes up or lets go.\<close>

lemma worker_inv_move:
  assumes "worker_inv M works workers stopping" and "t < length workers"
    and "worker_ok works' stopping pc"
    and "\<And>sid i. runs M' sid i \<longleftrightarrow>
      busy pc = Some (sid, i) \<or> (runs M sid i \<and> busy (workers ! t) \<noteq> Some (sid, i))"
    and "\<And>sid i. runs M sid i \<Longrightarrow> busy (workers ! t) \<noteq> Some (sid, i) \<Longrightarrow>
      wk_promise (works' ! i) = Unset \<longleftrightarrow> wk_promise (works ! i) = Unset"
    and "\<And>sid i. busy pc = Some (sid, i) \<Longrightarrow> (\<exists>j. busy (workers ! t) = Some (sid, j)) \<or> (\<forall>j. \<not> runs M sid j)"
  shows "worker_inv M' works' (workers[t := pc]) stopping"
proof -
  let ?b = "\<lambda>u. busy (workers ! u)"
  have ok: "\<And>pc. pc \<in> set workers \<Longrightarrow> worker_ok works stopping pc"
    and runs: "\<And>sid i. runs M sid i \<longleftrightarrow> (\<exists>u < length workers. ?b u = Some (sid, i))"
    and uniq: "\<And>u v sid i j. u < length workers \<Longrightarrow> v < length workers \<Longrightarrow>
      ?b u = Some (sid, i) \<Longrightarrow> ?b v = Some (sid, j) \<Longrightarrow> u = v"
    using assms(1) unfolding worker_inv_def by blast+
  have other: "busy (workers[t := pc] ! u) = (if u = t then busy pc else ?b u)" if "u < length workers" for u
    using that by simp
  have "worker_ok works' stopping (workers[t := pc] ! u)" if u: "u < length workers" for u
  proof (cases "u = t")
    case False
    have "?b t \<noteq> Some (sid, i)" "runs M sid i" if "?b u = Some (sid, i)" for sid i
      using that False u assms(2) uniq runs by blast+
    with ok [OF nth_mem [OF u]] assms(5) u False show ?thesis by (cases "workers ! u") auto
  qed (use assms(2,3) in simp)
  moreover have "runs M' sid i \<longleftrightarrow> (\<exists>u < length workers. busy (workers[t := pc] ! u) = Some (sid, i))" for sid i
  proof -
    have "(\<exists>u < length workers. busy (workers[t := pc] ! u) = Some (sid, i)) \<longleftrightarrow>
        busy pc = Some (sid, i) \<or> (\<exists>u < length workers. u \<noteq> t \<and> ?b u = Some (sid, i))"
      using assms(2) other by (metis (no_types, lifting))
    also have "(\<exists>u < length workers. u \<noteq> t \<and> ?b u = Some (sid, i)) \<longleftrightarrow>
        runs M sid i \<and> ?b t \<noteq> Some (sid, i)"
      using assms(2) runs uniq by blast
    finally show ?thesis using assms(4) by blast
  qed
  moreover have "u = v" if "u < length workers" "v < length workers"
      "busy (workers[t := pc] ! u) = Some (sid, i)" "busy (workers[t := pc] ! v) = Some (sid, j)" for u v sid i j
  proof -
    have clash: "x = t" if "x < length workers" "?b x = Some (sid, a)" "busy pc = Some (sid, b)" for x a b
      using that assms(2) assms(6) [OF that(3)] uniq runs by blast
    show ?thesis using that other clash uniq by (metis (no_types, lifting))
  qed
  ultimately show ?thesis unfolding worker_inv_def by (auto simp: in_set_conv_nth)
qed

section \<open>Client operations keep the invariant\<close>

lemma runs_update [simp]:
  "runs (M(k \<mapsto> session)) sid i \<longleftrightarrow> (if sid = k then se_running session = Some i else runs M sid i)"
  by (simp add: runs_def)

lemma runs_remove [simp]: "runs (M(k := None)) sid i \<longleftrightarrow> sid \<noteq> k \<and> runs M sid i"
  by (simp add: runs_def)

lemma live_simps [simp]:
  "live (session\<lparr>se_scheduled := b\<rparr>) = live session"
  "live (session\<lparr>se_queue := q\<rparr>) = (case se_running session of None \<Rightarrow> [] | Some i \<Rightarrow> [i]) @ q"
  "live (session\<lparr>se_running := None\<rparr>) = se_queue session"
  "live empty_session = []"
  by (simp_all add: live_def empty_session_def)

lemma executor_session_some [simp]:
  "map_of (ex_sessions s) sid = Some session \<Longrightarrow> executor_session sid s = session"
  by (simp add: executor_session_def)

lemma executor_session_none [simp]:
  "map_of (ex_sessions s) sid = None \<Longrightarrow> executor_session sid s = empty_session"
  by (simp add: executor_session_def)

lemma executor_session_ok:
  assumes "executor_inv s"
  shows "session_ok (ex_stopping s) (executor_session sid s)"
    and "lane_ok (ex_works s) sid (executor_session sid s)"
    and "length (se_queue (executor_session sid s)) \<le> unat (ec_max_pending_per_session (ex_config s))"
    and "sid \<in> set (ex_ready_sessions s) \<longleftrightarrow> se_scheduled (executor_session sid s)"
    and "runs (map_of (ex_sessions s)) sid i \<longleftrightarrow> se_running (executor_session sid s) = Some i"
  using assms
  by (cases "map_of (ex_sessions s) sid";
      auto simp: executor_inv_def sched_inv_def work_inv_def count_inv_def session_ok_def lane_ok_def
        empty_session_def runs_def live_def)+

lemma map_of_enqueue:
  "map_of (umap_set sid session (umap_emplace sid e m)) = (map_of m)(sid \<mapsto> session)"
  by (auto simp: umap_simps)

lemma queued_enqueue:
  assumes "umap_wf m"
  shows "queued (umap_set sid session (umap_emplace sid empty_session m))
    + length (se_queue (case map_of m sid of None \<Rightarrow> empty_session | Some x \<Rightarrow> x))
    = queued m + length (se_queue session)"
proof (cases "map_of m sid")
  case None
  then have "map_of (umap_emplace sid empty_session m) sid = Some empty_session"
    by (simp add: umap_simps)
  from umap_sum_set [OF umap_wf_emplace [OF assms] this, of "length \<circ> se_queue" session] None
  show ?thesis by (simp add: queued_def umap_simps empty_session_def)
next
  case (Some x)
  then have "map_of (umap_emplace sid empty_session m) sid = Some x" by (simp add: umap_simps)
  from umap_sum_set [OF umap_wf_emplace [OF assms] this, of "length \<circ> se_queue" session] Some
  show ?thesis by (simp add: queued_def umap_simps)
qed

lemma executor_inv_enqueue:
  assumes inv: "executor_inv s" and "\<not> ex_stopping s"
    and "wk_session_id work = sid" and "wk_promise work = Unset"
    and "length (se_queue (executor_session sid s)) < unat (ec_max_pending_per_session (ex_config s))"
    and "ex_pending_total s < ec_max_pending_total (ex_config s)"
  shows "executor_inv (executor_enqueue sid work s)"
proof -
  let ?M = "map_of (ex_sessions s)" and ?old = "executor_session sid s" and ?n = "length (ex_works s)"
  let ?wake = "\<not> se_scheduled ?old \<and> se_running ?old = None"
  define new where "new = (let q = ?old\<lparr>se_queue := se_queue ?old @ [?n]\<rparr>
    in if ?wake then q\<lparr>se_scheduled := True\<rparr> else q)"
  have new_simps: "se_queue new = se_queue ?old @ [?n]" "se_running new = se_running ?old"
      "se_scheduled new \<longleftrightarrow> se_scheduled ?old \<or> ?wake" "live new = live ?old @ [?n]"
    by (auto simp: new_def Let_def live_def)
  have new: "executor_enqueue sid work s = s\<lparr>ex_works := ex_works s @ [work],
      ex_pending_total := ex_pending_total s + 1,
      ex_sessions := umap_set sid new (umap_emplace sid empty_session (ex_sessions s)),
      ex_ready_sessions := (if ?wake then ex_ready_sessions s @ [sid] else ex_ready_sessions s)\<rparr>"
    by (simp add: executor_enqueue_def new_def Let_def cong: if_cong)
  note ok = executor_session_ok [OF inv, of sid]
  have old: "map_of (umap_set sid new (umap_emplace sid empty_session (ex_sessions s))) = ?M(sid \<mapsto> new)"
    by (rule map_of_enqueue)
  have "sched_inv (?M(sid \<mapsto> new)) (if ?wake then ex_ready_sessions s @ [sid] else ex_ready_sessions s) (ex_stopping s)"
  proof (rule sched_inv_update)
    show "sched_inv ?M (ex_ready_sessions s) (ex_stopping s)" using inv by (simp add: executor_inv_def)
    then show "distinct (if ?wake then ex_ready_sessions s @ [sid] else ex_ready_sessions s)"
      using ok(4) by (simp add: sched_inv_def)
    show "session_ok (ex_stopping s) new" using ok(1) assms(2) by (auto simp: session_ok_def new_simps)
  qed (use ok(4) in \<open>auto simp: new_simps\<close>)
  moreover have "work_inv (?M(sid \<mapsto> new)) (ex_works s @ [work])"
  proof (rule work_inv_update)
    show w: "work_inv ?M (ex_works s)" using inv by (simp add: executor_inv_def)
    show "lane_ok (ex_works s @ [work]) sid new"
      using ok(2) assms(3,4)
      by (auto simp: lane_ok_def new_simps sorted_wrt_append nth_append dest: queue_live)
    show "wk_session_id ((ex_works s @ [work]) ! i) = sid \<and>
        wk_promise ((ex_works s @ [work]) ! i) \<noteq> Broken \<and>
        (wk_promise ((ex_works s @ [work]) ! i) = Unset \<longrightarrow> i \<in> set (live new))"
      if "i < length (ex_works s @ [work])" "?n \<le> i \<or> wk_session_id (ex_works s ! i) = sid" for i
    proof (cases "i < ?n")
      case True
      with that w have "work_ok ?M i (ex_works s ! i)" by (simp add: work_inv_def)
      with True that show ?thesis
        by (auto simp: work_ok_def nth_append new_simps)
    next
      case False
      with that assms(3,4) show ?thesis by (auto simp: nth_append new_simps less_Suc_eq)
    qed
  qed (simp_all add: nth_append)
  moreover have "worker_inv (?M(sid \<mapsto> new)) (ex_works s @ [work]) (ex_workers s) (ex_stopping s)"
  proof (rule worker_inv_frame)
    show "worker_inv ?M (ex_works s) (ex_workers s) (ex_stopping s)" using inv by (simp add: executor_inv_def)
    show "runs (?M(sid \<mapsto> new)) k i = runs ?M k i" for k i using ok(5) by (simp add: new_simps)
    show "wk_promise ((ex_works s @ [work]) ! i) = Unset \<longleftrightarrow> wk_promise (ex_works s ! i) = Unset"
      if "runs ?M k i" for k i
      using that executor_session_ok(2,5) [OF inv, of k] by (auto simp: lane_ok_def live_def nth_append)
  qed simp
  moreover have "count_inv (executor_enqueue sid work s)"
  proof -
    have wf: "umap_wf (ex_sessions s)" and c: "unat (ex_pending_total s) = queued (ex_sessions s)"
      and k: "\<And>k session. ?M k = Some session \<Longrightarrow> length (se_queue session) \<le> unat (ec_max_pending_per_session (ex_config s))"
      using inv by (auto simp: executor_inv_def count_inv_def)
    have "unat (ex_pending_total s + 1) = Suc (unat (ex_pending_total s))"
      using assms(6) by (intro u64_inc_unat u64_less_not_max)
    moreover have "queued (umap_set sid new (umap_emplace sid empty_session (ex_sessions s))) = Suc (queued (ex_sessions s))"
      using queued_enqueue [OF wf, of sid new] by (simp add: new_simps executor_session_def)
    ultimately show ?thesis
      unfolding new count_inv_def using wf c k assms(5,6)
      by (auto simp: old umap_simps new_simps word_less_nat_alt word_le_nat_alt)
  qed
  ultimately show ?thesis unfolding executor_inv_def by (simp add: new old)
qed

lemma executor_inv_next_turn [simp]:
  "executor_inv (s\<lparr>ex_next_turn_id := n\<rparr>) = executor_inv s"
  by (simp add: executor_inv_def count_inv_def)

lemma executor_session_next_turn [simp]:
  "executor_session sid (s\<lparr>ex_next_turn_id := n\<rparr>) = executor_session sid s"
  by (simp add: executor_session_def)

lemma session_below_limit:
  assumes "executor_inv s"
    and "\<not> (map_of (ex_sessions s) sid \<noteq> None \<and>
      of_nat (length (se_queue (executor_session sid s))) \<ge> ec_max_pending_per_session (ex_config s))"
  shows "length (se_queue (executor_session sid s)) < unat (ec_max_pending_per_session (ex_config s))"
proof (cases "map_of (ex_sessions s) sid")
  case None
  with assms(1) show ?thesis
    by (simp add: executor_inv_def count_inv_def empty_session_def unat_gt_0)
next
  case (Some session)
  let ?max = "ec_max_pending_per_session (ex_config s)" and ?n = "length (se_queue (executor_session sid s))"
  have "unat ?max < 2 ^ LENGTH(64)" by (rule unsigned_less)
  then have "?n < 2 ^ 64" using executor_session_ok(3) [OF assms(1), of sid] by simp
  moreover have "(of_nat ?n :: u64) < ?max" using assms(2) Some by simp
  ultimately show ?thesis by (simp add: word_less_nat_alt u64_of_nat)
qed

lemma executor_inv_submit:
  assumes "executor_inv s"
  shows "executor_inv (snd (executor_submit_turn now sid options s))"
  using assms session_below_limit [OF assms, of sid]
  unfolding executor_submit_turn_def Let_def
  by (auto intro!: executor_inv_enqueue simp: not_le)

lemma update_work_simps [simp]:
  "length (update_work i f works) = length works"
  "j < length works \<Longrightarrow> update_work i f works ! j = (if i = j then f (works ! j) else works ! j)"
  by (simp_all add: update_work_def nth_list_update)

lemma fold_abort:
  assumes "distinct q"
  shows "length (fold (\<lambda>i. update_work i f) q works) = length works"
    and "j < length works \<Longrightarrow>
      fold (\<lambda>i. update_work i f) q works ! j = (if j \<in> set q then f (works ! j) else works ! j)"
  using assms by (induction q arbitrary: works) auto

lemma live_distinct: "lane_ok works sid session \<Longrightarrow> distinct (live session)"
  unfolding lane_ok_def by (meson strict_sorted_iff)

lemma abort_session_nth:
  assumes "distinct (live session)"
  shows "length (abort_session reason session works) = length works"
    and "j < length works \<Longrightarrow> abort_session reason session works ! j =
      (if j \<in> set (se_queue session) then abort_work reason (works ! j)
       else if se_running session = Some j then work_cancel (works ! j) else works ! j)"
proof -
  have d: "distinct (se_queue session)" "\<And>i. se_running session = Some i \<Longrightarrow> i \<notin> set (se_queue session)"
    using assms by (auto simp: live_def)
  show "length (abort_session reason session works) = length works"
    by (simp add: abort_session_def fold_abort(1) [OF d(1)] split: option.split)
  show "abort_session reason session works ! j =
      (if j \<in> set (se_queue session) then abort_work reason (works ! j)
       else if se_running session = Some j then work_cancel (works ! j) else works ! j)"
    if "j < length works"
    using that d(2) by (auto simp: abort_session_def fold_abort(2) [OF d(1)] split: option.split)
qed

lemma abort_work_simps [simp]:
  "wk_session_id (abort_work reason w) = wk_session_id w"
  "wk_promise (abort_work reason w) = promise_set (TurnException reason) (wk_promise w)"
  "wk_session_id (work_cancel w) = wk_session_id w"
  "wk_promise (work_cancel w) = wk_promise w"
  by (simp_all add: abort_work_def work_cancel_def)

text \<open>What aborting a lane does to the works: its queued promises are set, once.\<close>

lemma abort_session_work_inv:
  assumes "work_inv M works" and "M sid = Some session"
  shows "work_inv (M(sid \<mapsto> session\<lparr>se_queue := []\<rparr>)) (abort_session reason session works)"
proof -
  have l: "lane_ok works sid session" using assms by (simp add: work_inv_def)
  note nth = abort_session_nth [OF live_distinct [OF l], where reason = reason and works = works]
  have q: "\<And>i. i \<in> set (se_queue session) \<Longrightarrow> i < length works \<and> wk_session_id (works ! i) = sid \<and> wk_promise (works ! i) = Unset"
    and r: "\<And>i. se_running session = Some i \<Longrightarrow> i < length works \<and> wk_session_id (works ! i) = sid \<and> i \<notin> set (se_queue session)"
    using l live_distinct [OF l] by (auto simp: lane_ok_def live_def)
  show ?thesis
  proof (rule work_inv_update [OF assms(1)])
    show "lane_ok (abort_session reason session works) sid (session\<lparr>se_queue := []\<rparr>)"
      using r by (cases "se_running session") (simp_all add: lane_ok_def nth)
    show "wk_session_id (abort_session reason session works ! i) = sid \<and>
        wk_promise (abort_session reason session works ! i) \<noteq> Broken \<and>
        (wk_promise (abort_session reason session works ! i) = Unset \<longrightarrow>
          i \<in> set (live (session\<lparr>se_queue := []\<rparr>)))"
      if "i < length (abort_session reason session works)"
        "length works \<le> i \<or> wk_session_id (works ! i) = sid" for i
    proof -
      have i: "i < length works" "wk_session_id (works ! i) = sid" using that by (auto simp: nth)
      then have "work_ok M i (works ! i)" using assms(1) by (simp add: work_inv_def)
      with i q [of i] assms(2) show ?thesis
        by (cases "i \<in> set (se_queue session)"; cases "se_running session")
          (simp_all add: nth work_ok_def live_def)
    qed
    show "wk_session_id (abort_session reason session works ! i) = wk_session_id (works ! i) \<and>
        wk_promise (abort_session reason session works ! i) = wk_promise (works ! i)"
      if "i < length works" "wk_session_id (works ! i) \<noteq> sid" for i
      using that q [of i] by (simp add: nth) blast
  qed (simp add: nth(1))
qed

lemma abort_session_promise:
  assumes "lane_ok works sid session" and "i < length works" and "i \<notin> set (se_queue session)"
  shows "wk_promise (abort_session reason session works ! i) = wk_promise (works ! i)"
  using assms by (simp add: abort_session_nth [OF live_distinct [OF assms(1)]])

lemma executor_inv_cancel:
  assumes inv: "executor_inv s"
  shows "executor_inv (executor_cancel_session sid s)"
proof (cases "map_of (ex_sessions s) sid")
  case (Some session)
  let ?M = "map_of (ex_sessions s)" and ?new = "session\<lparr>se_queue := []\<rparr>"
  note ok = executor_session_ok [OF inv, of sid, unfolded executor_session_some [OF Some]]
  have M: "map_of (umap_set sid ?new (ex_sessions s)) = ?M(sid \<mapsto> ?new)" using Some by (simp add: umap_simps)
  have sched: "sched_inv (?M(sid \<mapsto> ?new)) (ex_ready_sessions s) (ex_stopping s)"
    using inv ok(1,4) by (intro sched_inv_update) (auto simp: executor_inv_def sched_inv_def session_ok_def)
  have work: "work_inv (?M(sid \<mapsto> ?new)) (abort_session ''turn cancelled'' session (ex_works s))"
    using inv Some by (intro abort_session_work_inv) (simp_all add: executor_inv_def)
  have "worker_inv (?M(sid \<mapsto> ?new)) (abort_session ''turn cancelled'' session (ex_works s)) (ex_workers s) (ex_stopping s)"
  proof (rule worker_inv_frame)
    show "worker_inv ?M (ex_works s) (ex_workers s) (ex_stopping s)" using inv by (simp add: executor_inv_def)
    show "runs (?M(sid \<mapsto> ?new)) k i = runs ?M k i" for k i using ok(5) by simp
    show "wk_promise (abort_session ''turn cancelled'' session (ex_works s) ! i) = Unset \<longleftrightarrow>
        wk_promise (ex_works s ! i) = Unset" if "runs ?M k i" for k i
    proof -
      have i: "i < length (ex_works s)" "wk_session_id (ex_works s ! i) = k"
        using that executor_session_ok(2,5) [OF inv, of k] by (auto simp: lane_ok_def live_def)
      moreover have "i \<notin> set (se_queue session)"
      proof
        assume q: "i \<in> set (se_queue session)"
        then have "k = sid" using ok(2) i(2) by (auto simp: lane_ok_def dest: queue_live)
        with that ok(5) q live_distinct [OF ok(2)] show False by (auto simp: live_def)
      qed
      ultimately show ?thesis by (simp add: abort_session_promise [OF ok(2)])
    qed
  qed simp
  moreover have "count_inv (executor_cancel_session sid s)"
  proof -
    have c: "count_inv s" using inv by (simp add: executor_inv_def)
    have sum: "queued (umap_set sid ?new (ex_sessions s)) + length (se_queue session) = queued (ex_sessions s)"
      using umap_sum_set [of "ex_sessions s" sid session "length \<circ> se_queue" ?new] c Some
      by (simp add: queued_def count_inv_def)
    have len: "unat (of_nat (length (se_queue session)) :: u64) = length (se_queue session)"
    proof (rule u64_of_nat)
      have "unat (ec_max_pending_per_session (ex_config s)) < 2 ^ LENGTH(64)" by (rule unsigned_less)
      then show "length (se_queue session) < 2 ^ 64" using ok(3) by simp
    qed
    have le: "of_nat (length (se_queue session)) \<le> ex_pending_total s"
      using sum c by (simp add: word_le_nat_alt len count_inv_def)
    then have "unat (ex_pending_total s - of_nat (length (se_queue session)))
        = queued (umap_set sid ?new (ex_sessions s))"
      using sum c by (simp add: unat_sub len count_inv_def)
    moreover have "queued (ex_sessions s) \<le> unat (ec_max_pending_total (ex_config s))"
      using c by (simp add: count_inv_def word_le_nat_alt)
    ultimately show ?thesis
      using c Some sum unfolding executor_cancel_session_def count_inv_def
      by (auto simp: M umap_simps word_le_nat_alt split: if_splits)
  qed
  ultimately show ?thesis
    using sched work Some by (simp add: executor_inv_def executor_cancel_session_def M)
qed (use inv in \<open>simp add: executor_cancel_session_def\<close>)

text \<open>Shutdown aborts every lane; what that does to one work depends on its own session only.\<close>

definition aborted :: "string \<Rightarrow> (string \<rightharpoonup> Session) \<Rightarrow> nat \<Rightarrow> Work \<Rightarrow> Work" where
  "aborted reason M i w =
     (case M (wk_session_id w) of
        None \<Rightarrow> w
      | Some session \<Rightarrow>
          if i \<in> set (se_queue session) then abort_work reason w
          else if se_running session = Some i then work_cancel w else w)"

abbreviation abort_all :: "string \<Rightarrow> (string, Session) umap \<Rightarrow> Work list \<Rightarrow> Work list" where
  "abort_all reason \<equiv> fold (\<lambda>(sid, session). abort_session reason session)"

lemma abort_session_view:
  assumes "lane_ok works sid session" and "j < length works"
  shows "abort_session reason session works ! j = aborted reason [sid \<mapsto> session] j (works ! j)"
proof (cases "wk_session_id (works ! j) = sid")
  case True
  then show ?thesis using assms by (simp add: abort_session_nth [OF live_distinct [OF assms(1)]] aborted_def)
next
  case False
  then have "j \<notin> set (live session)" using assms(1) by (auto simp: lane_ok_def)
  with False assms show ?thesis
    by (auto simp: abort_session_nth [OF live_distinct [OF assms(1)]] aborted_def live_def)
qed

lemma abort_all_view:
  assumes "umap_wf m" and "\<And>sid session. (sid, session) \<in> set m \<Longrightarrow> lane_ok works sid session"
  shows "length (abort_all reason m works) = length works \<and>
    (\<forall>j < length works. abort_all reason m works ! j = aborted reason (map_of m) j (works ! j))"
  using assms
proof (induction m arbitrary: works)
  case Nil
  then show ?case by (simp add: aborted_def)
next
  case (Cons p m)
  obtain k session where p: "p = (k, session)" by (cases p)
  have l: "lane_ok works k session" using Cons.prems(2) p by simp
  let ?w = "abort_session reason session works"
  have len: "length ?w = length works" by (rule abort_session_nth(1) [OF live_distinct [OF l]])
  note view = abort_session_view [OF l, of _ reason]
  have k: "map_of m k = None" and wf: "umap_wf m"
    using Cons.prems(1) p by (auto simp: umap_wf_def map_of_eq_None_iff)
  have "lane_ok ?w sid other" if "(sid, other) \<in> set m" for sid other
  proof (rule lane_ok_cong)
    show "lane_ok works sid other" using that Cons.prems(2) by simp
    have "sid \<noteq> k" using that k by (auto simp: map_of_eq_None_iff intro: rev_image_eqI)
    then show "i < length ?w \<and> wk_session_id (?w ! i) = sid \<and> wk_promise (?w ! i) = wk_promise (works ! i)"
      if "i < length works" "wk_session_id (works ! i) = sid" for i
      using that by (simp add: len view aborted_def)
  qed
  from Cons.IH [OF wf this] have IH: "length (abort_all reason m ?w) = length works"
    "\<And>j. j < length works \<Longrightarrow> abort_all reason m ?w ! j = aborted reason (map_of m) j (?w ! j)"
    by (simp_all add: len)
  have eq: "aborted reason (map_of m) j (?w ! j) = aborted reason (map_of (p # m)) j (works ! j)"
    if "j < length works" for j
    using k by (cases "wk_session_id (works ! j) = k") (simp_all add: view [OF that] p aborted_def)
  have "abort_all reason (p # m) works = abort_all reason m ?w" by (simp add: p)
  with IH eq show ?case by metis
qed

lemma fold_pending:
  "fold (\<lambda>(sid, session) total. total - of_nat (length (se_queue session))) m p = (p :: u64) - of_nat (queued m)"
  by (induction m arbitrary: p) (auto simp: queued_def umap_sum_def algebra_simps)

lemma map_of_clear:
  "map_of (map (\<lambda>(sid, session). (sid, f session)) m) = (\<lambda>sid. map_option f (map_of m sid))"
  by (induction m) auto

lemma umap_wf_clear: "umap_wf (map (\<lambda>(sid, session). (sid, f session)) m) = umap_wf m"
  by (simp add: umap_wf_def comp_def case_prod_unfold)

lemma executor_inv_shutdown:
  assumes inv: "executor_inv s"
  shows "executor_inv (executor_shutdown s)"
proof (cases "ex_stopping s")
  case False
  let ?M = "map_of (ex_sessions s)" and ?clear = "\<lambda>session :: Session. session\<lparr>se_queue := []\<rparr>"
  let ?N = "\<lambda>sid. map_option ?clear (?M sid)"
  let ?w = "abort_all ''executor stopped'' (ex_sessions s) (ex_works s)"
  have c: "count_inv s" and wi: "work_inv ?M (ex_works s)" and si: "sched_inv ?M (ex_ready_sessions s) False"
    and ki: "worker_inv ?M (ex_works s) (ex_workers s) False"
    using inv False by (simp_all add: executor_inv_def)
  have lanes: "\<And>sid session. (sid, session) \<in> set (ex_sessions s) \<Longrightarrow> lane_ok (ex_works s) sid session"
    using wi c by (simp add: work_inv_def count_inv_def umap_wf_def)
  have len: "length ?w = length (ex_works s)"
    and view: "\<And>j. j < length (ex_works s) \<Longrightarrow> ?w ! j = aborted ''executor stopped'' ?M j (ex_works s ! j)"
    using abort_all_view [OF _ lanes, of _ "''executor stopped''"] c by (auto simp: count_inv_def)
  have same: "wk_session_id (aborted r M j w) = wk_session_id w" for r M j w
    by (simp add: aborted_def split: option.split)
  have running: "j < length (ex_works s)" "wk_session_id (ex_works s ! j) = sid"
      "j \<notin> set (se_queue session)" if "?M sid = Some session" "se_running session = Some j" for sid session j
  proof -
    have l: "lane_ok (ex_works s) sid session" using wi that by (simp add: work_inv_def)
    from live_distinct [OF l] that show "j \<notin> set (se_queue session)" by (simp add: live_def)
    from l that show "j < length (ex_works s)" "wk_session_id (ex_works s ! j) = sid"
      by (simp_all add: lane_ok_def live_def)
  qed
  have keep: "wk_promise (?w ! j) = wk_promise (ex_works s ! j)" if "runs ?M sid j" for sid j
    using that running [of sid _ j] by (auto simp: runs_def view aborted_def)
  have lane: "lane_ok ?w sid (?clear session)" if "?M sid = Some session" for sid session
    using running [OF that]
    by (cases "se_running session") (auto simp: lane_ok_def live_def len view same)
  have "sched_inv ?N (ex_ready_sessions s) True"
    using si by (auto simp: sched_inv_def session_ok_def)
  moreover have "work_inv ?N ?w"
    unfolding work_inv_def
  proof (intro conjI allI impI)
    show "lane_ok ?w sid session" if "?N sid = Some session" for sid session
      using that lane by auto
    show "work_ok ?N i (?w ! i)" if "i < length ?w" for i
    proof -
      have "work_ok ?M i (ex_works s ! i)" and i: "i < length (ex_works s)"
        using wi that by (simp_all add: work_inv_def len)
      moreover have "wk_promise (ex_works s ! i) = Unset"
        if "?M (wk_session_id (ex_works s ! i)) = Some session" "i \<in> set (se_queue session)" for session
        using that wi by (auto simp: work_inv_def lane_ok_def)
      ultimately show ?thesis
        by (auto simp: view work_ok_def aborted_def live_def split: option.splits)
    qed
  qed
  moreover have "worker_inv ?N ?w (ex_workers s) True"
    by (rule worker_inv_frame [OF ki]) (auto simp: runs_def keep [unfolded runs_def])
  moreover have "count_inv (executor_shutdown s)"
  proof -
    have "queued (map (\<lambda>(sid, session). (sid, ?clear session)) m) = 0" for m
      by (induction m) (auto simp: queued_def umap_sum_def)
    moreover have "(of_nat (queued (ex_sessions s)) :: u64) = ex_pending_total s"
    proof -
      have "queued (ex_sessions s) = unat (ex_pending_total s)" using c by (simp add: count_inv_def)
      then have "(of_nat (queued (ex_sessions s)) :: u64) = of_nat (unat (ex_pending_total s))"
        by (simp only:)
      then show ?thesis by simp
    qed
    ultimately show ?thesis
      using c False unfolding count_inv_def executor_shutdown_def
      by (auto simp: fold_pending umap_wf_clear map_of_clear)
  qed
  ultimately show ?thesis
    using False by (simp add: executor_inv_def executor_shutdown_def map_of_clear)
qed (use inv in \<open>simp add: executor_shutdown_def\<close>)

section \<open>Workers keep the invariant\<close>

lemma set_worker_inv:
  "executor_inv (set_worker t pc s) \<longleftrightarrow> count_inv s \<and>
     sched_inv (map_of (ex_sessions s)) (ex_ready_sessions s) (ex_stopping s) \<and>
     work_inv (map_of (ex_sessions s)) (ex_works s) \<and>
     worker_inv (map_of (ex_sessions s)) (ex_works s) ((ex_workers s)[t := pc]) (ex_stopping s)"
  by (simp add: executor_inv_def set_worker_def count_inv_def)

text \<open>A change of the worker's own turn that keeps its session.\<close>

lemma work_inv_work:
  assumes "work_inv M works" and "runs M sid i"
    and "wk_session_id (f (works ! i)) = wk_session_id (works ! i)"
    and "wk_promise (f (works ! i)) \<noteq> Broken"
  shows "work_inv M (update_work i f works)"
proof -
  obtain session where M: "M sid = Some session" and r: "se_running session = Some i"
    using assms(2) by (auto simp: runs_def)
  have l: "lane_ok works sid session" using assms(1) M by (simp add: work_inv_def)
  then have i: "i < length works" "wk_session_id (works ! i) = sid" "i \<notin> set (se_queue session)"
    using r live_distinct [OF l] by (auto simp: lane_ok_def live_def)
  have "work_inv (M(sid \<mapsto> session)) (update_work i f works)"
  proof (rule work_inv_update [OF assms(1)])
    show "lane_ok (update_work i f works) sid session"
    proof -
      have "\<forall>j\<in>set (se_queue session). j < length works \<and> j \<noteq> i \<and> wk_promise (works ! j) = Unset"
        using l i(3) by (auto simp: lane_ok_def live_def)
      with l i assms(3) show ?thesis by (auto simp: lane_ok_def)
    qed
    show "wk_session_id (update_work i f works ! j) = sid \<and> wk_promise (update_work i f works ! j) \<noteq> Broken \<and>
        (wk_promise (update_work i f works ! j) = Unset \<longrightarrow> j \<in> set (live session))"
      if "j < length (update_work i f works)" "length works \<le> j \<or> wk_session_id (works ! j) = sid" for j
    proof -
      have j: "j < length works" "wk_session_id (works ! j) = sid" using that by auto
      then have "work_ok M j (works ! j)" using assms(1) by (simp add: work_inv_def)
      with j i assms(3,4) M r show ?thesis by (auto simp: work_ok_def live_def)
    qed
  qed (use i in auto)
  moreover have "M(sid \<mapsto> session) = M" using M by auto
  ultimately show ?thesis by simp
qed

lemma worker_runs:
  assumes "executor_inv s" and "t < length (ex_workers s)" and "busy (ex_workers s ! t) = Some (sid, i)"
  shows "runs (map_of (ex_sessions s)) sid i"
  using assms by (auto simp: executor_inv_def worker_inv_def)

lemma runs_unique:
  "executor_inv s \<Longrightarrow> runs (map_of (ex_sessions s)) sid i \<Longrightarrow> runs (map_of (ex_sessions s)) k i \<Longrightarrow> k = sid"
  by (metis executor_session_ok(2,5) lane_ok_def live_def list.set_intros(1) option.simps(5) append_Cons)

text \<open>The three steps a worker takes on its turn outside the lock.\<close>

lemma executor_inv_own_work:
  assumes inv: "executor_inv s" and t: "t < length (ex_workers s)"
    and pc: "busy (ex_workers s ! t) = Some (sid, i)" "busy pc = Some (sid, i)"
    and f: "wk_session_id (f (ex_works s ! i)) = wk_session_id (ex_works s ! i)"
      "wk_promise (f (ex_works s ! i)) \<noteq> Broken"
    and ok: "worker_ok (update_work i f (ex_works s)) (ex_stopping s) pc"
  shows "executor_inv (set_worker t pc (s\<lparr>ex_works := update_work i f (ex_works s)\<rparr>))"
proof -
  let ?M = "map_of (ex_sessions s)"
  have r: "runs ?M sid i" using worker_runs [OF inv t pc(1)] .
  have parts: "count_inv s" "sched_inv ?M (ex_ready_sessions s) (ex_stopping s)" "work_inv ?M (ex_works s)"
      "worker_inv ?M (ex_works s) (ex_workers s) (ex_stopping s)"
    using inv by (simp_all add: executor_inv_def)
  have "worker_inv ?M (update_work i f (ex_works s)) ((ex_workers s)[t := pc]) (ex_stopping s)"
  proof (rule worker_inv_move [OF parts(4) t ok])
    show "runs ?M k j \<longleftrightarrow> busy pc = Some (k, j) \<or> runs ?M k j \<and> busy (ex_workers s ! t) \<noteq> Some (k, j)" for k j
      using r pc by auto
    show "wk_promise (update_work i f (ex_works s) ! j) = Unset \<longleftrightarrow> wk_promise (ex_works s ! j) = Unset"
      if "runs ?M k j" "busy (ex_workers s ! t) \<noteq> Some (k, j)" for k j
    proof -
      have "i \<noteq> j" using that pc(1) runs_unique [OF inv r, of k] by auto
      then show ?thesis by (simp add: update_work_def)
    qed
  qed (use pc in auto)
  moreover have "work_inv ?M (update_work i f (ex_works s))" by (rule work_inv_work [where sid = sid and f = f, OF parts(3) r f])
  ultimately show ?thesis using parts by (simp add: set_worker_inv count_inv_def)
qed

lemma worker_work:
  assumes "executor_inv s" and "t < length (ex_workers s)" and "busy (ex_workers s ! t) = Some (sid, i)"
  shows "i < length (ex_works s)" and "worker_ok (ex_works s) (ex_stopping s) (ex_workers s ! t)"
proof -
  from worker_runs [OF assms] assms(1) show "i < length (ex_works s)"
    by (auto simp: executor_inv_def work_inv_def lane_ok_def live_def runs_def)
  from assms(1,2) show "worker_ok (ex_works s) (ex_stopping s) (ex_workers s ! t)"
    by (auto simp: executor_inv_def worker_inv_def)
qed

lemma executor_inv_start:
  assumes "executor_inv s" and "t < length (ex_workers s)" and "ex_workers s ! t = WorkerStarting sid i"
  shows "executor_inv (worker_start t now sid i s)"
  unfolding worker_start_def
  using assms worker_work [OF assms(1,2)]
  by (intro executor_inv_own_work [where sid = sid]) (auto simp: work_transition_def work_cancel_def)

lemma executor_inv_transition:
  assumes "executor_inv s" and "t < length (ex_workers s)" and "ex_workers s ! t = WorkerInTask sid i"
  shows "executor_inv (task_transition state i s)"
proof -
  have "executor_inv (set_worker t (ex_workers s ! t) (s\<lparr>ex_works := update_work i (work_transition state) (ex_works s)\<rparr>))"
    using assms worker_work [OF assms(1,2)]
    by (intro executor_inv_own_work [where sid = sid]) (auto simp: work_transition_def)
  then show ?thesis by (simp add: task_transition_def set_worker_def)
qed

lemma executor_inv_finish:
  assumes "executor_inv s" and "t < length (ex_workers s)" and "ex_workers s ! t = WorkerInTask sid i"
  shows "executor_inv (worker_finish t now outcome sid i s)"
  unfolding worker_finish_def
  using assms worker_work [OF assms(1,2)]
  by (intro executor_inv_own_work [where sid = sid])
    (auto simp: finish_work_def work_transition_def Let_def split: sum.splits)

text \<open>A session changes and no work does.\<close>

lemma work_inv_session:
  assumes "work_inv M works" and "M sid = Some old" and "lane_ok works sid new"
    and "\<forall>i\<in>set (live old). wk_promise (works ! i) = Unset \<longrightarrow> i \<in> set (live new)"
  shows "work_inv (M(sid \<mapsto> new)) works"
  using assms by (auto simp: work_inv_def work_ok_def)

lemma work_inv_remove:
  assumes "work_inv M works" and "M sid = Some old"
    and "\<forall>i\<in>set (live old). wk_promise (works ! i) \<noteq> Unset"
  shows "work_inv (M(sid := None)) works"
  using assms by (auto simp: work_inv_def work_ok_def)

lemma worker_move_idle:
  assumes "worker_inv M works workers stopping" and "t < length workers"
    and "busy pc = None" and "busy (workers ! t) = None" and "worker_ok works stopping pc"
  shows "worker_inv M works (workers[t := pc]) stopping"
  using assms by (intro worker_inv_move) auto

lemma executor_inv_take_nothing:
  assumes inv: "executor_inv s" and ready: "ex_ready_sessions s = sid # rest"
    and M: "map_of (ex_sessions s) sid = Some session" and q: "se_queue session = []"
  shows "executor_inv (s\<lparr>ex_ready_sessions := rest,
    ex_sessions := umap_set sid (session\<lparr>se_scheduled := False\<rparr>) (ex_sessions s)\<rparr>)"
proof -
  let ?M = "map_of (ex_sessions s)" and ?new = "session\<lparr>se_scheduled := False\<rparr>"
  note ok = executor_session_ok [OF inv, of sid, unfolded executor_session_some [OF M]]
  have parts: "count_inv s" "sched_inv ?M (sid # rest) (ex_stopping s)" "work_inv ?M (ex_works s)"
      "worker_inv ?M (ex_works s) (ex_workers s) (ex_stopping s)"
    using inv ready by (simp_all add: executor_inv_def)
  have M': "map_of (umap_set sid ?new (ex_sessions s)) = ?M(sid \<mapsto> ?new)" using M by (simp add: umap_simps)
  have "sched_inv (?M(sid \<mapsto> ?new)) rest (ex_stopping s)"
    using parts(2) ok(1,4) ready q
    by (intro sched_inv_update [OF parts(2)]) (auto simp: sched_inv_def session_ok_def)
  moreover have "work_inv (?M(sid \<mapsto> ?new)) (ex_works s)"
    using ok(2) by (intro work_inv_session [where M = ?M, OF parts(3) M]) (simp_all add: lane_ok_def)
  moreover have "worker_inv (?M(sid \<mapsto> ?new)) (ex_works s) (ex_workers s) (ex_stopping s)"
    using ok(5) by (intro worker_inv_frame [OF parts(4)]) simp_all
  moreover have "queued (umap_set sid ?new (ex_sessions s)) = queued (ex_sessions s)"
    using umap_sum_set [of "ex_sessions s" sid session "length \<circ> se_queue" ?new] M parts(1)
    by (simp add: queued_def count_inv_def)
  ultimately show ?thesis
    using parts(1) ok(3) M by (simp add: executor_inv_def count_inv_def M' umap_simps)
qed

lemma executor_inv_take_work:
  assumes inv: "executor_inv s" and t: "t < length (ex_workers s)" "ex_workers s ! t = WorkerWaiting"
    and ready: "ex_ready_sessions s = sid # rest"
    and M: "map_of (ex_sessions s) sid = Some session" and q: "se_queue session = i # queue"
  shows "executor_inv (set_worker t (WorkerStarting sid i) (s\<lparr>ex_ready_sessions := rest,
    ex_sessions := umap_set sid (session\<lparr>se_scheduled := False, se_queue := queue, se_running := Some i\<rparr>)
      (ex_sessions s), ex_pending_total := ex_pending_total s - 1\<rparr>))"
proof -
  let ?M = "map_of (ex_sessions s)"
  let ?new = "session\<lparr>se_scheduled := False, se_queue := queue, se_running := Some i\<rparr>"
  note ok = executor_session_ok [OF inv, of sid, unfolded executor_session_some [OF M]]
  have parts: "count_inv s" "sched_inv ?M (sid # rest) (ex_stopping s)" "work_inv ?M (ex_works s)"
      "worker_inv ?M (ex_works s) (ex_workers s) (ex_stopping s)"
    using inv ready by (simp_all add: executor_inv_def)
  have idle: "se_running session = None" using ok(1,4) ready by (simp add: session_ok_def)
  have live: "live ?new = live session" using idle q by (simp add: live_def)
  have M': "map_of (umap_set sid ?new (ex_sessions s)) = ?M(sid \<mapsto> ?new)" using M by (simp add: umap_simps)
  have "sched_inv (?M(sid \<mapsto> ?new)) rest (ex_stopping s)"
    using parts(2) ok(1,4) ready q
    by (intro sched_inv_update [OF parts(2)]) (auto simp: sched_inv_def session_ok_def)
  moreover have "work_inv (?M(sid \<mapsto> ?new)) (ex_works s)"
    using ok(2) q by (intro work_inv_session [where M = ?M, OF parts(3) M]) (simp_all add: lane_ok_def live)
  moreover have "worker_inv (?M(sid \<mapsto> ?new)) (ex_works s) ((ex_workers s)[t := WorkerStarting sid i]) (ex_stopping s)"
    using ok(2,5) idle q t(2) by (intro worker_inv_move [OF parts(4) t(1)]) (auto simp: lane_ok_def)
  moreover have sum: "Suc (queued (umap_set sid ?new (ex_sessions s))) = queued (ex_sessions s)"
    using umap_sum_set [of "ex_sessions s" sid session "length \<circ> se_queue" ?new] M parts(1) q
    by (simp add: queued_def count_inv_def)
  moreover have "unat (ex_pending_total s - 1) = queued (umap_set sid ?new (ex_sessions s))"
  proof -
    have "unat (ex_pending_total s) = queued (ex_sessions s)" using parts(1) by (simp add: count_inv_def)
    with sum have "1 \<le> ex_pending_total s" by (simp add: word_le_nat_alt)
    then show ?thesis using sum parts(1) by (simp add: unat_sub count_inv_def)
  qed
  ultimately show ?thesis
    using parts(1) ok(3) q M unfolding set_worker_inv count_inv_def
    by (simp add: M' umap_simps word_le_nat_alt)
qed

lemma executor_inv_take:
  assumes inv: "executor_inv s" and t: "t < length (ex_workers s)" "ex_workers s ! t = WorkerWaiting"
    and ready: "worker_ready s"
  shows "executor_inv (worker_take t s)"
proof (cases "ex_ready_sessions s")
  case Nil
  with ready have "ex_stopping s" by (simp add: worker_ready_def)
  with Nil inv t show ?thesis
    by (simp add: worker_take_def set_worker_inv) (auto simp: executor_inv_def intro: worker_move_idle)
next
  case (Cons sid rest)
  with inv obtain session where M: "map_of (ex_sessions s) sid = Some session"
    unfolding executor_inv_def sched_inv_def by (metis list.set_intros(1))
  show ?thesis
  proof (cases "se_queue session")
    case Nil
    then show ?thesis
      using executor_inv_take_nothing [OF inv Cons M Nil] Cons M by (simp add: worker_take_def Let_def)
  next
    case (Cons i queue)
    then show ?thesis
      using executor_inv_take_work [OF inv t \<open>ex_ready_sessions s = sid # rest\<close> M Cons]
        \<open>ex_ready_sessions s = sid # rest\<close> M by (simp add: worker_take_def Let_def)
  qed
qed

lemma executor_inv_release:
  assumes inv: "executor_inv s" and t: "t < length (ex_workers s)" and pc: "ex_workers s ! t = WorkerDone sid i"
  shows "executor_inv (worker_release t sid s)"
proof -
  let ?M = "map_of (ex_sessions s)"
  have busy: "busy (ex_workers s ! t) = Some (sid, i)" using pc by simp
  obtain session where M: "?M sid = Some session" and r: "se_running session = Some i"
    using worker_runs [OF inv t busy] by (auto simp: runs_def)
  note ok = executor_session_ok [OF inv, of sid, unfolded executor_session_some [OF M]]
  have fin: "wk_promise (ex_works s ! i) \<noteq> Unset" using worker_work(2) [OF inv t busy] pc by simp
  have parts: "count_inv s" "sched_inv ?M (ex_ready_sessions s) (ex_stopping s)" "work_inv ?M (ex_works s)"
      "worker_inv ?M (ex_works s) (ex_workers s) (ex_stopping s)"
    using inv by (simp_all add: executor_inv_def)
  have unsched: "\<not> se_scheduled session" "sid \<notin> set (ex_ready_sessions s)"
    using ok(1,4) r by (simp_all add: session_ok_def)
  have move: "worker_inv N (ex_works s) ((ex_workers s)[t := WorkerWaiting]) (ex_stopping s)"
    if "\<And>k j. runs N k j \<longleftrightarrow> runs ?M k j \<and> k \<noteq> sid" for N
    using that ok(5) r busy by (intro worker_inv_move [OF parts(4) t]) auto
  show ?thesis
  proof (cases "se_queue session = []")
    case True
    have M': "map_of (umap_erase sid (ex_sessions s)) = ?M(sid := None)" by (simp add: umap_simps)
    have "queued (umap_erase sid (ex_sessions s)) = queued (ex_sessions s)"
      using umap_sum_erase [of "ex_sessions s" sid session "length \<circ> se_queue"] M True parts(1)
      by (simp add: queued_def count_inv_def)
    moreover have "work_inv (?M(sid := None)) (ex_works s)"
      using fin True r by (intro work_inv_remove [where M = ?M, OF parts(3) M]) (simp add: live_def)
    ultimately show ?thesis
      using True M parts(1) sched_inv_remove [OF parts(2) unsched(2)] move [of "?M(sid := None)"]
      by (auto simp: worker_release_def set_worker_inv M' count_inv_def umap_simps Let_def)
  next
    case False
    then have "\<not> ex_stopping s" using ok(1) by (auto simp: session_ok_def)
    let ?new = "session\<lparr>se_running := None, se_scheduled := True\<rparr>"
    have M': "map_of (umap_set sid ?new (ex_sessions s)) = ?M(sid \<mapsto> ?new)" using M by (simp add: umap_simps)
    have "sched_inv (?M(sid \<mapsto> ?new)) (ex_ready_sessions s @ [sid]) (ex_stopping s)"
      using parts(2) unsched \<open>\<not> ex_stopping s\<close>
      by (intro sched_inv_update) (auto simp: sched_inv_def session_ok_def)
    moreover have "work_inv (?M(sid \<mapsto> ?new)) (ex_works s)"
      using ok(2) fin r
      by (intro work_inv_session [where M = ?M, OF parts(3) M]) (auto simp: lane_ok_def live_def)
    moreover have "queued (umap_set sid ?new (ex_sessions s)) = queued (ex_sessions s)"
      using umap_sum_set [of "ex_sessions s" sid session "length \<circ> se_queue" ?new] M parts(1)
      by (simp add: queued_def count_inv_def)
    ultimately show ?thesis
      using False \<open>\<not> ex_stopping s\<close> M parts(1) ok(3) move [of "?M(sid \<mapsto> ?new)"] runs_update
      by (auto simp: worker_release_def set_worker_inv M' count_inv_def umap_simps Let_def)
  qed
qed

lemma executor_step_inv: "executor_inv s \<Longrightarrow> executor_step s s' \<Longrightarrow> executor_inv s'"
  by (erule executor_stepE)
    (simp_all add: executor_inv_submit executor_inv_cancel executor_inv_shutdown executor_inv_take
      executor_inv_start executor_inv_transition executor_inv_finish executor_inv_release)

interpretation executor: invariant_system executor_init executor_step executor_inv
proof
  show "executor_inv s" if "executor_init s" for s using that by (rule executor_inv_init)
  show "executor_inv s'" if "executor_inv s" "executor_step s s'" for s s'
    using that by (rule executor_step_inv)
qed

section \<open>Results\<close>

text \<open>A promise only moves from unset to set; a second set would break it.\<close>

definition promise_le :: "'a promise \<Rightarrow> 'a promise \<Rightarrow> bool" where
  "promise_le p q \<longleftrightarrow> p = Unset \<or> p = q \<or> q = Broken"

lemma promise_le_refl [simp]: "promise_le p p"
  by (simp add: promise_le_def)

lemma promise_le_trans: "promise_le p q \<Longrightarrow> promise_le q r \<Longrightarrow> promise_le p r"
  by (auto simp: promise_le_def)

lemma promise_le_set [simp]: "promise_le p (promise_set v p)"
  by (cases p) (simp_all add: promise_le_def)

definition promises_le :: "Work list \<Rightarrow> Work list \<Rightarrow> bool" where
  "promises_le xs ys \<longleftrightarrow> length xs \<le> length ys \<and>
     (\<forall>i < length xs. promise_le (wk_promise (xs ! i)) (wk_promise (ys ! i)))"

lemma promises_le_refl [simp]: "promises_le xs xs"
  by (simp add: promises_le_def)

lemma promises_le_trans: "promises_le xs ys \<Longrightarrow> promises_le ys zs \<Longrightarrow> promises_le xs zs"
  unfolding promises_le_def by (meson promise_le_trans order.strict_trans2 order_trans)

lemma promises_le_update:
  assumes "\<And>w. promise_le (wk_promise w) (wk_promise (f w))"
  shows "promises_le xs (update_work i f xs)"
  using assms by (simp add: promises_le_def)

lemma promises_le_fold:
  assumes "\<And>x ws. promises_le ws (f x ws)"
  shows "promises_le ws (fold f xs ws)"
  using assms by (induction xs arbitrary: ws) (auto intro: promises_le_trans)

lemma promises_le_abort: "promises_le ws (abort_session reason session ws)"
proof -
  let ?r = "case se_running session of None \<Rightarrow> ws | Some i \<Rightarrow> update_work i work_cancel ws"
  have "promises_le ws ?r" by (auto split: option.split intro: promises_le_update)
  moreover have "promises_le ?r (abort_session reason session ws)"
    unfolding abort_session_def by (intro promises_le_fold promises_le_update) simp
  ultimately show ?thesis by (rule promises_le_trans)
qed

lemma worker_take_works [simp]: "ex_works (worker_take t s) = ex_works s"
  by (simp add: worker_take_def set_worker_def Let_def split: list.split option.split)

lemma worker_release_works [simp]: "ex_works (worker_release t sid s) = ex_works s"
  by (simp add: worker_release_def set_worker_def Let_def split: option.split)

lemma submit_works:
  "\<exists>new. ex_works (snd (executor_submit_turn now sid options s)) = ex_works s @ new"
  by (auto simp: executor_submit_turn_def executor_enqueue_def Let_def)

lemma executor_step_promises: "executor_step s s' \<Longrightarrow> promises_le (ex_works s) (ex_works s')"
proof (erule executor_stepE)
  fix now sid options
  obtain new where "ex_works (snd (executor_submit_turn now sid options s)) = ex_works s @ new"
    using submit_works by blast
  then show "s' = snd (executor_submit_turn now sid options s) \<Longrightarrow> ?thesis"
    by (simp add: promises_le_def nth_append)
next
  show "s' = executor_cancel_session sid s \<Longrightarrow> ?thesis" for sid
    by (simp add: executor_cancel_session_def promises_le_abort split: option.split)
next
  show "s' = executor_shutdown s \<Longrightarrow> ?thesis"
    by (auto simp: executor_shutdown_def intro: promises_le_fold promises_le_abort)
qed (auto simp: worker_start_def task_transition_def worker_finish_def set_worker_def finish_work_def
    work_transition_def work_cancel_def Let_def intro!: promises_le_update split: sum.split)

lemma executor_steps_promises: "steps executor_step s s' \<Longrightarrow> promises_le (ex_works s) (ex_works s')"
  by (induction rule: steps.induct) (auto intro: promises_le_trans executor_step_promises)

lemma promises_not_broken:
  "executor_inv s \<Longrightarrow> i < length (ex_works s) \<Longrightarrow> wk_promise (ex_works s ! i) \<noteq> Broken"
  by (simp add: executor_inv_def work_inv_def work_ok_def)

section \<open>Joining\<close>

fun worker_rank :: "Worker \<Rightarrow> nat" where
  "worker_rank WorkerExited = 0"
| "worker_rank WorkerCrashed = 0"
| "worker_rank WorkerWaiting = 1"
| "worker_rank (WorkerDone sid i) = 2"
| "worker_rank (WorkerInTask sid i) = 3"
| "worker_rank (WorkerStarting sid i) = 4"

definition executor_rank :: "Executor \<Rightarrow> nat" where
  "executor_rank s = sum_list (map worker_rank (ex_workers s)) + length (ex_ready_sessions s)"

lemma executor_rank_worker:
  assumes "t < length (ex_workers s)" and "worker_rank pc < worker_rank (ex_workers s ! t)"
  shows "executor_rank (set_worker t pc s) < executor_rank s"
proof -
  have "worker_rank (ex_workers s ! t) \<le> sum_list (map worker_rank (ex_workers s))"
    using elem_le_sum_list [of t "map worker_rank (ex_workers s)"] assms(1) by simp
  with assms show ?thesis
    by (simp add: executor_rank_def set_worker_def map_update sum_list_update)
qed

text \<open>The steps of the workers themselves; their tasks also move the state of their turn.\<close>

inductive worker_step :: "nat \<Rightarrow> Executor \<Rightarrow> Executor \<Rightarrow> bool" for t :: nat and s :: Executor where
  take: "t < length (ex_workers s) \<Longrightarrow> ex_workers s ! t = WorkerWaiting \<Longrightarrow> worker_ready s \<Longrightarrow>
    worker_step t s (worker_take t s)"
| start: "t < length (ex_workers s) \<Longrightarrow> ex_workers s ! t = WorkerStarting sid i \<Longrightarrow>
    worker_step t s (worker_start t now sid i s)"
| finish: "t < length (ex_workers s) \<Longrightarrow> ex_workers s ! t = WorkerInTask sid i \<Longrightarrow>
    worker_step t s (worker_finish t now outcome sid i s)"
| release: "t < length (ex_workers s) \<Longrightarrow> ex_workers s ! t = WorkerDone sid i \<Longrightarrow>
    worker_step t s (worker_release t sid s)"

lemma executor_step_cases:
  assumes "executor_step s u"
  obtains (client) now sid options where "u = snd (executor_submit_turn now sid options s)"
      | (cancelling) sid where "u = executor_cancel_session sid s" | (stop) "u = executor_shutdown s"
      | (task) state i where "u = task_transition state i s" | (worker) t where "worker_step t s u"
  using assms
proof cases
  case (take t)
  then show ?thesis by (auto intro!: that(5) worker_step.take)
next
  case (start t sid i now)
  then show ?thesis by (auto intro!: that(5) worker_step.start)
next
  case (finish t sid i now outcome)
  then show ?thesis by (auto intro!: that(5) worker_step.finish)
next
  case (release t sid i)
  then show ?thesis by (auto intro!: that(5) worker_step.release)
qed (use that(1-4) in blast)+

text \<open>While stopping, a worker that has not exited can move, and moves closer to its exit.\<close>

lemma stopping_worker_moves:
  assumes inv: "executor_inv s" and "ex_stopping s" and t: "t < length (ex_workers s)"
    and "ex_workers s ! t \<noteq> WorkerExited"
  shows "\<exists>u. worker_step t s u"
proof -
  have "ex_workers s ! t \<noteq> WorkerCrashed"
    using inv t unfolding executor_inv_def worker_inv_def by (metis nth_mem worker_ok.simps(4))
  then show ?thesis
  proof (cases "ex_workers s ! t")
    case WorkerWaiting
    then show ?thesis using worker_step.take [OF t] assms(2) by (auto simp: worker_ready_def)
  qed (use t assms(4) in \<open>auto intro: worker_step.intros\<close>)
qed

lemma stopping_queue_empty:
  "executor_inv s \<Longrightarrow> ex_stopping s \<Longrightarrow> map_of (ex_sessions s) sid = Some session \<Longrightarrow> se_queue session = []"
  by (simp add: executor_inv_def sched_inv_def session_ok_def)

lemma stopping_worker_step:
  assumes inv: "executor_inv s" and "ex_stopping s" and "worker_step t s u"
  shows "ex_stopping u \<and> length (ex_workers u) = length (ex_workers s) \<and> executor_rank u < executor_rank s"
  using assms(3)
proof cases
  case take
  show ?thesis
  proof (cases "ex_ready_sessions s")
    case Nil
    then show ?thesis
      using take assms(2) executor_rank_worker [of t s WorkerExited]
      by (simp add: worker_take_def set_worker_def)
  next
    case (Cons sid rest)
    with inv obtain session where M: "map_of (ex_sessions s) sid = Some session"
      unfolding executor_inv_def sched_inv_def by (metis list.set_intros(1))
    then show ?thesis using Cons take assms(2) stopping_queue_empty [OF inv assms(2) M]
      by (simp add: worker_take_def Let_def executor_rank_def)
  qed
next
  case (start sid i now)
  then show ?thesis
    using assms(2) executor_rank_worker [of t "s\<lparr>ex_works := ws\<rparr>" "WorkerInTask sid i" for ws]
    by (simp add: worker_start_def set_worker_def executor_rank_def)
next
  case (finish sid i now outcome)
  then show ?thesis
    using assms(2) executor_rank_worker [of t "s\<lparr>ex_works := ws\<rparr>" "WorkerDone sid i" for ws]
    by (simp add: worker_finish_def set_worker_def executor_rank_def)
next
  case (release sid i)
  then obtain session where M: "map_of (ex_sessions s) sid = Some session"
    using worker_runs [OF inv, of t sid i] by (auto simp: runs_def)
  then show ?thesis
    using release assms(2) stopping_queue_empty [OF inv assms(2) M]
      executor_rank_worker [of t "s\<lparr>ex_sessions := umap_erase sid (ex_sessions s)\<rparr>" WorkerWaiting]
    by (simp add: worker_release_def set_worker_def executor_rank_def)
qed

text \<open>No other step moves a worker away from its exit.\<close>

lemma stopping_step:
  assumes "executor_inv s" and "ex_stopping s" and "executor_step s u"
  shows "ex_stopping u \<and> length (ex_workers u) = length (ex_workers s) \<and> executor_rank u \<le> executor_rank s"
  using assms(3)
proof (cases rule: executor_step_cases)
  case (client now sid options)
  then show ?thesis using assms(2) by (simp add: executor_submit_turn_def)
next
  case (cancelling sid)
  then show ?thesis using assms(2)
    by (cases "map_of (ex_sessions s) sid") (simp_all add: executor_cancel_session_def executor_rank_def)
next
  case stop
  then show ?thesis using assms(2) by (simp add: executor_shutdown_def)
next
  case (task state i)
  then show ?thesis using assms(2) by (simp add: task_transition_def executor_rank_def)
next
  case (worker t)
  then show ?thesis using stopping_worker_step [OF assms(1,2)] by fastforce
qed

lemma stopping_steps:
  assumes "steps executor_step s u" and "executor_inv s" and "ex_stopping s"
  shows "executor_inv u \<and> ex_stopping u \<and> length (ex_workers u) = length (ex_workers s)"
  using assms
proof (induction rule: steps.induct)
  case (steps_step s t u)
  then show ?case using stopping_step [of t u] executor_step_inv [of t u] by simp
qed simp

text \<open>What shutdown does to the turns at once.\<close>

lemma shutdown_works:
  assumes inv: "executor_inv s" and "\<not> ex_stopping s" and "j < length (ex_works s)"
  shows "ex_works (executor_shutdown s) ! j =
    aborted ''executor stopped'' (map_of (ex_sessions s)) j (ex_works s ! j)"
proof -
  have wf: "umap_wf (ex_sessions s)" using inv by (simp add: executor_inv_def count_inv_def)
  have "lane_ok (ex_works s) sid session" if "(sid, session) \<in> set (ex_sessions s)" for sid session
    using inv wf that by (simp add: executor_inv_def work_inv_def umap_wf_def)
  then show ?thesis using abort_all_view [OF wf] assms(2,3) by (simp add: executor_shutdown_def)
qed

lemma shutdown_queued:
  assumes inv: "executor_inv s" and i: "i \<in> set (se_queue (executor_session sid s))"
  shows "wk_promise (ex_works (executor_shutdown s) ! i) = Ready (TurnException ''executor stopped'')"
proof -
  obtain session where M: "map_of (ex_sessions s) sid = Some session" "i \<in> set (se_queue session)"
    using i by (auto simp: executor_session_def empty_session_def split: option.splits)
  then have l: "lane_ok (ex_works s) sid session" using inv by (simp add: executor_inv_def work_inv_def)
  have run: "\<not> ex_stopping s" using stopping_queue_empty [OF inv _ M(1)] M(2) by auto
  have w: "i < length (ex_works s)" "wk_session_id (ex_works s ! i) = sid" "wk_promise (ex_works s ! i) = Unset"
    using l M(2) by (auto simp: lane_ok_def live_def)
  then show ?thesis using M by (simp add: shutdown_works [OF inv run] aborted_def)
qed

lemma shutdown_running:
  assumes inv: "executor_inv s" and "\<not> ex_stopping s" and "t < length (ex_workers s)"
    and "busy (ex_workers s ! t) = Some (sid, i)"
  shows "wk_cancelled (ex_works (executor_shutdown s) ! i)"
proof -
  obtain session where M: "map_of (ex_sessions s) sid = Some session" "se_running session = Some i"
    using worker_runs [OF inv assms(3,4)] by (auto simp: runs_def)
  then have "lane_ok (ex_works s) sid session" using inv by (simp add: executor_inv_def work_inv_def)
  then have "i < length (ex_works s)" "wk_session_id (ex_works s ! i) = sid"
    using M(2) by (auto simp: lane_ok_def live_def)
  then show ?thesis using M
    by (simp add: shutdown_works [OF inv assms(2)] aborted_def abort_work_def work_cancel_def)
qed

lemma joined_all_set:
  assumes inv: "executor_inv s" and "ex_stopping s" and "executor_joined s" and "i < length (ex_works s)"
  shows "wk_promise (ex_works s ! i) \<noteq> Unset"
proof
  assume "wk_promise (ex_works s ! i) = Unset"
  with inv assms(4) obtain sid session where M: "map_of (ex_sessions s) sid = Some session"
    and i: "i \<in> set (live session)"
    by (auto simp: executor_inv_def work_inv_def work_ok_def)
  have "se_queue session = []" using inv M assms(2) by (simp add: executor_inv_def sched_inv_def session_ok_def)
  with i have "runs (map_of (ex_sessions s)) sid i" using M by (auto simp: live_def runs_def)
  then obtain t where "t < length (ex_workers s)" "busy (ex_workers s ! t) = Some (sid, i)"
    using inv by (auto simp: executor_inv_def worker_inv_def)
  with assms(3) show False by (simp add: executor_joined_def list_all_length)
qed

section \<open>Properties\<close>

text \<open>
  C2: a session is a serialized first-in first-out lane. In every reachable state at most one
  worker holds a turn of a session, and when a worker holds a turn, every turn of that session
  submitted before it has already ended (its future is ready).
\<close>

theorem executor_lane_serial_fifo:
  assumes "reachable executor_init executor_step s" and "t < length (ex_workers s)"
    and "busy (ex_workers s ! t) = Some (sid, i)"
  shows "(\<forall>u j. u < length (ex_workers s) \<and> busy (ex_workers s ! u) = Some (sid, j) \<longrightarrow> u = t) \<and>
    (\<forall>j < i. wk_session_id (ex_works s ! j) = sid \<longrightarrow> wk_promise (ex_works s ! j) \<noteq> Unset)"
proof -
  have inv: "executor_inv s" using assms(1) by (rule executor.reachable_inv)
  have one: "u = t" if "u < length (ex_workers s)" "busy (ex_workers s ! u) = Some (sid, j)" for u j
    using inv that assms(2,3) unfolding executor_inv_def worker_inv_def by blast
  obtain session where M: "map_of (ex_sessions s) sid = Some session" and r: "se_running session = Some i"
    using worker_runs [OF inv assms(2,3)] by (auto simp: runs_def)
  have l: "lane_ok (ex_works s) sid session" using inv M by (simp add: executor_inv_def work_inv_def)
  have "wk_promise (ex_works s ! j) \<noteq> Unset" if "j < i" "wk_session_id (ex_works s ! j) = sid" for j
  proof
    assume "wk_promise (ex_works s ! j) = Unset"
    moreover have "j < length (ex_works s)" using that(1) worker_work(1) [OF inv assms(2,3)] by simp
    ultimately have "j \<in> set (live session)"
      using inv M that(2) by (auto simp: executor_inv_def work_inv_def work_ok_def)
    with l r that(1) show False by (auto simp: lane_ok_def live_def)
  qed
  with one show ?thesis by blast
qed

text \<open>
  Admission control is exact. In every reachable state the pending counter, a machine word,
  is the number of queued turns over all sessions, within \<open>max_pending_total\<close>; every session's
  queue is within \<open>max_pending_per_session\<close>; and a valid submission is accepted if and only if
  the executor is not stopped and both limits leave room.
\<close>

theorem executor_admission_exact:
  assumes "reachable executor_init executor_step s"
    and "executor_submit_turn now sid options s = (result, s')"
  shows "unat (ex_pending_total s) = queued (ex_sessions s) \<and>
    ex_pending_total s \<le> ec_max_pending_total (ex_config s) \<and>
    length (se_queue (executor_session sid s)) \<le> unat (ec_max_pending_per_session (ex_config s)) \<and>
    (isl result \<longleftrightarrow> sid = [] \<or> to_timeout options \<le> 0 \<or> ex_stopping s \<or>
      length (se_queue (executor_session sid s)) = unat (ec_max_pending_per_session (ex_config s)) \<or>
      queued (ex_sessions s) = unat (ec_max_pending_total (ex_config s)))"
proof -
  have inv: "executor_inv s" using assms(1) by (rule executor.reachable_inv)
  let ?n = "length (se_queue (executor_session sid s))" and ?max = "ec_max_pending_per_session (ex_config s)"
  have c: "count_inv s" using inv by (simp add: executor_inv_def)
  have n: "?n \<le> unat ?max" by (rule executor_session_ok(3) [OF inv])
  have full: "map_of (ex_sessions s) sid \<noteq> None \<and> of_nat ?n \<ge> ?max \<longleftrightarrow> ?n = unat ?max"
  proof
    have "unat (of_nat ?n :: u64) \<le> ?n" by (simp add: unat_of_nat)
    then show "map_of (ex_sessions s) sid \<noteq> None \<and> of_nat ?n \<ge> ?max \<Longrightarrow> ?n = unat ?max"
      using n by (simp add: word_le_nat_alt)
    show "?n = unat ?max \<Longrightarrow> map_of (ex_sessions s) sid \<noteq> None \<and> of_nat ?n \<ge> ?max"
      using session_below_limit [OF inv, of sid] by linarith
  qed
  have total: "ec_max_pending_total (ex_config s) \<le> ex_pending_total s \<longleftrightarrow>
      queued (ex_sessions s) = unat (ec_max_pending_total (ex_config s))"
    using c by (auto simp: count_inv_def word_le_nat_alt)
  have "isl result \<longleftrightarrow> sid = [] \<or> to_timeout options \<le> 0 \<or> ex_stopping s \<or>
      ?n = unat ?max \<or> queued (ex_sessions s) = unat (ec_max_pending_total (ex_config s))"
    using assms(2) full total
    by (auto simp: executor_submit_turn_def Let_def split: if_splits prod.splits)
  with c n show ?thesis by (simp add: count_inv_def)
qed

text \<open>
  C13: no turn is lost and the pool never dies. In every reachable state no worker has failed on
  \<open>sessions_.at\<close> and no promise was set twice; a turn whose future is not ready is either held by
  a worker or queued in a session that is on the ready list or held by a worker.
\<close>

theorem executor_no_lost_turn:
  assumes "reachable executor_init executor_step s" and "i < length (ex_works s)"
  shows "WorkerCrashed \<notin> set (ex_workers s) \<and> wk_promise (ex_works s ! i) \<noteq> Broken \<and>
    (wk_promise (ex_works s ! i) = Unset \<longrightarrow>
      (let sid = wk_session_id (ex_works s ! i) in
        (\<exists>t < length (ex_workers s). busy (ex_workers s ! t) = Some (sid, i)) \<or>
        (i \<in> set (se_queue (executor_session sid s)) \<and>
          (sid \<in> set (ex_ready_sessions s) \<or>
           (\<exists>t < length (ex_workers s). \<exists>j. busy (ex_workers s ! t) = Some (sid, j))))))"
proof -
  have inv: "executor_inv s" using assms(1) by (rule executor.reachable_inv)
  let ?sid = "wk_session_id (ex_works s ! i)"
  note ok = executor_session_ok [OF inv, of ?sid]
  have held: "\<exists>t < length (ex_workers s). busy (ex_workers s ! t) = Some (?sid, j)"
    if "se_running (executor_session ?sid s) = Some j" for j
    using that ok(5) inv by (simp add: executor_inv_def worker_inv_def)
  have "WorkerCrashed \<notin> set (ex_workers s)"
    using inv by (auto simp: executor_inv_def worker_inv_def)
  moreover have "se_running (executor_session ?sid s) = Some i \<or> i \<in> set (se_queue (executor_session ?sid s))"
    if "wk_promise (ex_works s ! i) = Unset"
  proof -
    have "i \<in> set (live (executor_session ?sid s))"
      using that inv assms(2) by (auto simp: executor_inv_def work_inv_def work_ok_def)
    then show ?thesis by (auto simp: live_def)
  qed
  moreover have "se_running (executor_session ?sid s) \<noteq> None \<or> ?sid \<in> set (ex_ready_sessions s)"
    if "i \<in> set (se_queue (executor_session ?sid s))"
    using that ok(1,4) by (auto simp: session_ok_def)
  ultimately show ?thesis
    using held promises_not_broken [OF inv assms(2)] unfolding Let_def by (metis option.exhaust)
qed

text \<open>
  A result is final. Once a turn's future is ready it keeps that result in every later state,
  whatever is cancelled, submitted or shut down afterwards.
\<close>

theorem executor_result_final:
  assumes "reachable executor_init executor_step s" and "steps executor_step s s'"
    and "i < length (ex_works s)" and "wk_promise (ex_works s ! i) = Ready v"
  shows "wk_promise (ex_works s' ! i) = Ready v"
proof -
  have "promise_le (wk_promise (ex_works s ! i)) (wk_promise (ex_works s' ! i))"
    and len: "i < length (ex_works s')"
    using executor_steps_promises [OF assms(2)] assms(3) by (simp_all add: promises_le_def)
  moreover have "wk_promise (ex_works s' ! i) \<noteq> Broken"
    using promises_not_broken [OF executor.reachable_inv len] reachable_steps [OF assms(2,1)] .
  ultimately show ?thesis using assms(4) by (simp add: promise_le_def)
qed

text \<open>
  C12: shutdown ends. At once every queued turn gets the result \<open>executor stopped\<close> and every turn a
  worker holds is flagged. Afterwards, whatever clients still call and in whatever order the threads
  run: each worker that has not exited has a step of its own to make (a running task ends, in
  whatever way), each such step takes the pool strictly closer to the end and no other step takes it
  away again, so that after at most \<open>executor_rank\<close> steps of the workers all have exited and the
  joins of \<open>shutdown\<close> return; and then the future of every turn ever submitted is ready.
\<close>

theorem executor_shutdown_joins:
  assumes "reachable executor_init executor_step s" and "steps executor_step (executor_shutdown s) u"
  shows "(\<forall>sid. \<forall>i\<in>set (se_queue (executor_session sid s)).
      wk_promise (ex_works (executor_shutdown s) ! i) = Ready (TurnException ''executor stopped'')) \<and>
    (\<forall>t<length (ex_workers s). \<forall>sid i. \<not> ex_stopping s \<and> busy (ex_workers s ! t) = Some (sid, i) \<longrightarrow>
      wk_cancelled (ex_works (executor_shutdown s) ! i)) \<and>
    length (ex_workers u) = length (ex_workers s) \<and>
    (\<forall>t<length (ex_workers u). ex_workers u ! t \<noteq> WorkerExited \<longrightarrow> (\<exists>v. worker_step t u v)) \<and>
    (\<forall>t v. worker_step t u v \<longrightarrow> executor_step u v \<and> executor_rank v < executor_rank u) \<and>
    (\<forall>v. executor_step u v \<longrightarrow> executor_rank v \<le> executor_rank u) \<and>
    (executor_joined u \<longrightarrow> (\<forall>i<length (ex_works u). \<exists>v. wk_promise (ex_works u ! i) = Ready v))"
proof -
  have inv: "executor_inv s" using assms(1) by (rule executor.reachable_inv)
  then have "executor_inv (executor_shutdown s)" by (rule executor_inv_shutdown)
  moreover have "ex_stopping (executor_shutdown s)" by (simp add: executor_shutdown_def)
  ultimately have u: "executor_inv u" "ex_stopping u" "length (ex_workers u) = length (ex_workers s)"
    using stopping_steps [OF assms(2)] by (simp_all add: executor_shutdown_def)
  have "\<exists>v. wk_promise (ex_works u ! i) = Ready v" if "executor_joined u" "i < length (ex_works u)" for i
    using joined_all_set [OF u(1,2) that] promises_not_broken [OF u(1) that(2)]
    by (cases "wk_promise (ex_works u ! i)") auto
  moreover have "executor_step u v" if "worker_step t u v" for t v
    using that by cases (auto intro: executor_step.intros)
  ultimately show ?thesis
    using shutdown_queued [OF inv] shutdown_running [OF inv] u(3) stopping_worker_moves [OF u(1,2)]
      stopping_worker_step [OF u(1,2)] stopping_step [OF u(1,2)] by simp
qed

text \<open>The run of the witnesses: two turns of one session, the first in its task.\<close>

definition executor_example_config :: SessionExecutorConfig where
  "executor_example_config =
     \<lparr>ec_worker_count = 2, ec_max_pending_per_session = 2, ec_max_pending_total = 4\<rparr>"

definition executor_example_start :: Executor where
  "executor_example_start = projr (executor_new 1 executor_example_config)"

definition executor_example_submit :: "Executor \<Rightarrow> Executor" where
  "executor_example_submit s = snd (executor_submit_turn 0 ''a'' default_turn_options s)"

definition executor_example :: Executor where
  "executor_example = worker_start 0 0 ''a'' 0 (worker_take 0
     (executor_example_submit (executor_example_submit executor_example_start)))"

lemma executor_example_start_reachable:
  "reachable executor_init executor_step executor_example_start"
proof (rule reach_init, intro exI)
  show "executor_new 1 executor_example_config = Inr executor_example_start" by code_simp
qed

lemma executor_example_submit_reachable:
  "reachable executor_init executor_step s \<Longrightarrow>
     reachable executor_init executor_step (executor_example_submit s)"
  unfolding executor_example_submit_def by (erule reach_step) (rule executor_step.submit)

lemma executor_example_reachable: "reachable executor_init executor_step executor_example"
proof -
  define a where "a = executor_example_submit (executor_example_submit executor_example_start)"
  have a: "reachable executor_init executor_step a"
    unfolding a_def by (intro executor_example_submit_reachable executor_example_start_reachable)
  have "0 < length (ex_workers a) \<and> ex_workers a ! 0 = WorkerWaiting \<and> worker_ready a"
    unfolding a_def by code_simp
  then have "executor_step a (worker_take 0 a)" by (intro executor_step.take) simp_all
  with a have b: "reachable executor_init executor_step (worker_take 0 a)" by (rule reach_step)
  have "0 < length (ex_workers (worker_take 0 a)) \<and>
      ex_workers (worker_take 0 a) ! 0 = WorkerStarting ''a'' 0"
    unfolding a_def by code_simp
  then have "executor_step (worker_take 0 a) (worker_start 0 0 ''a'' 0 (worker_take 0 a))"
    by (intro executor_step.start) simp_all
  with b show ?thesis unfolding executor_example_def a_def by (rule reach_step)
qed

theorem executor_lane_serial_fifo_witness:
  "busy (ex_workers executor_example ! 0) = Some (''a'', 0) \<and>
   busy (ex_workers executor_example ! 1) \<noteq> Some (''a'', 1)"
proof -
  have "0 < length (ex_workers executor_example) \<and> 1 < length (ex_workers executor_example) \<and>
      busy (ex_workers executor_example ! 0) = Some (''a'', 0)" by code_simp
  then show ?thesis
    using executor_lane_serial_fifo [OF executor_example_reachable, of 0 "''a''" 0]
    by (metis zero_neq_one)
qed

theorem executor_admission_exact_witness:
  "queued (ex_sessions executor_example) = 1 \<and>
   \<not> isl (fst (executor_submit_turn 0 ''a'' default_turn_options executor_example))"
proof -
  let ?r = "executor_submit_turn 0 ''a'' default_turn_options executor_example"
  have "queued (ex_sessions executor_example) = 1 \<and> to_timeout default_turn_options = 15000 \<and>
      \<not> ex_stopping executor_example \<and> length (se_queue (executor_session ''a'' executor_example)) = 1 \<and>
      unat (ec_max_pending_per_session (ex_config executor_example)) = 2 \<and>
      unat (ec_max_pending_total (ex_config executor_example)) = 4" by code_simp
  then show ?thesis
    using executor_admission_exact [OF executor_example_reachable prod.collapse [of ?r, symmetric]]
    by simp
qed

theorem executor_no_lost_turn_witness:
  "wk_promise (ex_works executor_example ! 1) = Unset \<and>
   WorkerCrashed \<notin> set (ex_workers executor_example)"
proof -
  have "1 < length (ex_works executor_example) \<and> wk_promise (ex_works executor_example ! 1) = Unset"
    by code_simp
  then show ?thesis using executor_no_lost_turn [OF executor_example_reachable, of 1] by blast
qed

definition executor_example_cancelled :: Executor where
  "executor_example_cancelled = executor_cancel_session ''a'' executor_example"

theorem executor_result_final_witness:
  "wk_promise (ex_works (executor_shutdown executor_example_cancelled) ! 1)
     = Ready (TurnException ''turn cancelled'')"
proof -
  have "1 < length (ex_works executor_example_cancelled) \<and> wk_promise (ex_works executor_example_cancelled ! 1)
      = Ready (TurnException ''turn cancelled'')" by code_simp
  moreover have "reachable executor_init executor_step executor_example_cancelled"
    unfolding executor_example_cancelled_def
    by (rule reach_step [OF executor_example_reachable executor_step.cancel])
  moreover have "steps executor_step executor_example_cancelled (executor_shutdown executor_example_cancelled)"
    by (rule steps_one [where step = executor_step]) (rule executor_step.shutdown)
  ultimately show ?thesis using executor_result_final by blast
qed

theorem executor_shutdown_joins_witness:
  "wk_promise (ex_works (executor_shutdown executor_example) ! 1) = Ready (TurnException ''executor stopped'') \<and>
   (\<exists>v. worker_step 0 (executor_shutdown executor_example) v \<and>
     executor_rank v < executor_rank (executor_shutdown executor_example))"
proof -
  let ?u = "executor_shutdown executor_example"
  note shutdown = executor_shutdown_joins [OF executor_example_reachable steps_refl]
  have "1 \<in> set (se_queue (executor_session ''a'' executor_example)) \<and> 0 < length (ex_workers ?u) \<and>
      ex_workers ?u ! 0 \<noteq> WorkerExited" by code_simp
  then show ?thesis using shutdown by metis
qed

definition executor_example_leak :: Executor where
  "executor_example_leak =
     worker_take 0 (executor_cancel_session ''a'' (executor_example_submit executor_example_start))"

text \<open>
  C40: cancelling a session whose turn no worker has taken yet leaves its entry in the map. A
  turn is submitted and cancelled, then a worker finds the queue empty and goes on: the run ends
  with every worker waiting, nothing ready, and the entry of the session still stored, although
  the loop erases the entry of a session whose last turn ran.
\<close>

theorem executor_cancel_leaves_entry:
  "reachable executor_init executor_step executor_example_leak \<and>
   map_of (ex_sessions executor_example_leak) ''a'' = Some empty_session \<and>
   ex_ready_sessions executor_example_leak = [] \<and> ex_pending_total executor_example_leak = 0 \<and>
   list_all (\<lambda>w. w = WorkerWaiting) (ex_workers executor_example_leak)"
proof -
  define a where "a = executor_cancel_session ''a'' (executor_example_submit executor_example_start)"
  have "reachable executor_init executor_step a"
    unfolding a_def
    by (intro reach_step [OF executor_example_submit_reachable [OF executor_example_start_reachable]]
        executor_step.cancel)
  moreover have "0 < length (ex_workers a) \<and> ex_workers a ! 0 = WorkerWaiting \<and> worker_ready a"
    unfolding a_def by code_simp
  then have "executor_step a (worker_take 0 a)" by (intro executor_step.take) simp_all
  ultimately have "reachable executor_init executor_step executor_example_leak"
    unfolding executor_example_leak_def a_def by (rule reach_step)
  moreover have "map_of (ex_sessions executor_example_leak) ''a'' = Some empty_session \<and>
   ex_ready_sessions executor_example_leak = [] \<and> ex_pending_total executor_example_leak = 0 \<and>
   list_all (\<lambda>w. w = WorkerWaiting) (ex_workers executor_example_leak)" by code_simp
  ultimately show ?thesis by blast
qed

end
