(* ===== verification/Agent_Loop.thy ===== *)
theory Agent_Loop
  imports Turn_Executor
begin

text \<open>
  \<open>ToolRegistry\<close>, \<open>Agent\<close> and \<open>AsyncSession\<close> (\<open>tool.h\<close>, \<open>agent.h\<close>, \<open>agent.cpp\<close>, \<open>session.h\<close>,
  \<open>session.cpp\<close>): the model and tool loop of one turn. The language model and the tools are
  interfaces, so each is an arbitrary interaction tree: what it asks of its caller (a text
  delta to the sink, a poll of the cancellation predicate) and how it ends. The cancellation
  predicate is an arbitrary sequence of answers, one per poll, or absent. Exceptions are
  values. The lemmas show that a failed turn leaves no trace in the history, that a finished
  one leaves every tool call answered in order, that exactly one terminal event ends the
  events of a turn, and that the model is asked at most \<open>max_steps\<close> times.
\<close>

named_theorems agent_defs \<open>operations of the agent loop\<close>

section \<open>Interfaces of the loop\<close>

text \<open>\<open>LlmProvider::stream\<close> as its caller sees it.\<close>

datatype llm_run =
    LlmDelta string "bool \<Rightarrow> llm_run"
  | LlmPoll "bool \<Rightarrow> llm_run"
  | LlmReturn LlmTurn
  | LlmThrow exn

text \<open>A tool handler as \<open>ToolRegistry\<close> sees it.\<close>

datatype tool_run =
    ToolPoll "bool \<Rightarrow> tool_run"
  | ToolReturn string
  | ToolThrow exn

text \<open>
  A handler's run may depend on when it is called: it is given the length of the history at
  the call beside the arguments. The model likewise sees the step and the history.
\<close>

type_synonym tool_handler = "nat \<Rightarrow> string \<Rightarrow> tool_run"
type_synonym registry = "(string, tool_handler) umap"

record Agent =
  ag_llm :: "nat \<Rightarrow> Message list \<Rightarrow> llm_run"
  ag_tools :: registry
  ag_max_steps :: nat
  ag_has_events :: bool

text \<open>The arguments of one \<open>run_streaming\<close>: identities, sink and cancellation predicate.\<close>

record Turn =
  tn_session_id :: string
  tn_turn_id :: string
  tn_trace_id :: string
  tn_on_text_delta :: "string list \<Rightarrow> string \<Rightarrow> bool"
  tn_cancelled :: "(nat \<Rightarrow> bool) option"
  tn_invocation_events :: bool

text \<open>What a turn changes: the history, the events published, the deltas given to the sink.\<close>

record Run =
  rn_history :: "Message list"
  rn_events :: "Event list"
  rn_deltas :: "string list"
  rn_polls :: nat

definition agent_new_history :: "Message list" where
  "agent_new_history =
     [\<lparr>msg_role = System,
       msg_content = ''You are ByteTurn, a concise voice agent. Use tools when useful.'',
       msg_name = [], msg_tool_calls = [], msg_tool_call_id = []\<rparr>]"

section \<open>Emission and cancellation\<close>

definition emit :: "Agent \<Rightarrow> Turn \<Rightarrow> EventType \<Rightarrow> string \<Rightarrow> string \<Rightarrow> Run \<Rightarrow> Run" where
  "emit ag tn ty name data st =
     (if tn_invocation_events tn \<or> ag_has_events ag
      then st\<lparr>rn_events := rn_events st @
        [mk_event ty (tn_session_id tn) (tn_turn_id tn) name data (tn_trace_id tn)]\<rparr>
      else st)"

definition push_history :: "Message \<Rightarrow> Run \<Rightarrow> Run" where
  "push_history m st = st\<lparr>rn_history := rn_history st @ [m]\<rparr>"

text \<open>\<open>cancelled && cancelled()\<close>: an absent predicate is not called.\<close>

definition poll :: "(nat \<Rightarrow> bool) option \<Rightarrow> Run \<Rightarrow> bool \<times> Run" where
  "poll cancelled st =
     (case cancelled of
        None \<Rightarrow> (False, st)
      | Some f \<Rightarrow> (f (rn_polls st), st\<lparr>rn_polls := rn_polls st + 1\<rparr>))"

section \<open>Tools\<close>

definition registry_add :: "string \<Rightarrow> tool_handler \<Rightarrow> registry \<Rightarrow> bool \<times> registry" where
  "registry_add name handler tools =
     (map_of tools name = None, umap_emplace name handler tools)"

text \<open>The overload for a handler that does not take the predicate.\<close>

definition registry_add_plain ::
  "string \<Rightarrow> (nat \<Rightarrow> string \<Rightarrow> exn + string) \<Rightarrow> registry \<Rightarrow> bool \<times> registry" where
  "registry_add_plain name handler tools =
     registry_add name (\<lambda>n arguments. case handler n arguments of
       Inl e \<Rightarrow> ToolThrow e | Inr r \<Rightarrow> ToolReturn r) tools"

primrec tool_exec :: "tool_run \<Rightarrow> (nat \<Rightarrow> bool) option \<Rightarrow> Run \<Rightarrow> (exn + string) \<times> Run" where
  "tool_exec (ToolPoll k) cancelled st =
     (case poll cancelled st of (stop, st) \<Rightarrow> (\<lambda>b. tool_exec (k b)) stop cancelled st)"
| "tool_exec (ToolReturn r) cancelled st = (Inr r, st)"
| "tool_exec (ToolThrow e) cancelled st = (Inl e, st)"

text \<open>The handler of \<open>invoke\<close>'s \<open>try\<close>: rethrow when stopping, otherwise a result string.\<close>

definition tool_failed ::
  "(nat \<Rightarrow> bool) option \<Rightarrow> string \<Rightarrow> Run \<Rightarrow> (exn + string) \<times> Run" where
  "tool_failed cancelled what st =
     (case poll cancelled st of (stop, st) \<Rightarrow>
        if stop then (Inl (StdException what), st)
        else (Inr (''error: tool failed: '' @ what), st))"

definition registry_invoke ::
  "registry \<Rightarrow> string \<Rightarrow> string \<Rightarrow> (nat \<Rightarrow> bool) option \<Rightarrow> Run \<Rightarrow> (exn + string) \<times> Run" where
  "registry_invoke tools name arguments cancelled st =
     (case map_of tools name of
        None \<Rightarrow> (Inr (''error: unknown tool: '' @ name), st)
      | Some handler \<Rightarrow>
          (case poll cancelled st of (stop, st) \<Rightarrow>
            if stop then (Inl (StdException ''tool cancelled before execution''), st)
            else case tool_exec (handler (length (rn_history st)) arguments) cancelled st of
              (Inr result, st) \<Rightarrow>
                (case poll cancelled st of (stop, st) \<Rightarrow>
                  if stop then tool_failed cancelled ''tool cancelled during execution'' st
                  else (Inr result, st))
            | (Inl (StdException what), st) \<Rightarrow> tool_failed cancelled what st
            | (Inl OtherException, st) \<Rightarrow> (Inl OtherException, st)))"

section \<open>The model's stream\<close>

text \<open>The sink \<open>run_streaming\<close> passes to \<open>stream\<close>, and the stream run against it.\<close>

definition text_delta ::
  "Agent \<Rightarrow> Turn \<Rightarrow> nat \<Rightarrow> string \<Rightarrow> bool \<Rightarrow> Run \<Rightarrow> bool \<times> bool \<times> Run" where
  "text_delta ag tn step delta received_first st =
     (case poll (tn_cancelled tn) st of (stop, st) \<Rightarrow>
        if stop then (False, received_first, st)
        else if delta = [] then (True, received_first, st)
        else
          let st = (if received_first then st else emit ag tn FirstToken (to_string step) [] st);
              st = emit ag tn ModelTextDelta (to_string step) delta st
          in (tn_on_text_delta tn (rn_deltas st) delta, True,
              st\<lparr>rn_deltas := rn_deltas st @ [delta]\<rparr>))"

primrec llm_stream ::
  "llm_run \<Rightarrow> Agent \<Rightarrow> Turn \<Rightarrow> nat \<Rightarrow> bool \<Rightarrow> Run \<Rightarrow> (exn + LlmTurn) \<times> Run" where
  "llm_stream (LlmDelta delta k) ag tn step received_first st =
     (case text_delta ag tn step delta received_first st of (go_on, received_first, st) \<Rightarrow>
        (\<lambda>b. llm_stream (k b)) go_on ag tn step received_first st)"
| "llm_stream (LlmPoll k) ag tn step received_first st =
     (case poll (tn_cancelled tn) st of (stop, st) \<Rightarrow>
        (\<lambda>b. llm_stream (k b)) stop ag tn step received_first st)"
| "llm_stream (LlmReturn turn) ag tn step received_first st = (Inr turn, st)"
| "llm_stream (LlmThrow e) ag tn step received_first st = (Inl e, st)"

text \<open>
  The default \<open>LlmProvider::stream\<close>: one completion, its whole text as one delta. The two
  \<open>complete\<close> overloads are the provider's; the default one ignores the predicate.
\<close>

definition default_stream :: "exn + LlmTurn \<Rightarrow> llm_run" where
  "default_stream completed =
     (case completed of
        Inl e \<Rightarrow> LlmThrow e
      | Inr turn \<Rightarrow>
          if lt_text turn \<noteq> []
          then LlmDelta (lt_text turn) (\<lambda>go_on. if go_on then LlmReturn turn
            else LlmThrow (StdException ''LLM stream consumer stopped''))
          else LlmReturn turn)"

section \<open>The turn\<close>

definition turn_cancelled_error :: exn where
  "turn_cancelled_error = StdException ''turn cancelled''"

text \<open>\<open>catch (const std::exception& e) { emit(Error, source, e.what()); throw; }\<close>.\<close>

definition report :: "Agent \<Rightarrow> Turn \<Rightarrow> string \<Rightarrow> exn \<Rightarrow> Run \<Rightarrow> Run" where
  "report ag tn source e st =
     (case e of StdException what \<Rightarrow> emit ag tn ErrorEvent source what st | OtherException \<Rightarrow> st)"

definition tool_message :: "ToolCall \<Rightarrow> string \<Rightarrow> Message" where
  "tool_message call result =
     \<lparr>msg_role = Tool, msg_content = result, msg_name = tc_name call, msg_tool_calls = [],
      msg_tool_call_id = tc_id call\<rparr>"

definition assistant_message :: "string \<Rightarrow> ToolCall list \<Rightarrow> Message" where
  "assistant_message text calls =
     \<lparr>msg_role = Assistant, msg_content = text, msg_name = [], msg_tool_calls = calls,
      msg_tool_call_id = []\<rparr>"

definition user_message :: "string \<Rightarrow> Message" where
  "user_message text =
     \<lparr>msg_role = User, msg_content = text, msg_name = [], msg_tool_calls = [],
      msg_tool_call_id = []\<rparr>"

fun run_tools :: "Agent \<Rightarrow> Turn \<Rightarrow> ToolCall list \<Rightarrow> Run \<Rightarrow> (exn + unit) \<times> Run" where
  "run_tools ag tn [] st = (Inr (), st)"
| "run_tools ag tn (call # calls) st =
     (let st = emit ag tn ToolStarted (tc_name call) (tc_arguments call) st
      in case registry_invoke (ag_tools ag) (tc_name call) (tc_arguments call)
          (tn_cancelled tn) st of
        (Inl e, st) \<Rightarrow> (Inl e, report ag tn ''tool'' e st)
      | (Inr result, st) \<Rightarrow>
          let st = emit ag tn ToolCompleted (tc_name call) result st;
              st = push_history (tool_message call result) st
          in run_tools ag tn calls st)"

definition step_limit_text :: string where
  "step_limit_text = ''I stopped because the tool-step limit was reached.''"

text \<open>The loop: \<open>left\<close> counts the iterations that remain of \<open>max_steps_\<close>.\<close>

fun run_steps :: "Agent \<Rightarrow> Turn \<Rightarrow> nat \<Rightarrow> Run \<Rightarrow> (exn + string) \<times> Run" where
  "run_steps ag tn 0 st =
     (let st = push_history (assistant_message step_limit_text []) st;
          st = emit ag tn ErrorEvent ''step_limit'' step_limit_text st;
          st = emit ag tn TurnFailed ''step_limit'' [] st
      in (Inr step_limit_text, st))"
| "run_steps ag tn (Suc left) st =
     (let step = ag_max_steps ag - Suc left
      in case poll (tn_cancelled tn) st of (stop, st) \<Rightarrow>
        if stop then (Inl turn_cancelled_error, st)
        else
          let st = emit ag tn ModelStarted (to_string step) [] st
          in case llm_stream (ag_llm ag step (rn_history st)) ag tn step False st of
            (Inl e, st) \<Rightarrow> (Inl e, report ag tn ''llm'' e st)
          | (Inr turn, st) \<Rightarrow>
              (case poll (tn_cancelled tn) st of (stop, st) \<Rightarrow>
                if stop then (Inl turn_cancelled_error, st)
                else if \<not> lt_complete turn
                then (Inl (StdException ''incomplete LLM stream''), st)
                else
                  let st = emit ag tn ModelCompleted (to_string step) (lt_text turn) st;
                      st = push_history (assistant_message (lt_text turn) (lt_tool_calls turn)) st
                  in if lt_tool_calls turn = []
                    then (Inr (lt_text turn), emit ag tn TurnCompleted [] (lt_text turn) st)
                    else case run_tools ag tn (lt_tool_calls turn) st of
                      (Inl e, st) \<Rightarrow> (Inl e, st)
                    | (Inr _, st) \<Rightarrow> run_steps ag tn left st))"

text \<open>The outer \<open>try\<close>: roll the history back, publish the terminal event, rethrow.\<close>

definition run_body :: "Agent \<Rightarrow> Turn \<Rightarrow> string \<Rightarrow> Run \<Rightarrow> (exn + string) \<times> Run" where
  "run_body ag tn user_text st =
     (case poll (tn_cancelled tn) st of (stop, st) \<Rightarrow>
        if stop then (Inl turn_cancelled_error, st)
        else run_steps ag tn (ag_max_steps ag) (push_history (user_message user_text) st))"

definition run_streaming :: "Agent \<Rightarrow> Turn \<Rightarrow> string \<Rightarrow> Run \<Rightarrow> (exn + string) \<times> Run" where
  "run_streaming ag tn user_text st =
     (let history_checkpoint = length (rn_history st);
          st = emit ag tn TurnStarted [] [] st
      in case run_body ag tn user_text st of
        (Inr reply, st) \<Rightarrow> (Inr reply, st)
      | (Inl e, st) \<Rightarrow>
          let st = st\<lparr>rn_history := take history_checkpoint (rn_history st)\<rparr>
          in case poll (tn_cancelled tn) st of (stop, st) \<Rightarrow>
            (Inl e, emit ag tn (if stop then TurnCancelled else TurnFailed) [] [] st))"

text \<open>The two \<open>run\<close> overloads: a sink that accepts every delta, no trace, no invocation bus.\<close>

definition agent_run ::
  "Agent \<Rightarrow> string \<Rightarrow> string \<Rightarrow> string \<Rightarrow> (nat \<Rightarrow> bool) option \<Rightarrow> Run \<Rightarrow> (exn + string) \<times> Run" where
  "agent_run ag user_text session_id turn_id cancelled st =
     run_streaming ag \<lparr>tn_session_id = session_id, tn_turn_id = turn_id, tn_trace_id = [],
       tn_on_text_delta = (\<lambda>_ _. True), tn_cancelled = cancelled,
       tn_invocation_events = False\<rparr> user_text st"

definition agent_run_text :: "Agent \<Rightarrow> string \<Rightarrow> Run \<Rightarrow> (exn + string) \<times> Run" where
  "agent_run_text ag user_text st = agent_run ag user_text [] [] None st"

section \<open>Asynchronous sessions\<close>

text \<open>
  \<open>AsyncSession\<close> submits the turn to its session's lane of the executor. The task it submits
  reads \<open>context.stop_requested()\<close> (the turn's predicate) and, for the message, the deadline
  again. Its callbacks are optional client code that may throw; the log lists the state
  transitions it makes and the callbacks it calls.
\<close>

datatype async_obs = Transition TurnState | OnCompleted string | OnFailed exn

record Callbacks =
  cb_on_completed :: "(string \<Rightarrow> exn option) option"
  cb_on_failed :: "(exn \<Rightarrow> exn option) option"

definition async_new :: "string \<Rightarrow> executor_error + string" where
  "async_new session_id = (if session_id = [] then Inl SessionIdRequired else Inr session_id)"

definition stop_error :: "(nat \<Rightarrow> bool) \<Rightarrow> Run \<Rightarrow> exn" where
  "stop_error expired st =
     StdException (if expired (rn_polls st) then ''turn deadline exceeded'' else ''turn cancelled'')"

definition async_attempt ::
  "Agent \<Rightarrow> Turn \<Rightarrow> (nat \<Rightarrow> bool) \<Rightarrow> Callbacks \<Rightarrow> string \<Rightarrow> Run \<Rightarrow>
     (exn + string) \<times> async_obs list \<times> Run" where
  "async_attempt ag tn expired cb user_text st =
     (case poll (tn_cancelled tn) st of (stop, st) \<Rightarrow>
        if stop then (Inl (stop_error expired st), [], st)
        else case run_streaming ag tn user_text st of
          (Inl e, st) \<Rightarrow> (Inl e, [Transition ModelStreaming], st)
        | (Inr reply, st) \<Rightarrow>
            (case poll (tn_cancelled tn) st of (stop, st) \<Rightarrow>
              if stop then (Inl (stop_error expired st), [Transition ModelStreaming], st)
              else case cb_on_completed cb of
                None \<Rightarrow> (Inr reply, [Transition ModelStreaming], st)
              | Some on_completed \<Rightarrow>
                  (case on_completed reply of
                     None \<Rightarrow> (Inr reply, [Transition ModelStreaming, OnCompleted reply], st)
                   | Some e \<Rightarrow> (Inl e, [Transition ModelStreaming, OnCompleted reply], st))))"

definition async_task ::
  "Agent \<Rightarrow> Turn \<Rightarrow> (nat \<Rightarrow> bool) \<Rightarrow> Callbacks \<Rightarrow> string \<Rightarrow> Run \<Rightarrow>
     (exn + string) \<times> async_obs list \<times> Run" where
  "async_task ag tn expired cb user_text st =
     (case async_attempt ag tn expired cb user_text st of
        (Inr reply, log, st) \<Rightarrow> (Inr reply, log, st)
      | (Inl e, log, st) \<Rightarrow>
          (case cb_on_failed cb of
             None \<Rightarrow> (Inl e, log, st)
           | Some on_failed \<Rightarrow>
               (case on_failed e of
                  None \<Rightarrow> (Inl e, log @ [OnFailed e], st)
                | Some e' \<Rightarrow> (Inl e', log @ [OnFailed e], st))))"

definition async_submit_streaming ::
  "time_point \<Rightarrow> string \<Rightarrow> TurnOptions \<Rightarrow> Executor \<Rightarrow> (executor_error + string) \<times> Executor" where
  "async_submit_streaming now session_id options ex = executor_submit_turn now session_id options ex"

text \<open>\<open>submit\<close>: a sink that accepts every delta and no callbacks.\<close>

definition async_submit_task ::
  "Agent \<Rightarrow> Turn \<Rightarrow> (nat \<Rightarrow> bool) \<Rightarrow> string \<Rightarrow> Run \<Rightarrow> (exn + string) \<times> async_obs list \<times> Run" where
  "async_submit_task ag tn expired user_text st =
     async_task ag (tn\<lparr>tn_on_text_delta := \<lambda>_ _. True, tn_invocation_events := False\<rparr>) expired
       \<lparr>cb_on_completed = None, cb_on_failed = None\<rparr> user_text st"

definition async_cancel :: "string \<Rightarrow> Executor \<Rightarrow> Executor" where
  "async_cancel session_id ex = executor_cancel_session session_id ex"

lemmas [agent_defs] = push_history_def tool_failed_def registry_invoke_def report_def run_body_def

section \<open>What a turn appends\<close>

definition audible :: "Agent \<Rightarrow> Turn \<Rightarrow> bool" where
  "audible ag tn \<longleftrightarrow> tn_invocation_events tn \<or> ag_has_events ag"

definition published :: "Agent \<Rightarrow> Turn \<Rightarrow> Event list \<Rightarrow> Event list" where
  "published ag tn es = (if audible ag tn then es else [])"

lemma published_simps [simp]:
  "published ag tn [] = []" "published ag tn (xs @ ys) = published ag tn xs @ published ag tn ys"
  by (simp_all add: published_def)

text \<open>An event between the first and the last one of the turn, under the turn's identities.\<close>

definition of_turn :: "Turn \<Rightarrow> Event \<Rightarrow> bool" where
  "of_turn tn e \<longleftrightarrow> ev_session_id e = tn_session_id tn \<and> ev_turn_id e = tn_turn_id tn \<and>
     ev_trace_id e = tn_trace_id tn"

definition inner :: "Turn \<Rightarrow> Event \<Rightarrow> bool" where
  "inner tn e \<longleftrightarrow> of_turn tn e \<and>
     ev_type e \<notin> {TurnStarted, TurnCompleted, TurnFailed, TurnCancelled}"

definition models :: "Event list \<Rightarrow> nat" where
  "models es = length (filter (\<lambda>e. ev_type e = ModelStarted) es)"

definition delta_texts :: "Event list \<Rightarrow> string list" where
  "delta_texts es = map ev_data (filter (\<lambda>e. ev_type e = ModelTextDelta) es)"

lemma models_simps [simp]:
  "models [] = 0" "models (xs @ ys) = models xs + models ys"
  "models (e # es) = (if ev_type e = ModelStarted then 1 else 0) + models es"
  by (simp_all add: models_def)

lemma delta_texts_simps [simp]:
  "delta_texts [] = []" "delta_texts (xs @ ys) = delta_texts xs @ delta_texts ys"
  "delta_texts (e # es) = (if ev_type e = ModelTextDelta then [ev_data e] else []) @ delta_texts es"
  by (simp_all add: delta_texts_def)

lemma mk_event_simps [simp]:
  "ev_type (mk_event ty s t n d r) = ty" "ev_data (mk_event ty s t n d r) = d"
  "ev_name (mk_event ty s t n d r) = n"
  "of_turn tn (mk_event ty (tn_session_id tn) (tn_turn_id tn) n d (tn_trace_id tn))"
  by (simp_all add: mk_event_def of_turn_def)

definition advances :: "Agent \<Rightarrow> Turn \<Rightarrow> nat \<Rightarrow> Run \<Rightarrow> Run \<Rightarrow> bool" where
  "advances ag tn k st st' \<longleftrightarrow> (\<exists>es. rn_events st' = rn_events st @ published ag tn es \<and> list_all (inner tn) es \<and>
     models es = k \<and> rn_deltas st' = rn_deltas st @ delta_texts es)"

lemma advances_refl [simp]: "advances ag tn 0 st st"
  by (auto simp: advances_def intro: exI [of _ "[]"])

lemma advances_trans:
  assumes "advances ag tn j a b" and "advances ag tn k b c" and "n = j + k"
  shows "advances ag tn n a c"
proof -
  from assms obtain es fs where
    "rn_events b = rn_events a @ published ag tn es" "list_all (inner tn) es" "models es = j"
    "rn_deltas b = rn_deltas a @ delta_texts es"
    "rn_events c = rn_events b @ published ag tn fs" "list_all (inner tn) fs" "models fs = k"
    "rn_deltas c = rn_deltas b @ delta_texts fs" by (auto simp: advances_def)
  with assms(3) show ?thesis unfolding advances_def by (intro exI [of _ "es @ fs"]) simp
qed

lemma advances_then: "advances ag tn 0 a b \<Longrightarrow> advances ag tn k b c \<Longrightarrow> advances ag tn k a c"
  by (rule advances_trans [where j = 0 and k = k]) simp_all

lemma poll_frame [simp]:
  "rn_history (snd (poll c st)) = rn_history st"
  "rn_events (snd (poll c st)) = rn_events st"
  "rn_deltas (snd (poll c st)) = rn_deltas st"
  by (simp_all add: poll_def split: option.split)

lemma poll_frameD:
  assumes "poll c st = (b, st')"
  shows "rn_history st' = rn_history st" and "rn_events st' = rn_events st" and "rn_deltas st' = rn_deltas st"
    and "advances ag tn 0 st st'"
proof -
  have st': "st' = snd (poll c st)" using assms by simp
  show "rn_history st' = rn_history st" "rn_events st' = rn_events st" "rn_deltas st' = rn_deltas st"
    by (simp_all add: st')
  then show "advances ag tn 0 st st'" by (auto simp: advances_def intro: exI [of _ "[]"])
qed

lemma emit_frame [simp]:
  "rn_history (emit ag tn ty n d st) = rn_history st"
  "rn_deltas (emit ag tn ty n d st) = rn_deltas st"
  by (simp_all add: emit_def)

lemma push_frame [simp]:
  "rn_history (push_history m st) = rn_history st @ [m]"
  "rn_events (push_history m st) = rn_events st" "rn_deltas (push_history m st) = rn_deltas st"
  by (simp_all add: push_history_def)

lemma advances_push [simp]: "advances ag tn k a (push_history m b) = advances ag tn k a b"
  "advances ag tn k (push_history m a) b = advances ag tn k a b"
  by (simp_all add: advances_def)

lemma emit_events:
  "rn_events (emit ag tn ty n d st) = rn_events st @
     published ag tn [mk_event ty (tn_session_id tn) (tn_turn_id tn) n d (tn_trace_id tn)]"
  by (simp add: emit_def audible_def published_def)

lemma emit_advances:
  assumes "ty \<notin> {TurnStarted, TurnCompleted, TurnFailed, TurnCancelled, ModelTextDelta}"
    and "k = (if ty = ModelStarted then 1 else 0)"
  shows "advances ag tn k st (emit ag tn ty n d st)"
  using assms unfolding advances_def
  by (intro exI [of _ "[mk_event ty (tn_session_id tn) (tn_turn_id tn) n d (tn_trace_id tn)]"])
    (simp add: emit_events inner_def)

section \<open>Tools\<close>

lemma tool_exec_frame:
  "tool_exec r c st = (x, st') \<Longrightarrow> rn_history st' = rn_history st \<and> advances ag tn 0 st st'"
proof (induction r arbitrary: st)
  case (ToolPoll k)
  obtain b u where u: "poll c st = (b, u)" by (cases "poll c st")
  with ToolPoll.prems have "tool_exec (k b) c u = (x, st')" by simp
  from ToolPoll.IH [OF _ this] poll_frameD(1,4) [OF u] show ?case
    by (metis advances_then rangeI)
qed auto

lemma tool_failed_frame:
  "tool_failed c w st = (x, st') \<Longrightarrow> rn_history st' = rn_history st \<and> advances ag tn 0 st st'"
  using poll_frameD(1,4) [of c st] by (auto simp: tool_failed_def split: prod.splits if_splits)

lemma registry_invoke_frame:
  assumes "registry_invoke tools n a c st = (x, st')"
  shows "rn_history st' = rn_history st \<and> advances ag tn 0 st st'"
proof (cases "map_of tools n")
  case (Some h)
  obtain b u where u: "poll c st = (b, u)" by (cases "poll c st")
  note pu = poll_frameD [OF u]
  show ?thesis
  proof (cases b)
    case True
    with Some u assms pu(1) pu(4) [of ag tn] show ?thesis by (simp add: registry_invoke_def)
  next
    case False
    obtain y v where v: "tool_exec (h (length (rn_history u)) a) c u = (y, v)"
      by (cases "tool_exec (h (length (rn_history u)) a) c u")
    note tv = tool_exec_frame [OF v, of ag tn]
    obtain b2 w where w: "poll c v = (b2, w)" by (cases "poll c v")
    note pw = poll_frameD [OF w]
    consider "st' = v" | "st' = w" | m where "tool_failed c m w = (x, st')" | m where "tool_failed c m v = (x, st')"
      using assms Some u False v w by (auto simp: registry_invoke_def split: sum.splits exn.splits if_splits)
    then have "rn_history st' = rn_history v \<and> advances ag tn 0 v st'"
    proof cases
      case 2
      with pw(1) pw(4) [of ag tn] show ?thesis by simp
    next
      case (3 m)
      from tool_failed_frame [OF this, of ag tn] pw(1) pw(4) [of ag tn] show ?thesis by (metis advances_then)
    next
      case (4 m)
      from tool_failed_frame [OF this, of ag tn] show ?thesis .
    qed simp
    with tv pu(1) pu(4) [of ag tn] show ?thesis by (metis advances_then)
  qed
qed (use assms in \<open>simp add: registry_invoke_def\<close>)

lemma report_frame:
  shows "rn_history (report ag tn src e st) = rn_history st \<and> advances ag tn 0 st (report ag tn src e st)"
  by (simp add: report_def emit_advances split: exn.split)

section \<open>Streams\<close>

lemma text_delta_frame:
  assumes "text_delta ag tn step d f st = (b, f', st')"
  shows "rn_history st' = rn_history st \<and> advances ag tn 0 st st'"
proof -
  obtain stop u where u: "poll (tn_cancelled tn) st = (stop, u)" by (cases "poll (tn_cancelled tn) st")
  note pu = poll_frameD [OF u]
  have "advances ag tn 0 u (let v = (if f then u else emit ag tn FirstToken (to_string step) [] u);
      v = emit ag tn ModelTextDelta (to_string step) d v in v\<lparr>rn_deltas := rn_deltas v @ [d]\<rparr>)"
    unfolding advances_def Let_def
    by (intro exI [of _ "(if f then [] else [mk_event FirstToken (tn_session_id tn) (tn_turn_id tn)
          (to_string step) [] (tn_trace_id tn)]) @ [mk_event ModelTextDelta (tn_session_id tn)
          (tn_turn_id tn) (to_string step) d (tn_trace_id tn)]"])
      (simp add: emit_events inner_def)
  with u pu(1) pu(4) [of ag tn] assms show ?thesis
    by (auto simp: text_delta_def Let_def split: if_splits intro: advances_then)
qed

lemma llm_stream_frame:
  shows "llm_stream r ag tn step f st = (x, st') \<Longrightarrow> rn_history st' = rn_history st \<and> advances ag tn 0 st st'"
proof (induction r arbitrary: st f)
  case (LlmDelta d k)
  obtain b f' u where u: "text_delta ag tn step d f st = (b, f', u)" by (cases "text_delta ag tn step d f st")
  with LlmDelta.prems have "llm_stream (k b) ag tn step f' u = (x, st')" by simp
  from LlmDelta.IH [OF _ this] text_delta_frame [OF u] show ?case
    by (metis advances_then rangeI)
next
  case (LlmPoll k)
  obtain b u where u: "poll (tn_cancelled tn) st = (b, u)" by (cases "poll (tn_cancelled tn) st")
  with LlmPoll.prems have "llm_stream (k b) ag tn step f u = (x, st')" by simp
  from LlmPoll.IH [OF _ this] poll_frameD(1,4) [OF u] show ?case
    by (metis advances_then rangeI)
qed auto

section \<open>The loop\<close>

lemma run_tools_frame:
  shows "run_tools ag tn calls st = (x, st') \<Longrightarrow> advances ag tn 0 st st' \<and>
    (\<not> isl x \<longrightarrow> (\<exists>results. length results = length calls \<and>
      rn_history st' = rn_history st @ map2 tool_message calls results))"
proof (induction calls arbitrary: st)
  case (Cons call calls)
  let ?a = "emit ag tn ToolStarted (tc_name call) (tc_arguments call) st"
  obtain y u where u: "registry_invoke (ag_tools ag) (tc_name call) (tc_arguments call) (tn_cancelled tn) ?a = (y, u)"
    by (cases "registry_invoke (ag_tools ag) (tc_name call) (tc_arguments call) (tn_cancelled tn) ?a")
  have a: "advances ag tn 0 st ?a" by (rule emit_advances) simp_all
  have hu: "rn_history u = rn_history st" and au: "advances ag tn 0 st u"
    using registry_invoke_frame [OF u, of ag tn] advances_then [OF a] by simp_all
  show ?case
  proof (cases y)
    case (Inl e)
    with Cons.prems u report_frame [of ag tn "''tool''" e u] advances_then [OF au] show ?thesis
      by (auto simp: Let_def)
  next
    case (Inr result)
    let ?b = "emit ag tn ToolCompleted (tc_name call) result u"
    have ab: "advances ag tn 0 st (push_history (tool_message call result) ?b)"
      using advances_then [OF au emit_advances [of ToolCompleted 0]] by simp
    have "run_tools ag tn calls (push_history (tool_message call result) ?b) = (x, st')"
      using Cons.prems u Inr by (simp add: Let_def)
    from Cons.IH [OF this] have IH: "advances ag tn 0 (push_history (tool_message call result) ?b) st'"
      "\<not> isl x \<Longrightarrow> \<exists>results. length results = length calls \<and>
        rn_history st' = rn_history st @ [tool_message call result] @ map2 tool_message calls results"
      using hu by auto
    have "\<exists>results. length results = length (call # calls) \<and>
        rn_history st' = rn_history st @ map2 tool_message (call # calls) results" if "\<not> isl x"
    proof -
      from IH(2) [OF that] obtain rs where "length rs = length calls"
        "rn_history st' = rn_history st @ [tool_message call result] @ map2 tool_message calls rs" by blast
      then show ?thesis by (intro exI [of _ "result # rs"]) simp
    qed
    with advances_then [OF ab IH(1)] show ?thesis by blast
  qed
qed simp

text \<open>
  What a finished turn appends after the user's message: \<open>n\<close> rounds of an assistant message
  with tool calls followed by one answer per call, in the order of the calls, each under the
  call's name and id, and last an assistant message without calls that holds the reply.
\<close>

inductive answered :: "nat \<Rightarrow> Message list \<Rightarrow> string \<Rightarrow> bool" where
  answer: "answered 0 [assistant_message reply []] reply"
| tools: "calls \<noteq> [] \<Longrightarrow> length results = length calls \<Longrightarrow> answered n ms reply \<Longrightarrow>
    answered (Suc n) (assistant_message content calls # map2 tool_message calls results @ ms) reply"

text \<open>The terminal event of a turn that returned: completion, or the step limit.\<close>

definition terminal_event :: "Turn \<Rightarrow> bool \<Rightarrow> string \<Rightarrow> Event" where
  "terminal_event tn limit reply =
     (if limit then mk_event TurnFailed (tn_session_id tn) (tn_turn_id tn) ''step_limit'' [] (tn_trace_id tn)
      else mk_event TurnCompleted (tn_session_id tn) (tn_turn_id tn) [] reply (tn_trace_id tn))"

definition finished :: "Agent \<Rightarrow> Turn \<Rightarrow> nat \<Rightarrow> Run \<Rightarrow> string \<Rightarrow> Run \<Rightarrow> bool" where
  "finished ag tn n st reply st' \<longleftrightarrow>
     (\<exists>rounds ms u. rounds \<le> n \<and> answered rounds ms reply \<and> rn_history st' = rn_history st @ ms \<and>
       (rounds = n \<longrightarrow> reply = step_limit_text) \<and>
       advances ag tn (if rounds = n then n else Suc rounds) st u \<and>
       rn_events st' = rn_events u @ published ag tn [terminal_event tn (rounds = n) reply] \<and>
       rn_deltas st' = rn_deltas u)"

lemma finished_round:
  assumes "advances ag tn 1 st v" and "rn_history v = rn_history st @ assistant_message content calls # map2 tool_message calls results"
    and "calls \<noteq> []" and "length results = length calls" and "finished ag tn n v reply st'"
  shows "finished ag tn (Suc n) st reply st'"
proof -
  from assms(5) obtain rounds ms u where f: "rounds \<le> n" "answered rounds ms reply"
    "rn_history st' = rn_history v @ ms" "rounds = n \<longrightarrow> reply = step_limit_text"
    "advances ag tn (if rounds = n then n else Suc rounds) v u"
    "rn_events st' = rn_events u @ published ag tn [terminal_event tn (rounds = n) reply]" "rn_deltas st' = rn_deltas u"
    by (auto simp: finished_def)
  have "advances ag tn (if Suc rounds = Suc n then Suc n else Suc (Suc rounds)) st u"
    using advances_trans [OF assms(1) f(5)] by (simp split: if_splits)
  with f assms(2) answered.tools [OF assms(3,4) f(2), of content] show ?thesis
    unfolding finished_def
    by (intro exI [of _ "Suc rounds"] exI [of _ "assistant_message content calls # map2 tool_message calls results @ ms"]
        exI [of _ u]) simp
qed

lemma advances_one_le: "advances ag tn (Suc 0) st st' \<Longrightarrow> \<exists>k \<le> Suc n. advances ag tn k st st'"
  by (rule exI [of _ "Suc 0"]) simp

lemma run_steps_frame:
  shows "run_steps ag tn n st = (x, st') \<Longrightarrow>
    (case x of Inl e \<Rightarrow> \<exists>k \<le> n. advances ag tn k st st' | Inr reply \<Rightarrow> finished ag tn n st reply st')"
proof (induction n arbitrary: st)
  case 0
  let ?u = "emit ag tn ErrorEvent ''step_limit'' step_limit_text (push_history (assistant_message step_limit_text []) st)"
  have "advances ag tn 0 st ?u"
    using emit_advances [of ErrorEvent 0 ag tn "push_history (assistant_message step_limit_text []) st"] by simp
  then have "finished ag tn 0 st step_limit_text (emit ag tn TurnFailed ''step_limit'' [] ?u)"
    unfolding finished_def
    by (intro exI [of _ 0] exI [of _ "[assistant_message step_limit_text []]"] exI [of _ ?u])
      (simp add: answered.answer emit_events terminal_event_def)
  with 0 show ?case by (auto simp: Let_def)
next
  case (Suc n)
  let ?step = "ag_max_steps ag - Suc n"
  obtain stop a where a: "poll (tn_cancelled tn) st = (stop, a)" by (cases "poll (tn_cancelled tn) st")
  note pa = poll_frameD [OF a]
  let ?b = "emit ag tn ModelStarted (to_string ?step) [] a"
  have ab: "advances ag tn 1 st ?b"
    by (rule advances_then [OF pa(4)]) (rule emit_advances, simp_all)
  obtain y c where c: "llm_stream (ag_llm ag ?step (rn_history ?b)) ag tn ?step False ?b = (y, c)"
    by (cases "llm_stream (ag_llm ag ?step (rn_history ?b)) ag tn ?step False ?b")
  have hc: "rn_history c = rn_history st" and ac: "advances ag tn 1 st c"
    using llm_stream_frame [OF c] pa(1) advances_trans [OF ab] by auto
  show ?case
  proof (cases stop)
    case True
    with Suc.prems a pa(4) [of ag tn] show ?thesis by (auto intro: exI [of _ 0])
  next
    case go: False
    show ?thesis
    proof (cases y)
      case (Inl e)
      have "advances ag tn 1 st (report ag tn ''llm'' e c)"
        using advances_trans [OF ac conjunct2 [OF report_frame]] by simp
      with Suc.prems a c go Inl show ?thesis by (auto simp: Let_def intro: advances_one_le)
    next
      case (Inr turn)
      obtain stop2 d where d: "poll (tn_cancelled tn) c = (stop2, d)" by (cases "poll (tn_cancelled tn) c")
      have hd: "rn_history d = rn_history st" and ad: "advances ag tn 1 st d"
        using poll_frameD(1,4) [OF d] hc advances_trans [OF ac] by auto
      show ?thesis
      proof (cases "stop2 \<or> \<not> lt_complete turn")
        case True
        with Suc.prems a c d go Inr ad show ?thesis
          by (auto simp: Let_def intro: advances_one_le split: if_splits)
      next
        case False
        let ?e = "push_history (assistant_message (lt_text turn) (lt_tool_calls turn))
          (emit ag tn ModelCompleted (to_string ?step) (lt_text turn) d)"
        have ae: "advances ag tn 1 st ?e"
          using advances_trans [OF ad emit_advances [of ModelCompleted 0]] by simp
        show ?thesis
        proof (cases "lt_tool_calls turn = []")
          case True
          have "finished ag tn (Suc n) st (lt_text turn) (emit ag tn TurnCompleted [] (lt_text turn) ?e)"
            unfolding finished_def using ae hd True
            by (intro exI [of _ 0] exI [of _ "[assistant_message (lt_text turn) []]"] exI [of _ ?e])
              (simp add: answered.answer emit_events terminal_event_def)
          with True False Suc.prems a c d go Inr show ?thesis by (auto simp: Let_def)
        next
          case tools: False
          obtain z g where g: "run_tools ag tn (lt_tool_calls turn) ?e = (z, g)"
            by (cases "run_tools ag tn (lt_tool_calls turn) ?e")
          note tg = run_tools_frame [OF g]
          have ag: "advances ag tn 1 st g" using advances_trans [OF ae conjunct1 [OF tg]] by simp
          show ?thesis
          proof (cases z)
            case (Inl e)
            with g tools False Suc.prems a c d go Inr ag show ?thesis
              by (auto simp: Let_def intro: advances_one_le)
          next
            case ok: (Inr unit)
            have rest: "run_steps ag tn n g = (x, st')"
              using g tools False Suc.prems a c d go Inr ok by (simp add: Let_def)
            from tg ok obtain rs where rs: "length rs = length (lt_tool_calls turn)"
              "rn_history g = rn_history st @ assistant_message (lt_text turn) (lt_tool_calls turn)
                # map2 tool_message (lt_tool_calls turn) rs" using hd by auto
            from Suc.IH [OF rest] show ?thesis
            proof (cases x)
              case (Inl e)
              with Suc.IH [OF rest] obtain k where "k \<le> n" "advances ag tn k g st'" by auto
              with Inl advances_trans [OF ag this(2), of "Suc k"] show ?thesis by auto
            next
              case (Inr reply)
              with Suc.IH [OF rest] finished_round [OF ag rs(2) tools rs(1)] show ?thesis by simp
            qed
          qed
        qed
      qed
    qed
  qed
qed

lemma run_body_frame:
  assumes "run_body ag tn user_text st = (x, st')"
  shows "case x of Inl e \<Rightarrow> \<exists>k \<le> ag_max_steps ag. advances ag tn k st st'
    | Inr reply \<Rightarrow> finished ag tn (ag_max_steps ag) (push_history (user_message user_text) st) reply st'"
proof -
  obtain stop a where a: "poll (tn_cancelled tn) st = (stop, a)" by (cases "poll (tn_cancelled tn) st")
  note pa = poll_frameD [OF a]
  show ?thesis
  proof (cases stop)
    case True
    with a assms pa(4) [of ag tn] show ?thesis by (auto simp: run_body_def)
  next
    case False
    with a assms have r: "run_steps ag tn (ag_max_steps ag) (push_history (user_message user_text) a) = (x, st')"
      by (simp add: run_body_def)
    have "finished ag tn n (push_history m a) reply st' \<Longrightarrow> finished ag tn n (push_history m st) reply st'" for n m reply
      using pa by (simp add: finished_def advances_def)
    moreover have "advances ag tn k a st' \<Longrightarrow> advances ag tn k st st'" for k
      using pa by (simp add: advances_def)
    ultimately show ?thesis using run_steps_frame [OF r] by (auto split: sum.splits)
  qed
qed

text \<open>Also a turn that fails has only appended to the history before the rollback.\<close>

definition grows :: "Run \<Rightarrow> Run \<Rightarrow> bool" where
  "grows st st' \<longleftrightarrow> (\<exists>ms. rn_history st' = rn_history st @ ms)"

lemma grows_same: "rn_history st' = rn_history st \<Longrightarrow> grows st st'"
  by (simp add: grows_def)

lemma grows_trans: "grows a b \<Longrightarrow> grows b c \<Longrightarrow> grows a c"
  by (auto simp: grows_def)

lemma grows_push: "grows (push_history m a) c \<Longrightarrow> grows a c"
  by (auto simp: grows_def)

lemma run_tools_grows: "run_tools ag tn calls st = (x, st') \<Longrightarrow> grows st st'"
proof (induction calls arbitrary: st)
  case (Cons call calls)
  obtain y u where u: "registry_invoke (ag_tools ag) (tc_name call) (tc_arguments call) (tn_cancelled tn)
      (emit ag tn ToolStarted (tc_name call) (tc_arguments call) st) = (y, u)"
    by (cases "registry_invoke (ag_tools ag) (tc_name call) (tc_arguments call) (tn_cancelled tn)
      (emit ag tn ToolStarted (tc_name call) (tc_arguments call) st)")
  have h: "rn_history u = rn_history st" using registry_invoke_frame [OF u] by simp
  show ?case
  proof (cases y)
    case (Inl e)
    with Cons.prems u h report_frame [of ag tn "''tool''" e u] show ?thesis
      by (auto simp: Let_def intro: grows_same)
  next
    case (Inr result)
    with Cons.prems u Cons.IH have "grows (push_history (tool_message call result)
        (emit ag tn ToolCompleted (tc_name call) result u)) st'" by (simp add: Let_def)
    then show ?thesis using h by (auto simp: grows_def)
  qed
qed (simp add: grows_same)

lemma run_steps_grows: "run_steps ag tn n st = (x, st') \<Longrightarrow> grows st st'"
proof (induction n arbitrary: st)
  case 0
  then show ?case by (auto simp: Let_def grows_def)
next
  case (Suc n)
  let ?step = "ag_max_steps ag - Suc n"
  obtain stop a where a: "poll (tn_cancelled tn) st = (stop, a)" by (cases "poll (tn_cancelled tn) st")
  let ?b = "emit ag tn ModelStarted (to_string ?step) [] a"
  obtain y c where c: "llm_stream (ag_llm ag ?step (rn_history ?b)) ag tn ?step False ?b = (y, c)"
    by (cases "llm_stream (ag_llm ag ?step (rn_history ?b)) ag tn ?step False ?b")
  obtain stop2 d where d: "poll (tn_cancelled tn) c = (stop2, d)" by (cases "poll (tn_cancelled tn) c")
  have h: "rn_history a = rn_history st" "rn_history c = rn_history st" "rn_history d = rn_history st"
    using poll_frameD(1) [OF a] poll_frameD(1) [OF d] llm_stream_frame [OF c] by simp_all
  show ?case
  proof (cases "stop \<or> isl y \<or> stop2 \<or> \<not> lt_complete (projr y) \<or> lt_tool_calls (projr y) = []")
    case True
    with Suc.prems a c d h report_frame [of ag tn] show ?thesis
      by (cases y) (auto simp: Let_def grows_def split: if_splits)
  next
    case False
    then obtain turn where y: "y = Inr turn" by (cases y) auto
    let ?e = "push_history (assistant_message (lt_text turn) (lt_tool_calls turn))
      (emit ag tn ModelCompleted (to_string ?step) (lt_text turn) d)"
    obtain z g where g: "run_tools ag tn (lt_tool_calls turn) ?e = (z, g)"
      by (cases "run_tools ag tn (lt_tool_calls turn) ?e")
    have eg: "grows st g" using run_tools_grows [OF g] h by (auto simp: grows_def)
    with Suc.prems Suc.IH [of g] a c d g y False show ?thesis
      by (cases z) (auto simp: Let_def intro: grows_trans [OF eg])
  qed
qed

lemma run_body_grows:
  assumes "run_body ag tn user_text st = (x, st')"
  shows "grows st st'"
proof -
  obtain stop a where a: "poll (tn_cancelled tn) st = (stop, a)" by (cases "poll (tn_cancelled tn) st")
  have "grows a st'" if "\<not> stop"
    using that a assms run_steps_grows grows_push by (fastforce simp: run_body_def)
  then show ?thesis
    using a assms poll_frameD(1) [OF a] by (cases stop) (auto simp: run_body_def grows_def)
qed

section \<open>Properties\<close>

text \<open>
  C16: exactly one terminal event. The events of a turn are \<open>TurnStarted\<close>, then events that are
  neither a start nor an outcome, then one outcome, all under the turn's session, turn and trace
  ids. The outcome is \<open>TurnCompleted\<close> with the reply when the turn returned one, \<open>TurnFailed\<close>
  named \<open>step_limit\<close> when it returned the step-limit text, and \<open>TurnCancelled\<close> or \<open>TurnFailed\<close> when
  it threw. The model is called at most \<open>max_steps\<close> times, and the deltas given to the sink are
  those published, in the same order.
\<close>

theorem agent_one_terminal_event:
  assumes "audible ag tn" and "run_streaming ag tn user_text st = (x, st')"
  shows "\<exists>es t. rn_events st' = rn_events st @
      mk_event TurnStarted (tn_session_id tn) (tn_turn_id tn) [] [] (tn_trace_id tn) # es @ [t] \<and>
    list_all (inner tn) es \<and> models es \<le> ag_max_steps ag \<and>
    rn_deltas st' = rn_deltas st @ delta_texts es \<and> of_turn tn t \<and>
    (case x of
       Inl e \<Rightarrow> ev_type t \<in> {TurnCancelled, TurnFailed} \<and> ev_name t = []
     | Inr reply \<Rightarrow> (ev_type t = TurnCompleted \<and> ev_data t = reply) \<or>
         (ev_type t = TurnFailed \<and> ev_name t = ''step_limit'' \<and> reply = step_limit_text))"
proof -
  let ?a = "emit ag tn TurnStarted [] [] st"
  have a: "rn_events ?a = rn_events st @ [mk_event TurnStarted (tn_session_id tn) (tn_turn_id tn) [] [] (tn_trace_id tn)]"
    "rn_deltas ?a = rn_deltas st"
    using assms(1) by (simp_all add: emit_events published_def)
  obtain y b where b: "run_body ag tn user_text ?a = (y, b)" by (cases "run_body ag tn user_text ?a")
  note body = run_body_frame [OF b]
  show ?thesis
  proof (cases y)
    case (Inr reply)
    then have x: "x = Inr reply" "st' = b" using b assms(2) by (simp_all add: run_streaming_def Let_def)
    from body Inr obtain rounds u where f: "rounds \<le> ag_max_steps ag"
      "rounds = ag_max_steps ag \<longrightarrow> reply = step_limit_text"
      "advances ag tn (if rounds = ag_max_steps ag then ag_max_steps ag else Suc rounds)
        (push_history (user_message user_text) ?a) u"
      "rn_events b = rn_events u @ published ag tn [terminal_event tn (rounds = ag_max_steps ag) reply]"
      "rn_deltas b = rn_deltas u"
      by (auto simp: finished_def)
    from f(3) obtain es where es: "rn_events u = rn_events ?a @ published ag tn es" "list_all (inner tn) es"
      "models es = (if rounds = ag_max_steps ag then ag_max_steps ag else Suc rounds)"
      "rn_deltas u = rn_deltas ?a @ delta_texts es"
      by (auto simp: advances_def)
    show ?thesis
      using x f(1,2,4,5) es a assms(1)
      by (intro exI [of _ es] exI [of _ "terminal_event tn (rounds = ag_max_steps ag) reply"])
        (simp add: published_def terminal_event_def split: if_splits)
  next
    case (Inl e)
    let ?c = "b\<lparr>rn_history := take (length (rn_history st)) (rn_history b)\<rparr>"
    obtain stop d where d: "poll (tn_cancelled tn) ?c = (stop, d)" by (cases "poll (tn_cancelled tn) ?c")
    have x: "x = Inl e" "st' = emit ag tn (if stop then TurnCancelled else TurnFailed) [] [] d"
      using b d Inl assms(2) by (simp_all add: run_streaming_def Let_def)
    from body Inl obtain k where "k \<le> ag_max_steps ag" "advances ag tn k ?a b" by auto
    then obtain es where es: "rn_events b = rn_events ?a @ published ag tn es" "list_all (inner tn) es"
      "models es \<le> ag_max_steps ag" "rn_deltas b = rn_deltas ?a @ delta_texts es"
      by (auto simp: advances_def)
    show ?thesis
      using x es a assms(1) poll_frameD [OF d]
      by (intro exI [of _ es] exI [of _ "mk_event (if stop then TurnCancelled else TurnFailed)
            (tn_session_id tn) (tn_turn_id tn) [] [] (tn_trace_id tn)"])
        (simp add: published_def emit_events)
  qed
qed

text \<open>
  C4: the history is transactional. A turn that throws leaves the history exactly as it was. A
  turn that returns has appended the user's message and then rounds in which every tool call of
  an assistant message is answered by one tool message with its name and id, in order, ending
  with an assistant message that holds the reply; it used at most \<open>max_steps\<close> rounds, and all of
  them only when the reply is the step-limit text.
\<close>

theorem agent_history_transactional:
  assumes "run_streaming ag tn user_text st = (x, st')"
  shows "case x of
      Inl e \<Rightarrow> rn_history st' = rn_history st
    | Inr reply \<Rightarrow> (\<exists>rounds ms. rn_history st' = rn_history st @ user_message user_text # ms \<and>
        answered rounds ms reply \<and> rounds \<le> ag_max_steps ag \<and>
        (rounds = ag_max_steps ag \<longrightarrow> reply = step_limit_text))"
proof -
  let ?a = "emit ag tn TurnStarted [] [] st"
  obtain y b where b: "run_body ag tn user_text ?a = (y, b)" by (cases "run_body ag tn user_text ?a")
  show ?thesis
  proof (cases y)
    case (Inr reply)
    then have "x = Inr reply" "st' = b" using b assms by (simp_all add: run_streaming_def Let_def)
    with run_body_frame [OF b] Inr show ?thesis by (auto simp: finished_def)
  next
    case (Inl e)
    let ?c = "b\<lparr>rn_history := take (length (rn_history st)) (rn_history b)\<rparr>"
    obtain stop d where d: "poll (tn_cancelled tn) ?c = (stop, d)" by (cases "poll (tn_cancelled tn) ?c")
    have x: "x = Inl e" "rn_history st' = rn_history d"
      using b d Inl assms by (auto simp: run_streaming_def Let_def)
    moreover have "rn_history ?c = rn_history st" using run_body_grows [OF b] by (auto simp: grows_def)
    ultimately show ?thesis using poll_frameD(1) [OF d] by simp
  qed
qed

text \<open>
  C32: a tool failure is a result, not an exception. While the stop predicate does not fire, a name
  nobody registered gives the model \<open>error: unknown tool: \<close> and the name as result, a tool that throws
  a standard exception \<open>error: tool failed: \<close> and what the exception says, and a tool that
  returns exactly its result; only an exception outside the standard hierarchy leaves \<open>invoke\<close> then.
  A standard exception leaves it only when the predicate fired, and the history is as before.
\<close>

theorem registry_contains_failures:
  assumes "registry_invoke tools name arguments cancelled st = (x, st')"
  shows "(map_of tools name = None \<longrightarrow> x = Inr (''error: unknown tool: '' @ name)) \<and>
    (\<forall>handler. map_of tools name = Some handler \<and> (case cancelled of None \<Rightarrow> True | Some f \<Rightarrow> \<forall>n. \<not> f n) \<longrightarrow>
       x = (case fst (tool_exec (handler (length (rn_history st)) arguments) cancelled (snd (poll cancelled st))) of
           Inr result \<Rightarrow> Inr result
         | Inl (StdException what) \<Rightarrow> Inr (''error: tool failed: '' @ what)
         | Inl OtherException \<Rightarrow> Inl OtherException)) \<and>
    (\<forall>what. x = Inl (StdException what) \<longrightarrow> (\<exists>f n. cancelled = Some f \<and> f n)) \<and>
    rn_history st' = rn_history st"
proof (cases "(case cancelled of None \<Rightarrow> True | Some f \<Rightarrow> \<forall>n. \<not> f n)")
  case True
  have "fst (poll cancelled u) = False" for u
    using True by (cases cancelled) (simp_all add: poll_def)
  then have quiet: "poll cancelled u = (False, snd (poll cancelled u))" for u by (metis prod.collapse)
  have failed: "fst (tool_failed cancelled what u) = Inr (''error: tool failed: '' @ what)" for what u
    by (subst tool_failed_def, subst quiet) simp
  show ?thesis
  proof (cases "map_of tools name")
    case None
    then show ?thesis using assms by (auto simp: registry_invoke_def)
  next
    case (Some handler)
    let ?u = "snd (poll cancelled st)"
    obtain r v where r: "tool_exec (handler (length (rn_history st)) arguments) cancelled ?u = (r, v)" by fastforce
    obtain v' where v': "poll cancelled v = (False, v')" using quiet by blast
    have "x = fst (registry_invoke tools name arguments cancelled st)" using assms by simp
    also have "\<dots> = (case r of
           Inr result \<Rightarrow> Inr result
         | Inl (StdException what) \<Rightarrow> Inr (''error: tool failed: '' @ what)
         | Inl OtherException \<Rightarrow> Inl OtherException)"
      by (subst registry_invoke_def, subst quiet [of st])
        (use failed in \<open>simp add: Some r v' split: sum.split exn.split\<close>)
    finally have x: "x = \<dots>" .
    then show ?thesis using Some r registry_invoke_frame [OF assms]
      by (auto split: sum.splits exn.splits)
  qed
next
  case False
  then have "\<exists>f n. cancelled = Some f \<and> f n" by (cases cancelled) auto
  then show ?thesis
    using False assms registry_invoke_frame [OF assms] by (auto simp: registry_invoke_def split: option.splits)
qed

text \<open>
  Every submitted turn reports its outcome. With both callbacks set, a task that returns a
  reply has called \<open>on_completed\<close> with it, last and once, and never \<open>on_failed\<close>; a task that throws
  has called \<open>on_failed\<close> once and last, and throws on what it reported unless the callback itself
  threw.
\<close>

theorem async_reports_outcome:
  assumes "cb_on_completed cb = Some on_completed" and "cb_on_failed cb = Some on_failed"
    and "async_task ag tn expired cb user_text st = (x, log, st')"
  shows "case x of
      Inr reply \<Rightarrow> log = [Transition ModelStreaming, OnCompleted reply]
    | Inl e \<Rightarrow> (\<exists>e' pre. log = pre @ [OnFailed e'] \<and> (on_failed e' = None \<longrightarrow> e = e') \<and>
        (\<forall>e''. OnFailed e'' \<notin> set pre))"
proof -
  obtain y l u where a: "async_attempt ag tn expired cb user_text st = (y, l, u)"
    by (cases "async_attempt ag tn expired cb user_text st")
  have no: "OnFailed e'' \<notin> set l" for e''
    using a by (auto simp: async_attempt_def split: prod.splits sum.splits option.splits if_splits)
  have reply: "y = Inr reply \<Longrightarrow> l = [Transition ModelStreaming, OnCompleted reply]" for reply
    using a assms(1)
    by (auto simp: async_attempt_def split: prod.splits sum.splits option.splits if_splits)
  show ?thesis
  proof (cases y)
    case (Inl e)
    with a assms(2,3) no show ?thesis
      by (cases "on_failed e") (auto simp: async_task_def)
  next
    case (Inr r)
    with a assms(3) reply show ?thesis by (auto simp: async_task_def)
  qed
qed

text \<open>
  The turn of the witnesses: the model calls a tool once, then answers; the second agent's
  model throws after its first delta.
\<close>

definition agent_example :: Agent where
  "agent_example =
     \<lparr>ag_llm = (\<lambda>step history.
        if step = 0 then LlmReturn \<lparr>lt_text = ''look'', lt_tool_calls =
          [\<lparr>tc_id = ''1'', tc_name = ''echo'', tc_arguments = ''x''\<rparr>], lt_complete = True\<rparr>
        else LlmDelta ''hi'' (\<lambda>_. LlmReturn
          \<lparr>lt_text = ''hi'', lt_tool_calls = [], lt_complete = True\<rparr>)),
      ag_tools = snd (registry_add ''echo'' (\<lambda>n arguments. ToolPoll (\<lambda>_. ToolReturn arguments)) []),
      ag_max_steps = 2, ag_has_events = True\<rparr>"

definition agent_example_failing :: Agent where
  "agent_example_failing = agent_example
     \<lparr>ag_llm := (\<lambda>step history. LlmDelta ''h'' (\<lambda>_. LlmThrow (StdException ''reset'')))\<rparr>"

definition agent_example_turn :: Turn where
  "agent_example_turn =
     \<lparr>tn_session_id = ''s'', tn_turn_id = ''t'', tn_trace_id = ''s:t'',
      tn_on_text_delta = (\<lambda>_ _. True), tn_cancelled = Some (\<lambda>_. False),
      tn_invocation_events = False\<rparr>"

definition agent_example_run :: Run where
  "agent_example_run =
     \<lparr>rn_history = agent_new_history, rn_events = [], rn_deltas = [], rn_polls = 0\<rparr>"

lemma agent_example_reply:
  "fst (run_streaming agent_example agent_example_turn ''u'' agent_example_run) = Inr ''hi''"
  by (simp add: run_streaming_def run_body_def numeral_2_eq_2 poll_def emit_def push_history_def
      text_delta_def registry_invoke_def registry_add_def umap_emplace_def agent_example_def
      agent_example_turn_def agent_example_run_def Let_def)

theorem agent_one_terminal_event_witness:
  "\<exists>es t. rn_events (snd (run_streaming agent_example agent_example_turn ''u'' agent_example_run))
     = mk_event TurnStarted ''s'' ''t'' [] [] ''s:t'' # es @ [t] \<and>
   models es \<le> 2 \<and> ev_type t = TurnCompleted"
proof -
  have "audible agent_example agent_example_turn" and "''hi'' \<noteq> step_limit_text"
    and "ag_max_steps agent_example = 2" by code_simp+
  with agent_one_terminal_event [of agent_example agent_example_turn "''u''" agent_example_run
      "Inr ''hi''" "snd (run_streaming agent_example agent_example_turn ''u'' agent_example_run)"]
    agent_example_reply
  show ?thesis
    by (auto simp: prod_eq_iff agent_example_turn_def agent_example_run_def)
qed

theorem agent_history_transactional_witness:
  "rn_history (snd (run_streaming agent_example_failing agent_example_turn ''u'' agent_example_run))
     = agent_new_history"
proof -
  let ?r = "run_streaming agent_example_failing agent_example_turn ''u'' agent_example_run"
  have "fst ?r = Inl (StdException ''reset'')" by code_simp
  then have "?r = (Inl (StdException ''reset''), snd ?r)" by (simp add: prod_eq_iff)
  from agent_history_transactional [OF this] show ?thesis by (simp add: agent_example_run_def)
qed

theorem registry_contains_failures_witness:
  "fst (registry_invoke (ag_tools agent_example) ''none'' [] None agent_example_run)
     = Inr ''error: unknown tool: none'' \<and>
   fst (registry_invoke (snd (registry_add ''t'' (\<lambda>n arguments. ToolThrow (StdException ''no'')) [])) ''t'' [] None
     agent_example_run) = Inr ''error: tool failed: no''"
proof -
  let ?tools = "snd (registry_add ''t'' (\<lambda>n arguments. ToolThrow (StdException ''no'')) [])"
  have "map_of (ag_tools agent_example) ''none'' = None" by code_simp
  moreover have "map_of ?tools ''t'' = Some (\<lambda>n arguments. ToolThrow (StdException ''no''))"
    by (simp add: registry_add_def umap_emplace_def)
  ultimately show ?thesis
    using registry_contains_failures [of "ag_tools agent_example" "''none''" "[]" None agent_example_run,
        OF prod.collapse [symmetric]]
      registry_contains_failures [of ?tools "''t''" "[]" None agent_example_run, OF prod.collapse [symmetric]]
    by simp
qed

theorem async_reports_outcome_witness:
  "\<exists>st'. async_task agent_example agent_example_turn (\<lambda>_. False)
     \<lparr>cb_on_completed = Some (\<lambda>_. None), cb_on_failed = Some (\<lambda>_. None)\<rparr> ''u'' agent_example_run
     = (Inr ''hi'', [Transition ModelStreaming, OnCompleted ''hi''], st')"
proof -
  let ?cb = "\<lparr>cb_on_completed = Some (\<lambda>_ :: string. None :: exn option), cb_on_failed = Some (\<lambda>_. None)\<rparr>"
  let ?r = "async_task agent_example agent_example_turn (\<lambda>_. False) ?cb ''u'' agent_example_run"
  obtain st' where "run_streaming agent_example agent_example_turn ''u''
      (snd (poll (tn_cancelled agent_example_turn) agent_example_run)) = (Inr ''hi'', st')"
    by (simp add: run_streaming_def run_body_def numeral_2_eq_2 poll_def emit_def push_history_def
      text_delta_def registry_invoke_def registry_add_def umap_emplace_def agent_example_def
      agent_example_turn_def agent_example_run_def Let_def)
  then have r: "fst ?r = Inr ''hi''"
    by (simp add: async_task_def async_attempt_def poll_def agent_example_turn_def)
  then have "?r = (Inr ''hi'', fst (snd ?r), snd (snd ?r))" by (simp add: prod_eq_iff)
  from async_reports_outcome [OF _ _ this] r show ?thesis by (auto simp: prod_eq_iff)
qed

end
