(* ===== verification/Conversation_Session.thy ===== *)
theory Conversation_Session
  imports Event_Timeline
begin

text \<open>
  \<open>ConversationSession\<close> (\<open>conversation_session.h\<close>, \<open>conversation_session.cpp\<close>, the interface
  \<open>conversation_engine.h\<close>): one non-restartable interaction. The lifecycle lane is a thread
  whose position is part of the state; callers start, stop and operate on the session
  concurrently. The engine is client code: the calls made on it are recorded in order and
  their outcomes are arguments of the steps. The journal is a run of the timeline model, and
  its own steps (admissions through the engine's sink, deliveries) interleave freely.
\<close>

named_theorems session_defs \<open>operations of the conversation session\<close>

section \<open>State\<close>

datatype SessionLifecycle = Created | Starting | Running | Stopping | Stopped | Failed

text \<open>The order of the lifecycle, in which the session only moves forward.\<close>

fun lifecycle_rank :: "SessionLifecycle \<Rightarrow> nat" where
  "lifecycle_rank Created = 0"
| "lifecycle_rank Starting = 1"
| "lifecycle_rank Running = 2"
| "lifecycle_rank Stopping = 3"
| "lifecycle_rank Stopped = 4"
| "lifecycle_rank Failed = 5"

instantiation SessionLifecycle :: linorder
begin

definition less_eq_SessionLifecycle :: "SessionLifecycle \<Rightarrow> SessionLifecycle \<Rightarrow> bool" where
  "less_eq_SessionLifecycle a b \<longleftrightarrow> lifecycle_rank a \<le> lifecycle_rank b"

definition less_SessionLifecycle :: "SessionLifecycle \<Rightarrow> SessionLifecycle \<Rightarrow> bool" where
  "less_SessionLifecycle a b \<longleftrightarrow> lifecycle_rank a < lifecycle_rank b"

instance
proof
  fix a b :: SessionLifecycle
  show "a \<le> b \<Longrightarrow> b \<le> a \<Longrightarrow> a = b"
    by (cases a; cases b) (simp_all add: less_eq_SessionLifecycle_def)
qed (auto simp: less_eq_SessionLifecycle_def less_SessionLifecycle_def)

end

definition terminal :: "SessionLifecycle \<Rightarrow> bool" where
  "terminal state \<longleftrightarrow> state = Stopped \<or> state = Failed"

text \<open>The calls on the engine, in the order they are made.\<close>

datatype EngineCall = EngineStart | EnginePush AudioFrame | EngineCancel | EngineEvent Event
  | EngineState | EngineStop

text \<open>
  What an admitted operation does between \<open>acquire_operation\<close> and \<open>release_operation\<close>. The state
  lists the admitted operations, each with whether its body has run.
\<close>

datatype Operation = PushAudio AudioFrame | CancelResponse | Observe Event | HandleEvent Event
  | GetState

text \<open>
  Where \<open>lifecycle_loop\<close> is: its first wait, the engine's start, the record of the start, the
  lock after it (with the outcome), the drain, the engine's stop, the final record, the close
  of the timeline, the last lock, the end. \<open>attempted_start\<close> and \<open>failure\<close> are its locals.
\<close>

datatype Lane =
    LaneWaiting
  | LaneStart
  | LanePublishStarted ConversationCapabilities
  | LaneMark "exn + ConversationCapabilities"
  | LaneDrain bool "exn option"
  | LaneStop bool "exn option"
  | LanePublishEnd "exn option"
  | LaneClose "exn option"
  | LaneFinish "exn option"
  | LaneDone

record ConversationSession =
  cs_id :: string
  cs_generation :: u64
  cs_run :: timeline_run
  cs_active_operations :: nat
  cs_lifecycle :: SessionLifecycle
  cs_start_requested :: bool
  cs_stop_requested :: bool
  cs_failure :: "exn option"
  cs_capabilities :: ConversationCapabilities
  cs_lane :: Lane
  cs_operations :: "(Operation \<times> bool) list"
  cs_engine_calls :: "EngineCall list"

datatype session_error = SessionIdRequired | InvalidSessionTimeline | EngineRequired
  | StartInsideCallback | CannotRestart | StartupStopped | StartupFailed exn

definition scoped_config :: "TimelineConfig \<Rightarrow> string \<Rightarrow> TimelineConfig" where
  "scoped_config config sid = config\<lparr>tlc_session_id := sid\<rparr>"

definition session_new ::
  "string \<Rightarrow> bool \<Rightarrow> bool \<Rightarrow> TimelineConfig \<Rightarrow> session_error + ConversationSession" where
  "session_new sid engine_given clock_given config =
     (if sid = [] then Inl SessionIdRequired
      else case timeline_new clock_given (scoped_config config sid) of
        Inl _ \<Rightarrow> Inl InvalidSessionTimeline
      | Inr timeline \<Rightarrow>
          if \<not> engine_given then Inl EngineRequired
          else Inr \<lparr>cs_id = sid, cs_generation = tlc_generation config,
            cs_run = \<lparr>tr_state = timeline, tr_log = [], tr_delivered = []\<rparr>,
            cs_active_operations = 0, cs_lifecycle = Created, cs_start_requested = False,
            cs_stop_requested = False, cs_failure = None,
            cs_capabilities = default_capabilities, cs_lane = LaneWaiting,
            cs_operations = [], cs_engine_calls = []\<rparr>)"

section \<open>Callers\<close>

text \<open>\<open>callback_thread\<close>: inside a bus callback, on the dispatcher, or in a call of this session.\<close>

definition callback_thread :: "bool \<Rightarrow> bool \<Rightarrow> bool \<Rightarrow> bool" where
  "callback_thread bus_callback dispatch_thread session_call \<longleftrightarrow>
     bus_callback \<or> dispatch_thread \<or> session_call"

text \<open>\<open>start\<close>: up to its wait (\<open>None\<close> means that it waits), its wait condition, and its result.\<close>

definition session_start ::
  "bool \<Rightarrow> ConversationSession \<Rightarrow> (session_error + unit) option \<times> ConversationSession" where
  "session_start callback s =
     (if cs_lifecycle s = Running then (Some (Inr ()), s)
      else if callback then (Some (Inl StartInsideCallback), s)
      else if cs_lifecycle s \<noteq> Created \<and> cs_lifecycle s \<noteq> Starting
      then (Some (Inl CannotRestart), s)
      else if cs_lifecycle s = Created
      then (None, s\<lparr>cs_lifecycle := Starting, cs_start_requested := True\<rparr>)
      else (None, s))"

definition session_start_ready :: "ConversationSession \<Rightarrow> bool" where
  "session_start_ready s \<longleftrightarrow> cs_lifecycle s = Running \<or> terminal (cs_lifecycle s)"

definition session_start_result :: "ConversationSession \<Rightarrow> session_error + unit" where
  "session_start_result s =
     (case cs_failure s of
        Some e \<Rightarrow> Inl (StartupFailed e)
      | None \<Rightarrow> if cs_lifecycle s \<noteq> Running then Inl StartupStopped else Inr ())"

text \<open>Admission of an operation, its body, and its release.\<close>

definition session_acquire :: "Operation \<Rightarrow> ConversationSession \<Rightarrow> bool \<times> ConversationSession" where
  "session_acquire op s =
     (if cs_lifecycle s \<noteq> Running then (False, s)
      else (True, s\<lparr>cs_active_operations := cs_active_operations s + 1,
              cs_operations := (op, False) # cs_operations s\<rparr>))"

definition engine_call :: "EngineCall \<Rightarrow> ConversationSession \<Rightarrow> ConversationSession" where
  "engine_call call s = s\<lparr>cs_engine_calls := cs_engine_calls s @ [call]\<rparr>"

definition session_append ::
  "time_point \<Rightarrow> bool \<Rightarrow> Event \<Rightarrow> ConversationSession \<Rightarrow> Event option \<times> ConversationSession" where
  "session_append now alloc_ok e s =
     (let result = timeline_append now alloc_ok e (tr_state (cs_run s))
      in (fst (snd result), s\<lparr>cs_run := log_admission result (cs_run s)\<rparr>))"

definition session_operate ::
  "time_point \<Rightarrow> bool \<Rightarrow> Operation \<Rightarrow> ConversationSession \<Rightarrow> ConversationSession" where
  "session_operate now alloc_ok op s =
     (let s = s\<lparr>cs_operations := (op, True) # remove1 (op, False) (cs_operations s)\<rparr>
      in case op of
        PushAudio frame \<Rightarrow> engine_call (EnginePush frame) s
      | CancelResponse \<Rightarrow> engine_call EngineCancel s
      | GetState \<Rightarrow> engine_call EngineState s
      | Observe e \<Rightarrow> snd (session_append now alloc_ok e s)
      | HandleEvent e \<Rightarrow>
          (case session_append now alloc_ok e s of
             (None, s) \<Rightarrow> s
           | (Some normalized, s) \<Rightarrow> engine_call (EngineEvent normalized) s))"

definition session_release :: "Operation \<Rightarrow> ConversationSession \<Rightarrow> ConversationSession" where
  "session_release op s =
     s\<lparr>cs_active_operations := cs_active_operations s - 1,
       cs_operations := remove1 (op, True) (cs_operations s)\<rparr>"

definition session_request_stop :: "ConversationSession \<Rightarrow> ConversationSession" where
  "session_request_stop s =
     (if terminal (cs_lifecycle s) then s
      else s\<lparr>cs_stop_requested := True, cs_lifecycle := Stopping\<rparr>)"

text \<open>\<open>stop\<close> and \<open>wait_stopped\<close>: whether the caller waits, and the condition it waits on.\<close>

definition session_stop :: "bool \<Rightarrow> ConversationSession \<Rightarrow> bool \<times> ConversationSession" where
  "session_stop callback s = (\<not> callback, session_request_stop s)"

definition session_stop_ready :: "ConversationSession \<Rightarrow> bool" where
  "session_stop_ready s \<longleftrightarrow> terminal (cs_lifecycle s)"

section \<open>The lifecycle lane\<close>

definition session_publish ::
  "time_point \<Rightarrow> bool \<Rightarrow> EventType \<Rightarrow> string \<Rightarrow> ConversationSession \<Rightarrow> ConversationSession" where
  "session_publish now alloc_ok ty phase s =
     snd (session_append now alloc_ok (mk_event ty (cs_id s) [] phase [] []) s)"

definition set_lane :: "Lane \<Rightarrow> ConversationSession \<Rightarrow> ConversationSession" where
  "set_lane pc s = s\<lparr>cs_lane := pc\<rparr>"

text \<open>The first wait and what it decides.\<close>

definition lane_begin :: "ConversationSession \<Rightarrow> ConversationSession" where
  "lane_begin s =
     set_lane (if cs_start_requested s \<and> \<not> cs_stop_requested s then LaneStart
               else LaneDrain False None) s"

text \<open>
  \<open>engine_->capabilities()\<close> and \<open>engine_->start\<close>: the first may throw before the second is
  called, the second after.
\<close>

datatype StartOutcome = CapabilitiesThrew exn | StartThrew exn | StartReturned ConversationCapabilities

definition lane_start :: "StartOutcome \<Rightarrow> ConversationSession \<Rightarrow> ConversationSession" where
  "lane_start outcome s =
     (case outcome of
        CapabilitiesThrew e \<Rightarrow> set_lane (LaneMark (Inl e)) s
      | StartThrew e \<Rightarrow> set_lane (LaneMark (Inl e)) (engine_call EngineStart s)
      | StartReturned caps \<Rightarrow> set_lane (LanePublishStarted caps) (engine_call EngineStart s))"

text \<open>\<open>recorded\<close> is false when the append threw, which \<open>publish_lifecycle\<close> swallows.\<close>

definition lane_publish_started ::
  "time_point \<Rightarrow> bool \<Rightarrow> bool \<Rightarrow> ConversationCapabilities \<Rightarrow> ConversationSession \<Rightarrow> ConversationSession" where
  "lane_publish_started now alloc_ok recorded caps s =
     set_lane (LaneMark (Inr caps))
       (if recorded then session_publish now alloc_ok SessionStarted ''started'' s else s)"

definition lane_mark ::
  "exn + ConversationCapabilities \<Rightarrow> ConversationSession \<Rightarrow> ConversationSession" where
  "lane_mark outcome s =
     (case outcome of
        Inl e \<Rightarrow> set_lane (LaneDrain True (Some e))
          (s\<lparr>cs_stop_requested := True, cs_lifecycle := Stopping\<rparr>)
      | Inr caps \<Rightarrow> set_lane (LaneDrain True None)
          (s\<lparr>cs_capabilities := caps,
            cs_lifecycle := (if cs_stop_requested s then cs_lifecycle s else Running)\<rparr>))"

definition lane_drained :: "ConversationSession \<Rightarrow> bool" where
  "lane_drained s \<longleftrightarrow> cs_stop_requested s \<and> cs_active_operations s = 0"

text \<open>\<open>engine_->stop()\<close> when a start was attempted; a first failure wins.\<close>

definition lane_stop :: "exn option \<Rightarrow> bool \<Rightarrow> exn option \<Rightarrow> ConversationSession \<Rightarrow> ConversationSession" where
  "lane_stop threw attempted failure s =
     (if attempted
      then set_lane (LanePublishEnd (if failure = None then threw else failure))
        (engine_call EngineStop s)
      else set_lane (LanePublishEnd failure) s)"

definition lane_publish_end ::
  "time_point \<Rightarrow> bool \<Rightarrow> bool \<Rightarrow> exn option \<Rightarrow> ConversationSession \<Rightarrow> ConversationSession" where
  "lane_publish_end now alloc_ok recorded failure s =
     set_lane (LaneClose failure)
       (if \<not> recorded then s
        else if failure \<noteq> None
        then session_publish now alloc_ok SessionFailed ''lifecycle_failure'' s
        else session_publish now alloc_ok SessionStopped ''stopped'' s)"

definition lane_close :: "exn option \<Rightarrow> ConversationSession \<Rightarrow> ConversationSession" where
  "lane_close failure s =
     set_lane (LaneFinish failure)
       (s\<lparr>cs_run := (cs_run s)\<lparr>tr_state := timeline_close (tr_state (cs_run s))\<rparr>\<rparr>)"

definition lane_finish :: "exn option \<Rightarrow> ConversationSession \<Rightarrow> ConversationSession" where
  "lane_finish failure s =
     set_lane LaneDone
       (s\<lparr>cs_failure := failure, cs_lifecycle := (if failure \<noteq> None then Failed else Stopped)\<rparr>)"

lemmas [session_defs] = session_start_def session_acquire_def engine_call_def session_append_def
  session_operate_def session_release_def session_request_stop_def session_publish_def
  set_lane_def lane_begin_def lane_start_def lane_publish_started_def lane_mark_def
  lane_stop_def lane_publish_end_def lane_close_def lane_finish_def

section \<open>Steps\<close>

inductive session_step :: "ConversationSession \<Rightarrow> ConversationSession \<Rightarrow> bool" where
  start: "session_step s (snd (session_start callback s))"
| acquire: "session_step s (snd (session_acquire op s))"
| operate: "(op, False) \<in> set (cs_operations s) \<Longrightarrow> session_step s (session_operate now ok op s)"
| release: "(op, True) \<in> set (cs_operations s) \<Longrightarrow> session_step s (session_release op s)"
| request_stop: "session_step s (session_request_stop s)"
| journal: "timeline_step (cs_run s) r \<Longrightarrow> session_step s (s\<lparr>cs_run := r\<rparr>)"
| lane_begin: "cs_lane s = LaneWaiting \<Longrightarrow> cs_start_requested s \<or> cs_stop_requested s \<Longrightarrow>
    session_step s (lane_begin s)"
| lane_start: "cs_lane s = LaneStart \<Longrightarrow> session_step s (lane_start outcome s)"
| lane_publish_started: "cs_lane s = LanePublishStarted caps \<Longrightarrow>
    session_step s (lane_publish_started now ok recorded caps s)"
| lane_mark: "cs_lane s = LaneMark outcome \<Longrightarrow> session_step s (lane_mark outcome s)"
| lane_drain: "cs_lane s = LaneDrain attempted failure \<Longrightarrow> lane_drained s \<Longrightarrow>
    session_step s (set_lane (LaneStop attempted failure) s)"
| lane_stop: "cs_lane s = LaneStop attempted failure \<Longrightarrow>
    session_step s (lane_stop threw attempted failure s)"
| lane_publish_end: "cs_lane s = LanePublishEnd failure \<Longrightarrow>
    session_step s (lane_publish_end now ok recorded failure s)"
| lane_close: "cs_lane s = LaneClose failure \<Longrightarrow> session_step s (lane_close failure s)"
| lane_finish: "cs_lane s = LaneFinish failure \<Longrightarrow> session_step s (lane_finish failure s)"

inductive_cases session_stepE: "session_step s s'"

abbreviation session_init :: "ConversationSession \<Rightarrow> bool" where
  "session_init s \<equiv> \<exists>sid config. session_new sid True True config = Inr s"

section \<open>Invariant\<close>

text \<open>The protocol of an engine: what may be called in which phase.\<close>

datatype EnginePhase = NotStarted | Active | EngineStopped

fun engine_next :: "EnginePhase \<Rightarrow> EngineCall \<Rightarrow> EnginePhase option" where
  "engine_next NotStarted EngineStart = Some Active"
| "engine_next NotStarted EngineStop = Some EngineStopped"
| "engine_next NotStarted call = None"
| "engine_next Active EngineStart = None"
| "engine_next Active EngineStop = Some EngineStopped"
| "engine_next Active call = Some Active"
| "engine_next EngineStopped call = None"

definition engine_phase :: "EngineCall list \<Rightarrow> EnginePhase option" where
  "engine_phase calls = foldl (\<lambda>p call. Option.bind p (\<lambda>p. engine_next p call)) (Some NotStarted) calls"

lemma engine_phase_simps [simp]:
  "engine_phase [] = Some NotStarted"
  "engine_phase (calls @ [call]) = Option.bind (engine_phase calls) (\<lambda>p. engine_next p call)"
  by (simp_all add: engine_phase_def)

text \<open>The phases an engine may be in at each position of the lane.\<close>

fun lane_phases :: "Lane \<Rightarrow> EnginePhase set" where
  "lane_phases LaneWaiting = {NotStarted}"
| "lane_phases LaneStart = {NotStarted}"
| "lane_phases (LanePublishStarted caps) = {Active}"
| "lane_phases (LaneMark (Inl e)) = {NotStarted, Active}"
| "lane_phases (LaneMark (Inr caps)) = {Active}"
| "lane_phases (LaneDrain attempted failure) =
     (if \<not> attempted then {NotStarted} else if failure = None then {Active} else {NotStarted, Active})"
| "lane_phases (LaneStop attempted failure) =
     (if \<not> attempted then {NotStarted} else {NotStarted, Active})"
| "lane_phases pc = {NotStarted, EngineStopped}"

fun past_drain :: "Lane \<Rightarrow> bool" where
  "past_drain (LaneStop attempted failure) = True"
| "past_drain (LanePublishEnd failure) = True"
| "past_drain (LaneClose failure) = True"
| "past_drain (LaneFinish failure) = True"
| "past_drain LaneDone = True"
| "past_drain pc = False"

text \<open>The flags against the position of the lane; \<open>idle\<close> says that no operation is admitted.\<close>

fun is_drain :: "Lane \<Rightarrow> bool" where
  "is_drain (LaneDrain attempted failure) = True"
| "is_drain pc = False"

definition control_inv ::
  "SessionLifecycle \<Rightarrow> bool \<Rightarrow> bool \<Rightarrow> bool \<Rightarrow> Lane \<Rightarrow> bool \<Rightarrow> bool" where
  "control_inv lifecycle start stop failed pc idle \<longleftrightarrow>
     (stop \<longleftrightarrow> Stopping \<le> lifecycle) \<and>
     (lifecycle = Running \<or> \<not> idle \<longrightarrow> pc = LaneDrain True None) \<and>
     (past_drain pc \<longrightarrow> stop \<and> idle) \<and>
     (is_drain pc \<longrightarrow> stop \<or> lifecycle = Running) \<and>
     (terminal lifecycle \<longleftrightarrow> pc = LaneDone) \<and>
     (lifecycle = Failed \<longleftrightarrow> failed) \<and>
     (start \<longrightarrow> lifecycle \<noteq> Created) \<and>
     (lifecycle = Starting \<longrightarrow> start)"

definition closed_inv :: "Lane \<Rightarrow> bool \<Rightarrow> bool" where
  "closed_inv pc closed \<longleftrightarrow> ((\<exists>failure. pc = LaneFinish failure) \<or> pc = LaneDone \<longrightarrow> closed)"

definition engine_inv :: "Lane \<Rightarrow> EngineCall list \<Rightarrow> bool" where
  "engine_inv pc calls \<longleftrightarrow>
     (\<exists>p. engine_phase calls = Some p \<and> p \<in> lane_phases pc \<and> (p = NotStarted \<longleftrightarrow> calls = []))"

definition session_inv :: "ConversationSession \<Rightarrow> bool" where
  "session_inv s \<longleftrightarrow>
     cs_active_operations s = length (cs_operations s) \<and>
     control_inv (cs_lifecycle s) (cs_start_requested s) (cs_stop_requested s)
       (cs_failure s \<noteq> None) (cs_lane s) (cs_operations s = []) \<and>
     closed_inv (cs_lane s) (tl_closed (tr_state (cs_run s))) \<and>
     engine_inv (cs_lane s) (cs_engine_calls s)"

lemmas lifecycle_order = less_eq_SessionLifecycle_def less_SessionLifecycle_def

lemma session_inv_init: "session_init s \<Longrightarrow> session_inv s"
  by (auto simp: session_inv_def session_new_def control_inv_def closed_inv_def engine_inv_def
      terminal_def lifecycle_order split: if_splits sum.splits)

lemma engine_inv_step:
  assumes "engine_inv pc calls"
    and "\<And>p. p \<in> lane_phases pc \<Longrightarrow> \<exists>q. engine_next p call = Some q \<and> q \<in> lane_phases pc' \<and> q \<noteq> NotStarted"
  shows "engine_inv pc' (calls @ [call])"
proof -
  obtain p where "engine_phase calls = Some p" "p \<in> lane_phases pc"
    using assms(1) by (auto simp: engine_inv_def)
  with assms(2) [of p] show ?thesis unfolding engine_inv_def by auto
qed

lemma engine_inv_move: "engine_inv pc calls \<Longrightarrow> lane_phases pc \<subseteq> lane_phases pc' \<Longrightarrow> engine_inv pc' calls"
  by (auto simp: engine_inv_def)

lemma session_append_frame:
  assumes "session_append now ok e s = (x, s')"
  shows "\<exists>r. timeline_step (cs_run s) r \<and> s' = s\<lparr>cs_run := r\<rparr>"
  using assms unfolding session_append_def Let_def by (metis prod.inject timeline_step.append)

lemma session_publish_frame:
  "\<exists>r. timeline_step (cs_run s) r \<and> session_publish now ok ty phase s = s\<lparr>cs_run := r\<rparr>"
  unfolding session_publish_def by (rule session_append_frame [OF prod.collapse [symmetric]])

lemma closed_inv_journal:
  "closed_inv pc (tl_closed (tr_state q)) \<Longrightarrow> timeline_step q r \<Longrightarrow> closed_inv pc (tl_closed (tr_state r))"
  using timeline_step_closed [of q r] by (simp add: closed_inv_def)

lemma session_inv_journal:
  "session_inv s \<Longrightarrow> timeline_step (cs_run s) r \<Longrightarrow> session_inv (s\<lparr>cs_run := r\<rparr>)"
  using closed_inv_journal [of "cs_lane s" "cs_run s" r] by (simp add: session_inv_def)

lemma session_inv_operations:
  assumes "session_inv s" and "length ops = length (cs_operations s)"
  shows "session_inv (s\<lparr>cs_operations := ops\<rparr>)"
proof -
  have "ops = [] \<longleftrightarrow> cs_operations s = []" using assms(2) by auto
  with assms show ?thesis by (simp add: session_inv_def)
qed

lemma session_inv_engine_call:
  assumes "session_inv s" and "cs_operations s \<noteq> []" and "call \<notin> {EngineStart, EngineStop}"
  shows "session_inv (engine_call call s)"
proof -
  have "engine_next Active call = Some Active" using assms(3) by (cases call) auto
  moreover have "cs_lane s = LaneDrain True None"
    using assms(1,2) by (simp add: session_inv_def control_inv_def)
  ultimately have "engine_inv (cs_lane s) (cs_engine_calls s @ [call])"
    using assms(1) by (intro engine_inv_step [where pc = "cs_lane s"]) (simp_all add: session_inv_def)
  with assms(1) show ?thesis by (simp add: session_inv_def engine_call_def)
qed

lemma session_inv_operate:
  assumes "session_inv s" and "(op, False) \<in> set (cs_operations s)"
  shows "session_inv (session_operate now ok op s)"
proof -
  let ?s = "s\<lparr>cs_operations := (op, True) # remove1 (op, False) (cs_operations s)\<rparr>"
  have "length ((op, True) # remove1 (op, False) (cs_operations s)) = length (cs_operations s)"
    using assms(2) by (simp add: length_remove1) (metis Suc_pred length_pos_if_in_set)
  then have s: "session_inv ?s" using assms(1) by (rule session_inv_operations [rotated])
  have append: "session_inv (snd (session_append now ok e ?s))"
      "cs_operations (snd (session_append now ok e ?s)) \<noteq> []" for e
    using session_append_frame [OF prod.collapse [symmetric], of ?s now ok e] session_inv_journal [OF s]
    by auto
  show ?thesis
  proof (cases op)
    case (HandleEvent e)
    obtain x u where u: "session_append now ok e ?s = (x, u)" by (cases "session_append now ok e ?s")
    with HandleEvent append [of e] show ?thesis
      by (cases x) (simp_all add: session_operate_def session_inv_engine_call)
  qed (use append s in \<open>simp_all add: session_operate_def session_inv_engine_call\<close>)
qed

section \<open>Steps keep the invariant\<close>

text \<open>The moves of the flags and of the lane, on their own.\<close>

lemma control_inv_moves:
  "control_inv Created start stop failed pc idle \<Longrightarrow> control_inv Starting True stop failed pc idle"
  "control_inv Running start stop failed pc idle \<Longrightarrow> control_inv Running start stop failed pc False"
  "control_inv lc start stop failed pc False \<Longrightarrow> control_inv lc start stop failed pc idle"
  "control_inv lc start stop failed pc idle \<Longrightarrow> \<not> terminal lc \<Longrightarrow>
     control_inv Stopping start True failed pc idle"
  by (auto simp: control_inv_def terminal_def lifecycle_order)

lemma control_inv_lanes:
  "control_inv lc start stop failed LaneWaiting idle \<Longrightarrow> control_inv lc start stop failed LaneStart idle"
  "control_inv lc start True failed LaneWaiting idle \<Longrightarrow>
     control_inv lc start True failed (LaneDrain False None) idle"
  "control_inv lc start stop failed LaneStart idle \<Longrightarrow>
     control_inv lc start stop failed (LanePublishStarted caps) idle \<and>
     control_inv lc start stop failed (LaneMark outcome) idle"
  "control_inv lc start stop failed (LanePublishStarted caps) idle \<Longrightarrow>
     control_inv lc start stop failed (LaneMark outcome) idle"
  "control_inv lc start stop failed (LaneMark outcome) idle \<Longrightarrow>
     control_inv Stopping start True failed (LaneDrain True failure) idle"
  "control_inv lc start True failed (LaneMark outcome) idle \<Longrightarrow>
     control_inv lc start True failed (LaneDrain True failure) idle"
  "control_inv lc start False failed (LaneMark outcome) idle \<Longrightarrow>
     control_inv Running start False failed (LaneDrain True None) idle"
  "control_inv lc start True failed (LaneDrain attempted failure) True \<Longrightarrow>
     control_inv lc start True failed (LaneStop attempted failure) True"
  "control_inv lc start stop failed pc idle \<Longrightarrow> past_drain pc \<Longrightarrow> pc \<noteq> LaneDone \<Longrightarrow> past_drain pc' \<Longrightarrow>
     pc' \<noteq> LaneDone \<Longrightarrow> control_inv lc start stop failed pc' idle"
  "control_inv lc start stop failed (LaneFinish failure) idle \<Longrightarrow>
     control_inv (if f then Failed else Stopped) start stop f LaneDone idle"
  by (auto simp: control_inv_def terminal_def lifecycle_order)

lemma closed_inv_moves:
  "(\<forall>failure. pc \<noteq> LaneFinish failure) \<Longrightarrow> pc \<noteq> LaneDone \<Longrightarrow> closed_inv pc closed"
  "closed_inv pc True"
  "closed_inv (LaneFinish failure) closed \<Longrightarrow> closed_inv LaneDone closed"
  by (auto simp: closed_inv_def)

lemma session_inv_parts:
  assumes "session_inv s"
  shows "control_inv (cs_lifecycle s) (cs_start_requested s) (cs_stop_requested s)
      (cs_failure s \<noteq> None) (cs_lane s) (cs_operations s = [])"
    and "closed_inv (cs_lane s) (tl_closed (tr_state (cs_run s)))"
    and "engine_inv (cs_lane s) (cs_engine_calls s)"
    and "cs_active_operations s = length (cs_operations s)"
  using assms by (simp_all add: session_inv_def)

lemma session_inv_start: "session_inv s \<Longrightarrow> session_inv (snd (session_start callback s))"
  using control_inv_moves(1) [of "cs_start_requested s"]
  by (auto simp: session_start_def session_inv_def)

lemma session_inv_acquire: "session_inv s \<Longrightarrow> session_inv (snd (session_acquire op s))"
  using control_inv_moves(2) [of "cs_start_requested s"]
  by (auto simp: session_acquire_def session_inv_def)

lemma session_inv_release:
  assumes "session_inv s" and "(op, True) \<in> set (cs_operations s)"
  shows "session_inv (session_release op s)"
proof -
  have "cs_operations s \<noteq> []" using assms(2) by auto
  with session_inv_parts [OF assms(1)]
  have "control_inv (cs_lifecycle s) (cs_start_requested s) (cs_stop_requested s) (cs_failure s \<noteq> None)
      (cs_lane s) (remove1 (op, True) (cs_operations s) = [])" by (auto intro: control_inv_moves(3))
  with session_inv_parts [OF assms(1)] assms(2) show ?thesis
    unfolding session_inv_def session_release_def by (simp add: length_remove1)
qed

lemma session_inv_request_stop: "session_inv s \<Longrightarrow> session_inv (session_request_stop s)"
  by (auto simp: session_request_stop_def session_inv_def intro: control_inv_moves(4))

lemma session_inv_lane_begin:
  assumes "session_inv s" and "cs_lane s = LaneWaiting" and "cs_start_requested s \<or> cs_stop_requested s"
  shows "session_inv (lane_begin s)"
proof -
  note parts = session_inv_parts [OF assms(1), unfolded assms(2)]
  show ?thesis
  proof (cases "cs_start_requested s \<and> \<not> cs_stop_requested s")
    case True
    with parts(1) parts(4) engine_inv_move [OF parts(3), of LaneStart] show ?thesis
      by (simp add: lane_begin_def set_lane_def session_inv_def closed_inv_moves control_inv_lanes(1))
  next
    case False
    then have stop: "cs_stop_requested s" using assms(3) by blast
    with parts(1) parts(4) engine_inv_move [OF parts(3), of "LaneDrain False None"] show ?thesis
      by (simp add: lane_begin_def set_lane_def session_inv_def closed_inv_moves control_inv_lanes(2))
  qed
qed

lemma session_inv_lane_start:
  assumes "session_inv s" and "cs_lane s = LaneStart"
  shows "session_inv (lane_start outcome s)"
proof -
  note parts = session_inv_parts [OF assms(1), unfolded assms(2)]
  have "engine_inv (LanePublishStarted caps) (cs_engine_calls s @ [EngineStart])"
    and "engine_inv (LaneMark (Inl e)) (cs_engine_calls s @ [EngineStart])" for caps e
    by (rule engine_inv_step [OF parts(3)], simp)+
  with parts(1) parts(4) engine_inv_move [OF parts(3)] control_inv_lanes(3) show ?thesis
    by (cases outcome)
      (simp_all add: lane_start_def set_lane_def engine_call_def session_inv_def closed_inv_moves)
qed

lemma session_inv_publish_started:
  assumes "session_inv s" and "cs_lane s = LanePublishStarted caps"
  shows "session_inv (lane_publish_started now ok recorded caps s)"
proof -
  note parts = session_inv_parts [OF assms(1), unfolded assms(2)]
  obtain r where r: "session_publish now ok SessionStarted ''started'' s = s\<lparr>cs_run := r\<rparr>"
    using session_publish_frame by blast
  with parts(1) parts(4) engine_inv_move [OF parts(3), of "LaneMark (Inr caps)"] show ?thesis
    by (simp add: lane_publish_started_def set_lane_def session_inv_def closed_inv_moves
        control_inv_lanes(4))
qed

lemma session_inv_mark:
  assumes "session_inv s" and "cs_lane s = LaneMark outcome"
  shows "session_inv (lane_mark outcome s)"
proof -
  note parts = session_inv_parts [OF assms(1), unfolded assms(2)]
  have e: "engine_inv (LaneDrain True (case outcome of Inl e \<Rightarrow> Some e | Inr caps \<Rightarrow> None)) (cs_engine_calls s)"
    by (rule engine_inv_move [OF parts(3)]) (cases outcome, auto)
  have c: "control_inv Stopping (cs_start_requested s) True (cs_failure s \<noteq> None) (LaneDrain True f)
      (cs_operations s = [])"
    "control_inv (if cs_stop_requested s then cs_lifecycle s else Running) (cs_start_requested s)
      (cs_stop_requested s) (cs_failure s \<noteq> None) (LaneDrain True None) (cs_operations s = [])" for f
    using control_inv_lanes(5,6,7) parts(1) by (cases "cs_stop_requested s"; force)+
  from e c parts(4) show ?thesis
    by (cases outcome) (simp_all add: lane_mark_def set_lane_def session_inv_def closed_inv_moves)
qed

lemma session_inv_drain:
  assumes "session_inv s" and "cs_lane s = LaneDrain attempted failure" and "lane_drained s"
  shows "session_inv (set_lane (LaneStop attempted failure) s)"
proof -
  note parts = session_inv_parts [OF assms(1), unfolded assms(2)]
  have "cs_operations s = []" "cs_stop_requested s" using assms(3) parts(4) by (simp_all add: lane_drained_def)
  moreover have "engine_inv (LaneStop attempted failure) (cs_engine_calls s)"
    by (rule engine_inv_move [OF parts(3)]) auto
  ultimately show ?thesis
    using parts(1) parts(4) by (simp add: set_lane_def session_inv_def closed_inv_moves control_inv_lanes(8))
qed

lemma session_inv_past:
  assumes "session_inv s" and "past_drain (cs_lane s)" and "cs_lane s \<noteq> LaneDone"
    and "past_drain (cs_lane s')" and "cs_lane s' \<noteq> LaneDone"
    and "engine_inv (cs_lane s') (cs_engine_calls s')"
    and "closed_inv (cs_lane s') (tl_closed (tr_state (cs_run s')))"
    and "cs_lifecycle s' = cs_lifecycle s" and "cs_start_requested s' = cs_start_requested s"
    and "cs_stop_requested s' = cs_stop_requested s" and "cs_failure s' = cs_failure s"
    and "cs_operations s' = cs_operations s" and "cs_active_operations s' = cs_active_operations s"
  shows "session_inv s'"
  using assms control_inv_lanes(9) [OF session_inv_parts(1) [OF assms(1)] assms(2,3,4,5)]
  by (simp add: session_inv_def)

lemma session_inv_stop:
  assumes "session_inv s" and "cs_lane s = LaneStop attempted failure"
  shows "session_inv (lane_stop threw attempted failure s)"
proof -
  note parts = session_inv_parts [OF assms(1), unfolded assms(2)]
  have a: "engine_inv (LanePublishEnd f) (cs_engine_calls s @ [EngineStop])" if attempted for f
    using that by (intro engine_inv_step [OF parts(3)]) auto
  have b: "engine_inv (LanePublishEnd f) (cs_engine_calls s)" if "\<not> attempted" for f
    using that by (intro engine_inv_move [OF parts(3)]) auto
  show ?thesis
    by (rule session_inv_past [OF assms(1)])
      (simp_all add: lane_stop_def set_lane_def engine_call_def closed_inv_moves a b assms(2))
qed

lemma session_inv_publish_end:
  assumes "session_inv s" and "cs_lane s = LanePublishEnd failure"
  shows "session_inv (lane_publish_end now ok recorded failure s)"
proof -
  note parts = session_inv_parts [OF assms(1), unfolded assms(2)]
  have e: "engine_inv (LaneClose failure) (cs_engine_calls s)" by (rule engine_inv_move [OF parts(3)]) simp
  obtain r where r: "session_publish now ok SessionFailed ''lifecycle_failure'' s = s\<lparr>cs_run := r\<rparr>"
    using session_publish_frame by blast
  obtain q where q: "session_publish now ok SessionStopped ''stopped'' s = s\<lparr>cs_run := q\<rparr>"
    using session_publish_frame by blast
  show ?thesis
    by (rule session_inv_past [OF assms(1)])
      (use e r q assms(2) in \<open>auto simp: lane_publish_end_def set_lane_def closed_inv_moves\<close>)
qed

lemma session_inv_close:
  assumes "session_inv s" and "cs_lane s = LaneClose failure"
  shows "session_inv (lane_close failure s)"
proof -
  note parts = session_inv_parts [OF assms(1), unfolded assms(2)]
  have e: "engine_inv (LaneFinish failure) (cs_engine_calls s)" by (rule engine_inv_move [OF parts(3)]) simp
  show ?thesis
    by (rule session_inv_past [OF assms(1)])
      (simp_all add: lane_close_def set_lane_def timeline_close_def closed_inv_moves e assms(2))
qed

lemma session_inv_finish:
  assumes "session_inv s" and "cs_lane s = LaneFinish failure"
  shows "session_inv (lane_finish failure s)"
proof -
  note parts = session_inv_parts [OF assms(1), unfolded assms(2)]
  have "engine_inv LaneDone (cs_engine_calls s)" by (rule engine_inv_move [OF parts(3)]) simp
  with parts(4) control_inv_lanes(10) [OF parts(1), of "failure \<noteq> None"] closed_inv_moves(3) [OF parts(2)]
  show ?thesis by (auto simp: lane_finish_def set_lane_def session_inv_def)
qed

lemma session_step_inv: "session_inv s \<Longrightarrow> session_step s s' \<Longrightarrow> session_inv s'"
  by (erule session_stepE)
    (simp_all add: session_inv_start session_inv_acquire session_inv_operate session_inv_release
      session_inv_request_stop session_inv_journal session_inv_lane_begin session_inv_lane_start
      session_inv_publish_started session_inv_mark session_inv_drain session_inv_stop
      session_inv_publish_end session_inv_close session_inv_finish)

lemma session_step_journal:
  assumes "session_step s s'"
  shows "cs_run s' = cs_run s \<or> timeline_step (cs_run s) (cs_run s')"
proof -
  have pub: "timeline_step (cs_run s) (cs_run (session_publish now ok ty phase s))" for now ok ty phase
    using session_publish_frame [of s now ok ty phase] by auto
  have app: "timeline_step (cs_run u) (cs_run (snd (session_append now ok e u)))" for now ok e u
    using session_append_frame [OF prod.collapse [symmetric], of u now ok e] by auto
  have op: "cs_run (session_operate now ok x s) = cs_run s \<or>
      timeline_step (cs_run s) (cs_run (session_operate now ok x s))" for now ok x
  proof -
    let ?s = "s\<lparr>cs_operations := (x, True) # remove1 (x, False) (cs_operations s)\<rparr>"
    show ?thesis
      using app [of ?s now ok]
      by (cases x) (auto simp: session_operate_def engine_call_def Let_def
          split: prod.split option.split, (metis snd_conv)+)
  qed
  show ?thesis
    using assms
    by (rule session_stepE)
      (use pub op in \<open>auto simp: session_start_def session_acquire_def session_release_def
        session_request_stop_def lane_begin_def lane_start_def lane_publish_started_def lane_mark_def
        lane_stop_def lane_publish_end_def lane_close_def lane_finish_def set_lane_def engine_call_def
        timeline_step.close split: StartOutcome.splits sum.splits\<close>)
qed

lemma session_operate_flags [simp]:
  "cs_lifecycle (session_operate now ok op s) = cs_lifecycle s"
  "cs_stop_requested (session_operate now ok op s) = cs_stop_requested s"
  "cs_lane (session_operate now ok op s) = cs_lane s"
  "cs_operations (session_operate now ok op s) = (op, True) # remove1 (op, False) (cs_operations s)"
  by (simp_all add: session_operate_def engine_call_def session_append_def Let_def
      split: Operation.split option.split)

lemma session_publish_flags [simp]:
  "cs_lifecycle (session_publish now ok ty phase s) = cs_lifecycle s"
  "cs_stop_requested (session_publish now ok ty phase s) = cs_stop_requested s"
  "cs_operations (session_publish now ok ty phase s) = cs_operations s"
  by (simp_all add: session_publish_def session_append_def Let_def)

lemma lifecycle_cases:
  assumes "session_inv s" and "cs_lane s \<noteq> LaneDone"
  shows "cs_lifecycle s \<le> Stopping" and "\<not> cs_stop_requested s \<Longrightarrow> cs_lifecycle s \<le> Running"
proof -
  have "\<not> terminal (cs_lifecycle s)" and "cs_stop_requested s \<longleftrightarrow> Stopping \<le> cs_lifecycle s"
    using session_inv_parts(1) [OF assms(1)] assms(2) unfolding control_inv_def by blast+
  then show "cs_lifecycle s \<le> Stopping" and "\<not> cs_stop_requested s \<Longrightarrow> cs_lifecycle s \<le> Running"
    by (cases "cs_lifecycle s"; simp add: terminal_def lifecycle_order)+
qed

lemma session_step_lifecycle:
  assumes "session_inv s" and "session_step s s'"
  shows "cs_lifecycle s \<le> cs_lifecycle s'"
proof -
  note le = lifecycle_cases [OF assms(1)]
  have top: "a \<le> Stopping \<Longrightarrow> a \<le> Stopped" "a \<le> Stopping \<Longrightarrow> a \<le> Failed" for a
    by (simp_all add: lifecycle_order)
  have req: "\<not> terminal (cs_lifecycle s) \<Longrightarrow> cs_lifecycle s \<le> Stopping"
    by (cases "cs_lifecycle s") (simp_all add: terminal_def lifecycle_order)
  have start: "Created \<le> Starting" by (simp add: lifecycle_order)
  show ?thesis
    using assms(2)
    by (rule session_stepE)
      (simp_all add: session_start_def session_acquire_def session_release_def
        session_request_stop_def lane_begin_def lane_start_def lane_publish_started_def lane_mark_def
        lane_stop_def lane_publish_end_def lane_close_def lane_finish_def set_lane_def engine_call_def
        le top req start split: StartOutcome.split sum.split)
qed

interpretation session: monotone_system session_init session_step session_inv cs_lifecycle
proof
  show "session_inv s" if "session_init s" for s using that by (rule session_inv_init)
  show "session_inv s'" if "session_inv s" "session_step s s'" for s s'
    using that by (rule session_step_inv)
  show "cs_lifecycle s \<le> cs_lifecycle s'" if "session_inv s" "session_step s s'" for s s'
    using that by (rule session_step_lifecycle)
qed

section \<open>The end of a session\<close>

lemma session_terminal_step:
  assumes inv: "session_inv s" and "terminal (cs_lifecycle s)" and "session_step s s'"
  shows "cs_lifecycle s' = cs_lifecycle s \<and> cs_failure s' = cs_failure s \<and>
    cs_engine_calls s' = cs_engine_calls s"
proof -
  have "cs_lane s = LaneDone" "cs_operations s = []"
    using session_inv_parts(1) [OF inv] assms(2) by (simp_all add: control_inv_def)
  with assms(2) show ?thesis
    using assms(3) by (elim session_stepE)
      (auto simp: session_start_def session_acquire_def session_request_stop_def terminal_def)
qed

interpretation session_end: final_condition session_step "\<lambda>s. session_inv s \<and> terminal (cs_lifecycle s)"
  "\<lambda>s. (cs_lifecycle s, cs_failure s, cs_engine_calls s)"
proof unfold_locales
  fix s t assume s: "session_inv s \<and> terminal (cs_lifecycle s)" "session_step s t"
  then show "(session_inv t \<and> terminal (cs_lifecycle t)) \<and>
      (cs_lifecycle t, cs_failure t, cs_engine_calls t) = (cs_lifecycle s, cs_failure s, cs_engine_calls s)"
    using session_terminal_step [of s t] session_step_inv [of s t] by simp
qed

lemma session_terminal_steps:
  assumes "steps session_step s s'" and "session_inv s" and "terminal (cs_lifecycle s)"
  shows "cs_lifecycle s' = cs_lifecycle s \<and> cs_failure s' = cs_failure s \<and>
    cs_engine_calls s' = cs_engine_calls s"
  using session_end.final_steps [OF assms(1)] assms(2,3) by simp

fun lane_rank :: "Lane \<Rightarrow> nat" where
  "lane_rank LaneWaiting = 9"
| "lane_rank LaneStart = 8"
| "lane_rank (LanePublishStarted caps) = 7"
| "lane_rank (LaneMark outcome) = 6"
| "lane_rank (LaneDrain attempted failure) = 5"
| "lane_rank (LaneStop attempted failure) = 4"
| "lane_rank (LanePublishEnd failure) = 3"
| "lane_rank (LaneClose failure) = 2"
| "lane_rank (LaneFinish failure) = 1"
| "lane_rank LaneDone = 0"

definition session_rank :: "ConversationSession \<Rightarrow> nat" where
  "session_rank s = lane_rank (cs_lane s) +
     sum_list (map (\<lambda>(op, ran). if ran then 1 else 2) (cs_operations s))"

lemma sum_list_remove1: "x \<in> set xs \<Longrightarrow> sum_list (map f xs) = f x + sum_list (map f (remove1 x xs))"
  for f :: "'a \<Rightarrow> nat"
  by (induction xs) auto

text \<open>The steps of the lane and of the operations already admitted.\<close>

inductive session_own_step :: "ConversationSession \<Rightarrow> ConversationSession \<Rightarrow> bool"
  for s :: ConversationSession where
  operate: "(op, False) \<in> set (cs_operations s) \<Longrightarrow> session_own_step s (session_operate now ok op s)"
| release: "(op, True) \<in> set (cs_operations s) \<Longrightarrow> session_own_step s (session_release op s)"
| lane_begin: "cs_lane s = LaneWaiting \<Longrightarrow> cs_start_requested s \<or> cs_stop_requested s \<Longrightarrow>
    session_own_step s (lane_begin s)"
| lane_start: "cs_lane s = LaneStart \<Longrightarrow> session_own_step s (lane_start outcome s)"
| lane_publish_started: "cs_lane s = LanePublishStarted caps \<Longrightarrow>
    session_own_step s (lane_publish_started now ok recorded caps s)"
| lane_mark: "cs_lane s = LaneMark outcome \<Longrightarrow> session_own_step s (lane_mark outcome s)"
| lane_drain: "cs_lane s = LaneDrain attempted failure \<Longrightarrow> lane_drained s \<Longrightarrow>
    session_own_step s (set_lane (LaneStop attempted failure) s)"
| lane_stop: "cs_lane s = LaneStop attempted failure \<Longrightarrow>
    session_own_step s (lane_stop threw attempted failure s)"
| lane_publish_end: "cs_lane s = LanePublishEnd failure \<Longrightarrow>
    session_own_step s (lane_publish_end now ok recorded failure s)"
| lane_close: "cs_lane s = LaneClose failure \<Longrightarrow> session_own_step s (lane_close failure s)"
| lane_finish: "cs_lane s = LaneFinish failure \<Longrightarrow> session_own_step s (lane_finish failure s)"

lemma session_own_step_step: "session_own_step s u \<Longrightarrow> session_step s u"
  by (erule session_own_step.cases) (auto intro: session_step.intros)

lemma session_step_cases:
  assumes "session_step s u"
  obtains (starting) callback where "u = snd (session_start callback s)"
      | (acquiring) op where "u = snd (session_acquire op s)" | (stopping) "u = session_request_stop s"
      | (journal) r where "u = s\<lparr>cs_run := r\<rparr>" | (own) "session_own_step s u"
  using assms
  by (cases rule: session_step.cases) (auto intro: session_own_step.intros that)

text \<open>Each brings the end nearer.\<close>

lemma session_own_rank:
  assumes "session_own_step s u"
  shows "session_rank u < session_rank s"
  using assms
proof cases
  case (operate op now ok)
  then show ?thesis
    using sum_list_remove1 [OF operate(2), of "\<lambda>(op, ran). if ran then 1 else 2"]
    by (simp add: session_rank_def)
next
  case (release op)
  then show ?thesis
    using sum_list_remove1 [OF release(2), of "\<lambda>(op, ran). if ran then 1 else 2"]
    by (simp add: session_rank_def session_release_def)
next
  case (lane_start outcome)
  then show ?thesis
    by (cases outcome) (simp_all add: lane_start_def set_lane_def engine_call_def session_rank_def)
next
  case (lane_mark outcome)
  then show ?thesis by (cases outcome) (simp_all add: lane_mark_def set_lane_def session_rank_def)
qed (simp_all add: lane_begin_def lane_publish_started_def lane_stop_def lane_publish_end_def lane_close_def
    lane_finish_def set_lane_def engine_call_def session_rank_def)

text \<open>Once a stop is requested the lane or an admitted operation can always move on.\<close>

lemma session_stopping_moves:
  assumes inv: "session_inv s" and stop: "cs_stop_requested s" and "\<not> terminal (cs_lifecycle s)"
  shows "\<exists>u. session_own_step s u"
proof -
  have "cs_lane s \<noteq> LaneDone"
    using session_inv_parts(1) [OF inv] assms(3) unfolding control_inv_def by blast
  then show ?thesis
  proof (cases "cs_lane s")
    case (LaneDrain attempted failure)
    show ?thesis
    proof (cases "cs_operations s")
      case Nil
      then have "lane_drained s" using session_inv_parts(4) [OF inv] stop by (simp add: lane_drained_def)
      then show ?thesis using session_own_step.lane_drain [OF LaneDrain] by blast
    next
      case (Cons x xs)
      obtain op ran where "x = (op, ran)" by (cases x)
      then have "(op, ran) \<in> set (cs_operations s)" using Cons by simp
      then show ?thesis using session_own_step.operate [of op s] session_own_step.release [of op s]
        by (cases ran; simp; blast)
    qed
  qed (use stop in \<open>auto intro: session_own_step.intros\<close>)
qed

lemma session_stop_kept:
  assumes inv: "session_inv s" and stop: "cs_stop_requested s" and "session_step s u"
  shows "session_inv u \<and> cs_stop_requested u"
proof -
  have u: "session_inv u" by (rule session_step_inv [OF inv assms(3)])
  have "Stopping \<le> cs_lifecycle s" using session_inv_parts(1) [OF inv] stop unfolding control_inv_def by blast
  then have "Stopping \<le> cs_lifecycle u" using session_step_lifecycle [OF inv assms(3)] by (rule order_trans)
  then show ?thesis using u session_inv_parts(1) [OF u] unfolding control_inv_def by blast
qed

lemma session_stop_not_running:
  "session_inv s \<Longrightarrow> cs_stop_requested s \<Longrightarrow> cs_lifecycle s \<noteq> Running"
  using session_inv_parts(1) [of s] unfolding control_inv_def by (auto simp: lifecycle_order)

text \<open>No caller takes the end farther away.\<close>

lemma session_stopping_rank:
  assumes "session_inv s" and "cs_stop_requested s" and "session_step s u"
  shows "session_rank u \<le> session_rank s"
  using assms(3)
proof (cases rule: session_step_cases)
  case own
  then show ?thesis using session_own_rank [OF own] by simp
qed (use session_stop_not_running [OF assms(1,2)] in
    \<open>simp_all add: session_start_def session_acquire_def session_request_stop_def session_rank_def\<close>)

lemma session_stopping_steps:
  assumes "steps session_step s u" and "session_inv s" and "cs_stop_requested s"
  shows "session_inv u \<and> cs_stop_requested u"
  using assms
proof (induction rule: steps.induct)
  case (steps_step s t u)
  then show ?case using session_stop_kept [of t u] by simp
qed simp

section \<open>Properties\<close>

text \<open>
  C5: the engine's protocol. In every reachable state the calls made on the engine follow its
  contract: one \<open>start\<close> first, operations only after it and before \<open>stop\<close>, at most one \<open>stop\<close> and
  nothing after it (\<open>stop\<close> alone only when \<open>capabilities()\<close> threw). Operations are in flight only
  while the engine is active, the counter the lane drains is their number, and a session that
  has ended has stopped every engine it called.
\<close>

theorem session_engine_discipline:
  assumes "reachable session_init session_step s"
  shows "\<exists>p. engine_phase (cs_engine_calls s) = Some p \<and>
    cs_active_operations s = length (cs_operations s) \<and>
    (cs_operations s \<noteq> [] \<longrightarrow> p = Active) \<and>
    (terminal (cs_lifecycle s) \<longrightarrow> cs_engine_calls s = [] \<or> p = EngineStopped)"
proof -
  have inv: "session_inv s" using assms by (rule session.reachable_inv)
  obtain p where p: "engine_phase (cs_engine_calls s) = Some p" "p \<in> lane_phases (cs_lane s)"
    "p = NotStarted \<longleftrightarrow> cs_engine_calls s = []"
    using session_inv_parts(3) [OF inv] by (auto simp: engine_inv_def)
  have "cs_operations s \<noteq> [] \<Longrightarrow> cs_lane s = LaneDrain True None"
    and "terminal (cs_lifecycle s) \<Longrightarrow> cs_lane s = LaneDone"
    using session_inv_parts(1) [OF inv] unfolding control_inv_def by blast+
  with p session_inv_parts(4) [OF inv] show ?thesis by (intro exI [of _ p]) auto
qed

text \<open>
  C27: a session ends once. From a reachable state whose lifecycle is \<open>Stopped\<close> or \<open>Failed\<close>, no
  later state differs in lifecycle, failure, calls made on the engine or journal: a \<open>start\<close> is
  refused, no operation is admitted and the weak sink admits no event.
\<close>

theorem session_terminal_final:
  assumes "reachable session_init session_step s" and "terminal (cs_lifecycle s)"
    and "steps session_step s s'"
  shows "cs_lifecycle s' = cs_lifecycle s \<and> cs_failure s' = cs_failure s \<and>
    cs_engine_calls s' = cs_engine_calls s \<and> tr_admitted (cs_run s') = tr_admitted (cs_run s) \<and>
    \<not> fst (session_acquire op s') \<and> session_start False s' = (Some (Inl CannotRestart), s')"
proof -
  have inv: "session_inv s" using assms(1) by (rule session.reachable_inv)
  have "cs_lane s = LaneDone" using session_inv_parts(1) [OF inv] assms(2) unfolding control_inv_def by blast
  then have "tl_closed (tr_state (cs_run s))" using session_inv_parts(2) [OF inv] by (simp add: closed_inv_def)
  then have "tr_admitted (cs_run s') = tr_admitted (cs_run s)"
    using lane.client_history [where proj = cs_run and step = session_step, OF session_step_journal assms(3)]
    by blast
  with session_terminal_steps [OF assms(3) inv assms(2)] assms(2) show ?thesis
    by (auto simp: session_acquire_def session_start_def terminal_def)
qed

text \<open>
  The lifecycle only moves forward, through \<open>Created\<close>, \<open>Starting\<close>, \<open>Running\<close>, \<open>Stopping\<close> to an
  end, whatever the callers and the lane do.
\<close>

theorem session_lifecycle_forward:
  assumes "reachable session_init session_step s" and "steps session_step s s'"
  shows "cs_lifecycle s \<le> cs_lifecycle s'"
  using session.steps_rank [OF assms(2) session.reachable_inv [OF assms(1)]] .

text \<open>
  C14: a stop ends, whatever the session was doing. After \<open>request_stop\<close> in any reachable state,
  created, starting, running or failed, and whatever callers do afterwards, no operation is admitted
  any more, and until the wait of \<open>stop\<close> returns the lane or an operation admitted before has a step
  to make; each such step brings the end strictly nearer and no step of a caller takes it farther
  away, so that after at most \<open>session_rank\<close> of these steps the session is \<open>Stopped\<close> or \<open>Failed\<close>.
\<close>

theorem session_stop_terminates:
  assumes "reachable session_init session_step s" and "steps session_step (session_request_stop s) u"
  shows "\<not> fst (session_acquire op u) \<and>
    (\<not> session_stop_ready u \<longrightarrow> (\<exists>v. session_own_step u v)) \<and>
    (\<forall>v. session_own_step u v \<longrightarrow> session_step u v \<and> session_rank v < session_rank u) \<and>
    (\<forall>v. session_step u v \<longrightarrow> session_rank v \<le> session_rank u) \<and>
    (session_rank u = 0 \<longrightarrow> session_stop_ready u)"
proof -
  have inv: "session_inv s" using assms(1) by (rule session.reachable_inv)
  then have "session_inv (session_request_stop s)" by (rule session_inv_request_stop)
  moreover have "terminal (cs_lifecycle s) \<Longrightarrow> cs_stop_requested s"
    using session_inv_parts(1) [OF inv] unfolding control_inv_def by (auto simp: terminal_def lifecycle_order)
  then have "cs_stop_requested (session_request_stop s)" by (simp add: session_request_stop_def)
  ultimately have u: "session_inv u" "cs_stop_requested u" using session_stopping_steps [OF assms(2)] by simp_all
  have moves: "\<not> session_stop_ready u \<Longrightarrow> \<exists>v. session_own_step u v"
    using session_stopping_moves [OF u] by (simp add: session_stop_ready_def)
  then have "session_rank u = 0 \<Longrightarrow> session_stop_ready u" using session_own_rank by fastforce
  then show ?thesis
    using moves session_stop_not_running [OF u] session_own_step_step session_own_rank session_stopping_rank [OF u]
    by (auto simp: session_acquire_def)
qed

text \<open>
  What \<open>start\<close> reports. When its wait ends in a reachable state, it returns normally exactly
  if the session is running, rethrows the recorded failure exactly if the session failed, and
  reports an interrupted startup exactly if the session stopped cleanly.
\<close>

theorem session_start_reports:
  assumes "reachable session_init session_step s" and "session_start_ready s"
  shows "(session_start_result s = Inr () \<longleftrightarrow> cs_lifecycle s = Running) \<and>
    (session_start_result s = Inl StartupStopped \<longleftrightarrow> cs_lifecycle s = Stopped) \<and>
    ((\<exists>e. session_start_result s = Inl (StartupFailed e) \<and> cs_failure s = Some e) \<longleftrightarrow>
      cs_lifecycle s = Failed)"
proof -
  have "cs_lifecycle s = Failed \<longleftrightarrow> cs_failure s \<noteq> None"
    using session_inv_parts(1) [OF session.reachable_inv [OF assms(1)]] unfolding control_inv_def by blast
  with assms(2) show ?thesis
    by (auto simp: session_start_ready_def session_start_result_def terminal_def split: option.splits)
qed

text \<open>The run of the witnesses: a session is stopped before it was started.\<close>

definition session_example :: ConversationSession where
  "session_example = projr (session_new ''s'' True True
     \<lparr>tlc_max_events = 2, tlc_max_pending_notifications = 2, tlc_max_event_bytes = 64,
      tlc_session_id = [], tlc_generation = 1\<rparr>)"

definition session_example_ended :: ConversationSession where
  "session_example_ended =
     (let s = lane_begin (session_request_stop session_example);
          s = set_lane (LaneStop False None) s;
          s = lane_stop None False None s;
          s = lane_publish_end 0 True True None s
      in lane_finish None (lane_close None s))"

lemma session_example_reachable: "reachable session_init session_step session_example"
proof (rule reach_init, intro exI)
  show "session_new ''s'' True True \<lparr>tlc_max_events = 2, tlc_max_pending_notifications = 2,
      tlc_max_event_bytes = 64, tlc_session_id = [], tlc_generation = 1\<rparr> = Inr session_example"
    by (simp add: session_example_def session_new_def timeline_new_def scoped_config_def)
qed

lemma session_example_ended_reachable: "reachable session_init session_step session_example_ended"
proof -
  define a where "a = session_request_stop session_example"
  define b where "b = lane_begin a"
  define c where "c = set_lane (LaneStop False None) b"
  define d where "d = lane_stop None False None c"
  define e where "e = lane_publish_end 0 True True None d"
  define f where "f = lane_close None e"
  note reach = reach_step [where step = session_step]
  have a: "reachable session_init session_step a"
    unfolding a_def by (rule reach [OF session_example_reachable session_step.request_stop])
  have la: "cs_lane a = LaneWaiting" "cs_start_requested a = False" "cs_stop_requested a" "cs_active_operations a = 0"
    by (simp_all add: a_def session_request_stop_def session_example_def session_new_def timeline_new_def
        scoped_config_def terminal_def)
  have b: "reachable session_init session_step b"
    unfolding b_def by (rule reach [OF a session_step.lane_begin]) (simp_all add: la)
  have lb: "cs_lane b = LaneDrain False None" "lane_drained b"
    by (simp_all add: b_def lane_begin_def set_lane_def la lane_drained_def)
  have c: "reachable session_init session_step c"
    unfolding c_def by (rule reach [OF b session_step.lane_drain]) (simp_all add: lb)
  have d: "reachable session_init session_step d"
    unfolding d_def by (rule reach [OF c session_step.lane_stop]) (simp add: c_def set_lane_def)
  have e: "reachable session_init session_step e"
    unfolding e_def by (rule reach [OF d session_step.lane_publish_end])
      (simp add: d_def lane_stop_def set_lane_def)
  have f: "reachable session_init session_step f"
    unfolding f_def by (rule reach [OF e session_step.lane_close])
      (simp add: e_def lane_publish_end_def set_lane_def)
  have "reachable session_init session_step (lane_finish None f)"
    by (rule reach [OF f session_step.lane_finish]) (simp add: f_def lane_close_def set_lane_def)
  then show ?thesis
    by (simp add: session_example_ended_def Let_def a_def b_def c_def d_def e_def f_def)
qed

lemma session_example_ended_stopped: "cs_lifecycle session_example_ended = Stopped"
  by (simp add: session_example_ended_def lane_finish_def set_lane_def Let_def)

theorem session_engine_discipline_witness:
  "\<exists>p. engine_phase (cs_engine_calls session_example_ended) = Some p"
  using session_engine_discipline [OF session_example_ended_reachable] by blast

theorem session_terminal_final_witness:
  "\<not> fst (session_acquire CancelResponse session_example_ended)"
  using session_terminal_final [OF session_example_ended_reachable _ steps_refl]
    session_example_ended_stopped by (simp add: terminal_def)

theorem session_lifecycle_forward_witness:
  "cs_lifecycle session_example \<le> cs_lifecycle (session_request_stop session_example)"
  by (rule session_lifecycle_forward [OF session_example_reachable
        steps_one [where step = session_step, OF session_step.request_stop]])

theorem session_stop_terminates_witness:
  "\<exists>v. session_own_step (session_request_stop session_example) v \<and>
     session_rank v < session_rank (session_request_stop session_example)"
proof -
  have "\<not> session_stop_ready (session_request_stop session_example)"
    by (simp add: session_stop_ready_def session_request_stop_def session_example_def session_new_def
        timeline_new_def scoped_config_def terminal_def)
  then show ?thesis using session_stop_terminates [OF session_example_reachable steps_refl] by blast
qed

theorem session_start_reports_witness:
  "session_start_result session_example_ended = Inl StartupStopped"
  using session_start_reports [OF session_example_ended_reachable] session_example_ended_stopped
  by (simp add: session_start_ready_def terminal_def)

end
