(* ===== verification/Runtime_Manager.thy ===== *)
theory Runtime_Manager
  imports Conversation_Session
begin

text \<open>
  \<open>RuntimeManager\<close> (\<open>runtime_manager.h\<close>, \<open>runtime_manager.cpp\<close>): the process-local registry of
  sessions with its startup workers, supervisor and notification dispatcher. An \<open>Entry\<close> is an
  index into the list of entries ever admitted; it owns a session of the session model, whose
  own steps interleave with the manager's. Factories are client code: the step in which a
  factory ends carries what it produced. Every section under the registry mutex is one step.
\<close>

named_theorems manager_defs \<open>operations of the runtime manager\<close>

section \<open>State\<close>

record SessionHandle =
  sh_runtime_id :: u64
  sh_id :: string
  sh_generation :: u64

datatype RuntimeLifecycle = RuntimeRunning | RuntimeDraining | RuntimeStopped

datatype SessionPhase =
    PhaseReserved | PhaseStarting | PhaseRunning | PhaseStopRequested | PhaseRetiring

datatype AdmissionStatus =
    AdmissionAccepted | InvalidRequest | DuplicateId | CapacityReached | StartupQueueFull
  | AdmissionDraining | IdentityExhausted

datatype RemoveStatus = Requested | AlreadyRequested | NotFound | StaleHandle

datatype SessionOutcome =
    NoOutcome | OutcomeStarted | Removed | RuntimeShutdown | OutcomeStartupFailed | EngineFailure
  | ReportedFailure | LifecycleFailure | UnexpectedStop

record RuntimeConfig =
  rc_max_sessions :: nat
  rc_max_pending_starts :: nat
  rc_startup_workers :: nat
  rc_max_pending_notifications :: nat
  rc_max_session_id_bytes :: nat
  rc_supervisor_interval :: duration_ms

datatype RuntimeNotificationType = NotifyReserved | NotifyStarted | NotifyStopRequested | NotifyRetired

record RuntimeNotification =
  nt_sequence :: u64
  nt_type :: RuntimeNotificationType
  nt_handle :: SessionHandle
  nt_outcome :: SessionOutcome

record RuntimeStats =
  rs_lifecycle :: RuntimeLifecycle
  rs_admitted :: u64
  rs_rejected :: u64
  rs_retired :: u64
  rs_failures :: u64
  rs_rejected_invalid :: u64
  rs_rejected_duplicate :: u64
  rs_rejected_capacity :: u64
  rs_rejected_queue :: u64
  rs_rejected_draining :: u64
  rs_rejected_identity :: u64
  rs_notification_high_watermark :: nat
  rs_dropped_notifications :: u64
  rs_observer_failures :: u64
  rs_first_dropped_sequence :: u64
  rs_last_dropped_sequence :: u64

text \<open>\<open>factory\<close> says whether the entry still owns its factory.\<close>

record Entry =
  en_handle :: SessionHandle
  en_factory :: bool
  en_session :: "ConversationSession option"
  en_phase :: SessionPhase
  en_outcome :: SessionOutcome
  en_operations :: nat
  en_stop_requested :: bool
  en_startup_done :: bool
  en_cancelled_before_start :: bool
  en_started :: "SessionOutcome promise"
  en_retired :: "SessionOutcome promise"

text \<open>
  Where a startup worker is: at its wait, in the factory, before and after the wait of
  \<open>session->start()\<close>, in the \<open>catch\<close>, at the last section, returned.
\<close>

datatype StartupWorker =
    SwWaiting | SwFactory nat | SwStart nat | SwStarting nat | SwCaught nat | SwFinish nat bool
  | SwReturned

text \<open>
  Where the supervisor is: at the top of a scan, before the check of an entry, past it, before
  the flush, at the section that takes the session out, in the destructors, at the section that
  erases the entry, at its timed wait, returned.
\<close>

datatype Supervisor =
    SvScan | SvCheck u64 "nat list" | SvLifecycle u64 nat "nat list"
  | SvFlush u64 nat "nat list" | SvTake u64 nat "nat list" | SvErase u64 nat "nat list"
  | SvSleep u64 | SvReturned

datatype NotifyDispatcher = NdWaiting | NdNotifying RuntimeNotification | NdReturned

record RuntimeManager =
  rm_config :: RuntimeConfig
  rm_has_notify :: bool
  rm_runtime_id :: u64
  rm_registry :: "(string, nat) umap"
  rm_pending :: "nat list"
  rm_notifications :: "RuntimeNotification list"
  rm_counters :: RuntimeStats
  rm_generation :: u64
  rm_sequence :: u64
  rm_enqueued :: u64
  rm_delivered :: u64
  rm_revision :: u64
  rm_workers_done :: nat
  rm_supervisor_done :: bool
  rm_entries :: "Entry list"
  rm_workers :: "StartupWorker list"
  rm_supervisor :: Supervisor
  rm_dispatcher :: NotifyDispatcher
  rm_calls :: "nat list"

datatype manager_error = RuntimeIdentityExhausted | RuntimeLimitsNotPositive

text \<open>The process-wide identity counter: the value it hands out and its successor.\<close>

definition next_runtime_id :: "u64 \<Rightarrow> manager_error + (u64 \<times> u64)" where
  "next_runtime_id current =
     (if current = u64_max then Inl RuntimeIdentityExhausted else Inr (current, current + 1))"

definition zero_runtime_stats :: RuntimeStats where
  "zero_runtime_stats =
     \<lparr>rs_lifecycle = RuntimeRunning, rs_admitted = 0, rs_rejected = 0, rs_retired = 0,
      rs_failures = 0, rs_rejected_invalid = 0, rs_rejected_duplicate = 0,
      rs_rejected_capacity = 0, rs_rejected_queue = 0, rs_rejected_draining = 0,
      rs_rejected_identity = 0, rs_notification_high_watermark = 0,
      rs_dropped_notifications = 0, rs_observer_failures = 0, rs_first_dropped_sequence = 0,
      rs_last_dropped_sequence = 0\<rparr>"

definition manager_new :: "u64 \<Rightarrow> RuntimeConfig \<Rightarrow> bool \<Rightarrow> manager_error + RuntimeManager" where
  "manager_new runtime_id c has_notify =
     (if rc_max_sessions c = 0 \<or> rc_max_pending_starts c = 0 \<or> rc_startup_workers c = 0
         \<or> rc_max_pending_notifications c = 0 \<or> rc_max_session_id_bytes c = 0
         \<or> rc_supervisor_interval c \<le> 0
      then Inl RuntimeLimitsNotPositive
      else Inr \<lparr>rm_config = c, rm_has_notify = has_notify, rm_runtime_id = runtime_id,
        rm_registry = [], rm_pending = [], rm_notifications = [],
        rm_counters = zero_runtime_stats, rm_generation = 1, rm_sequence = 1, rm_enqueued = 0,
        rm_delivered = 0, rm_revision = 0, rm_workers_done = 0, rm_supervisor_done = False,
        rm_entries = [], rm_workers = replicate (rc_startup_workers c) SwWaiting,
        rm_supervisor = SvScan, rm_dispatcher = NdWaiting, rm_calls = []\<rparr>)"

section \<open>Sections shared by the operations\<close>

fun failed :: "SessionOutcome \<Rightarrow> bool" where
  "failed OutcomeStartupFailed = True"
| "failed EngineFailure = True"
| "failed ReportedFailure = True"
| "failed LifecycleFailure = True"
| "failed UnexpectedStop = True"
| "failed outcome = False"

definition changed :: "RuntimeManager \<Rightarrow> RuntimeManager" where
  "changed m = m\<lparr>rm_revision := rm_revision m + 1\<rparr>"

definition entry_update :: "nat \<Rightarrow> (Entry \<Rightarrow> Entry) \<Rightarrow> RuntimeManager \<Rightarrow> RuntimeManager" where
  "entry_update i f m = m\<lparr>rm_entries := (rm_entries m)[i := f (rm_entries m ! i)]\<rparr>"

definition drop_notification :: "u64 \<Rightarrow> RuntimeManager \<Rightarrow> RuntimeManager" where
  "drop_notification number m =
     (let c = rm_counters m;
          c = c\<lparr>rs_dropped_notifications := rs_dropped_notifications c + 1\<rparr>;
          c = (if rs_first_dropped_sequence c = 0
               then c\<lparr>rs_first_dropped_sequence := number\<rparr> else c)
      in m\<lparr>rm_counters := c\<lparr>rs_last_dropped_sequence := number\<rparr>\<rparr>)"

text \<open>\<open>alloc\<close> says for which sequence numbers the queue found memory.\<close>

definition manager_publish ::
  "(u64 \<Rightarrow> bool) \<Rightarrow> nat \<Rightarrow> RuntimeNotificationType \<Rightarrow> RuntimeManager \<Rightarrow> RuntimeManager" where
  "manager_publish alloc i ty m =
     (if \<not> rm_has_notify m then m
      else
        let number = rm_sequence m; e = rm_entries m ! i
        in if number = u64_max then drop_notification number m
        else
          let m = m\<lparr>rm_sequence := rm_sequence m + 1\<rparr>
          in if length (rm_notifications m) < rc_max_pending_notifications (rm_config m) \<and> alloc number
          then m\<lparr>rm_notifications := rm_notifications m @
                 [\<lparr>nt_sequence = number, nt_type = ty, nt_handle = en_handle e,
                   nt_outcome = (if ty = NotifyStarted then OutcomeStarted else en_outcome e)\<rparr>],
               rm_enqueued := rm_enqueued m + 1,
               rm_counters := (rm_counters m)\<lparr>rs_notification_high_watermark :=
                 max (rs_notification_high_watermark (rm_counters m))
                   (Suc (length (rm_notifications m)))\<rparr>\<rparr>
          else drop_notification number m)"

definition matching :: "SessionHandle \<Rightarrow> RuntimeManager \<Rightarrow> nat option" where
  "matching handle m =
     (if sh_runtime_id handle \<noteq> rm_runtime_id m then None
      else case map_of (rm_registry m) (sh_id handle) of
        None \<Rightarrow> None
      | Some i \<Rightarrow>
          if sh_generation (en_handle (rm_entries m ! i)) \<noteq> sh_generation handle then None
          else Some i)"

definition stop_entry ::
  "(u64 \<Rightarrow> bool) \<Rightarrow> nat \<Rightarrow> SessionOutcome \<Rightarrow> RuntimeManager \<Rightarrow> RuntimeManager" where
  "stop_entry alloc i reason m =
     (let e = rm_entries m ! i;
          first = (\<not> en_stop_requested e);
          escalation = (failed reason \<and> \<not> failed (en_outcome e))
      in if en_phase e = PhaseRetiring then m
      else if \<not> first \<and> \<not> escalation then m
      else
        let cancel = (first \<and> en_phase e = PhaseReserved);
            m = (if cancel then m\<lparr>rm_pending := remove1 i (rm_pending m)\<rparr> else m);
            m = entry_update i (\<lambda>e. e\<lparr>en_outcome := reason,
                  en_cancelled_before_start := en_cancelled_before_start e \<or> cancel,
                  en_startup_done := en_startup_done e \<or> cancel,
                  en_stop_requested := True, en_phase := PhaseStopRequested,
                  en_session := map_option session_request_stop (en_session e)\<rparr>) m;
            m = (if first then manager_publish alloc i NotifyStopRequested m else m)
        in changed m)"

definition record_rejection :: "AdmissionStatus \<Rightarrow> RuntimeManager \<Rightarrow> RuntimeManager" where
  "record_rejection status m =
     (let c = (rm_counters m)\<lparr>rs_rejected := rs_rejected (rm_counters m) + 1\<rparr>
      in m\<lparr>rm_counters := (case status of
          InvalidRequest \<Rightarrow> c\<lparr>rs_rejected_invalid := rs_rejected_invalid c + 1\<rparr>
        | DuplicateId \<Rightarrow> c\<lparr>rs_rejected_duplicate := rs_rejected_duplicate c + 1\<rparr>
        | CapacityReached \<Rightarrow> c\<lparr>rs_rejected_capacity := rs_rejected_capacity c + 1\<rparr>
        | StartupQueueFull \<Rightarrow> c\<lparr>rs_rejected_queue := rs_rejected_queue c + 1\<rparr>
        | AdmissionDraining \<Rightarrow> c\<lparr>rs_rejected_draining := rs_rejected_draining c + 1\<rparr>
        | IdentityExhausted \<Rightarrow> c\<lparr>rs_rejected_identity := rs_rejected_identity c + 1\<rparr>
        | AdmissionAccepted \<Rightarrow> c)\<rparr>)"

section \<open>Client operations\<close>

definition new_entry :: "SessionHandle \<Rightarrow> Entry" where
  "new_entry handle =
     \<lparr>en_handle = handle, en_factory = True, en_session = None, en_phase = PhaseReserved,
      en_outcome = NoOutcome, en_operations = 0, en_stop_requested = False,
      en_startup_done = False, en_cancelled_before_start = False, en_started = Unset,
      en_retired = Unset\<rparr>"

definition manager_admission :: "string \<Rightarrow> bool \<Rightarrow> RuntimeManager \<Rightarrow> AdmissionStatus" where
  "manager_admission sid factory_given m =
     (if sid = [] \<or> length sid > rc_max_session_id_bytes (rm_config m) \<or> \<not> factory_given
      then InvalidRequest
      else if rs_lifecycle (rm_counters m) \<noteq> RuntimeRunning then AdmissionDraining
      else if map_of (rm_registry m) sid \<noteq> None then DuplicateId
      else if length (rm_registry m) \<ge> rc_max_sessions (rm_config m) then CapacityReached
      else if length (rm_pending m) \<ge> rc_max_pending_starts (rm_config m) then StartupQueueFull
      else if rm_generation m = u64_max then IdentityExhausted
      else AdmissionAccepted)"

definition manager_add ::
  "(u64 \<Rightarrow> bool) \<Rightarrow> string \<Rightarrow> bool \<Rightarrow> RuntimeManager \<Rightarrow> AdmissionStatus \<times> nat option \<times> RuntimeManager" where
  "manager_add alloc sid factory_given m =
     (let status = manager_admission sid factory_given m
      in if status \<noteq> AdmissionAccepted then (status, None, record_rejection status m)
      else
        let i = length (rm_entries m);
            handle = \<lparr>sh_runtime_id = rm_runtime_id m, sh_id = sid,
              sh_generation = rm_generation m\<rparr>;
            m = m\<lparr>rm_generation := rm_generation m + 1,
                  rm_entries := rm_entries m @ [new_entry handle],
                  rm_registry := umap_emplace sid i (rm_registry m),
                  rm_pending := rm_pending m @ [i],
                  rm_counters := (rm_counters m)\<lparr>rs_admitted := rs_admitted (rm_counters m) + 1\<rparr>\<rparr>
        in (AdmissionAccepted, Some i, changed (manager_publish alloc i NotifyReserved m)))"

definition manager_remove ::
  "(u64 \<Rightarrow> bool) \<Rightarrow> SessionHandle \<Rightarrow> SessionOutcome \<Rightarrow> RuntimeManager \<Rightarrow> RemoveStatus \<times> RuntimeManager" where
  "manager_remove alloc handle reason m =
     (if sh_runtime_id handle \<noteq> rm_runtime_id m then (StaleHandle, m)
      else case map_of (rm_registry m) (sh_id handle) of
        None \<Rightarrow> (NotFound, m)
      | Some i \<Rightarrow>
          if sh_generation handle \<noteq> sh_generation (en_handle (rm_entries m ! i))
          then (StaleHandle, m)
          else (if en_stop_requested (rm_entries m ! i) then AlreadyRequested else Requested,
                stop_entry alloc i reason m))"

text \<open>The guard object \<open>Operation\<close>: admission of a call on a session, and its release.\<close>

definition manager_acquire :: "SessionHandle \<Rightarrow> RuntimeManager \<Rightarrow> nat option \<times> RuntimeManager" where
  "manager_acquire handle m =
     (case matching handle m of
        None \<Rightarrow> (None, m)
      | Some i \<Rightarrow>
          if rs_lifecycle (rm_counters m) = RuntimeRunning \<and>
             en_phase (rm_entries m ! i) = PhaseRunning \<and> \<not> en_stop_requested (rm_entries m ! i)
          then (Some i, (entry_update i (\<lambda>e. e\<lparr>en_operations := en_operations e + 1\<rparr>) m)
                  \<lparr>rm_calls := i # rm_calls m\<rparr>)
          else (None, m))"

definition manager_release :: "nat \<Rightarrow> RuntimeManager \<Rightarrow> RuntimeManager" where
  "manager_release i m =
     (let m = (entry_update i (\<lambda>e. e\<lparr>en_operations := en_operations e - 1\<rparr>) m)
            \<lparr>rm_calls := remove1 i (rm_calls m)\<rparr>
      in if en_stop_requested (rm_entries m ! i) then changed m else m)"

text \<open>The check \<open>handle_event\<close> makes on an admitted call before it forwards the event.\<close>

definition manager_forwards :: "SessionHandle \<Rightarrow> Event \<Rightarrow> bool" where
  "manager_forwards handle e \<longleftrightarrow>
     \<not> ((ev_session_id e \<noteq> [] \<and> ev_session_id e \<noteq> sh_id handle) \<or>
         (ev_generation e \<noteq> 0 \<and> ev_generation e \<noteq> sh_generation handle))"

definition manager_request_shutdown :: "(u64 \<Rightarrow> bool) \<Rightarrow> RuntimeManager \<Rightarrow> RuntimeManager" where
  "manager_request_shutdown alloc m =
     (if rs_lifecycle (rm_counters m) \<noteq> RuntimeRunning then m
      else
        let m = m\<lparr>rm_counters := (rm_counters m)\<lparr>rs_lifecycle := RuntimeDraining\<rparr>\<rparr>
        in changed (fold (\<lambda>(sid, i). stop_entry alloc i RuntimeShutdown) (rm_registry m) m))"

section \<open>Startup workers\<close>

definition set_startup :: "nat \<Rightarrow> StartupWorker \<Rightarrow> RuntimeManager \<Rightarrow> RuntimeManager" where
  "set_startup t pc m = m\<lparr>rm_workers := (rm_workers m)[t := pc]\<rparr>"

definition startup_ready :: "RuntimeManager \<Rightarrow> bool" where
  "startup_ready m \<longleftrightarrow> rm_pending m \<noteq> [] \<or> rs_lifecycle (rm_counters m) \<noteq> RuntimeRunning"

definition startup_take :: "nat \<Rightarrow> RuntimeManager \<Rightarrow> RuntimeManager" where
  "startup_take t m =
     (case rm_pending m of
        [] \<Rightarrow> set_startup t SwReturned (changed (m\<lparr>rm_workers_done := rm_workers_done m + 1\<rparr>))
      | i # rest \<Rightarrow>
          let m = m\<lparr>rm_pending := rest\<rparr>;
              attempt = (\<not> en_stop_requested (rm_entries m ! i));
              m = entry_update i (\<lambda>e. e\<lparr>en_factory := False,
                    en_phase := (if attempt then PhaseStarting else en_phase e)\<rparr>) m
          in set_startup t (if attempt then SwFactory i else SwFinish i False) m)"

text \<open>
  The factory and the constructor of the session: \<open>None\<close> when either threw, otherwise the
  fresh session, which is installed and asked to stop when a stop was requested meanwhile.
\<close>

definition startup_install :: "nat \<Rightarrow> nat \<Rightarrow> ConversationSession option \<Rightarrow> RuntimeManager \<Rightarrow> RuntimeManager" where
  "startup_install t i made m =
     (case made of
        None \<Rightarrow> set_startup t (SwCaught i) m
      | Some session \<Rightarrow>
          let start = (\<not> en_stop_requested (rm_entries m ! i))
          in set_startup t (if start then SwStart i else SwFinish i False)
            (entry_update i (\<lambda>e. e\<lparr>en_session :=
               Some (if start then session else session_request_stop session)\<rparr>) m))"

text \<open>\<open>instance->start()\<close>, which waits, and its return or exception.\<close>

definition startup_start :: "nat \<Rightarrow> nat \<Rightarrow> ConversationSession \<Rightarrow> RuntimeManager \<Rightarrow> RuntimeManager" where
  "startup_start t i session m =
     (case session_start False session of
        (result, session') \<Rightarrow>
          set_startup t (case result of
               None \<Rightarrow> SwStarting i
             | Some (Inr _) \<Rightarrow> SwFinish i False
             | Some (Inl _) \<Rightarrow> SwCaught i)
            (entry_update i (\<lambda>e. e\<lparr>en_session := Some session'\<rparr>) m))"

definition startup_started :: "nat \<Rightarrow> nat \<Rightarrow> ConversationSession \<Rightarrow> RuntimeManager \<Rightarrow> RuntimeManager" where
  "startup_started t i session m =
     set_startup t (case session_start_result session of
        Inr _ \<Rightarrow> SwFinish i False | Inl _ \<Rightarrow> SwCaught i) m"

definition startup_caught :: "nat \<Rightarrow> nat \<Rightarrow> RuntimeManager \<Rightarrow> RuntimeManager" where
  "startup_caught t i m =
     (let e = rm_entries m ! i
      in set_startup t (SwFinish i (\<not> en_stop_requested e \<or>
           (case en_session e of None \<Rightarrow> True | Some session \<Rightarrow> cs_failure session \<noteq> None))) m)"

definition startup_finish :: "(u64 \<Rightarrow> bool) \<Rightarrow> nat \<Rightarrow> nat \<Rightarrow> bool \<Rightarrow> RuntimeManager \<Rightarrow> RuntimeManager" where
  "startup_finish alloc t i startup_failed m =
     (let m = (if startup_failed then stop_entry alloc i OutcomeStartupFailed m else m);
          m = entry_update i (\<lambda>e. e\<lparr>en_startup_done := True\<rparr>) m;
          m = (if \<not> en_stop_requested (rm_entries m ! i)
               then manager_publish alloc i NotifyStarted (entry_update i (\<lambda>e. e
                 \<lparr>en_phase := PhaseRunning, en_started := promise_set OutcomeStarted (en_started e)\<rparr>) m)
               else entry_update i (\<lambda>e. e\<lparr>en_started := promise_set (en_outcome e) (en_started e)\<rparr>) m)
      in set_startup t SwWaiting (changed m))"

section \<open>The supervisor\<close>

definition set_supervisor :: "Supervisor \<Rightarrow> RuntimeManager \<Rightarrow> RuntimeManager" where
  "set_supervisor pc m = m\<lparr>rm_supervisor := pc\<rparr>"

definition supervisor_scan :: "RuntimeManager \<Rightarrow> RuntimeManager" where
  "supervisor_scan m =
     (if rm_registry m = [] \<and> rs_lifecycle (rm_counters m) \<noteq> RuntimeRunning \<and>
         rm_workers_done m = rc_startup_workers (rm_config m)
      then set_supervisor SvReturned (m\<lparr>rm_supervisor_done := True\<rparr>)
      else set_supervisor (SvCheck (rm_revision m) (map snd (rm_registry m))) m)"

definition supervisor_check :: "u64 \<Rightarrow> nat list \<Rightarrow> RuntimeManager \<Rightarrow> RuntimeManager" where
  "supervisor_check observed entries m =
     (case entries of
        [] \<Rightarrow> set_supervisor (SvSleep observed) m
      | i # rest \<Rightarrow>
          let e = rm_entries m ! i
          in if \<not> en_startup_done e then set_supervisor (SvCheck observed rest) m
          else case en_session e of
            None \<Rightarrow> set_supervisor (SvTake observed i rest) m
          | Some _ \<Rightarrow> set_supervisor (SvLifecycle observed i rest) m)"

text \<open>The reading of the session's lifecycle and the section that records an end.\<close>

definition supervisor_lifecycle ::
  "(u64 \<Rightarrow> bool) \<Rightarrow> u64 \<Rightarrow> nat \<Rightarrow> nat list \<Rightarrow> ConversationSession \<Rightarrow> RuntimeManager \<Rightarrow> RuntimeManager" where
  "supervisor_lifecycle alloc observed i rest session m =
     (if \<not> terminal (cs_lifecycle session) then set_supervisor (SvCheck observed rest) m
      else set_supervisor (SvFlush observed i rest)
        (if cs_lifecycle session = Failed then stop_entry alloc i LifecycleFailure m
         else if \<not> en_stop_requested (rm_entries m ! i) then stop_entry alloc i UnexpectedStop m
         else m))"

text \<open>\<open>flush(0)\<close>: true when everything enqueued is complete at the call.\<close>

definition supervisor_flush ::
  "u64 \<Rightarrow> nat \<Rightarrow> nat list \<Rightarrow> ConversationSession \<Rightarrow> RuntimeManager \<Rightarrow> RuntimeManager" where
  "supervisor_flush observed i rest session m =
     (let timeline = tr_state (cs_run session)
      in if timeline_flush_ready (tl_enqueued timeline) timeline
         then set_supervisor (SvTake observed i rest) m
         else set_supervisor (SvCheck observed rest) m)"

definition supervisor_take :: "u64 \<Rightarrow> nat \<Rightarrow> nat list \<Rightarrow> RuntimeManager \<Rightarrow> RuntimeManager" where
  "supervisor_take observed i rest m =
     (if en_operations (rm_entries m ! i) \<noteq> 0 then set_supervisor (SvCheck observed rest) m
      else set_supervisor (SvErase observed i rest)
        (entry_update i (\<lambda>e. e\<lparr>en_phase := PhaseRetiring, en_session := None, en_factory := False\<rparr>) m))"

definition supervisor_erase :: "(u64 \<Rightarrow> bool) \<Rightarrow> u64 \<Rightarrow> nat \<Rightarrow> nat list \<Rightarrow> RuntimeManager \<Rightarrow> RuntimeManager" where
  "supervisor_erase alloc observed i rest m =
     (let e = rm_entries m ! i;
          c = (rm_counters m)\<lparr>rs_retired := rs_retired (rm_counters m) + 1\<rparr>;
          c = (if failed (en_outcome e) then c\<lparr>rs_failures := rs_failures c + 1\<rparr> else c);
          m = m\<lparr>rm_counters := c, rm_registry := umap_erase (sh_id (en_handle e)) (rm_registry m)\<rparr>;
          m = (if en_cancelled_before_start e
               then entry_update i (\<lambda>e. e\<lparr>en_started := promise_set (en_outcome e) (en_started e)\<rparr>) m
               else m);
          m = manager_publish alloc i NotifyRetired m;
          m = entry_update i (\<lambda>e. e\<lparr>en_retired := promise_set (en_outcome e) (en_retired e)\<rparr>) m
      in set_supervisor (SvCheck observed rest) (changed m))"

text \<open>The timed wait may end at any time.\<close>

definition supervisor_wake :: "RuntimeManager \<Rightarrow> RuntimeManager" where
  "supervisor_wake m = set_supervisor SvScan m"

section \<open>The dispatcher\<close>

definition dispatch_ready :: "RuntimeManager \<Rightarrow> bool" where
  "dispatch_ready m \<longleftrightarrow> rm_supervisor_done m \<or> rm_notifications m \<noteq> []"

definition dispatch_take :: "RuntimeManager \<Rightarrow> RuntimeManager" where
  "dispatch_take m =
     (case rm_notifications m of
        [] \<Rightarrow> m\<lparr>rm_counters := (rm_counters m)\<lparr>rs_lifecycle := RuntimeStopped\<rparr>,
               rm_dispatcher := NdReturned\<rparr>
      | n # rest \<Rightarrow> m\<lparr>rm_notifications := rest, rm_dispatcher := NdNotifying n\<rparr>)"

definition dispatch_done :: "bool \<Rightarrow> RuntimeManager \<Rightarrow> RuntimeManager" where
  "dispatch_done error m =
     m\<lparr>rm_counters := (if error
          then (rm_counters m)\<lparr>rs_observer_failures := rs_observer_failures (rm_counters m) + 1\<rparr>
          else rm_counters m),
       rm_delivered := rm_delivered m + 1, rm_dispatcher := NdWaiting\<rparr>"

section \<open>Waiting and observation\<close>

definition wait_shutdown_ready :: "RuntimeManager \<Rightarrow> bool" where
  "wait_shutdown_ready m \<longleftrightarrow> rs_lifecycle (rm_counters m) = RuntimeStopped"

definition manager_joined :: "RuntimeManager \<Rightarrow> bool" where
  "manager_joined m \<longleftrightarrow> list_all (\<lambda>w. w = SwReturned) (rm_workers m) \<and>
     rm_supervisor m = SvReturned \<and> rm_dispatcher m = NdReturned"

record SessionInfo =
  si_handle :: SessionHandle
  si_phase :: SessionPhase
  si_outcome :: SessionOutcome
  si_admitted_operations :: nat

definition session_info :: "Entry \<Rightarrow> SessionInfo" where
  "session_info e =
     \<lparr>si_handle = en_handle e, si_phase = en_phase e, si_outcome = en_outcome e,
      si_admitted_operations = en_operations e\<rparr>"

definition manager_find :: "SessionHandle \<Rightarrow> RuntimeManager \<Rightarrow> SessionInfo option" where
  "manager_find handle m = map_option (\<lambda>i. session_info (rm_entries m ! i)) (matching handle m)"

definition manager_snapshot :: "RuntimeManager \<Rightarrow> SessionInfo list" where
  "manager_snapshot m = map (\<lambda>(sid, i). session_info (rm_entries m ! i)) (rm_registry m)"

text \<open>The gauges of \<open>stats()\<close>: sessions, sessions per phase, pending starts, notifications.\<close>

definition manager_phase_count :: "SessionPhase \<Rightarrow> RuntimeManager \<Rightarrow> nat" where
  "manager_phase_count phase m =
     length (filter (\<lambda>(sid, i). en_phase (rm_entries m ! i) = phase) (rm_registry m))"

definition manager_flush_begin :: "bool \<Rightarrow> RuntimeManager \<Rightarrow> u64 option" where
  "manager_flush_begin callback m = (if callback then None else Some (rm_enqueued m))"

definition manager_flush_ready :: "u64 \<Rightarrow> RuntimeManager \<Rightarrow> bool" where
  "manager_flush_ready target m \<longleftrightarrow> target \<le> rm_delivered m"

section \<open>Steps\<close>

text \<open>
  A call admitted on a session works on the session's own steps; when the engine throws, the
  caller reports it with the handle before the guard is released.
\<close>

inductive manager_step :: "RuntimeManager \<Rightarrow> RuntimeManager \<Rightarrow> bool" where
  add: "manager_step m (snd (snd (manager_add alloc sid factory_given m)))"
| remove: "manager_step m (snd (manager_remove alloc handle Removed m))"
| fail: "manager_step m (snd (manager_remove alloc handle ReportedFailure m))"
| acquire: "manager_step m (snd (manager_acquire handle m))"
| engine_failure: "i \<in> set (rm_calls m) \<Longrightarrow>
    manager_step m (snd (manager_remove alloc (en_handle (rm_entries m ! i)) EngineFailure m))"
| release: "i \<in> set (rm_calls m) \<Longrightarrow> manager_step m (manager_release i m)"
| session: "i < length (rm_entries m) \<Longrightarrow> en_session (rm_entries m ! i) = Some s \<Longrightarrow>
    session_step s s' \<Longrightarrow> manager_step m (entry_update i (\<lambda>e. e\<lparr>en_session := Some s'\<rparr>) m)"
| request_shutdown: "manager_step m (manager_request_shutdown alloc m)"
| startup_take: "t < length (rm_workers m) \<Longrightarrow> rm_workers m ! t = SwWaiting \<Longrightarrow> startup_ready m \<Longrightarrow>
    manager_step m (startup_take t m)"
| startup_throw: "t < length (rm_workers m) \<Longrightarrow> rm_workers m ! t = SwFactory i \<Longrightarrow>
    manager_step m (startup_install t i None m)"
| startup_install: "t < length (rm_workers m) \<Longrightarrow> rm_workers m ! t = SwFactory i \<Longrightarrow>
    session_new (sh_id (en_handle (rm_entries m ! i))) True True
      (config\<lparr>tlc_generation := sh_generation (en_handle (rm_entries m ! i))\<rparr>) = Inr s \<Longrightarrow>
    manager_step m (startup_install t i (Some s) m)"
| startup_start: "t < length (rm_workers m) \<Longrightarrow> rm_workers m ! t = SwStart i \<Longrightarrow>
    en_session (rm_entries m ! i) = Some s \<Longrightarrow> manager_step m (startup_start t i s m)"
| startup_started: "t < length (rm_workers m) \<Longrightarrow> rm_workers m ! t = SwStarting i \<Longrightarrow>
    en_session (rm_entries m ! i) = Some s \<Longrightarrow> session_start_ready s \<Longrightarrow>
    manager_step m (startup_started t i s m)"
| startup_caught: "t < length (rm_workers m) \<Longrightarrow> rm_workers m ! t = SwCaught i \<Longrightarrow>
    manager_step m (startup_caught t i m)"
| startup_finish: "t < length (rm_workers m) \<Longrightarrow> rm_workers m ! t = SwFinish i startup_failed \<Longrightarrow>
    manager_step m (startup_finish alloc t i startup_failed m)"
| scan: "rm_supervisor m = SvScan \<Longrightarrow> manager_step m (supervisor_scan m)"
| check: "rm_supervisor m = SvCheck observed entries \<Longrightarrow>
    manager_step m (supervisor_check observed entries m)"
| lifecycle: "rm_supervisor m = SvLifecycle observed i rest \<Longrightarrow>
    en_session (rm_entries m ! i) = Some s \<Longrightarrow>
    manager_step m (supervisor_lifecycle alloc observed i rest s m)"
| flush: "rm_supervisor m = SvFlush observed i rest \<Longrightarrow>
    en_session (rm_entries m ! i) = Some s \<Longrightarrow>
    manager_step m (supervisor_flush observed i rest s m)"
| take: "rm_supervisor m = SvTake observed i rest \<Longrightarrow>
    manager_step m (supervisor_take observed i rest m)"
| erase: "rm_supervisor m = SvErase observed i rest \<Longrightarrow>
    manager_step m (supervisor_erase alloc observed i rest m)"
| wake: "rm_supervisor m = SvSleep observed \<Longrightarrow> manager_step m (supervisor_wake m)"
| dispatch_take: "rm_dispatcher m = NdWaiting \<Longrightarrow> dispatch_ready m \<Longrightarrow>
    manager_step m (dispatch_take m)"
| dispatch_done: "rm_dispatcher m = NdNotifying n \<Longrightarrow> manager_step m (dispatch_done error m)"

inductive_cases manager_stepE: "manager_step m m'"

abbreviation manager_init :: "RuntimeManager \<Rightarrow> bool" where
  "manager_init m \<equiv> \<exists>runtime_id config notify. manager_new runtime_id config notify = Inr m"

end
