(* ===== verification/Runtime_Invariant.thy ===== *)
theory Runtime_Invariant
  imports Runtime_Manager
begin

text \<open>
  The invariant of the runtime manager: the stage of life of every entry and which thread may hold
  it in that stage, the identities and counters, and the order of the shutdown. Each operation
  of the model preserves it, and no step undoes what an entry has committed to.
\<close>

lemmas [manager_defs] = changed_def entry_update_def set_startup_def set_supervisor_def

section \<open>Frames\<close>

lemma publish_frame [simp]:
  "rm_config (manager_publish alloc i ty m) = rm_config m"
  "rm_has_notify (manager_publish alloc i ty m) = rm_has_notify m"
  "rm_runtime_id (manager_publish alloc i ty m) = rm_runtime_id m"
  "rm_registry (manager_publish alloc i ty m) = rm_registry m"
  "rm_pending (manager_publish alloc i ty m) = rm_pending m"
  "rm_generation (manager_publish alloc i ty m) = rm_generation m"
  "rm_delivered (manager_publish alloc i ty m) = rm_delivered m"
  "rm_workers_done (manager_publish alloc i ty m) = rm_workers_done m"
  "rm_supervisor_done (manager_publish alloc i ty m) = rm_supervisor_done m"
  "rm_entries (manager_publish alloc i ty m) = rm_entries m"
  "rm_workers (manager_publish alloc i ty m) = rm_workers m"
  "rm_supervisor (manager_publish alloc i ty m) = rm_supervisor m"
  "rm_dispatcher (manager_publish alloc i ty m) = rm_dispatcher m"
  "rm_calls (manager_publish alloc i ty m) = rm_calls m"
  by (simp_all add: manager_publish_def drop_notification_def Let_def)

lemma publish_counters [simp]:
  "rs_lifecycle (rm_counters (manager_publish alloc i ty m)) = rs_lifecycle (rm_counters m)"
  "rs_admitted (rm_counters (manager_publish alloc i ty m)) = rs_admitted (rm_counters m)"
  "rs_rejected (rm_counters (manager_publish alloc i ty m)) = rs_rejected (rm_counters m)"
  "rs_retired (rm_counters (manager_publish alloc i ty m)) = rs_retired (rm_counters m)"
  "rs_failures (rm_counters (manager_publish alloc i ty m)) = rs_failures (rm_counters m)"
  "rs_rejected_invalid (rm_counters (manager_publish alloc i ty m)) = rs_rejected_invalid (rm_counters m)"
  "rs_rejected_duplicate (rm_counters (manager_publish alloc i ty m)) = rs_rejected_duplicate (rm_counters m)"
  "rs_rejected_capacity (rm_counters (manager_publish alloc i ty m)) = rs_rejected_capacity (rm_counters m)"
  "rs_rejected_queue (rm_counters (manager_publish alloc i ty m)) = rs_rejected_queue (rm_counters m)"
  "rs_rejected_draining (rm_counters (manager_publish alloc i ty m)) = rs_rejected_draining (rm_counters m)"
  "rs_rejected_identity (rm_counters (manager_publish alloc i ty m)) = rs_rejected_identity (rm_counters m)"
  by (simp_all add: manager_publish_def drop_notification_def Let_def)

text \<open>What a stop does to the entry it names.\<close>

definition stops :: "SessionOutcome \<Rightarrow> Entry \<Rightarrow> bool" where
  "stops reason e \<longleftrightarrow> en_phase e \<noteq> PhaseRetiring \<and>
     (\<not> en_stop_requested e \<or> failed reason \<and> \<not> failed (en_outcome e))"

definition stopped_entry :: "SessionOutcome \<Rightarrow> Entry \<Rightarrow> Entry" where
  "stopped_entry reason e =
     (if \<not> stops reason e then e
      else
        let cancel = (\<not> en_stop_requested e \<and> en_phase e = PhaseReserved)
        in e\<lparr>en_outcome := reason, en_cancelled_before_start := en_cancelled_before_start e \<or> cancel,
             en_startup_done := en_startup_done e \<or> cancel, en_stop_requested := True,
             en_phase := PhaseStopRequested,
             en_session := map_option session_request_stop (en_session e)\<rparr>)"

lemma stop_entry_frame [simp]:
  "rm_config (stop_entry alloc i reason m) = rm_config m"
  "rm_has_notify (stop_entry alloc i reason m) = rm_has_notify m"
  "rm_runtime_id (stop_entry alloc i reason m) = rm_runtime_id m"
  "rm_registry (stop_entry alloc i reason m) = rm_registry m"
  "rm_generation (stop_entry alloc i reason m) = rm_generation m"
  "rm_delivered (stop_entry alloc i reason m) = rm_delivered m"
  "rm_workers_done (stop_entry alloc i reason m) = rm_workers_done m"
  "rm_supervisor_done (stop_entry alloc i reason m) = rm_supervisor_done m"
  "rm_workers (stop_entry alloc i reason m) = rm_workers m"
  "rm_supervisor (stop_entry alloc i reason m) = rm_supervisor m"
  "rm_dispatcher (stop_entry alloc i reason m) = rm_dispatcher m"
  "rm_calls (stop_entry alloc i reason m) = rm_calls m"
  by (simp_all add: stop_entry_def manager_defs Let_def)

lemma stop_entry_counters [simp]:
  "rs_lifecycle (rm_counters (stop_entry alloc i reason m)) = rs_lifecycle (rm_counters m)"
  "rs_admitted (rm_counters (stop_entry alloc i reason m)) = rs_admitted (rm_counters m)"
  "rs_rejected (rm_counters (stop_entry alloc i reason m)) = rs_rejected (rm_counters m)"
  "rs_retired (rm_counters (stop_entry alloc i reason m)) = rs_retired (rm_counters m)"
  "rs_failures (rm_counters (stop_entry alloc i reason m)) = rs_failures (rm_counters m)"
  "rs_rejected_invalid (rm_counters (stop_entry alloc i reason m)) = rs_rejected_invalid (rm_counters m)"
  "rs_rejected_duplicate (rm_counters (stop_entry alloc i reason m)) = rs_rejected_duplicate (rm_counters m)"
  "rs_rejected_capacity (rm_counters (stop_entry alloc i reason m)) = rs_rejected_capacity (rm_counters m)"
  "rs_rejected_queue (rm_counters (stop_entry alloc i reason m)) = rs_rejected_queue (rm_counters m)"
  "rs_rejected_draining (rm_counters (stop_entry alloc i reason m)) = rs_rejected_draining (rm_counters m)"
  "rs_rejected_identity (rm_counters (stop_entry alloc i reason m)) = rs_rejected_identity (rm_counters m)"
  by (simp_all add: stop_entry_def manager_defs Let_def)

lemma stop_entry_entries [simp]:
  "rm_entries (stop_entry alloc i reason m) =
     (rm_entries m)[i := stopped_entry reason (rm_entries m ! i)]"
  by (auto simp: stop_entry_def stopped_entry_def stops_def manager_defs Let_def)

lemma stop_entry_pending [simp]:
  "rm_pending (stop_entry alloc i reason m) =
     (if \<not> en_stop_requested (rm_entries m ! i) \<and> en_phase (rm_entries m ! i) = PhaseReserved
      then remove1 i (rm_pending m) else rm_pending m)"
  by (simp add: stop_entry_def manager_defs Let_def)

section \<open>Invariant\<close>

text \<open>
  The life of an entry: queued, held by one startup worker, settled with an outcome of its
  start, cancelled before any worker took it, in the hands of the supervisor's destructors,
  retired.
\<close>

datatype Stage = Queued | Held | Settled | Cancelled | Leaving | Gone

fun worker_entry :: "StartupWorker \<Rightarrow> nat list" where
  "worker_entry SwWaiting = []"
| "worker_entry (SwFactory i) = [i]"
| "worker_entry (SwStart i) = [i]"
| "worker_entry (SwStarting i) = [i]"
| "worker_entry (SwCaught i) = [i]"
| "worker_entry (SwFinish i f) = [i]"
| "worker_entry SwReturned = []"

definition held :: "StartupWorker list \<Rightarrow> nat list" where
  "held ws = concat (map worker_entry ws)"

fun leaving :: "Supervisor \<Rightarrow> nat list" where
  "leaving (SvErase observed i rest) = [i]"
| "leaving pc = []"

text \<open>The entries the supervisor still works on in its scan, the current one first.\<close>

fun scanned :: "Supervisor \<Rightarrow> nat list" where
  "scanned SvScan = []"
| "scanned (SvCheck observed rest) = rest"
| "scanned (SvLifecycle observed i rest) = i # rest"
| "scanned (SvFlush observed i rest) = i # rest"
| "scanned (SvTake observed i rest) = i # rest"
| "scanned (SvErase observed i rest) = i # rest"
| "scanned (SvSleep observed) = []"
| "scanned SvReturned = []"

definition stage ::
  "(string, nat) umap \<Rightarrow> nat list \<Rightarrow> StartupWorker list \<Rightarrow> Supervisor \<Rightarrow> nat \<Rightarrow> Entry \<Rightarrow> Stage" where
  "stage reg pend ws sv i e =
     (if map_of reg (sh_id (en_handle e)) \<noteq> Some i then Gone
      else if i \<in> set pend then Queued
      else if i \<in> set (held ws) then Held
      else if i \<in> set (leaving sv) then Leaving
      else if en_cancelled_before_start e then Cancelled
      else Settled)"

fun stage_ok :: "Stage \<Rightarrow> Entry \<Rightarrow> bool" where
  "stage_ok Queued e \<longleftrightarrow> en_phase e = PhaseReserved \<and> \<not> en_stop_requested e \<and> \<not> en_startup_done e \<and>
     \<not> en_cancelled_before_start e \<and> en_session e = None \<and> en_started e = Unset \<and>
     en_retired e = Unset \<and> en_operations e = 0"
| "stage_ok Held e \<longleftrightarrow>
     en_phase e = (if en_stop_requested e then PhaseStopRequested else PhaseStarting) \<and>
     \<not> en_startup_done e \<and> \<not> en_cancelled_before_start e \<and> en_started e = Unset \<and>
     en_retired e = Unset \<and> en_operations e = 0"
| "stage_ok Settled e \<longleftrightarrow>
     en_phase e = (if en_stop_requested e then PhaseStopRequested else PhaseRunning) \<and>
     en_startup_done e \<and> \<not> en_cancelled_before_start e \<and> (\<exists>v. en_started e = Ready v) \<and>
     en_retired e = Unset \<and> (en_session e = None \<longrightarrow> en_stop_requested e \<and> en_operations e = 0)"
| "stage_ok Cancelled e \<longleftrightarrow> en_phase e = PhaseStopRequested \<and> en_stop_requested e \<and>
     en_startup_done e \<and> en_cancelled_before_start e \<and> en_session e = None \<and>
     en_started e = Unset \<and> en_retired e = Unset \<and> en_operations e = 0"
| "stage_ok Leaving e \<longleftrightarrow> en_phase e = PhaseRetiring \<and> en_stop_requested e \<and> en_startup_done e \<and>
     en_session e = None \<and> en_retired e = Unset \<and> en_operations e = 0 \<and>
     (if en_cancelled_before_start e then en_started e = Unset else \<exists>v. en_started e = Ready v)"
| "stage_ok Gone e \<longleftrightarrow> en_phase e = PhaseRetiring \<and> en_stop_requested e \<and> en_startup_done e \<and>
     en_session e = None \<and> en_retired e = Ready (en_outcome e) \<and> en_operations e = 0 \<and>
     (\<exists>v. en_started e = Ready v)"

text \<open>What a thread that holds an entry relies on.\<close>

fun worker_ok :: "StartupWorker \<Rightarrow> Entry \<Rightarrow> bool" where
  "worker_ok (SwStart i) e \<longleftrightarrow> en_session e \<noteq> None"
| "worker_ok (SwStarting i) e \<longleftrightarrow> en_session e \<noteq> None"
| "worker_ok (SwFinish i f) e \<longleftrightarrow> f \<or> en_stop_requested e \<or> en_session e \<noteq> None"
| "worker_ok pc e \<longleftrightarrow> True"

definition ended :: "Entry \<Rightarrow> bool" where
  "ended e \<longleftrightarrow> (case en_session e of None \<Rightarrow> True | Some s \<Rightarrow> terminal (cs_lifecycle s))"

fun supervisor_ok :: "Supervisor \<Rightarrow> nat \<Rightarrow> Entry \<Rightarrow> bool" where
  "supervisor_ok (SvLifecycle observed j rest) i e \<longleftrightarrow>
     (i = j \<longrightarrow> en_startup_done e \<and> en_session e \<noteq> None)"
| "supervisor_ok (SvFlush observed j rest) i e \<longleftrightarrow>
     (i = j \<longrightarrow> en_startup_done e \<and> en_session e \<noteq> None \<and> en_stop_requested e \<and> ended e)"
| "supervisor_ok (SvTake observed j rest) i e \<longleftrightarrow>
     (i = j \<longrightarrow> en_startup_done e \<and> en_stop_requested e \<and> ended e)"
| "supervisor_ok pc i e \<longleftrightarrow> True"

definition entry_ok ::
  "(string, nat) umap \<Rightarrow> nat list \<Rightarrow> StartupWorker list \<Rightarrow> Supervisor \<Rightarrow> nat \<Rightarrow> Entry \<Rightarrow> bool" where
  "entry_ok reg pend ws sv i e \<longleftrightarrow>
     stage_ok (stage reg pend ws sv i e) e \<and>
     (\<forall>w \<in> set ws. i \<in> set (worker_entry w) \<longrightarrow> worker_ok w e) \<and> supervisor_ok sv i e \<and>
     (en_stop_requested e \<longleftrightarrow> en_outcome e \<noteq> NoOutcome) \<and>
     (\<forall>s. en_session e = Some s \<longrightarrow> session_inv s)"

definition places_ok ::
  "(string, nat) umap \<Rightarrow> nat list \<Rightarrow> StartupWorker list \<Rightarrow> Supervisor \<Rightarrow> Entry list \<Rightarrow> bool" where
  "places_ok reg pend ws sv es \<longleftrightarrow>
     umap_wf reg \<and> distinct (pend @ held ws) \<and> distinct (scanned sv) \<and>
     set (map snd reg) \<subseteq> {..<length es} \<and> set (pend @ held ws @ scanned sv) \<subseteq> set (map snd reg) \<and>
     set (leaving sv) \<inter> set (pend @ held ws) = {} \<and>
     (\<forall>k i. map_of reg k = Some i \<longrightarrow> sh_id (en_handle (es ! i)) = k)"

definition core_inv :: "RuntimeManager \<Rightarrow> bool" where
  "core_inv m \<longleftrightarrow>
     places_ok (rm_registry m) (rm_pending m) (rm_workers m) (rm_supervisor m) (rm_entries m) \<and>
     (\<forall>i < length (rm_entries m). entry_ok (rm_registry m) (rm_pending m) (rm_workers m)
        (rm_supervisor m) i (rm_entries m ! i))"

definition calls_inv :: "RuntimeManager \<Rightarrow> bool" where
  "calls_inv m \<longleftrightarrow> set (rm_calls m) \<subseteq> {..<length (rm_entries m)} \<and>
     (\<forall>i < length (rm_entries m). en_operations (rm_entries m ! i) = count_list (rm_calls m) i)"

section \<open>Moves of one entry\<close>

lemma nth_update_if: "xs[i := x] ! j = (if j = i \<and> i < length xs then x else xs ! j)"
  by (auto simp: nth_list_update list_update_beyond)

lemma set_held: "i \<in> set (held ws) \<longleftrightarrow> (\<exists>w \<in> set ws. i \<in> set (worker_entry w))"
  by (simp add: held_def)

lemma core_invD:
  assumes "core_inv m"
  shows "umap_wf (rm_registry m)" "distinct (rm_pending m)" "distinct (held (rm_workers m))"
    "set (rm_pending m) \<inter> set (held (rm_workers m)) = {}"
    "map_of (rm_registry m) k = Some i \<Longrightarrow> i < length (rm_entries m) \<and> sh_id (en_handle (rm_entries m ! i)) = k"
    "i \<in> set (rm_pending m) \<union> set (held (rm_workers m)) \<union> set (scanned (rm_supervisor m)) \<Longrightarrow>
      map_of (rm_registry m) (sh_id (en_handle (rm_entries m ! i))) = Some i \<and> i < length (rm_entries m)"
    "i < length (rm_entries m) \<Longrightarrow> entry_ok (rm_registry m) (rm_pending m) (rm_workers m)
      (rm_supervisor m) i (rm_entries m ! i)"
proof -
  note p = assms [unfolded core_inv_def places_ok_def]
  show "umap_wf (rm_registry m)" "distinct (rm_pending m)" "distinct (held (rm_workers m))"
    "set (rm_pending m) \<inter> set (held (rm_workers m)) = {}" using p by auto
  show *: "i < length (rm_entries m) \<and> sh_id (en_handle (rm_entries m ! i)) = k"
    if "map_of (rm_registry m) k = Some i" for k i
    using p that map_of_SomeD [OF that] by fastforce
  show "map_of (rm_registry m) (sh_id (en_handle (rm_entries m ! i))) = Some i \<and> i < length (rm_entries m)"
    if "i \<in> set (rm_pending m) \<union> set (held (rm_workers m)) \<union> set (scanned (rm_supervisor m))" for i
  proof -
    have "i \<in> set (map snd (rm_registry m))" using p that by auto
    then obtain k where "(k, i) \<in> set (rm_registry m)" by auto
    then have "map_of (rm_registry m) k = Some i" using p by (simp add: umap_wf_def)
    then show ?thesis using * by auto
  qed
  show "entry_ok (rm_registry m) (rm_pending m) (rm_workers m) (rm_supervisor m) i (rm_entries m ! i)"
    if "i < length (rm_entries m)" for i
    using p that by blast
qed

lemma entry_ok_other:
  assumes "entry_ok reg pend ws sv j e"
    and "map_of reg' (sh_id (en_handle e)) = Some j \<longleftrightarrow> map_of reg (sh_id (en_handle e)) = Some j"
    and "j \<in> set pend' \<longleftrightarrow> j \<in> set pend"
    and "\<And>w. j \<in> set (worker_entry w) \<Longrightarrow> w \<in> set ws' \<longleftrightarrow> w \<in> set ws"
    and "j \<in> set (leaving sv') \<longleftrightarrow> j \<in> set (leaving sv)"
    and "supervisor_ok sv j e \<Longrightarrow> supervisor_ok sv' j e"
  shows "entry_ok reg' pend' ws' sv' j e"
proof -
  have "j \<in> set (held ws') \<longleftrightarrow> j \<in> set (held ws)" using assms(4) by (auto simp: set_held)
  then have "stage reg' pend' ws' sv' j e = stage reg pend ws sv j e"
    using assms(2,3,5) by (simp add: stage_def)
  then show ?thesis using assms(1,4,6) unfolding entry_ok_def by auto
qed

lemma core_inv_move:
  assumes "core_inv m"
    and "places_ok (rm_registry m') (rm_pending m') (rm_workers m') (rm_supervisor m') (rm_entries m')"
    and "rm_entries m' = (rm_entries m)[i := e']"
    and "i < length (rm_entries m) \<Longrightarrow>
      entry_ok (rm_registry m') (rm_pending m') (rm_workers m') (rm_supervisor m') i e'"
    and "\<And>j. j \<noteq> i \<Longrightarrow> j < length (rm_entries m) \<Longrightarrow>
      entry_ok (rm_registry m) (rm_pending m) (rm_workers m) (rm_supervisor m) j (rm_entries m ! j) \<Longrightarrow>
      entry_ok (rm_registry m') (rm_pending m') (rm_workers m') (rm_supervisor m') j (rm_entries m ! j)"
  shows "core_inv m'"
  using assms(2,4,5) core_invD(7) [OF assms(1)] unfolding core_inv_def
  by (auto simp: assms(3) nth_update_if)

lemma places_ok_handle:
  assumes "places_ok reg pend ws sv es" and "en_handle e' = en_handle (es ! i)"
  shows "places_ok reg pend ws sv (es[i := e'])"
  using assms unfolding places_ok_def by (simp add: nth_update_if)

lemma core_inv_entry:
  assumes "core_inv m"
    and "rm_registry m' = rm_registry m" "rm_pending m' = rm_pending m" "rm_workers m' = rm_workers m"
      "rm_supervisor m' = rm_supervisor m" "rm_entries m' = (rm_entries m)[i := e']"
    and "en_handle e' = en_handle (rm_entries m ! i)"
    and "i < length (rm_entries m) \<Longrightarrow>
      entry_ok (rm_registry m) (rm_pending m) (rm_workers m) (rm_supervisor m) i (rm_entries m ! i) \<Longrightarrow>
      entry_ok (rm_registry m) (rm_pending m) (rm_workers m) (rm_supervisor m) i e'"
  shows "core_inv m'"
  by (rule core_inv_move [OF assms(1), where i = i and e' = e'])
    (use assms core_invD(7) [OF assms(1)] places_ok_handle in \<open>auto simp: core_inv_def\<close>)

lemma core_inv_same:
  assumes "core_inv m"
    and "rm_registry m' = rm_registry m" "rm_pending m' = rm_pending m" "rm_workers m' = rm_workers m"
      "rm_supervisor m' = rm_supervisor m" "rm_entries m' = rm_entries m"
  shows "core_inv m'"
  using assms by (simp add: core_inv_def)

section \<open>Stopping an entry\<close>

lemma stopped_entry_simps [simp]:
  "en_handle (stopped_entry reason e) = en_handle e"
  "en_started (stopped_entry reason e) = en_started e"
  "en_retired (stopped_entry reason e) = en_retired e"
  "en_operations (stopped_entry reason e) = en_operations e"
  "(en_session (stopped_entry reason e) = None) = (en_session e = None)"
  by (auto simp: stopped_entry_def Let_def)

lemma request_stop_terminal: "terminal (cs_lifecycle s) \<Longrightarrow> session_request_stop s = s"
  by (simp add: session_request_stop_def)

lemma stopped_entry_cases:
  assumes "stage_ok st e"
  shows "st = Queued \<Longrightarrow> stopped_entry reason e = e\<lparr>en_outcome := reason,
      en_cancelled_before_start := True, en_startup_done := True, en_stop_requested := True,
      en_phase := PhaseStopRequested\<rparr>"
    and "st \<noteq> Queued \<Longrightarrow> stopped_entry reason e = e \<or>
      en_phase e \<noteq> PhaseRetiring \<and> en_phase e \<noteq> PhaseReserved \<and>
      stopped_entry reason e = e\<lparr>en_outcome := reason, en_stop_requested := True,
        en_phase := PhaseStopRequested, en_session := map_option session_request_stop (en_session e)\<rparr>"
  using assms by (cases st; auto simp: stopped_entry_def stops_def Let_def split: if_splits)+

lemma core_inv_stop:
  assumes inv: "core_inv m" and reason: "reason \<noteq> NoOutcome"
    and i: "map_of (rm_registry m) (sh_id (en_handle (rm_entries m ! i))) = Some i"
  shows "core_inv (stop_entry alloc i reason m)"
proof -
  let ?e = "rm_entries m ! i"
  let ?stage = "stage (rm_registry m) (rm_pending m) (rm_workers m) (rm_supervisor m) i ?e"
  have i_len: "i < length (rm_entries m)" using core_invD(5) [OF inv] i by blast
  note ok = core_invD(7) [OF inv i_len]
  have st: "stage_ok ?stage ?e" using ok by (simp add: entry_ok_def)
  show ?thesis
  proof (cases "?stage = Queued")
    case True
    then have i_pend: "i \<in> set (rm_pending m)" using i by (auto simp: stage_def split: if_splits)
    then have not_held: "i \<notin> set (held (rm_workers m))" using core_invD(4) [OF inv] by blast
    have not_leaving: "i \<notin> set (leaving (rm_supervisor m))"
      using inv i_pend by (auto simp: core_inv_def places_ok_def)
    note e' = stopped_entry_cases(1) [OF st True, of reason]
    have q: "\<not> en_stop_requested ?e" "en_phase ?e = PhaseReserved" using st True by auto
    have pend': "set (remove1 i (rm_pending m)) = set (rm_pending m) - {i}"
      using core_invD(2) [OF inv] by simp
    have "places_ok (rm_registry m) (remove1 i (rm_pending m)) (rm_workers m) (rm_supervisor m)
        ((rm_entries m)[i := stopped_entry reason ?e])"
      by (rule places_ok_handle) (use inv pend' in \<open>auto simp: core_inv_def places_ok_def\<close>)
    moreover have "entry_ok (rm_registry m) (remove1 i (rm_pending m)) (rm_workers m) (rm_supervisor m) i
        (stopped_entry reason ?e)"
    proof -
      have "stage (rm_registry m) (remove1 i (rm_pending m)) (rm_workers m) (rm_supervisor m) i
          (stopped_entry reason ?e) = Cancelled"
        using i not_held not_leaving pend' by (simp add: stage_def e')
      moreover have "supervisor_ok (rm_supervisor m) i (stopped_entry reason ?e)"
        using ok st True by (cases "rm_supervisor m") (auto simp: entry_ok_def e' ended_def)
      moreover have "\<forall>w \<in> set (rm_workers m). i \<notin> set (worker_entry w)"
        using not_held by (auto simp: set_held)
      ultimately show ?thesis using st True reason by (auto simp: entry_ok_def e')
    qed
    moreover have "entry_ok (rm_registry m) (remove1 i (rm_pending m)) (rm_workers m) (rm_supervisor m) j e"
      if "j \<noteq> i" "entry_ok (rm_registry m) (rm_pending m) (rm_workers m) (rm_supervisor m) j e" for j e
      using that(2) by (rule entry_ok_other) (use that(1) in \<open>simp_all add: pend'\<close>)
    ultimately show ?thesis
      by (intro core_inv_move [OF inv, where i = i and e' = "stopped_entry reason ?e"]) (simp_all add: q)
  next
    case False
    show ?thesis
    proof (cases "stopped_entry reason ?e = ?e")
      case True
      have "en_phase ?e \<noteq> PhaseReserved" using st False by (cases ?stage) (auto split: if_splits)
      then show ?thesis by (intro core_inv_same [OF inv]) (simp_all add: True)
    next
      case changed: False
      with stopped_entry_cases(2) [OF st False, of reason]
      have phase: "en_phase ?e \<noteq> PhaseRetiring" "en_phase ?e \<noteq> PhaseReserved"
        and e': "stopped_entry reason ?e = ?e\<lparr>en_outcome := reason, en_stop_requested := True,
          en_phase := PhaseStopRequested, en_session := map_option session_request_stop (en_session ?e)\<rparr>"
        by auto
      have "stage (rm_registry m) (rm_pending m) (rm_workers m) (rm_supervisor m) i
          (stopped_entry reason ?e) = ?stage"
        by (simp add: stage_def e')
      moreover have "stage_ok ?stage (stopped_entry reason ?e)"
        using st False phase by (cases ?stage) (auto simp: e' split: if_splits)
      moreover have "supervisor_ok (rm_supervisor m) i (stopped_entry reason ?e)"
        using ok by (cases "rm_supervisor m")
          (auto simp: entry_ok_def e' ended_def request_stop_terminal split: option.splits)
      moreover have "worker_ok w (stopped_entry reason ?e)" if "worker_ok w ?e" for w
        using that by (cases w) (auto simp: e')
      ultimately show ?thesis
        using ok reason phase
        by (intro core_inv_entry [OF inv, where i = i and e' = "stopped_entry reason ?e"])
          (auto simp: entry_ok_def e' session_inv_request_stop)
    qed
  qed
qed

section \<open>Moves of a startup worker\<close>

lemma update_split:
  assumes "t < length xs"
  obtains a b where "xs = a @ xs ! t # b" and "\<And>x. xs[t := x] = a @ x # b"
  using id_take_nth_drop [OF assms] upd_conv_take_nth_drop [OF assms] that by blast

lemma held_append [simp]: "held (a @ b) = held a @ held b" "held (w # b) = worker_entry w @ held b"
  by (simp_all add: held_def)

lemma held_same:
  assumes "t < length ws" and "worker_entry w' = worker_entry (ws ! t)"
  shows "held (ws[t := w']) = held ws"
proof -
  obtain a b where "ws = a @ ws ! t # b" "ws[t := w'] = a @ w' # b"
    using update_split [OF assms(1)] by metis
  then show ?thesis using assms(2) held_append by metis
qed

lemma held_add:
  assumes "t < length ws" and "worker_entry (ws ! t) = []" and "worker_entry w' = [i]"
  shows "set (held (ws[t := w'])) = insert i (set (held ws))"
    and "distinct (held (ws[t := w'])) \<longleftrightarrow> distinct (held ws) \<and> i \<notin> set (held ws)"
proof -
  obtain a b where ab: "ws = a @ ws ! t # b" "ws[t := w'] = a @ w' # b"
    using update_split [OF assms(1)] by metis
  have "held ws = held a @ held b" using ab(1) assms(2) held_append by (metis append_Nil)
  moreover have "held (ws[t := w']) = held a @ i # held b" by (simp add: ab(2) assms(3))
  ultimately show "set (held (ws[t := w'])) = insert i (set (held ws))"
    and "distinct (held (ws[t := w'])) \<longleftrightarrow> distinct (held ws) \<and> i \<notin> set (held ws)" by auto
qed

lemma held_del:
  assumes "t < length ws" and "worker_entry (ws ! t) = [i]" and "worker_entry w' = []"
    and "distinct (held ws)"
  shows "set (held (ws[t := w'])) = set (held ws) - {i}" and "distinct (held (ws[t := w']))"
proof -
  obtain a b where ab: "ws = a @ ws ! t # b" "ws[t := w'] = a @ w' # b"
    using update_split [OF assms(1)] by metis
  have "held ws = held a @ i # held b" using ab(1) assms(2) held_append by (metis append_Cons append_Nil)
  moreover have "held (ws[t := w']) = held a @ held b" by (simp add: ab(2) assms(3))
  ultimately show "set (held (ws[t := w'])) = set (held ws) - {i}" and "distinct (held (ws[t := w']))"
    using assms(4) by auto
qed

lemma worker_other:
  assumes "t < length ws" and "j \<notin> set (worker_entry (ws ! t))" and "j \<notin> set (worker_entry w')"
    and "j \<in> set (worker_entry w)"
  shows "w \<in> set (ws[t := w']) \<longleftrightarrow> w \<in> set ws"
proof -
  obtain a b where "ws = a @ ws ! t # b" "ws[t := w'] = a @ w' # b"
    using update_split [OF assms(1)] by metis
  moreover have "w \<noteq> ws ! t" "w \<noteq> w'" using assms by auto
  ultimately show ?thesis by (metis in_set_conv_decomp insert_iff list.set(2) set_append Un_iff)
qed

lemma held_unique:
  assumes "t < length ws" and "i \<notin> set (held (ws[t := SwWaiting]))"
    and "w \<in> set (ws[t := w'])" and "i \<in> set (worker_entry w)"
  shows "w = w'"
proof -
  obtain a b where "ws[t := SwWaiting] = a @ SwWaiting # b" "ws[t := w'] = a @ w' # b"
    using update_split [OF assms(1)] by metis
  with assms(2-4) show ?thesis by (auto simp: set_held)
qed

lemma held_nth: "t < length ws \<Longrightarrow> i \<in> set (worker_entry (ws ! t)) \<Longrightarrow> i \<in> set (held ws)"
  by (auto simp: set_held)

lemma supervisor_ok_starting:
  "supervisor_ok sv i e \<Longrightarrow> \<not> en_startup_done e \<Longrightarrow> supervisor_ok sv i e'"
  by (cases sv) auto

lemma core_held:
  assumes inv: "core_inv m" and t: "t < length (rm_workers m)" "worker_entry (rm_workers m ! t) = [i]"
  shows "i < length (rm_entries m)" "stage_ok Held (rm_entries m ! i)"
    "map_of (rm_registry m) (sh_id (en_handle (rm_entries m ! i))) = Some i"
    "i \<notin> set (rm_pending m)" "worker_ok (rm_workers m ! t) (rm_entries m ! i)"
    "supervisor_ok (rm_supervisor m) i e'" "i \<in> set (held (rm_workers m))"
    "en_session (rm_entries m ! i) = Some s \<Longrightarrow> session_inv s"
    "en_stop_requested (rm_entries m ! i) \<longleftrightarrow> en_outcome (rm_entries m ! i) \<noteq> NoOutcome"
proof -
  show h: "i \<in> set (held (rm_workers m))" using held_nth [OF t(1)] t(2) by simp
  show i: "i < length (rm_entries m)"
    and r: "map_of (rm_registry m) (sh_id (en_handle (rm_entries m ! i))) = Some i"
    using core_invD(6) [OF inv, of i] h by auto
  show p: "i \<notin> set (rm_pending m)" using core_invD(4) [OF inv] h by auto
  note ok = core_invD(7) [OF inv i]
  have "stage (rm_registry m) (rm_pending m) (rm_workers m) (rm_supervisor m) i (rm_entries m ! i) = Held"
    using r h p by (simp add: stage_def)
  then show held: "stage_ok Held (rm_entries m ! i)" using ok by (simp add: entry_ok_def)
  show "worker_ok (rm_workers m ! t) (rm_entries m ! i)"
    using ok t by (auto simp: entry_ok_def)
  show "supervisor_ok (rm_supervisor m) i e'"
    using ok held supervisor_ok_starting by (auto simp: entry_ok_def)
  show "session_inv s" if "en_session (rm_entries m ! i) = Some s" for s
    using ok that by (simp add: entry_ok_def)
  show "en_stop_requested (rm_entries m ! i) \<longleftrightarrow> en_outcome (rm_entries m ! i) \<noteq> NoOutcome"
    using ok by (simp add: entry_ok_def)
qed

text \<open>A worker that keeps its entry and changes it.\<close>

lemma core_inv_worker:
  assumes inv: "core_inv m" and t: "t < length (rm_workers m)"
    and w: "worker_entry (rm_workers m ! t) = [i]" "worker_entry w' = [i]"
    and m': "rm_registry m' = rm_registry m" "rm_pending m' = rm_pending m"
      "rm_workers m' = (rm_workers m)[t := w']" "rm_supervisor m' = rm_supervisor m"
      "rm_entries m' = (rm_entries m)[i := e']"
    and e': "en_handle e' = en_handle (rm_entries m ! i)" "stage_ok Held e'" "worker_ok w' e'"
      "en_stop_requested e' \<longleftrightarrow> en_outcome e' \<noteq> NoOutcome" "\<And>s. en_session e' = Some s \<Longrightarrow> session_inv s"
  shows "core_inv m'"
proof -
  note h = core_held [OF inv t w(1)]
  have same: "held ((rm_workers m)[t := w']) = held (rm_workers m)"
    using t w by (simp add: held_same)
  have "i \<notin> set (held ((rm_workers m)[t := SwWaiting]))"
    using held_del(1) [OF t w(1), of SwWaiting] core_invD(3) [OF inv] by simp
  then have only: "w = w'" if "w \<in> set ((rm_workers m)[t := w'])" "i \<in> set (worker_entry w)" for w
    using held_unique [OF t] that by blast
  show ?thesis
  proof (rule core_inv_move [OF inv, where i = i and e' = e'])
    have "places_ok (rm_registry m) (rm_pending m) ((rm_workers m)[t := w']) (rm_supervisor m) (rm_entries m)"
      using inv by (simp add: core_inv_def places_ok_def same)
    then show "places_ok (rm_registry m') (rm_pending m') (rm_workers m') (rm_supervisor m') (rm_entries m')"
      unfolding m' by (rule places_ok_handle) (rule e'(1))
    have "stage (rm_registry m) (rm_pending m) ((rm_workers m)[t := w']) (rm_supervisor m) i e' = Held"
      using h by (simp add: stage_def e'(1) same)
    then show "entry_ok (rm_registry m') (rm_pending m') (rm_workers m') (rm_supervisor m') i e'"
      unfolding m' entry_ok_def using e'(2-5) only h(6) by auto
    fix j e assume "j \<noteq> i"
      and "entry_ok (rm_registry m) (rm_pending m) (rm_workers m) (rm_supervisor m) j (rm_entries m ! j)"
    then show "entry_ok (rm_registry m') (rm_pending m') (rm_workers m') (rm_supervisor m') j (rm_entries m ! j)"
      unfolding m' by (elim entry_ok_other) (simp_all add: worker_other t w)
  qed (rule m'(5))
qed

text \<open>A worker that lets its entry go, settled.\<close>

lemma core_inv_settle:
  assumes inv: "core_inv m" and t: "t < length (rm_workers m)"
    and w: "worker_entry (rm_workers m ! t) = [i]"
    and m': "rm_registry m' = rm_registry m" "rm_pending m' = rm_pending m"
      "rm_workers m' = (rm_workers m)[t := SwWaiting]" "rm_supervisor m' = rm_supervisor m"
      "rm_entries m' = (rm_entries m)[i := e']"
    and e': "en_handle e' = en_handle (rm_entries m ! i)" "stage_ok Settled e'"
      "en_stop_requested e' \<longleftrightarrow> en_outcome e' \<noteq> NoOutcome" "\<And>s. en_session e' = Some s \<Longrightarrow> session_inv s"
  shows "core_inv m'"
proof -
  note h = core_held [OF inv t w(1)]
  have del: "set (held ((rm_workers m)[t := SwWaiting])) = set (held (rm_workers m)) - {i}"
    "distinct (held ((rm_workers m)[t := SwWaiting]))"
    using held_del [OF t w, of SwWaiting] core_invD(3) [OF inv] by simp_all
  have leaving: "i \<notin> set (leaving (rm_supervisor m))"
    using inv h(7) by (auto simp: core_inv_def places_ok_def)
  show ?thesis
  proof (rule core_inv_move [OF inv, where i = i and e' = e'])
    have "places_ok (rm_registry m) (rm_pending m) ((rm_workers m)[t := SwWaiting]) (rm_supervisor m) (rm_entries m)"
      using inv del by (auto simp: core_inv_def places_ok_def)
    then show "places_ok (rm_registry m') (rm_pending m') (rm_workers m') (rm_supervisor m') (rm_entries m')"
      unfolding m' by (rule places_ok_handle) (rule e'(1))
    have "stage (rm_registry m) (rm_pending m) ((rm_workers m)[t := SwWaiting]) (rm_supervisor m) i e' = Settled"
      using h e'(2) leaving by (simp add: stage_def e'(1) del)
    then show "entry_ok (rm_registry m') (rm_pending m') (rm_workers m') (rm_supervisor m') i e'"
      unfolding m' entry_ok_def using e'(2-4) h(6) del(1) by (auto simp: set_held)
    fix j e assume "j \<noteq> i"
      and "entry_ok (rm_registry m) (rm_pending m) (rm_workers m) (rm_supervisor m) j (rm_entries m ! j)"
    then show "entry_ok (rm_registry m') (rm_pending m') (rm_workers m') (rm_supervisor m') j (rm_entries m ! j)"
      unfolding m' by (elim entry_ok_other) (simp_all add: worker_other t w)
  qed (rule m'(5))
qed

text \<open>A worker that takes the first queued entry.\<close>

lemma core_inv_take_entry:
  assumes inv: "core_inv m" and t: "t < length (rm_workers m)"
    and w: "worker_entry (rm_workers m ! t) = []" "worker_entry w' = [i]"
    and pend: "rm_pending m = i # rest"
    and m': "rm_registry m' = rm_registry m" "rm_pending m' = rest"
      "rm_workers m' = (rm_workers m)[t := w']" "rm_supervisor m' = rm_supervisor m"
      "rm_entries m' = (rm_entries m)[i := e']"
    and e': "en_handle e' = en_handle (rm_entries m ! i)" "stage_ok Held e'" "worker_ok w' e'"
      "en_stop_requested e' \<longleftrightarrow> en_outcome e' \<noteq> NoOutcome" "en_session e' = None"
  shows "core_inv m'"
proof -
  have i: "map_of (rm_registry m) (sh_id (en_handle (rm_entries m ! i))) = Some i" "i < length (rm_entries m)"
    using core_invD(6) [OF inv, of i] pend by simp_all
  have p: "i \<notin> set rest" "distinct rest" "i \<notin> set (held (rm_workers m))"
    using core_invD(2,4) [OF inv] by (auto simp: pend)
  have "i \<notin> set (leaving (rm_supervisor m))"
    using inv pend by (auto simp: core_inv_def places_ok_def)
  have "i \<notin> set (held ((rm_workers m)[t := SwWaiting]))"
    using held_same [OF t, of SwWaiting] w(1) p(3) by simp
  then have only: "w = w'" if "w \<in> set ((rm_workers m)[t := w'])" "i \<in> set (worker_entry w)" for w
    using held_unique [OF t] that by blast
  have "\<not> en_startup_done (rm_entries m ! i)" "supervisor_ok (rm_supervisor m) i (rm_entries m ! i)"
    using core_invD(7) [OF inv i(2)] i pend by (simp_all add: entry_ok_def stage_def)
  then have sv: "supervisor_ok (rm_supervisor m) i e'" by (rule supervisor_ok_starting [rotated])
  show ?thesis
  proof (rule core_inv_move [OF inv, where i = i and e' = e'])
    have "places_ok (rm_registry m) rest ((rm_workers m)[t := w']) (rm_supervisor m) (rm_entries m)"
      using inv p by (auto simp: core_inv_def places_ok_def held_add [OF t w] pend)
    then show "places_ok (rm_registry m') (rm_pending m') (rm_workers m') (rm_supervisor m') (rm_entries m')"
      unfolding m' by (rule places_ok_handle) (rule e'(1))
    have "stage (rm_registry m) rest ((rm_workers m)[t := w']) (rm_supervisor m) i e' = Held"
      using i p by (simp add: stage_def e'(1) held_add [OF t w])
    then show "entry_ok (rm_registry m') (rm_pending m') (rm_workers m') (rm_supervisor m') i e'"
      unfolding m' entry_ok_def using e'(2-5) only sv by auto
    fix j e assume "j \<noteq> i"
      and "entry_ok (rm_registry m) (rm_pending m) (rm_workers m) (rm_supervisor m) j (rm_entries m ! j)"
    then show "entry_ok (rm_registry m') (rm_pending m') (rm_workers m') (rm_supervisor m') j (rm_entries m ! j)"
      unfolding m' by (elim entry_ok_other) (simp_all add: worker_other t w pend)
  qed (rule m'(5))
qed

section \<open>Startup steps\<close>

lemma core_inv_startup_take:
  assumes inv: "core_inv m" and t: "t < length (rm_workers m)" "rm_workers m ! t = SwWaiting"
  shows "core_inv (startup_take t m)"
proof (cases "rm_pending m")
  case Nil
  have "held ((rm_workers m)[t := SwReturned]) = held (rm_workers m)"
    using t by (simp add: held_same)
  moreover have "entry_ok (rm_registry m) [] ((rm_workers m)[t := SwReturned]) (rm_supervisor m) j e"
    if "entry_ok (rm_registry m) [] (rm_workers m) (rm_supervisor m) j e" for j e
    using that by (elim entry_ok_other) (simp_all add: worker_other t)
  ultimately show ?thesis
    using inv by (simp add: startup_take_def manager_defs Nil core_inv_def places_ok_def)
next
  case (Cons i rest)
  have i: "map_of (rm_registry m) (sh_id (en_handle (rm_entries m ! i))) = Some i" "i < length (rm_entries m)"
    using core_invD(6) [OF inv, of i] Cons by simp_all
  then have ok: "stage_ok Queued (rm_entries m ! i)"
    "en_stop_requested (rm_entries m ! i) \<longleftrightarrow> en_outcome (rm_entries m ! i) \<noteq> NoOutcome"
    using core_invD(7) [OF inv i(2)] Cons by (auto simp: entry_ok_def stage_def)
  show ?thesis
    by (rule core_inv_take_entry [OF inv t(1) _ _ Cons, where w' = "SwFactory i" and
          e' = "(rm_entries m ! i)\<lparr>en_factory := False, en_phase := PhaseStarting\<rparr>"])
      (use t ok in \<open>simp_all add: startup_take_def manager_defs Cons\<close>)
qed

lemma core_inv_install:
  assumes inv: "core_inv m" and t: "t < length (rm_workers m)" "rm_workers m ! t = SwFactory i"
    and made: "\<And>s. made = Some s \<Longrightarrow> session_inv s"
  shows "core_inv (startup_install t i made m)"
proof -
  have w: "worker_entry (rm_workers m ! t) = [i]" by (simp add: t)
  note h = core_held [OF inv t(1) w]
  show ?thesis
  proof (cases made)
    case None
    show ?thesis
      by (rule core_inv_worker [OF inv t(1) w, where w' = "SwCaught i" and e' = "rm_entries m ! i"])
        (use h in \<open>simp_all add: startup_install_def None manager_defs\<close>)
  next
    case (Some s)
    let ?start = "\<not> en_stop_requested (rm_entries m ! i)"
    show ?thesis
      by (rule core_inv_worker [OF inv t(1) w, where w' = "if ?start then SwStart i else SwFinish i False"
            and e' = "(rm_entries m ! i)\<lparr>en_session := Some (if ?start then s else session_request_stop s)\<rparr>"])
        (use h made Some in \<open>auto simp add: startup_install_def manager_defs session_inv_request_stop\<close>)
  qed
qed

lemma core_inv_startup_start:
  assumes inv: "core_inv m" and t: "t < length (rm_workers m)" "rm_workers m ! t = SwStart i"
    and s: "en_session (rm_entries m ! i) = Some s"
  shows "core_inv (startup_start t i s m)"
proof -
  have w: "worker_entry (rm_workers m ! t) = [i]" by (simp add: t)
  note h = core_held [OF inv t(1) w]
  obtain r s' where r: "session_start False s = (r, s')" by fastforce
  have s': "session_inv s'" using session_inv_start [OF h(8) [OF s], of False] r by simp
  let ?w = "case r of None \<Rightarrow> SwStarting i | Some (Inr _) \<Rightarrow> SwFinish i False | Some (Inl _) \<Rightarrow> SwCaught i"
  have we: "worker_entry ?w = [i]" "\<And>e. worker_ok ?w (e\<lparr>en_session := Some s'\<rparr>)"
    by (auto split: option.splits sum.splits)
  show ?thesis
    by (rule core_inv_worker [OF inv t(1) w we(1), where e' = "(rm_entries m ! i)\<lparr>en_session := Some s'\<rparr>"])
      (use h s' we(2) in \<open>simp_all add: startup_start_def manager_defs r\<close>)
qed

lemma core_inv_startup_started:
  assumes inv: "core_inv m" and t: "t < length (rm_workers m)" "rm_workers m ! t = SwStarting i"
    and s: "en_session (rm_entries m ! i) = Some s"
  shows "core_inv (startup_started t i s m)"
proof -
  have w: "worker_entry (rm_workers m ! t) = [i]" by (simp add: t)
  note h = core_held [OF inv t(1) w]
  let ?w = "case session_start_result s of Inr _ \<Rightarrow> SwFinish i False | Inl _ \<Rightarrow> SwCaught i"
  have we: "worker_entry ?w = [i]" "worker_ok ?w (rm_entries m ! i)"
    using s by (auto split: sum.splits)
  show ?thesis
    by (rule core_inv_worker [OF inv t(1) w we(1), where e' = "rm_entries m ! i"])
      (use h we(2) in \<open>simp_all add: startup_started_def manager_defs\<close>)
qed

lemma core_inv_startup_caught:
  assumes inv: "core_inv m" and t: "t < length (rm_workers m)" "rm_workers m ! t = SwCaught i"
  shows "core_inv (startup_caught t i m)"
proof -
  have w: "worker_entry (rm_workers m ! t) = [i]" by (simp add: t)
  note h = core_held [OF inv t(1) w]
  show ?thesis
    by (rule core_inv_worker [OF inv t(1) w, where e' = "rm_entries m ! i" and
          w' = "SwFinish i (\<not> en_stop_requested (rm_entries m ! i) \<or>
           (case en_session (rm_entries m ! i) of None \<Rightarrow> True | Some session \<Rightarrow> cs_failure session \<noteq> None))"])
      (use h in \<open>auto simp add: startup_caught_def manager_defs Let_def\<close>)
qed

lemma core_inv_startup_finish:
  assumes inv: "core_inv m" and t: "t < length (rm_workers m)" "rm_workers m ! t = SwFinish i f"
  shows "core_inv (startup_finish alloc t i f m)"
proof -
  define m1 where "m1 = (if f then stop_entry alloc i OutcomeStartupFailed m else m)"
  define e where "e = rm_entries m1 ! i"
  have w: "worker_entry (rm_workers m ! t) = [i]" by (simp add: t)
  note h0 = core_held [OF inv t(1) w]
  have inv': "core_inv m1" using core_inv_stop inv h0(3) by (simp add: m1_def)
  have t': "t < length (rm_workers m1)" "rm_workers m1 ! t = SwFinish i f" using t by (simp_all add: m1_def)
  have w': "worker_entry (rm_workers m1 ! t) = [i]" by (simp add: t')
  note h = core_held [OF inv' t'(1) w', folded e_def]
  have "f \<Longrightarrow> en_stop_requested e"
    using h0(1,2) by (auto simp: e_def m1_def stopped_entry_def stops_def Let_def split: if_splits)
  then have session: "en_stop_requested e \<or> en_session e \<noteq> None"
    using h(5) by (auto simp: t')
  define e' where "e' = (if en_stop_requested e
    then e\<lparr>en_startup_done := True, en_started := Ready (en_outcome e)\<rparr>
    else e\<lparr>en_startup_done := True, en_phase := PhaseRunning, en_started := Ready OutcomeStarted\<rparr>)"
  have "rm_entries (startup_finish alloc t i f m) = (rm_entries m1)[i := e']"
    using h(1,2) by (simp add: startup_finish_def manager_defs Let_def m1_def [symmetric] e_def e'_def)
  then show ?thesis
    by (rule core_inv_settle [OF inv' t'(1) w', rotated 4])
      (use h session in \<open>auto simp add: startup_finish_def manager_defs Let_def m1_def [symmetric] e_def [symmetric] e'_def\<close>)
qed

section \<open>Supervisor steps\<close>

lemma core_inv_supervisor:
  assumes inv: "core_inv m"
    and m': "rm_registry m' = rm_registry m" "rm_pending m' = rm_pending m" "rm_workers m' = rm_workers m"
      "rm_entries m' = rm_entries m"
    and sv: "leaving (rm_supervisor m) = []" "leaving (rm_supervisor m') = []"
      "distinct (scanned (rm_supervisor m'))"
      "set (scanned (rm_supervisor m')) \<subseteq> set (map snd (rm_registry m))"
    and ok: "\<And>i. i < length (rm_entries m) \<Longrightarrow> supervisor_ok (rm_supervisor m) i (rm_entries m ! i) \<Longrightarrow>
      supervisor_ok (rm_supervisor m') i (rm_entries m ! i)"
  shows "core_inv m'"
proof -
  have "entry_ok (rm_registry m) (rm_pending m) (rm_workers m) (rm_supervisor m') i (rm_entries m ! i)"
    if "i < length (rm_entries m)" for i
    using core_invD(7) [OF inv that] by (rule entry_ok_other) (simp_all add: sv ok that)
  then show ?thesis using inv sv m' by (simp add: core_inv_def places_ok_def)
qed

lemma scanned_registered:
  assumes "core_inv m"
  shows "set (scanned (rm_supervisor m)) \<subseteq> set (map snd (rm_registry m))" "distinct (scanned (rm_supervisor m))"
  using assms by (auto simp: core_inv_def places_ok_def)

lemma registry_distinct:
  assumes "core_inv m"
  shows "distinct (map snd (rm_registry m))"
proof -
  have "inj_on snd (set (rm_registry m))"
  proof (rule inj_onI)
    fix p q assume p: "p \<in> set (rm_registry m)" "q \<in> set (rm_registry m)" "snd p = snd q"
    have "map_of (rm_registry m) (fst p) = Some (snd p)" "map_of (rm_registry m) (fst q) = Some (snd q)"
      using p(1,2) core_invD(1) [OF assms] by (simp_all add: umap_wf_def)
    then have "fst p = fst q" using core_invD(5) [OF assms] p(3) by metis
    with p(3) show "p = q" by (simp add: prod_eq_iff)
  qed
  then show ?thesis using core_invD(1) [OF assms] by (simp add: umap_wf_def distinct_map)
qed

lemma core_inv_scan:
  assumes inv: "core_inv m" and sv: "rm_supervisor m = SvScan"
  shows "core_inv (supervisor_scan m)"
  by (rule core_inv_supervisor [OF inv])
    (use registry_distinct [OF inv] sv in \<open>auto simp: supervisor_scan_def manager_defs\<close>)

lemma core_inv_check:
  assumes inv: "core_inv m" and sv: "rm_supervisor m = SvCheck observed entries"
  shows "core_inv (supervisor_check observed entries m)"
proof (cases entries)
  case Nil
  then show ?thesis
    by (intro core_inv_supervisor [OF inv]) (simp_all add: supervisor_check_def manager_defs sv)
next
  case (Cons i rest)
  have i: "map_of (rm_registry m) (sh_id (en_handle (rm_entries m ! i))) = Some i" "i < length (rm_entries m)"
    using core_invD(6) [OF inv, of i] Cons sv by simp_all
  have stop: "en_stop_requested (rm_entries m ! i)"
    if "en_startup_done (rm_entries m ! i)" "en_session (rm_entries m ! i) = None"
    using core_invD(7) [OF inv i(2)] i that by (auto simp: entry_ok_def stage_def split: if_splits)
  show ?thesis
    by (rule core_inv_supervisor [OF inv])
      (use scanned_registered [OF inv] sv stop in
        \<open>auto simp: supervisor_check_def manager_defs Cons ended_def Let_def split: option.splits\<close>)
qed

lemma stopped_entry_stop:
  "en_phase e \<noteq> PhaseRetiring \<Longrightarrow> en_stop_requested (stopped_entry reason e)"
  by (simp add: stopped_entry_def stops_def Let_def)

lemma core_settled:
  assumes inv: "core_inv m" and i: "i \<in> set (scanned (rm_supervisor m))" "leaving (rm_supervisor m) = []"
    and started: "en_startup_done (rm_entries m ! i)"
  shows "i < length (rm_entries m)"
    "map_of (rm_registry m) (sh_id (en_handle (rm_entries m ! i))) = Some i"
    "i \<notin> set (rm_pending m)" "i \<notin> set (held (rm_workers m))"
    "stage_ok (if en_cancelled_before_start (rm_entries m ! i) then Cancelled else Settled) (rm_entries m ! i)"
proof -
  show r: "map_of (rm_registry m) (sh_id (en_handle (rm_entries m ! i))) = Some i"
    and l: "i < length (rm_entries m)"
    using core_invD(6) [OF inv, of i] i by simp_all
  note ok = core_invD(7) [OF inv l]
  have st: "stage_ok (stage (rm_registry m) (rm_pending m) (rm_workers m) (rm_supervisor m) i (rm_entries m ! i))
      (rm_entries m ! i)"
    using ok by (simp add: entry_ok_def)
  show p: "i \<notin> set (rm_pending m)" using st started r by (auto simp: stage_def)
  show h: "i \<notin> set (held (rm_workers m))" using st started r p by (auto simp: stage_def)
  show "stage_ok (if en_cancelled_before_start (rm_entries m ! i) then Cancelled else Settled) (rm_entries m ! i)"
    using st r p h i(2) by (simp add: stage_def split: if_splits)
qed

lemma core_inv_lifecycle:
  assumes inv: "core_inv m" and sv: "rm_supervisor m = SvLifecycle observed i rest"
    and s: "en_session (rm_entries m ! i) = Some s"
  shows "core_inv (supervisor_lifecycle alloc observed i rest s m)"
proof -
  have l: "i < length (rm_entries m)" using core_invD(6) [OF inv, of i] sv by simp
  have started: "en_startup_done (rm_entries m ! i)"
    using core_invD(7) [OF inv l] by (simp add: entry_ok_def sv)
  note c = core_settled [OF inv, of i, simplified sv, simplified, OF started]
  show ?thesis
  proof (cases "terminal (cs_lifecycle s)")
    case False
    then show ?thesis
      by (intro core_inv_supervisor [OF inv])
        (use scanned_registered [OF inv] in \<open>simp_all add: supervisor_lifecycle_def manager_defs sv\<close>)
  next
    case True
    define m1 where "m1 = (if cs_lifecycle s = Failed then stop_entry alloc i LifecycleFailure m
         else if \<not> en_stop_requested (rm_entries m ! i) then stop_entry alloc i UnexpectedStop m else m)"
    have inv1: "core_inv m1" unfolding m1_def using core_inv_stop [OF inv _ c(2)] inv by simp
    have frame: "rm_supervisor m1 = SvLifecycle observed i rest" by (simp add: m1_def sv)
    have retiring: "en_phase (rm_entries m ! i) \<noteq> PhaseRetiring" using c(5) by (auto split: if_splits)
    have stop: "en_stop_requested (rm_entries m1 ! i)"
      using stopped_entry_stop [OF retiring] l by (simp add: m1_def)
    have session: "en_session (rm_entries m1 ! i) = Some s"
      using s l request_stop_terminal [OF True] by (simp add: m1_def stopped_entry_def Let_def)
    have "en_startup_done (rm_entries m1 ! i)" using started l by (simp add: m1_def stopped_entry_def Let_def)
    then show ?thesis
      by (intro core_inv_supervisor [OF inv1])
        (use scanned_registered [OF inv1] True stop session in
          \<open>auto simp add: supervisor_lifecycle_def manager_defs frame m1_def [symmetric] ended_def\<close>)
  qed
qed

lemma core_inv_sv_flush:
  assumes inv: "core_inv m" and sv: "rm_supervisor m = SvFlush observed i rest"
  shows "core_inv (supervisor_flush observed i rest s m)"
  by (rule core_inv_supervisor [OF inv])
    (use scanned_registered [OF inv] sv in \<open>auto simp: supervisor_flush_def manager_defs Let_def\<close>)

lemma core_inv_wake:
  assumes inv: "core_inv m" and sv: "rm_supervisor m = SvSleep observed"
  shows "core_inv (supervisor_wake m)"
  by (rule core_inv_supervisor [OF inv]) (simp_all add: supervisor_wake_def manager_defs sv)

lemma core_inv_sv_take:
  assumes inv: "core_inv m" and sv: "rm_supervisor m = SvTake observed i rest"
  shows "core_inv (supervisor_take observed i rest m)"
proof (cases "en_operations (rm_entries m ! i) = 0")
  case False
  then show ?thesis
    by (intro core_inv_supervisor [OF inv])
      (use scanned_registered [OF inv] sv in \<open>simp_all add: supervisor_take_def manager_defs\<close>)
next
  case True
  have l: "i < length (rm_entries m)" using core_invD(6) [OF inv, of i] sv by simp
  have started: "en_startup_done (rm_entries m ! i)" "en_stop_requested (rm_entries m ! i)"
    "en_stop_requested (rm_entries m ! i) \<longleftrightarrow> en_outcome (rm_entries m ! i) \<noteq> NoOutcome"
    using core_invD(7) [OF inv l] by (auto simp: entry_ok_def sv)
  note c = core_settled [OF inv, of i, simplified sv, simplified, OF started(1)]
  let ?e' = "(rm_entries m ! i)\<lparr>en_phase := PhaseRetiring, en_session := None, en_factory := False\<rparr>"
  let ?sv = "SvErase observed i rest"
  show ?thesis
  proof (rule core_inv_move [OF inv, where i = i and e' = ?e'])
    have "places_ok (rm_registry m) (rm_pending m) (rm_workers m) ?sv (rm_entries m)"
      using inv c sv by (auto simp: core_inv_def places_ok_def)
    then have "places_ok (rm_registry m) (rm_pending m) (rm_workers m) ?sv ((rm_entries m)[i := ?e'])"
      by (rule places_ok_handle) simp
    then show "places_ok (rm_registry (supervisor_take observed i rest m)) (rm_pending (supervisor_take observed i rest m))
      (rm_workers (supervisor_take observed i rest m)) (rm_supervisor (supervisor_take observed i rest m))
      (rm_entries (supervisor_take observed i rest m))"
      by (simp add: supervisor_take_def manager_defs True)
    have "stage (rm_registry m) (rm_pending m) (rm_workers m) ?sv i ?e' = Leaving"
      using c by (simp add: stage_def)
    then show "entry_ok (rm_registry (supervisor_take observed i rest m)) (rm_pending (supervisor_take observed i rest m))
      (rm_workers (supervisor_take observed i rest m)) (rm_supervisor (supervisor_take observed i rest m)) i ?e'"
      using c True started by (auto simp: supervisor_take_def manager_defs entry_ok_def set_held split: if_splits)
    fix j assume "j \<noteq> i"
      and "entry_ok (rm_registry m) (rm_pending m) (rm_workers m) (rm_supervisor m) j (rm_entries m ! j)"
    then show "entry_ok (rm_registry (supervisor_take observed i rest m)) (rm_pending (supervisor_take observed i rest m))
      (rm_workers (supervisor_take observed i rest m)) (rm_supervisor (supervisor_take observed i rest m)) j (rm_entries m ! j)"
      by (elim entry_ok_other) (simp_all add: supervisor_take_def manager_defs True sv)
  qed (simp add: supervisor_take_def manager_defs True)
qed

definition erased_entry :: "Entry \<Rightarrow> Entry" where
  "erased_entry e =
     (let e = (if en_cancelled_before_start e
               then e\<lparr>en_started := promise_set (en_outcome e) (en_started e)\<rparr> else e)
      in e\<lparr>en_retired := promise_set (en_outcome e) (en_retired e)\<rparr>)"

lemma erase_frame:
  "rm_registry (supervisor_erase alloc observed i rest m) =
     umap_erase (sh_id (en_handle (rm_entries m ! i))) (rm_registry m)"
  "rm_pending (supervisor_erase alloc observed i rest m) = rm_pending m"
  "rm_workers (supervisor_erase alloc observed i rest m) = rm_workers m"
  "rm_supervisor (supervisor_erase alloc observed i rest m) = SvCheck observed rest"
  "rm_calls (supervisor_erase alloc observed i rest m) = rm_calls m"
  "i < length (rm_entries m) \<Longrightarrow> rm_entries (supervisor_erase alloc observed i rest m) =
     (rm_entries m)[i := erased_entry (rm_entries m ! i)]"
  by (simp_all add: supervisor_erase_def manager_defs Let_def erased_entry_def)

lemma umap_values: "umap_wf reg \<Longrightarrow> set (map snd reg) = {v. \<exists>k. map_of reg k = Some v}"
  by (force simp: umap_wf_def dest: map_of_SomeD)

lemma core_inv_sv_erase:
  assumes inv: "core_inv m" and sv: "rm_supervisor m = SvErase observed i rest"
  shows "core_inv (supervisor_erase alloc observed i rest m)"
proof -
  let ?k = "sh_id (en_handle (rm_entries m ! i))" and ?e' = "erased_entry (rm_entries m ! i)"
  let ?reg = "umap_erase ?k (rm_registry m)" and ?sv = "SvCheck observed rest"
  have l: "i < length (rm_entries m)" and r: "map_of (rm_registry m) ?k = Some i"
    using core_invD(6) [OF inv, of i] sv by simp_all
  have out: "i \<notin> set (rm_pending m)" "i \<notin> set (held (rm_workers m))" "i \<notin> set rest" "distinct rest"
    using inv sv by (auto simp: core_inv_def places_ok_def)
  have ok: "stage_ok Leaving (rm_entries m ! i)"
    "en_stop_requested (rm_entries m ! i) \<longleftrightarrow> en_outcome (rm_entries m ! i) \<noteq> NoOutcome"
    using core_invD(7) [OF inv l] r out sv by (auto simp: entry_ok_def stage_def)
  have handle: "en_handle ?e' = en_handle (rm_entries m ! i)" by (simp add: erased_entry_def Let_def)
  have key: "k = ?k \<longleftrightarrow> j = i" if "map_of (rm_registry m) k = Some j" for k j
    using that r core_invD(5) [OF inv that] by (metis option.inject)
  have snd_reg: "set (map snd ?reg) = set (map snd (rm_registry m)) - {i}"
    unfolding umap_values [OF core_invD(1) [OF inv]] umap_values [OF umap_wf_erase [OF core_invD(1) [OF inv]]]
    using key unfolding map_of_erase by (auto simp del: not_None_eq split: if_splits)
  show ?thesis
  proof (rule core_inv_move [OF inv, where i = i and e' = ?e'], unfold erase_frame(1-4) erase_frame(6) [OF l])
    have "places_ok ?reg (rm_pending m) (rm_workers m) ?sv (rm_entries m)"
      using inv out sv snd_reg unfolding core_inv_def places_ok_def
      by (auto simp: umap_wf_erase map_of_erase split: if_splits)
    then show "places_ok ?reg (rm_pending m) (rm_workers m) ?sv ((rm_entries m)[i := ?e'])"
      by (rule places_ok_handle) (rule handle)
    have "stage ?reg (rm_pending m) (rm_workers m) ?sv i ?e' = Gone"
      by (simp add: stage_def handle map_of_erase)
    then show "entry_ok ?reg (rm_pending m) (rm_workers m) ?sv i ?e'"
      using ok out by (auto simp: entry_ok_def set_held erased_entry_def Let_def split: if_splits)
    fix j assume j: "j \<noteq> i" "j < length (rm_entries m)"
      and ent: "entry_ok (rm_registry m) (rm_pending m) (rm_workers m) (rm_supervisor m) j (rm_entries m ! j)"
    show "entry_ok ?reg (rm_pending m) (rm_workers m) ?sv j (rm_entries m ! j)"
      using ent by (rule entry_ok_other) (use j sv r in \<open>auto simp: map_of_erase\<close>)
  qed simp
qed

definition session_inv_of :: "Entry \<Rightarrow> bool" where
  "session_inv_of e \<longleftrightarrow> (\<forall>s. en_session e = Some s \<longrightarrow> session_inv s)"

section \<open>Client steps\<close>

lemma core_inv_add:
  assumes inv: "core_inv m"
  shows "core_inv (snd (snd (manager_add alloc sid factory_given m)))"
proof (cases "manager_admission sid factory_given m = AdmissionAccepted")
  case False
  then show ?thesis
    by (intro core_inv_same [OF inv]) (simp_all add: manager_add_def record_rejection_def Let_def)
next
  case True
  then have fresh: "map_of (rm_registry m) sid = None" by (auto simp: manager_admission_def split: if_splits)
  let ?m = "snd (snd (manager_add alloc sid factory_given m))"
  let ?i = "length (rm_entries m)"
  let ?e = "new_entry \<lparr>sh_runtime_id = rm_runtime_id m, sh_id = sid, sh_generation = rm_generation m\<rparr>"
  let ?reg = "(sid, ?i) # rm_registry m"
  have m': "rm_registry ?m = ?reg" "rm_pending ?m = rm_pending m @ [?i]" "rm_workers ?m = rm_workers m"
    "rm_supervisor ?m = rm_supervisor m" "rm_entries ?m = rm_entries m @ [?e]"
    by (simp_all add: manager_add_def True Let_def manager_defs umap_emplace_def fresh)
  have subs: "set (rm_pending m) \<subseteq> set (map snd (rm_registry m))"
    "set (held (rm_workers m)) \<subseteq> set (map snd (rm_registry m))"
    "set (scanned (rm_supervisor m)) \<subseteq> set (map snd (rm_registry m))"
    "set (leaving (rm_supervisor m)) \<inter> set (rm_pending m @ held (rm_workers m)) = {}"
    "distinct (rm_pending m @ held (rm_workers m))" "distinct (scanned (rm_supervisor m))"
    using inv by (simp_all add: core_inv_def places_ok_def)
  have below: "j < ?i" if "j \<in> set (map snd (rm_registry m))" for j
    using inv that by (auto simp: core_inv_def places_ok_def)
  then have "?i \<notin> set (map snd (rm_registry m))" by blast
  then have out: "?i \<notin> set (rm_pending m)" "?i \<notin> set (held (rm_workers m))" "?i \<notin> set (scanned (rm_supervisor m))"
    using subs(1-3) by blast+
  have leaving: "set (leaving sv) \<subseteq> set (scanned sv)" for sv by (cases sv) auto
  have handles: "map_of (rm_registry m) k = Some j \<Longrightarrow> sh_id (en_handle (rm_entries m ! j)) = k" for k j
    using core_invD(5) [OF inv] by blast
  have "places_ok ?reg (rm_pending m @ [?i]) (rm_workers m) (rm_supervisor m) (rm_entries m @ [?e])"
    unfolding places_ok_def
  proof (intro conjI allI impI)
    show "umap_wf ?reg" using fresh core_invD(1) [OF inv] by (simp add: umap_wf_def map_of_eq_None_iff)
    show "set (map snd ?reg) \<subseteq> {..<length (rm_entries m @ [?e])}" using below by fastforce
    show "sh_id (en_handle ((rm_entries m @ [?e]) ! j)) = k" if "map_of ?reg k = Some j" for k j
      using that handles [of k j] core_invD(5) [OF inv, of k j]
      by (auto simp: nth_append new_entry_def split: if_splits)
    show "set (leaving (rm_supervisor m)) \<inter> set ((rm_pending m @ [?i]) @ held (rm_workers m)) = {}"
      using subs(4) out(3) leaving by auto
  qed (use subs out in auto)
  moreover have "entry_ok ?reg (rm_pending m @ [?i]) (rm_workers m) (rm_supervisor m) ?i ?e"
  proof -
    have "supervisor_ok (rm_supervisor m) ?i ?e" using out(3) by (cases "rm_supervisor m") auto
    then show ?thesis using out by (auto simp: entry_ok_def stage_def new_entry_def set_held)
  qed
  moreover have "entry_ok ?reg (rm_pending m @ [?i]) (rm_workers m) (rm_supervisor m) j (rm_entries m ! j)"
    if j: "j < ?i" for j
    using core_invD(7) [OF inv j] by (rule entry_ok_other) (use j fresh in auto)
  ultimately show ?thesis by (simp add: core_inv_def m' nth_append less_Suc_eq)
qed

lemma core_inv_remove:
  assumes inv: "core_inv m" and "reason \<noteq> NoOutcome"
  shows "core_inv (snd (manager_remove alloc handle reason m))"
  using assms core_inv_stop [OF inv assms(2)] core_invD(5) [OF inv]
  by (auto simp: manager_remove_def split: option.split)

text \<open>A change of an entry that keeps its stage.\<close>

lemma core_inv_keep:
  assumes inv: "core_inv m"
    and m': "rm_registry m' = rm_registry m" "rm_pending m' = rm_pending m" "rm_workers m' = rm_workers m"
      "rm_supervisor m' = rm_supervisor m" "rm_entries m' = (rm_entries m)[i := e']"
    and e': "en_handle e' = en_handle (rm_entries m ! i)"
      "en_cancelled_before_start e' = en_cancelled_before_start (rm_entries m ! i)"
      "en_startup_done e' = en_startup_done (rm_entries m ! i)"
      "en_stop_requested e' = en_stop_requested (rm_entries m ! i)"
      "en_outcome e' = en_outcome (rm_entries m ! i)"
      "(en_session e' = None) = (en_session (rm_entries m ! i) = None)"
    and st: "\<And>st. stage_ok st (rm_entries m ! i) \<Longrightarrow> stage_ok st e'"
    and ended: "session_inv_of (rm_entries m ! i) \<Longrightarrow> ended (rm_entries m ! i) \<Longrightarrow> ended e'"
    and s: "session_inv_of (rm_entries m ! i) \<Longrightarrow> session_inv_of e'"
  shows "core_inv m'"
proof (rule core_inv_entry [OF inv m' e'(1)])
  let ?e = "rm_entries m ! i"
  assume ok: "entry_ok (rm_registry m) (rm_pending m) (rm_workers m) (rm_supervisor m) i ?e"
  have inv_e: "session_inv_of ?e" using ok by (auto simp: entry_ok_def session_inv_of_def)
  have "stage (rm_registry m) (rm_pending m) (rm_workers m) (rm_supervisor m) i e' =
      stage (rm_registry m) (rm_pending m) (rm_workers m) (rm_supervisor m) i ?e"
    by (simp add: stage_def e')
  moreover have "supervisor_ok (rm_supervisor m) i e'"
    using ok e' ended [OF inv_e] by (cases "rm_supervisor m") (auto simp: entry_ok_def)
  moreover have "worker_ok w e'" if "worker_ok w ?e" for w using that e' by (cases w) simp_all
  moreover have "session_inv_of e'" using s [OF inv_e] .
  ultimately show "entry_ok (rm_registry m) (rm_pending m) (rm_workers m) (rm_supervisor m) i e'"
    using ok st e' by (auto simp: entry_ok_def session_inv_of_def)
qed

lemma core_inv_acquire:
  assumes inv: "core_inv m"
  shows "core_inv (snd (manager_acquire handle m))"
proof (cases "fst (manager_acquire handle m)")
  case (Some i)
  then have run: "en_phase (rm_entries m ! i) = PhaseRunning"
    by (auto simp: manager_acquire_def split: if_splits option.splits)
  have st: "stage_ok st e \<Longrightarrow> en_phase e = PhaseRunning \<Longrightarrow> stage_ok st (e\<lparr>en_operations := en_operations e + 1\<rparr>)"
    for st e by (cases st) (auto split: if_splits)
  show ?thesis
    by (rule core_inv_keep [OF inv, where i = i and
          e' = "(rm_entries m ! i)\<lparr>en_operations := en_operations (rm_entries m ! i) + 1\<rparr>"])
      (use Some st [OF _ run] in \<open>auto simp: manager_acquire_def manager_defs ended_def session_inv_of_def
        split: if_splits option.splits\<close>)
qed (use inv in \<open>auto simp: manager_acquire_def split: if_splits option.splits\<close>)

lemma core_inv_release:
  assumes inv: "core_inv m"
  shows "core_inv (manager_release i m)"
proof -
  have st: "stage_ok st e \<Longrightarrow> stage_ok st (e\<lparr>en_operations := en_operations e - 1\<rparr>)" for st e
    by (cases st) auto
  show ?thesis
    by (rule core_inv_keep [OF inv, where i = i and
          e' = "(rm_entries m ! i)\<lparr>en_operations := en_operations (rm_entries m ! i) - 1\<rparr>"])
      (use st [of _ "rm_entries m ! i"] in
        \<open>simp_all add: manager_release_def manager_defs Let_def ended_def session_inv_of_def\<close>)
qed

lemma core_inv_session:
  assumes inv: "core_inv m" and s: "en_session (rm_entries m ! i) = Some s" and step: "session_step s s'"
  shows "core_inv (entry_update i (\<lambda>e. e\<lparr>en_session := Some s'\<rparr>) m)"
proof -
  have st: "stage_ok st e \<Longrightarrow> en_session e = Some s \<Longrightarrow> stage_ok st (e\<lparr>en_session := Some s'\<rparr>)" for st e
    by (cases st) auto
  show ?thesis
    by (rule core_inv_keep [OF inv, where i = i and e' = "(rm_entries m ! i)\<lparr>en_session := Some s'\<rparr>"])
      (use st [OF _ s] s step session_terminal_step [of s s'] session_step_inv [of s s'] in
        \<open>simp_all add: manager_defs ended_def session_inv_of_def\<close>)
qed

lemma core_inv_stops:
  assumes "core_inv m" and "\<And>p. p \<in> set reg \<Longrightarrow> p \<in> set (rm_registry m)"
  shows "core_inv (fold (\<lambda>(sid, i). stop_entry alloc i RuntimeShutdown) reg m)"
  using assms
proof (induction reg arbitrary: m)
  case (Cons p reg)
  obtain sid i where p: "p = (sid, i)" by fastforce
  have "map_of (rm_registry m) sid = Some i"
    using Cons.prems core_invD(1) [OF Cons.prems(1)] p by (simp add: umap_wf_def)
  then have "core_inv (stop_entry alloc i RuntimeShutdown m)"
    using core_inv_stop [OF Cons.prems(1)] core_invD(5) [OF Cons.prems(1)] by blast
  then show ?case using Cons.IH Cons.prems(2) p by simp
qed simp

lemma core_inv_shutdown:
  assumes inv: "core_inv m"
  shows "core_inv (manager_request_shutdown alloc m)"
proof -
  have "core_inv (m\<lparr>rm_counters := (rm_counters m)\<lparr>rs_lifecycle := RuntimeDraining\<rparr>\<rparr>)"
    by (rule core_inv_same [OF inv]) simp_all
  then have "core_inv (fold (\<lambda>(sid, i). stop_entry alloc i RuntimeShutdown) (rm_registry m)
      (m\<lparr>rm_counters := (rm_counters m)\<lparr>rs_lifecycle := RuntimeDraining\<rparr>\<rparr>))"
    by (rule core_inv_stops) simp
  then have "core_inv (changed (fold (\<lambda>(sid, i). stop_entry alloc i RuntimeShutdown) (rm_registry m)
      (m\<lparr>rm_counters := (rm_counters m)\<lparr>rs_lifecycle := RuntimeDraining\<rparr>\<rparr>)))"
    by (rule core_inv_same) (simp_all add: changed_def)
  then show ?thesis using inv by (simp add: manager_request_shutdown_def Let_def)
qed

lemma core_inv_dispatch:
  assumes inv: "core_inv m"
  shows "core_inv (dispatch_take m)" "core_inv (dispatch_done error m)"
  by (rule core_inv_same [OF inv]; simp add: dispatch_take_def dispatch_done_def split: list.split)+

lemma core_step_inv: "core_inv m \<Longrightarrow> manager_step m m' \<Longrightarrow> core_inv m'"
  by (elim manager_stepE)
    (auto intro: core_inv_add core_inv_remove core_inv_acquire core_inv_release core_inv_session
      core_inv_shutdown core_inv_startup_take core_inv_install core_inv_startup_start
      core_inv_startup_started core_inv_startup_caught core_inv_startup_finish core_inv_scan
      core_inv_check core_inv_lifecycle core_inv_sv_flush core_inv_sv_take core_inv_sv_erase
      core_inv_wake core_inv_dispatch session_inv_init)

lemma core_inv_init: "manager_init m \<Longrightarrow> core_inv m"
  by (auto simp: manager_new_def core_inv_def places_ok_def held_def split: if_splits)

section \<open>How an entry changes\<close>

lemma map_update_same [simp]: "f x = f (xs ! i) \<Longrightarrow> map f (xs[i := x]) = map f xs"
  by (metis list_update_beyond list_update_id map_update not_le nth_map)

abbreviation stop_all :: "(u64 \<Rightarrow> bool) \<Rightarrow> (string, nat) umap \<Rightarrow> RuntimeManager \<Rightarrow> RuntimeManager" where
  "stop_all alloc \<equiv> fold (\<lambda>(sid, i). stop_entry alloc i RuntimeShutdown)"

lemma stop_all_frame [simp]:
  "rm_config (stop_all alloc reg m) = rm_config m"
  "rm_has_notify (stop_all alloc reg m) = rm_has_notify m"
  "rm_runtime_id (stop_all alloc reg m) = rm_runtime_id m"
  "rm_registry (stop_all alloc reg m) = rm_registry m"
  "rm_generation (stop_all alloc reg m) = rm_generation m"
  "rm_workers_done (stop_all alloc reg m) = rm_workers_done m"
  "rm_supervisor_done (stop_all alloc reg m) = rm_supervisor_done m"
  "rm_workers (stop_all alloc reg m) = rm_workers m"
  "rm_supervisor (stop_all alloc reg m) = rm_supervisor m"
  "rm_dispatcher (stop_all alloc reg m) = rm_dispatcher m"
  "rm_calls (stop_all alloc reg m) = rm_calls m"
  "map en_handle (rm_entries (stop_all alloc reg m)) = map en_handle (rm_entries m)"
  "map en_operations (rm_entries (stop_all alloc reg m)) = map en_operations (rm_entries m)"
  "map en_started (rm_entries (stop_all alloc reg m)) = map en_started (rm_entries m)"
  "map en_retired (rm_entries (stop_all alloc reg m)) = map en_retired (rm_entries m)"
  by (induction reg arbitrary: m) auto

lemma stop_all_length [simp]: "length (rm_entries (stop_all alloc reg m)) = length (rm_entries m)"
  using stop_all_frame(12) map_eq_imp_length_eq by metis

lemma stop_all_pending: "length (rm_pending (stop_all alloc reg m)) \<le> length (rm_pending m)"
proof (induction reg arbitrary: m)
  case (Cons p reg)
  obtain sid i where "p = (sid, i)" by fastforce
  then show ?case
    using Cons [of "stop_entry alloc i RuntimeShutdown m"]
    by (auto simp: length_remove1 split: if_splits)
qed simp

lemma stop_all_counters [simp]:
  "rs_lifecycle (rm_counters (stop_all alloc reg m)) = rs_lifecycle (rm_counters m)"
  "rs_admitted (rm_counters (stop_all alloc reg m)) = rs_admitted (rm_counters m)"
  "rs_rejected (rm_counters (stop_all alloc reg m)) = rs_rejected (rm_counters m)"
  "rs_retired (rm_counters (stop_all alloc reg m)) = rs_retired (rm_counters m)"
  "rs_failures (rm_counters (stop_all alloc reg m)) = rs_failures (rm_counters m)"
  "rs_rejected_invalid (rm_counters (stop_all alloc reg m)) = rs_rejected_invalid (rm_counters m)"
  "rs_rejected_duplicate (rm_counters (stop_all alloc reg m)) = rs_rejected_duplicate (rm_counters m)"
  "rs_rejected_capacity (rm_counters (stop_all alloc reg m)) = rs_rejected_capacity (rm_counters m)"
  "rs_rejected_queue (rm_counters (stop_all alloc reg m)) = rs_rejected_queue (rm_counters m)"
  "rs_rejected_draining (rm_counters (stop_all alloc reg m)) = rs_rejected_draining (rm_counters m)"
  "rs_rejected_identity (rm_counters (stop_all alloc reg m)) = rs_rejected_identity (rm_counters m)"
  by (induction reg arbitrary: m) auto

text \<open>
  What no step undoes: the identity of an entry, a requested stop, a failure recorded as its
  outcome, a promise that was kept, and everything once it is retired.
\<close>

definition entry_le :: "Entry \<Rightarrow> Entry \<Rightarrow> bool" where
  "entry_le e e' \<longleftrightarrow> en_handle e' = en_handle e \<and> (en_stop_requested e \<longrightarrow> en_stop_requested e') \<and>
     (en_stop_requested e \<and> failed (en_outcome e) \<longrightarrow> en_outcome e' = en_outcome e) \<and>
     (\<forall>v. en_started e = Ready v \<longrightarrow> en_started e' = Ready v) \<and>
     (\<forall>v. en_retired e = Ready v \<longrightarrow> en_retired e' = Ready v) \<and>
     (en_phase e = PhaseRetiring \<longrightarrow> en_phase e' = PhaseRetiring \<and> en_outcome e' = en_outcome e)"

lemma entry_le_refl [simp]: "entry_le e e"
  by (simp add: entry_le_def)

lemma entry_le_trans: "entry_le a b \<Longrightarrow> entry_le b c \<Longrightarrow> entry_le a c"
  by (auto simp: entry_le_def)

lemma entry_le_stopped [simp]: "entry_le e (stopped_entry reason e)"
  by (auto simp: entry_le_def stopped_entry_def stops_def Let_def)

definition entries_le :: "RuntimeManager \<Rightarrow> RuntimeManager \<Rightarrow> bool" where
  "entries_le m m' \<longleftrightarrow> length (rm_entries m) \<le> length (rm_entries m') \<and>
     (\<forall>i < length (rm_entries m). entry_le (rm_entries m ! i) (rm_entries m' ! i))"

lemma entries_le_same: "rm_entries m' = rm_entries m \<Longrightarrow> entries_le m m'"
  by (simp add: entries_le_def)

lemma entries_le_update:
  "rm_entries m' = (rm_entries m)[i := e'] \<Longrightarrow>
   (i < length (rm_entries m) \<Longrightarrow> entry_le (rm_entries m ! i) e') \<Longrightarrow> entries_le m m'"
  by (simp add: entries_le_def nth_update_if)

lemma entries_le_trans: "entries_le a b \<Longrightarrow> entries_le b c \<Longrightarrow> entries_le a c"
  unfolding entries_le_def by (meson entry_le_trans le_trans less_le_trans)

lemma entries_le_stop [simp]: "entries_le m (stop_entry alloc i reason m)"
  by (rule entries_le_update [OF stop_entry_entries]) simp

lemma entries_le_stop_all: "entries_le m (stop_all alloc reg m)"
proof (induction reg arbitrary: m)
  case (Cons p reg)
  then show ?case using entries_le_trans [OF entries_le_stop Cons] by (cases p) simp
qed (simp add: entries_le_same)

lemma entries_le_remove: "entries_le m (snd (manager_remove alloc handle reason m))"
  by (auto simp: manager_remove_def entries_le_same split: option.split)

lemma entries_le_add: "entries_le m (snd (snd (manager_add alloc sid factory_given m)))"
  by (auto simp: manager_add_def Let_def record_rejection_def manager_defs entries_le_def nth_append)

lemma entries_le_shutdown: "entries_le m (manager_request_shutdown alloc m)"
proof -
  have "entries_le m (stop_all alloc (rm_registry m) (m\<lparr>rm_counters := c\<rparr>))" for c
    using entries_le_trans [OF entries_le_same entries_le_stop_all, of "m\<lparr>rm_counters := c\<rparr>" m] by simp
  then show ?thesis
    by (simp add: manager_request_shutdown_def Let_def entries_le_same)
      (simp add: entries_le_def changed_def)
qed

lemma entries_le_finish:
  assumes inv: "core_inv m" and t: "t < length (rm_workers m)" "rm_workers m ! t = SwFinish i f"
  shows "entries_le m (startup_finish alloc t i f m)"
proof -
  have "worker_entry (rm_workers m ! t) = [i]" by (simp add: t)
  note h = core_held [OF inv t(1) this]
  define m1 where "m1 = (if f then stop_entry alloc i OutcomeStartupFailed m else m)"
  have le: "entries_le m m1" by (simp add: m1_def entries_le_same)
  have "en_started (rm_entries m1 ! i) = Unset" "en_phase (rm_entries m1 ! i) \<noteq> PhaseRetiring"
    using h(1,2) by (auto simp: m1_def stopped_entry_def Let_def split: if_splits)
  moreover have "i < length (rm_entries m1)" using h(1) by (simp add: m1_def)
  ultimately have "entries_le m1 (startup_finish alloc t i f m)"
    by (intro entries_le_update [where i = i and e' = "if en_stop_requested (rm_entries m1 ! i)
        then (rm_entries m1 ! i)\<lparr>en_startup_done := True, en_started := Ready (en_outcome (rm_entries m1 ! i))\<rparr>
        else (rm_entries m1 ! i)\<lparr>en_startup_done := True, en_phase := PhaseRunning, en_started := Ready OutcomeStarted\<rparr>"])
      (auto simp: startup_finish_def manager_defs Let_def m1_def [symmetric] entry_le_def)
  with le show ?thesis by (rule entries_le_trans)
qed

lemma entries_le_erase:
  assumes inv: "core_inv m" and sv: "rm_supervisor m = SvErase observed i rest"
  shows "entries_le m (supervisor_erase alloc observed i rest m)"
proof -
  have l: "i < length (rm_entries m)" and r: "map_of (rm_registry m) (sh_id (en_handle (rm_entries m ! i))) = Some i"
    using core_invD(6) [OF inv, of i] sv by simp_all
  have "stage_ok Leaving (rm_entries m ! i)"
    using core_invD(7) [OF inv l] r inv sv
    by (auto simp: entry_ok_def stage_def core_inv_def places_ok_def split: if_splits)
  then have "entry_le (rm_entries m ! i) (erased_entry (rm_entries m ! i))"
    by (auto simp: entry_le_def erased_entry_def Let_def split: if_splits)
  then show ?thesis by (intro entries_le_update [OF erase_frame(6) [OF l]])
qed

lemma entries_le_startup:
  "rm_workers m ! t = SwFactory i \<Longrightarrow> entries_le m (startup_install t i made m)"
  "entries_le m (startup_start t i s m)" "entries_le m (startup_started t i s m)"
  "entries_le m (startup_caught t i m)"
proof -
  show "entries_le m (startup_install t i made m)"
    by (rule entries_le_update [where i = i and e' = "case made of None \<Rightarrow> rm_entries m ! i
        | Some s \<Rightarrow> (rm_entries m ! i)\<lparr>en_session := Some (if \<not> en_stop_requested (rm_entries m ! i)
            then s else session_request_stop s)\<rparr>"])
      (auto simp: startup_install_def manager_defs Let_def entry_le_def split: option.split)
  show "entries_le m (startup_start t i s m)"
    by (rule entries_le_update [where i = i and
          e' = "(rm_entries m ! i)\<lparr>en_session := Some (snd (session_start False s))\<rparr>"])
      (auto simp: startup_start_def manager_defs entry_le_def split: prod.split)
qed (simp_all add: startup_started_def startup_caught_def manager_defs Let_def entries_le_same)

lemma entries_le_startup_take:
  assumes inv: "core_inv m"
  shows "entries_le m (startup_take t m)"
proof (cases "rm_pending m")
  case (Cons i rest)
  have "map_of (rm_registry m) (sh_id (en_handle (rm_entries m ! i))) = Some i" "i < length (rm_entries m)"
    using core_invD(6) [OF inv, of i] Cons by simp_all
  then have "stage_ok Queued (rm_entries m ! i)"
    using core_invD(7) [OF inv, of i] Cons by (simp add: entry_ok_def stage_def)
  then show ?thesis
    by (intro entries_le_update [where i = i and
          e' = "(rm_entries m ! i)\<lparr>en_factory := False, en_phase := PhaseStarting\<rparr>"])
      (simp_all add: startup_take_def manager_defs Cons entry_le_def)
qed (simp add: startup_take_def manager_defs entries_le_same)

lemma entries_le_supervisor:
  "entries_le m (supervisor_scan m)" "entries_le m (supervisor_check observed entries m)"
  "entries_le m (supervisor_lifecycle alloc observed i rest s m)"
  "entries_le m (supervisor_flush observed i rest s m)" "entries_le m (supervisor_take observed i rest m)"
  "entries_le m (supervisor_wake m)" "entries_le m (dispatch_take m)" "entries_le m (dispatch_done error m)"
proof -
  have set: "entries_le m' (set_supervisor pc m')" for m' pc by (simp add: set_supervisor_def entries_le_same)
  show "entries_le m (supervisor_lifecycle alloc observed i rest s m)"
    by (auto simp: supervisor_lifecycle_def set intro: entries_le_trans [OF entries_le_stop set])
  show "entries_le m (supervisor_take observed i rest m)"
    by (rule entries_le_update [where i = i and e' = "if en_operations (rm_entries m ! i) \<noteq> 0 then rm_entries m ! i
        else (rm_entries m ! i)\<lparr>en_phase := PhaseRetiring, en_session := None, en_factory := False\<rparr>"])
      (simp_all add: supervisor_take_def manager_defs entry_le_def)
qed (auto simp: supervisor_scan_def supervisor_check_def supervisor_flush_def supervisor_wake_def
    dispatch_take_def dispatch_done_def manager_defs entries_le_same Let_def split: list.split option.split)

lemma entries_le_calls:
  "entries_le m (snd (manager_acquire handle m))" "entries_le m (manager_release i m)"
  "entries_le m (entry_update i (\<lambda>e. e\<lparr>en_session := s\<rparr>) m)"
  by (auto simp: manager_acquire_def manager_release_def manager_defs Let_def entries_le_same
      entry_le_def intro: entries_le_update split: option.split)

lemma manager_step_entries: "core_inv m \<Longrightarrow> manager_step m m' \<Longrightarrow> entries_le m m'"
  by (elim manager_stepE) (auto intro: entries_le_add entries_le_remove entries_le_shutdown entries_le_finish
      entries_le_erase entries_le_startup entries_le_startup_take entries_le_supervisor entries_le_calls)

section \<open>Identities, counters and the end of the runtime\<close>

definition handle_inv :: "RuntimeManager \<Rightarrow> bool" where
  "handle_inv m \<longleftrightarrow> Suc (length (rm_entries m)) < 2 ^ 64 \<and>
     rm_generation m = of_nat (Suc (length (rm_entries m))) \<and>
     (\<forall>i < length (rm_entries m). sh_runtime_id (en_handle (rm_entries m ! i)) = rm_runtime_id m \<and>
        sh_generation (en_handle (rm_entries m ! i)) = of_nat (Suc i))"

definition account_inv :: "RuntimeManager \<Rightarrow> bool" where
  "account_inv m \<longleftrightarrow>
     (let c = rm_counters m
      in length (rm_registry m) \<le> rc_max_sessions (rm_config m) \<and>
        length (rm_pending m) \<le> rc_max_pending_starts (rm_config m) \<and>
        rs_admitted c = of_nat (length (rm_entries m)) \<and>
        of_nat (length (rm_entries m)) = rs_retired c + of_nat (length (rm_registry m)) \<and>
        rs_rejected c = rs_rejected_invalid c + rs_rejected_duplicate c + rs_rejected_capacity c +
          rs_rejected_queue c + rs_rejected_draining c + rs_rejected_identity c)"

definition returned :: "StartupWorker list \<Rightarrow> nat" where
  "returned ws = length (filter (\<lambda>w. w = SwReturned) ws)"

definition workers_inv :: "RuntimeManager \<Rightarrow> bool" where
  "workers_inv m \<longleftrightarrow> length (rm_workers m) = rc_startup_workers (rm_config m) \<and>
     rm_workers_done m = returned (rm_workers m)"

definition drain_inv :: "RuntimeManager \<Rightarrow> bool" where
  "drain_inv m \<longleftrightarrow>
     (rs_lifecycle (rm_counters m) \<noteq> RuntimeRunning \<longrightarrow> list_all en_stop_requested (rm_entries m)) \<and>
     (rm_supervisor_done m \<longleftrightarrow> rm_supervisor m = SvReturned) \<and>
     (rm_supervisor_done m \<longrightarrow> rm_registry m = [] \<and> rs_lifecycle (rm_counters m) \<noteq> RuntimeRunning \<and>
        rm_workers_done m = rc_startup_workers (rm_config m)) \<and>
     (rm_dispatcher m = NdReturned \<longleftrightarrow> rs_lifecycle (rm_counters m) = RuntimeStopped) \<and>
     (rm_dispatcher m = NdReturned \<longrightarrow> rm_supervisor_done m \<and> rm_notifications m = [])"

fun in_flight :: "NotifyDispatcher \<Rightarrow> RuntimeNotification list" where
  "in_flight (NdNotifying n) = [n]"
| "in_flight pc = []"

definition outstanding :: "RuntimeManager \<Rightarrow> RuntimeNotification list" where
  "outstanding m = in_flight (rm_dispatcher m) @ rm_notifications m"

definition notify_inv :: "RuntimeManager \<Rightarrow> bool" where
  "notify_inv m \<longleftrightarrow>
     length (rm_notifications m) \<le> rc_max_pending_notifications (rm_config m) \<and>
     rm_enqueued m = rm_delivered m + of_nat (length (outstanding m)) \<and>
     sorted_wrt (<) (map nt_sequence (outstanding m)) \<and>
     (\<forall>n \<in> set (outstanding m). nt_sequence n < rm_sequence m)"

text \<open>Each part is preserved by what a step may do to the fields it reads.\<close>

lemma accepted_generation:
  "manager_admission sid factory_given m = AdmissionAccepted \<Longrightarrow>
     rs_lifecycle (rm_counters m) = RuntimeRunning \<and> map_of (rm_registry m) sid = None \<and>
     length (rm_registry m) < rc_max_sessions (rm_config m) \<and>
     length (rm_pending m) < rc_max_pending_starts (rm_config m) \<and> rm_generation m \<noteq> u64_max"
  by (auto simp: manager_admission_def split: if_splits)

text \<open>The steps that leave the identities and the capacity counters alone.\<close>

definition quiet :: "RuntimeManager \<Rightarrow> RuntimeManager \<Rightarrow> bool" where
  "quiet m m' \<longleftrightarrow> rm_config m' = rm_config m \<and> rm_has_notify m' = rm_has_notify m \<and>
     rm_runtime_id m' = rm_runtime_id m \<and> rm_registry m' = rm_registry m \<and>
     length (rm_pending m') \<le> length (rm_pending m) \<and> rm_generation m' = rm_generation m \<and>
     map en_handle (rm_entries m') = map en_handle (rm_entries m) \<and>
     rs_admitted (rm_counters m') = rs_admitted (rm_counters m) \<and>
     rs_rejected (rm_counters m') = rs_rejected (rm_counters m) \<and>
     rs_retired (rm_counters m') = rs_retired (rm_counters m) \<and>
     rs_rejected_invalid (rm_counters m') = rs_rejected_invalid (rm_counters m) \<and>
     rs_rejected_duplicate (rm_counters m') = rs_rejected_duplicate (rm_counters m) \<and>
     rs_rejected_capacity (rm_counters m') = rs_rejected_capacity (rm_counters m) \<and>
     rs_rejected_queue (rm_counters m') = rs_rejected_queue (rm_counters m) \<and>
     rs_rejected_draining (rm_counters m') = rs_rejected_draining (rm_counters m) \<and>
     rs_rejected_identity (rm_counters m') = rs_rejected_identity (rm_counters m)"

lemma quiet_refl [simp]: "quiet m m"
  by (simp add: quiet_def)

lemma quiet_stop [simp]: "quiet m (stop_entry alloc i reason m)"
  by (simp add: quiet_def length_remove1)

lemma quiet_trans: "quiet a b \<Longrightarrow> quiet b c \<Longrightarrow> quiet a c"
  unfolding quiet_def by auto

lemma quiet_shutdown: "quiet m (manager_request_shutdown alloc m)"
  using stop_all_pending [of alloc "rm_registry m"
      "m\<lparr>rm_counters := (rm_counters m)\<lparr>rs_lifecycle := RuntimeDraining\<rparr>\<rparr>"]
  by (simp add: quiet_def manager_request_shutdown_def Let_def changed_def)

lemma quiet_finish: "quiet m (startup_finish alloc t i f m)"
proof -
  define m1 where "m1 = (if f then stop_entry alloc i OutcomeStartupFailed m else m)"
  have "quiet m1 (startup_finish alloc t i f m)"
    by (auto simp: quiet_def startup_finish_def manager_defs Let_def m1_def [symmetric] nth_update_if)
  moreover have "quiet m m1" by (simp add: m1_def)
  ultimately show ?thesis by (blast intro: quiet_trans)
qed

lemma quiet_lifecycle: "quiet m (supervisor_lifecycle alloc observed i rest s m)"
  by (auto simp: supervisor_lifecycle_def set_supervisor_def quiet_def length_remove1)

lemma quiet_calls:
  "quiet m (snd (manager_acquire handle m))" "quiet m (manager_release i m)"
  "quiet m (snd (manager_remove alloc handle reason m))"
  "quiet m (entry_update i (\<lambda>e. e\<lparr>en_session := s\<rparr>) m)"
  by (auto simp: quiet_def manager_acquire_def manager_release_def manager_remove_def manager_defs Let_def
      length_remove1 split: option.split)

lemma quiet_startup:
  "quiet m (startup_take t m)" "quiet m (startup_install t i made m)" "quiet m (startup_start t i s0 m)"
  "quiet m (startup_started t i s0 m)" "quiet m (startup_caught t i m)"
  by (auto simp: quiet_def startup_take_def startup_install_def startup_start_def startup_started_def
      startup_caught_def manager_defs Let_def split: option.split prod.split list.split)

lemma quiet_threads:
  "quiet m (supervisor_scan m)" "quiet m (supervisor_check observed entries m)"
  "quiet m (supervisor_flush observed i rest s0 m)" "quiet m (supervisor_take observed i rest m)"
  "quiet m (supervisor_wake m)" "quiet m (dispatch_take m)" "quiet m (dispatch_done error m)"
  by (auto simp: quiet_def supervisor_scan_def supervisor_check_def supervisor_flush_def supervisor_take_def
      supervisor_wake_def dispatch_take_def dispatch_done_def manager_defs Let_def split: option.split list.split)

lemma manager_step_quiet:
  assumes "manager_step m m'"
  shows "quiet m m' \<or> (\<exists>alloc sid given. m' = snd (snd (manager_add alloc sid given m))) \<or>
    (\<exists>alloc observed i rest. rm_supervisor m = SvErase observed i rest \<and>
       m' = supervisor_erase alloc observed i rest m)"
  using assms
  by (elim manager_stepE)
    (auto simp: quiet_shutdown quiet_finish quiet_lifecycle quiet_calls quiet_startup quiet_threads)

lemma handle_inv_quiet: "handle_inv m \<Longrightarrow> quiet m m' \<Longrightarrow> handle_inv m'"
proof -
  assume inv: "handle_inv m" and q: "quiet m m'"
  have len: "length (rm_entries m') = length (rm_entries m)"
    using q map_eq_imp_length_eq by (auto simp: quiet_def)
  have maps: "map en_handle (rm_entries m') = map en_handle (rm_entries m)" using q by (simp add: quiet_def)
  have "en_handle (rm_entries m' ! i) = en_handle (rm_entries m ! i)" if "i < length (rm_entries m)" for i
    using arg_cong [OF maps, of "\<lambda>xs. xs ! i"] len that by simp
  then show ?thesis using inv q len by (simp add: handle_inv_def quiet_def)
qed

lemma handle_inv_add: "handle_inv m \<Longrightarrow> handle_inv (snd (snd (manager_add alloc sid given m)))"
proof (cases "manager_admission sid given m = AdmissionAccepted")
  case True
  assume inv: "handle_inv m"
  have "unat (rm_generation m + 1) = Suc (unat (rm_generation m))"
    using accepted_generation [OF True] by (simp add: u64_inc_unat)
  moreover have "unat (rm_generation m) = Suc (length (rm_entries m))"
    using inv by (simp add: handle_inv_def u64_of_nat del: of_nat_Suc)
  moreover have "unat (rm_generation m + 1) < 2 ^ 64"
    using unsigned_less [of "rm_generation m + 1"] by simp
  ultimately have "Suc (Suc (length (rm_entries m))) < 2 ^ 64" by simp
  then show ?thesis using inv
    by (auto simp: handle_inv_def manager_add_def True Let_def manager_defs new_entry_def nth_append less_Suc_eq)
qed (simp add: manager_add_def record_rejection_def Let_def handle_inv_def)

lemma handle_inv_step: "handle_inv m \<Longrightarrow> core_inv m \<Longrightarrow> manager_step m m' \<Longrightarrow> handle_inv m'"
proof -
  assume inv: "handle_inv m" and core: "core_inv m" and "manager_step m m'"
  from manager_step_quiet [OF this(3)] show ?thesis
  proof (elim disjE exE conjE)
    fix alloc observed i rest
    assume sv: "rm_supervisor m = SvErase observed i rest" and m': "m' = supervisor_erase alloc observed i rest m"
    have l: "i < length (rm_entries m)" using core_invD(6) [OF core, of i] sv by simp
    have "en_handle (erased_entry e) = en_handle e" for e by (simp add: erased_entry_def Let_def)
    then show ?thesis using inv erase_frame(6) [OF l] unfolding m'
      by (simp add: handle_inv_def nth_update_if) (simp add: supervisor_erase_def manager_defs Let_def)
  qed (auto intro: handle_inv_quiet handle_inv_add inv)
qed

lemma account_inv_add: "account_inv m \<Longrightarrow> account_inv (snd (snd (manager_add alloc sid given m)))"
proof (cases "manager_admission sid given m = AdmissionAccepted")
  case True
  then show "account_inv m \<Longrightarrow> ?thesis"
    using accepted_generation [OF True]
    by (simp add: account_inv_def manager_add_def Let_def manager_defs umap_emplace_def)
next
  case False
  then show "account_inv m \<Longrightarrow> ?thesis"
    by (cases "manager_admission sid given m")
      (simp_all add: account_inv_def manager_add_def Let_def record_rejection_def)
qed

lemma account_inv_step: "account_inv m \<Longrightarrow> core_inv m \<Longrightarrow> manager_step m m' \<Longrightarrow> account_inv m'"
proof -
  assume inv: "account_inv m" and core: "core_inv m" and "manager_step m m'"
  from manager_step_quiet [OF this(3)] show ?thesis
  proof (elim disjE exE conjE)
    assume q: "quiet m m'"
    then have "length (rm_entries m') = length (rm_entries m)"
      using map_eq_imp_length_eq by (auto simp: quiet_def)
    then show ?thesis using inv q by (simp add: account_inv_def quiet_def Let_def)
  next
    fix alloc observed i rest
    assume sv: "rm_supervisor m = SvErase observed i rest" and m': "m' = supervisor_erase alloc observed i rest m"
    have "map_of (rm_registry m) (sh_id (en_handle (rm_entries m ! i))) = Some i"
      using core_invD(6) [OF core, of i] sv by simp
    then have "length (rm_registry m) = Suc (length (umap_erase (sh_id (en_handle (rm_entries m ! i))) (rm_registry m)))"
      using length_erase core_invD(1) [OF core] by metis
    then show ?thesis using inv unfolding m'
      by (simp add: account_inv_def supervisor_erase_def manager_defs Let_def)
  qed (auto intro: account_inv_add inv)
qed

lemma calls_inv_frame:
  assumes "calls_inv m" and "rm_calls m' = rm_calls m"
    and "map en_operations (rm_entries m') = map en_operations (rm_entries m)"
  shows "calls_inv m'"
proof -
  have len: "length (rm_entries m') = length (rm_entries m)" using assms(3) by (rule map_eq_imp_length_eq)
  have "en_operations (rm_entries m' ! i) = en_operations (rm_entries m ! i)" if "i < length (rm_entries m)" for i
    using arg_cong [OF assms(3), of "\<lambda>xs. xs ! i"] len that by simp
  then show ?thesis using assms(1,2) len by (simp add: calls_inv_def)
qed

lemma count_remove1: "x \<in> set xs \<Longrightarrow> count_list (remove1 x xs) y = (if y = x then count_list xs x - 1 else count_list xs y)"
  by (induction xs) (auto simp: count_list_0_iff neq_Nil_conv)

lemma calls_inv_acquire:
  assumes inv: "calls_inv m" and core: "core_inv m"
  shows "calls_inv (snd (manager_acquire handle m))"
proof (cases "fst (manager_acquire handle m)")
  case (Some i)
  then have "i < length (rm_entries m)"
    using core_invD(5) [OF core] by (auto simp: manager_acquire_def matching_def split: if_splits option.splits)
  with Some inv show ?thesis
    by (auto simp: manager_acquire_def calls_inv_def manager_defs nth_update_if split: if_splits option.splits)
qed (use inv in \<open>auto simp: manager_acquire_def split: if_splits option.splits\<close>)

lemma calls_inv_release:
  assumes inv: "calls_inv m" and i: "i \<in> set (rm_calls m)"
  shows "calls_inv (manager_release i m)"
proof -
  have "set (remove1 i (rm_calls m)) \<subseteq> set (rm_calls m)" by (rule set_remove1_subset)
  then show ?thesis
    using inv i by (auto simp: manager_release_def calls_inv_def manager_defs Let_def nth_update_if count_remove1)
qed

lemma count_fresh: "set xs \<subseteq> {..<n :: nat} \<Longrightarrow> count_list xs n = 0"
  by (subst count_list_0_iff) (auto simp: subset_iff)

lemma calls_inv_add:
  assumes inv: "calls_inv m"
  shows "calls_inv (snd (snd (manager_add alloc sid given m)))"
  using inv count_fresh [of "rm_calls m" "length (rm_entries m)"]
  by (auto simp: calls_inv_def manager_add_def Let_def record_rejection_def manager_defs nth_append
      new_entry_def less_Suc_eq)

lemma operations_startup:
  "map en_operations (rm_entries (startup_take t m)) = map en_operations (rm_entries m)"
  "map en_operations (rm_entries (startup_install t i made m)) = map en_operations (rm_entries m)"
  "map en_operations (rm_entries (startup_start t i s m)) = map en_operations (rm_entries m)"
  "map en_operations (rm_entries (startup_started t i s m)) = map en_operations (rm_entries m)"
  "map en_operations (rm_entries (startup_caught t i m)) = map en_operations (rm_entries m)"
  "map en_operations (rm_entries (startup_finish alloc t i f m)) = map en_operations (rm_entries m)"
proof -
  define m1 where "m1 = (if f then stop_entry alloc i OutcomeStartupFailed m else m)"
  have "map en_operations (rm_entries (startup_finish alloc t i f m)) = map en_operations (rm_entries m1)"
    by (auto simp: startup_finish_def manager_defs Let_def m1_def [symmetric] nth_update_if)
  then show "map en_operations (rm_entries (startup_finish alloc t i f m)) = map en_operations (rm_entries m)"
    by (simp add: m1_def)
qed (auto simp: startup_take_def startup_install_def startup_start_def startup_started_def
      startup_caught_def manager_defs Let_def split: option.split prod.split list.split)

lemma operations_threads:
  "map en_operations (rm_entries (supervisor_scan m)) = map en_operations (rm_entries m)"
  "map en_operations (rm_entries (supervisor_check observed entries m)) = map en_operations (rm_entries m)"
  "map en_operations (rm_entries (supervisor_lifecycle alloc observed i rest s m)) = map en_operations (rm_entries m)"
  "map en_operations (rm_entries (supervisor_flush observed i rest s m)) = map en_operations (rm_entries m)"
  "map en_operations (rm_entries (supervisor_take observed i rest m)) = map en_operations (rm_entries m)"
  "map en_operations (rm_entries (supervisor_wake m)) = map en_operations (rm_entries m)"
  "map en_operations (rm_entries (dispatch_take m)) = map en_operations (rm_entries m)"
  "map en_operations (rm_entries (dispatch_done error m)) = map en_operations (rm_entries m)"
  "map en_operations (rm_entries (manager_request_shutdown alloc m)) = map en_operations (rm_entries m)"
  "map en_operations (rm_entries (snd (manager_remove alloc handle reason m))) = map en_operations (rm_entries m)"
  "map en_operations (rm_entries (entry_update i (\<lambda>e. e\<lparr>en_session := z\<rparr>) m)) = map en_operations (rm_entries m)"
  by (auto simp: supervisor_scan_def supervisor_check_def supervisor_flush_def supervisor_take_def
      supervisor_wake_def supervisor_lifecycle_def dispatch_take_def dispatch_done_def
      manager_request_shutdown_def manager_remove_def manager_defs Let_def split: option.split list.split)

lemma calls_same:
  "rm_calls (startup_take t m) = rm_calls m" "rm_calls (startup_install t i made m) = rm_calls m"
  "rm_calls (startup_start t i s m) = rm_calls m" "rm_calls (startup_started t i s m) = rm_calls m"
  "rm_calls (startup_caught t i m) = rm_calls m" "rm_calls (startup_finish alloc t i f m) = rm_calls m"
  "rm_calls (supervisor_scan m) = rm_calls m" "rm_calls (supervisor_check observed entries m) = rm_calls m"
  "rm_calls (supervisor_lifecycle alloc observed i rest s m) = rm_calls m"
  "rm_calls (supervisor_flush observed i rest s m) = rm_calls m"
  "rm_calls (supervisor_take observed i rest m) = rm_calls m" "rm_calls (supervisor_wake m) = rm_calls m"
  "rm_calls (dispatch_take m) = rm_calls m" "rm_calls (dispatch_done error m) = rm_calls m"
  "rm_calls (manager_request_shutdown alloc m) = rm_calls m"
  "rm_calls (snd (manager_remove alloc handle reason m)) = rm_calls m"
  "rm_calls (entry_update i g m) = rm_calls m"
  by (auto simp: startup_take_def startup_install_def startup_start_def startup_started_def
      startup_caught_def startup_finish_def supervisor_scan_def supervisor_check_def supervisor_flush_def
      supervisor_take_def supervisor_wake_def supervisor_lifecycle_def dispatch_take_def dispatch_done_def
      manager_request_shutdown_def manager_remove_def manager_defs Let_def
      split: option.split prod.split list.split)

lemma calls_inv_erase:
  assumes "calls_inv m" and core: "core_inv m" and sv: "rm_supervisor m = SvErase observed i rest"
  shows "calls_inv (supervisor_erase alloc observed i rest m)"
proof -
  have l: "i < length (rm_entries m)" using core_invD(6) [OF core, of i] sv by simp
  show ?thesis
    by (rule calls_inv_frame [OF assms(1)]) (simp_all add: erase_frame(5) erase_frame(6) [OF l] erased_entry_def Let_def)
qed

lemma calls_inv_step:
  assumes inv: "calls_inv m" and core: "core_inv m" and "manager_step m m'"
  shows "calls_inv m'"
  using assms(3)
  by (elim manager_stepE)
    (auto simp: calls_inv_frame [OF inv] calls_same operations_startup operations_threads
      calls_inv_acquire [OF inv core] calls_inv_release [OF inv] calls_inv_add [OF inv] calls_inv_erase [OF inv core])

section \<open>Draining\<close>

lemma core_retiring_stop:
  assumes "core_inv m" and "i < length (rm_entries m)"
    and "en_phase (rm_entries m ! i) = PhaseRetiring \<or>
      map_of (rm_registry m) (sh_id (en_handle (rm_entries m ! i))) \<noteq> Some i"
  shows "en_stop_requested (rm_entries m ! i)"
  using core_invD(7) [OF assms(1,2)] assms(3)
  by (auto simp: entry_ok_def stage_def split: if_splits)

lemma core_stopped_not_pending:
  assumes "core_inv m" and "list_all en_stop_requested (rm_entries m)"
  shows "rm_pending m = []"
proof (rule ccontr)
  assume "rm_pending m \<noteq> []"
  then obtain i where i: "i \<in> set (rm_pending m)" by fastforce
  then have "i < length (rm_entries m)" "map_of (rm_registry m) (sh_id (en_handle (rm_entries m ! i))) = Some i"
    using core_invD(6) [OF assms(1), of i] by simp_all
  with i show False using core_invD(7) [OF assms(1), of i] assms(2)
    by (auto simp: entry_ok_def stage_def list_all_length)
qed

lemma stop_all_stops:
  "(k, i) \<in> set reg \<Longrightarrow> i < length (rm_entries m) \<Longrightarrow>
     en_phase (rm_entries (stop_all alloc reg m) ! i) = PhaseRetiring \<or>
     en_stop_requested (rm_entries (stop_all alloc reg m) ! i)"
proof (induction reg arbitrary: m)
  case (Cons p reg)
  obtain k' j where p: "p = (k', j)" by fastforce
  let ?m = "stop_entry alloc j RuntimeShutdown m"
  have le: "entry_le (rm_entries ?m ! i) (rm_entries (stop_all alloc reg ?m) ! i)"
    using entries_le_stop_all [of ?m alloc reg] Cons.prems(2) by (simp add: entries_le_def)
  show ?case
  proof (cases "j = i")
    case True
    then have "en_phase (rm_entries ?m ! i) = PhaseRetiring \<or> en_stop_requested (rm_entries ?m ! i)"
      using Cons.prems(2) stopped_entry_stop by (auto simp: stopped_entry_def stops_def Let_def)
    with le show ?thesis by (auto simp: p entry_le_def)
  next
    case False
    then have "(k, i) \<in> set reg" using Cons.prems(1) p by simp
    with Cons.IH [of ?m] Cons.prems(2) show ?thesis by (simp add: p)
  qed
qed simp

lemma shutdown_stops:
  assumes inv: "core_inv m" and run: "rs_lifecycle (rm_counters m) = RuntimeRunning"
  shows "list_all en_stop_requested (rm_entries (manager_request_shutdown alloc m))"
proof -
  let ?drained = "m\<lparr>rm_counters := (rm_counters m)\<lparr>rs_lifecycle := RuntimeDraining\<rparr>\<rparr>"
  let ?m = "stop_all alloc (rm_registry m) ?drained"
  have core: "core_inv ?m" by (rule core_inv_stops) (use inv in \<open>simp_all add: core_inv_def\<close>)
  have "en_stop_requested (rm_entries ?m ! i)" if i: "i < length (rm_entries m)" for i
  proof (cases "map_of (rm_registry m) (sh_id (en_handle (rm_entries ?m ! i))) = Some i")
    case True
    then have "en_phase (rm_entries ?m ! i) = PhaseRetiring \<or> en_stop_requested (rm_entries ?m ! i)"
      using stop_all_stops [OF map_of_SomeD [OF True], of ?drained alloc] i by simp
    then show ?thesis using core_retiring_stop [OF core] i by auto
  next
    case False
    then show ?thesis using core_retiring_stop [OF core] i by simp
  qed
  then show ?thesis using run by (simp add: manager_request_shutdown_def Let_def changed_def list_all_length)
qed

lemma entries_le_stopped:
  assumes "entries_le m m'" and "length (rm_entries m') = length (rm_entries m)"
    and "list_all en_stop_requested (rm_entries m)"
  shows "list_all en_stop_requested (rm_entries m')"
  using assms by (auto simp: entries_le_def entry_le_def list_all_length)

lemma returned_update:
  assumes "t < length ws" and "ws ! t \<noteq> SwReturned"
  shows "returned (ws[t := w]) = (if w = SwReturned then Suc (returned ws) else returned ws)"
proof -
  obtain a b where ab: "ws = a @ ws ! t # b" "ws[t := w] = a @ w # b"
    using update_split [OF assms(1)] by metis
  have "returned ws = returned a + returned b"
    using arg_cong [OF ab(1), of returned] assms(2) by (simp add: returned_def)
  then show ?thesis by (simp add: ab(2) returned_def)
qed

lemma returned_all: "returned ws = length ws \<longleftrightarrow> list_all (\<lambda>w. w = SwReturned) ws"
proof -
  have "returned ws = length ws \<longleftrightarrow> filter (\<lambda>w. w = SwReturned) ws = ws"
    unfolding returned_def using length_filter_less [of _ ws] by (metis filter_id_conv less_irrefl)
  then show ?thesis by (simp add: filter_id_conv list_all_iff)
qed

lemma workers_same:
  "rm_workers (snd (snd (manager_add alloc sid given m))) = rm_workers m"
  "rm_workers (snd (manager_remove alloc handle reason m)) = rm_workers m"
  "rm_workers (snd (manager_acquire handle m)) = rm_workers m" "rm_workers (manager_release i m) = rm_workers m"
  "rm_workers (entry_update i g m) = rm_workers m" "rm_workers (manager_request_shutdown alloc m) = rm_workers m"
  "rm_workers (supervisor_scan m) = rm_workers m" "rm_workers (supervisor_check observed entries m) = rm_workers m"
  "rm_workers (supervisor_lifecycle alloc observed i rest s m) = rm_workers m"
  "rm_workers (supervisor_flush observed i rest s m) = rm_workers m"
  "rm_workers (supervisor_take observed i rest m) = rm_workers m"
  "rm_workers (supervisor_wake m) = rm_workers m"
  "rm_workers (dispatch_take m) = rm_workers m" "rm_workers (dispatch_done error m) = rm_workers m"
  by (auto simp: manager_add_def manager_remove_def manager_acquire_def manager_release_def
      manager_request_shutdown_def supervisor_scan_def supervisor_check_def supervisor_lifecycle_def
      supervisor_flush_def supervisor_take_def supervisor_wake_def dispatch_take_def dispatch_done_def
      record_rejection_def manager_defs Let_def split: option.split list.split)

lemma workers_done_same:
  "rm_workers_done (snd (snd (manager_add alloc sid given m))) = rm_workers_done m"
  "rm_workers_done (snd (manager_remove alloc handle reason m)) = rm_workers_done m"
  "rm_workers_done (snd (manager_acquire handle m)) = rm_workers_done m"
  "rm_workers_done (manager_release i m) = rm_workers_done m"
  "rm_workers_done (entry_update i g m) = rm_workers_done m"
  "rm_workers_done (manager_request_shutdown alloc m) = rm_workers_done m"
  "rm_workers_done (supervisor_scan m) = rm_workers_done m"
  "rm_workers_done (supervisor_check observed entries m) = rm_workers_done m"
  "rm_workers_done (supervisor_lifecycle alloc observed i rest s m) = rm_workers_done m"
  "rm_workers_done (supervisor_flush observed i rest s m) = rm_workers_done m"
  "rm_workers_done (supervisor_take observed i rest m) = rm_workers_done m"
  "rm_workers_done (supervisor_erase alloc observed i rest m) = rm_workers_done m"
  "rm_workers_done (supervisor_wake m) = rm_workers_done m"
  "rm_workers_done (dispatch_take m) = rm_workers_done m"
  "rm_workers_done (dispatch_done error m) = rm_workers_done m"
  by (auto simp: manager_add_def manager_remove_def manager_acquire_def manager_release_def
      manager_request_shutdown_def supervisor_scan_def supervisor_check_def supervisor_lifecycle_def
      supervisor_flush_def supervisor_take_def supervisor_erase_def supervisor_wake_def dispatch_take_def
      dispatch_done_def record_rejection_def manager_defs Let_def split: option.split list.split)

lemma workers_startup:
  "\<exists>w. rm_workers (startup_take t m) = (rm_workers m)[t := w] \<and>
     rm_workers_done (startup_take t m) = rm_workers_done m + (if w = SwReturned then 1 else 0)"
  "\<exists>w. w \<noteq> SwReturned \<and> rm_workers (startup_install t i made m) = (rm_workers m)[t := w] \<and>
     rm_workers_done (startup_install t i made m) = rm_workers_done m"
  "\<exists>w. w \<noteq> SwReturned \<and> rm_workers (startup_start t i s m) = (rm_workers m)[t := w] \<and>
     rm_workers_done (startup_start t i s m) = rm_workers_done m"
  "\<exists>w. w \<noteq> SwReturned \<and> rm_workers (startup_started t i s m) = (rm_workers m)[t := w] \<and>
     rm_workers_done (startup_started t i s m) = rm_workers_done m"
  "\<exists>w. w \<noteq> SwReturned \<and> rm_workers (startup_caught t i m) = (rm_workers m)[t := w] \<and>
     rm_workers_done (startup_caught t i m) = rm_workers_done m"
  "\<exists>w. w \<noteq> SwReturned \<and> rm_workers (startup_finish alloc t i f m) = (rm_workers m)[t := w] \<and>
     rm_workers_done (startup_finish alloc t i f m) = rm_workers_done m"
  by (auto simp: startup_take_def startup_install_def startup_start_def startup_started_def startup_caught_def
      startup_finish_def manager_defs Let_def split: option.split sum.split prod.split list.split)

lemma workers_inv_update:
  assumes "workers_inv m" and "t < length (rm_workers m)" and "rm_workers m ! t \<noteq> SwReturned"
    and "rm_config m' = rm_config m" and "rm_workers m' = (rm_workers m)[t := w]"
    and "rm_workers_done m' = rm_workers_done m + (if w = SwReturned then 1 else 0)"
  shows "workers_inv m'"
  using assms by (simp add: workers_inv_def returned_update)

lemma manager_step_config: "manager_step m m' \<Longrightarrow> rm_config m' = rm_config m"
  using manager_step_quiet [of m m']
  by (auto simp: quiet_def manager_add_def Let_def record_rejection_def manager_defs supervisor_erase_def)

lemma workers_step:
  assumes "manager_step m m'"
  shows "rm_workers m' = rm_workers m \<and> rm_workers_done m' = rm_workers_done m \<or>
    (\<exists>t w. t < length (rm_workers m) \<and> rm_workers m ! t \<noteq> SwReturned \<and>
       rm_workers m' = (rm_workers m)[t := w] \<and>
       rm_workers_done m' = rm_workers_done m + (if w = SwReturned then 1 else 0))"
  using assms
proof (elim manager_stepE)
  fix t assume t: "t < length (rm_workers m)" "rm_workers m ! t = SwWaiting" "m' = startup_take t m"
  then show ?thesis using workers_startup(1) [of t m] by (metis StartupWorker.distinct(11))
next
  fix t i assume "t < length (rm_workers m)" "rm_workers m ! t = SwFactory i" "m' = startup_install t i None m"
  then show ?thesis using workers_startup(2) [of t i None m] by force
next
  fix t i and s :: ConversationSession
  assume "t < length (rm_workers m)" "rm_workers m ! t = SwFactory i" "m' = startup_install t i (Some s) m"
  then show ?thesis using workers_startup(2) [of t i "Some s" m] by force
next
  fix t i and s :: ConversationSession
  assume "t < length (rm_workers m)" "rm_workers m ! t = SwStart i" "m' = startup_start t i s m"
  then show ?thesis using workers_startup(3) [of t i s m] by force
next
  fix t i and s :: ConversationSession
  assume "t < length (rm_workers m)" "rm_workers m ! t = SwStarting i" "m' = startup_started t i s m"
  then show ?thesis using workers_startup(4) [of t i s m] by force
next
  fix t i
  assume "t < length (rm_workers m)" "rm_workers m ! t = SwCaught i" "m' = startup_caught t i m"
  then show ?thesis using workers_startup(5) [of t i m] by force
next
  fix t i f and alloc :: "u64 \<Rightarrow> bool"
  assume "t < length (rm_workers m)" "rm_workers m ! t = SwFinish i f" "m' = startup_finish alloc t i f m"
  then show ?thesis using workers_startup(6) [of alloc t i f m] by force
qed (simp_all add: workers_same workers_done_same erase_frame)

lemma workers_inv_step:
  assumes inv: "workers_inv m" and step: "manager_step m m'"
  shows "workers_inv m'"
  using workers_step [OF step]
proof (elim disjE exE conjE)
  assume "rm_workers m' = rm_workers m" "rm_workers_done m' = rm_workers_done m"
  then show ?thesis using inv manager_step_config [OF step] by (simp add: workers_inv_def)
qed (rule workers_inv_update [OF inv _ _ manager_step_config [OF step]])

lemma lifecycle_same:
  "rs_lifecycle (rm_counters (snd (snd (manager_add alloc sid given m)))) = rs_lifecycle (rm_counters m)"
  "rs_lifecycle (rm_counters (snd (manager_remove alloc handle reason m))) = rs_lifecycle (rm_counters m)"
  "rs_lifecycle (rm_counters (snd (manager_acquire handle m))) = rs_lifecycle (rm_counters m)"
  "rs_lifecycle (rm_counters (manager_release i m)) = rs_lifecycle (rm_counters m)"
  "rs_lifecycle (rm_counters (entry_update i g m)) = rs_lifecycle (rm_counters m)"
  "rs_lifecycle (rm_counters (startup_take t m)) = rs_lifecycle (rm_counters m)"
  "rs_lifecycle (rm_counters (startup_install t i made m)) = rs_lifecycle (rm_counters m)"
  "rs_lifecycle (rm_counters (startup_start t i s m)) = rs_lifecycle (rm_counters m)"
  "rs_lifecycle (rm_counters (startup_started t i s m)) = rs_lifecycle (rm_counters m)"
  "rs_lifecycle (rm_counters (startup_caught t i m)) = rs_lifecycle (rm_counters m)"
  "rs_lifecycle (rm_counters (startup_finish alloc t i f m)) = rs_lifecycle (rm_counters m)"
  "rs_lifecycle (rm_counters (supervisor_scan m)) = rs_lifecycle (rm_counters m)"
  "rs_lifecycle (rm_counters (supervisor_check observed entries m)) = rs_lifecycle (rm_counters m)"
  "rs_lifecycle (rm_counters (supervisor_lifecycle alloc observed i rest s m)) = rs_lifecycle (rm_counters m)"
  "rs_lifecycle (rm_counters (supervisor_flush observed i rest s m)) = rs_lifecycle (rm_counters m)"
  "rs_lifecycle (rm_counters (supervisor_take observed i rest m)) = rs_lifecycle (rm_counters m)"
  "rs_lifecycle (rm_counters (supervisor_erase alloc observed i rest m)) = rs_lifecycle (rm_counters m)"
  "rs_lifecycle (rm_counters (supervisor_wake m)) = rs_lifecycle (rm_counters m)"
  "rs_lifecycle (rm_counters (dispatch_done error m)) = rs_lifecycle (rm_counters m)"
  by (auto simp: manager_add_def manager_remove_def manager_acquire_def manager_release_def
      startup_take_def startup_install_def startup_start_def startup_started_def startup_caught_def
      startup_finish_def supervisor_scan_def supervisor_check_def supervisor_lifecycle_def
      supervisor_flush_def supervisor_take_def supervisor_erase_def supervisor_wake_def
      dispatch_done_def record_rejection_def manager_defs Let_def
      split: option.split list.split prod.split AdmissionStatus.split)

lemma manager_step_lifecycle:
  assumes "manager_step m m'"
  shows "rs_lifecycle (rm_counters m') = rs_lifecycle (rm_counters m) \<or>
    (\<exists>alloc. rs_lifecycle (rm_counters m) = RuntimeRunning \<and> m' = manager_request_shutdown alloc m) \<or>
    rm_dispatcher m = NdWaiting \<and> rm_supervisor_done m \<and> rm_notifications m = [] \<and> m' = dispatch_take m"
  using assms
  by (elim manager_stepE)
    (auto simp: lifecycle_same manager_request_shutdown_def dispatch_take_def dispatch_ready_def split: list.split)

text \<open>Once the supervisor has returned only the dispatcher and calls without effect are left.\<close>

lemma supervisor_done_step:
  assumes inv: "drain_inv m" and workers: "workers_inv m" and fin: "rm_supervisor_done m"
    and step: "manager_step m m'"
  shows "rm_registry m' = [] \<and> rm_supervisor m' = SvReturned \<and> rm_supervisor_done m' \<and>
    (rm_notifications m' = rm_notifications m \<and>
       (rm_dispatcher m' = rm_dispatcher m \<or>
        (\<exists>n. rm_dispatcher m = NdNotifying n) \<and> rm_dispatcher m' = NdWaiting) \<and>
       rs_lifecycle (rm_counters m') = rs_lifecycle (rm_counters m) \<or>
     rm_dispatcher m = NdWaiting \<and> m' = dispatch_take m)"
proof -
  have d: "rm_registry m = []" "rm_supervisor m = SvReturned" "rs_lifecycle (rm_counters m) \<noteq> RuntimeRunning"
    using inv fin by (simp_all add: drain_inv_def)
  have "returned (rm_workers m) = length (rm_workers m)"
    using inv workers fin by (simp add: drain_inv_def workers_inv_def)
  then have w: "t < length (rm_workers m) \<Longrightarrow> rm_workers m ! t = SwReturned" for t
    by (simp add: returned_all list_all_length)
  from step show ?thesis
    by (elim manager_stepE)
      (simp_all add: d fin w manager_add_def manager_admission_def record_rejection_def Let_def
        manager_remove_def manager_acquire_def matching_def manager_release_def manager_request_shutdown_def
        manager_defs dispatch_take_def dispatch_done_def split: list.split AdmissionStatus.split)
qed

lemma supervisor_step:
  assumes "manager_step m m'" and "\<not> rm_supervisor_done m"
  shows "rm_dispatcher m' = rm_dispatcher m \<or> (\<exists>n. rm_dispatcher m' = NdNotifying n) \<or>
      (\<exists>n. rm_dispatcher m = NdNotifying n \<and> rm_dispatcher m' = NdWaiting)"
    and "(rm_supervisor m' = SvReturned \<longleftrightarrow> rm_supervisor m = SvReturned) \<and> \<not> rm_supervisor_done m' \<or>
      m' = supervisor_scan m \<and> rm_supervisor m = SvScan"
proof -
  show "rm_dispatcher m' = rm_dispatcher m \<or> (\<exists>n. rm_dispatcher m' = NdNotifying n) \<or>
      (\<exists>n. rm_dispatcher m = NdNotifying n \<and> rm_dispatcher m' = NdWaiting)"
    using assms by (elim manager_stepE)
      (auto simp: manager_add_def manager_remove_def manager_acquire_def manager_release_def
        manager_request_shutdown_def startup_take_def startup_install_def startup_start_def startup_started_def
        startup_caught_def startup_finish_def supervisor_scan_def supervisor_check_def supervisor_lifecycle_def
        supervisor_flush_def supervisor_take_def supervisor_erase_def supervisor_wake_def dispatch_ready_def
        dispatch_take_def dispatch_done_def record_rejection_def manager_defs Let_def
        split: option.split list.split prod.split)
  show "(rm_supervisor m' = SvReturned \<longleftrightarrow> rm_supervisor m = SvReturned) \<and> \<not> rm_supervisor_done m' \<or>
      m' = supervisor_scan m \<and> rm_supervisor m = SvScan"
    using assms by (elim manager_stepE)
      (auto simp: manager_add_def manager_remove_def manager_acquire_def manager_release_def
        manager_request_shutdown_def startup_take_def startup_install_def startup_start_def startup_started_def
        startup_caught_def startup_finish_def supervisor_check_def supervisor_lifecycle_def
        supervisor_flush_def supervisor_take_def supervisor_erase_def supervisor_wake_def
        dispatch_take_def dispatch_done_def record_rejection_def manager_defs Let_def
        split: option.split list.split prod.split)
qed

lemma drain_stops_step:
  assumes inv: "drain_inv m" and core: "core_inv m" and step: "manager_step m m'"
    and drain: "rs_lifecycle (rm_counters m') \<noteq> RuntimeRunning"
  shows "list_all en_stop_requested (rm_entries m')"
proof (cases "rs_lifecycle (rm_counters m) = RuntimeRunning")
  case True
  with manager_step_lifecycle [OF step] drain inv
  obtain alloc where "m' = manager_request_shutdown alloc m" by (auto simp: drain_inv_def)
  then show ?thesis using shutdown_stops [OF core True] by simp
next
  case False
  have le: "entries_le m m'" using manager_step_entries [OF core step] .
  have "length (rm_entries m') = length (rm_entries m)"
    using manager_step_quiet [OF step]
  proof (elim disjE exE conjE)
    assume "quiet m m'"
    then show ?thesis using map_eq_imp_length_eq by (auto simp: quiet_def)
  qed (use False in \<open>auto simp: manager_add_def manager_admission_def Let_def record_rejection_def
      supervisor_erase_def manager_defs\<close>)
  then show ?thesis using entries_le_stopped [OF le] inv False by (simp add: drain_inv_def)
qed

lemma drain_inv_step:
  assumes inv: "drain_inv m" and core: "core_inv m" and workers: "workers_inv m" and step: "manager_step m m'"
  shows "drain_inv m'"
proof (cases "rm_supervisor_done m")
  case True
  have "rm_workers_done m' = rm_workers_done m"
  proof -
    have "returned (rm_workers m) = length (rm_workers m)"
      using inv workers True by (simp add: drain_inv_def workers_inv_def)
    then have "t < length (rm_workers m) \<Longrightarrow> rm_workers m ! t = SwReturned" for t
      by (simp add: returned_all list_all_length)
    then show ?thesis using workers_step [OF step] by auto
  qed
  then show ?thesis
    using supervisor_done_step [OF inv workers True step] drain_stops_step [OF inv core step]
      manager_step_config [OF step] inv True
    by (auto simp: drain_inv_def dispatch_take_def split: list.splits)
next
  case False
  then have d: "rm_supervisor m \<noteq> SvReturned" "rm_dispatcher m \<noteq> NdReturned"
    "rs_lifecycle (rm_counters m) \<noteq> RuntimeStopped"
    using inv by (auto simp: drain_inv_def)
  have disp: "rm_dispatcher m' \<noteq> NdReturned" using supervisor_step(1) [OF step False] d by auto
  have life: "rs_lifecycle (rm_counters m') \<noteq> RuntimeStopped"
    using manager_step_lifecycle [OF step] d False by (auto simp: manager_request_shutdown_def Let_def changed_def)
  have "(rm_supervisor_done m' \<longleftrightarrow> rm_supervisor m' = SvReturned) \<and>
    (rm_supervisor_done m' \<longrightarrow> rm_registry m' = [] \<and> rs_lifecycle (rm_counters m') \<noteq> RuntimeRunning \<and>
        rm_workers_done m' = rc_startup_workers (rm_config m'))"
    using supervisor_step(2) [OF step False]
  proof (elim disjE conjE)
    assume "m' = supervisor_scan m"
    then show ?thesis using False by (simp add: supervisor_scan_def manager_defs)
  qed (use d in simp_all)
  then show ?thesis
    using disp life drain_stops_step [OF inv core step] unfolding drain_inv_def by blast
qed

section \<open>Notifications\<close>

lemma notify_inv_frame [simp]:
  "notify_inv (m\<lparr>rm_pending := p\<rparr>) = notify_inv m" "notify_inv (m\<lparr>rm_counters := c\<rparr>) = notify_inv m"
  "notify_inv (m\<lparr>rm_registry := r\<rparr>) = notify_inv m" "notify_inv (m\<lparr>rm_entries := es\<rparr>) = notify_inv m"
  "notify_inv (m\<lparr>rm_workers := ws\<rparr>) = notify_inv m" "notify_inv (m\<lparr>rm_supervisor := sv\<rparr>) = notify_inv m"
  "notify_inv (m\<lparr>rm_revision := v\<rparr>) = notify_inv m" "notify_inv (m\<lparr>rm_generation := g\<rparr>) = notify_inv m"
  "notify_inv (m\<lparr>rm_calls := k\<rparr>) = notify_inv m" "notify_inv (m\<lparr>rm_workers_done := w\<rparr>) = notify_inv m"
  "notify_inv (m\<lparr>rm_supervisor_done := b\<rparr>) = notify_inv m"
  "notify_inv (changed m) = notify_inv m" "notify_inv (entry_update i f m) = notify_inv m"
  "notify_inv (set_startup t pc m) = notify_inv m" "notify_inv (set_supervisor pc' m) = notify_inv m"
  by (simp_all add: notify_inv_def outstanding_def manager_defs)

lemma notify_inv_publish [simp]:
  assumes "notify_inv m"
  shows "notify_inv (manager_publish alloc i ty m)"
proof (cases "rm_has_notify m \<and> rm_sequence m \<noteq> u64_max")
  case True
  have seq: "rm_sequence m < rm_sequence m + 1" using True by (simp add: u64_less_inc)
  have out: "\<forall>n \<in> set (outstanding m). nt_sequence n < rm_sequence m" using assms by (simp add: notify_inv_def)
  then have "\<forall>n \<in> set (outstanding m). nt_sequence n < rm_sequence m + 1" using seq less_trans by blast
  then show ?thesis using True seq out assms
    by (simp add: manager_publish_def drop_notification_def Let_def)
      (simp add: notify_inv_def outstanding_def sorted_wrt_append)
qed (use assms in \<open>auto simp: manager_publish_def drop_notification_def Let_def\<close>)

lemma notify_inv_stop [simp]: "notify_inv m \<Longrightarrow> notify_inv (stop_entry alloc i reason m)"
  by (simp add: stop_entry_def Let_def)

lemma notify_inv_stop_all: "notify_inv m \<Longrightarrow> notify_inv (stop_all alloc reg m)"
  by (induction reg arbitrary: m) auto

lemma notify_inv_clients:
  assumes "notify_inv m"
  shows "notify_inv (snd (snd (manager_add alloc sid given m)))"
    "notify_inv (snd (manager_remove alloc handle reason m))" "notify_inv (snd (manager_acquire handle m))"
    "notify_inv (manager_release i m)" "notify_inv (manager_request_shutdown alloc m)"
proof -
  have "notify_inv (m\<lparr>rm_generation := g, rm_entries := es, rm_registry := r, rm_pending := p, rm_counters := c\<rparr>)"
    for g es r p c using assms by (simp add: notify_inv_def outstanding_def)
  then show "notify_inv (snd (snd (manager_add alloc sid given m)))"
    using assms by (simp add: manager_add_def Let_def record_rejection_def)
  show "notify_inv (manager_request_shutdown alloc m)"
    using assms notify_inv_stop_all [of "m\<lparr>rm_counters := (rm_counters m)\<lparr>rs_lifecycle := RuntimeDraining\<rparr>\<rparr>"]
    by (simp add: manager_request_shutdown_def Let_def)
qed (use assms in \<open>simp_all add: manager_remove_def manager_acquire_def manager_release_def Let_def
    split: option.split\<close>)

lemma notify_inv_threads:
  assumes "notify_inv m"
  shows "notify_inv (startup_take t m)" "notify_inv (startup_install t i made m)"
    "notify_inv (startup_start t i s m)" "notify_inv (startup_started t i s m)"
    "notify_inv (startup_caught t i m)" "notify_inv (startup_finish alloc t i f m)"
    "notify_inv (supervisor_scan m)" "notify_inv (supervisor_check observed entries m)"
    "notify_inv (supervisor_lifecycle alloc observed i rest s m)"
    "notify_inv (supervisor_flush observed i rest s m)" "notify_inv (supervisor_take observed i rest m)"
    "notify_inv (supervisor_wake m)"
  using assms by (simp_all add: startup_take_def startup_install_def startup_start_def startup_started_def
    startup_caught_def startup_finish_def supervisor_scan_def supervisor_check_def supervisor_lifecycle_def
    supervisor_flush_def supervisor_take_def supervisor_wake_def Let_def
    split: option.split list.split prod.split)

lemma notify_inv_erase:
  assumes "notify_inv m"
  shows "notify_inv (supervisor_erase alloc observed i rest m)"
proof -
  have "notify_inv (m\<lparr>rm_counters := c, rm_registry := r\<rparr>)" for c r
    using assms by (simp add: notify_inv_def outstanding_def)
  then show ?thesis by (simp add: supervisor_erase_def Let_def)
qed

lemma notify_inv_dispatch:
  assumes "notify_inv m"
  shows "rm_dispatcher m = NdWaiting \<Longrightarrow> notify_inv (dispatch_take m)"
    and "rm_dispatcher m = NdNotifying n \<Longrightarrow> notify_inv (dispatch_done error m)"
  using assms by (auto simp: dispatch_take_def dispatch_done_def notify_inv_def outstanding_def split: list.split)

lemma notify_inv_step: "notify_inv m \<Longrightarrow> manager_step m m' \<Longrightarrow> notify_inv m'"
  by (elim manager_stepE)
    (auto simp: notify_inv_clients notify_inv_threads notify_inv_erase notify_inv_dispatch)

section \<open>The invariant of the runtime\<close>

definition manager_inv :: "RuntimeManager \<Rightarrow> bool" where
  "manager_inv m \<longleftrightarrow> core_inv m \<and> calls_inv m \<and> handle_inv m \<and> account_inv m \<and> workers_inv m \<and>
     drain_inv m \<and> notify_inv m"

lemma manager_inv_init: "manager_init m \<Longrightarrow> manager_inv m"
  unfolding manager_inv_def
  by (intro conjI core_inv_init)
    (auto simp: manager_new_def calls_inv_def handle_inv_def account_inv_def workers_inv_def drain_inv_def
      notify_inv_def outstanding_def returned_def zero_runtime_stats_def split: if_splits)

lemma manager_step_inv: "manager_inv m \<Longrightarrow> manager_step m m' \<Longrightarrow> manager_inv m'"
  unfolding manager_inv_def
  by (blast intro: core_step_inv calls_inv_step handle_inv_step account_inv_step workers_inv_step
      drain_inv_step notify_inv_step)

fun runtime_rank :: "RuntimeLifecycle \<Rightarrow> nat" where
  "runtime_rank RuntimeRunning = 0"
| "runtime_rank RuntimeDraining = 1"
| "runtime_rank RuntimeStopped = 2"

lemma runtime_rank_le [simp]: "runtime_rank state \<le> 2"
  by (cases state) simp_all

lemma manager_step_rank:
  assumes "manager_inv m" and step: "manager_step m m'"
  shows "runtime_rank (rs_lifecycle (rm_counters m)) \<le> runtime_rank (rs_lifecycle (rm_counters m'))"
  using manager_step_lifecycle [OF step] assms(1)
  by (auto simp: manager_inv_def drain_inv_def manager_request_shutdown_def Let_def changed_def dispatch_take_def)

interpretation manager: monotone_system manager_init manager_step manager_inv
  "\<lambda>m. runtime_rank (rs_lifecycle (rm_counters m))"
proof
  show "manager_inv m" if "manager_init m" for m using that by (rule manager_inv_init)
  show "manager_inv m'" if "manager_inv m" "manager_step m m'" for m m'
    using that by (rule manager_step_inv)
  show "runtime_rank (rs_lifecycle (rm_counters m)) \<le> runtime_rank (rs_lifecycle (rm_counters m'))"
    if "manager_inv m" "manager_step m m'" for m m'
    using that by (rule manager_step_rank)
qed

lemma manager_steps_entries:
  "steps manager_step m m' \<Longrightarrow> manager_inv m \<Longrightarrow> entries_le m m'"
proof (induction rule: steps.induct)
  case (steps_step s t u)
  then have "entries_le t u"
    using manager_step_entries manager.steps_inv [OF steps_step.hyps(1)] by (auto simp: manager_inv_def)
  with steps_step show ?case by (blast intro: entries_le_trans)
qed (simp add: entries_le_same)

end
