(* ===== verification/Runtime_Properties.thy ===== *)
theory Runtime_Properties
  imports Runtime_Invariant
begin

text \<open>
  What the runtime manager guarantees in every reachable state, with the run of the witnesses.
\<close>

lemma sessions_kept:
  assumes "manager_step m m'" and "i < length (rm_entries m)" and "en_session (rm_entries m ! i) \<noteq> None"
    and "en_session (rm_entries m' ! i) = None"
  shows "\<exists>observed rest. rm_supervisor m = SvTake observed i rest \<and> en_operations (rm_entries m ! i) = 0"
proof -
  define gone where "gone = (\<lambda>m :: RuntimeManager. map (\<lambda>e. en_session e = None) (rm_entries m))"
  have same: "gone m' ! i = gone m ! i \<Longrightarrow> length (rm_entries m) \<le> length (rm_entries m') \<Longrightarrow> ?thesis"
    using assms(2-4) by (simp add: gone_def)
  have stop: "gone (stop_entry alloc j reason m) = gone m" for alloc j reason m by (simp add: gone_def)
  have all: "gone (stop_all alloc reg m) = gone m" for alloc reg m
    by (induction reg arbitrary: m) (auto simp: stop)
  have finish: "gone (startup_finish alloc t j f m) = gone m" for alloc t j f
  proof -
    define m1 where "m1 = (if f then stop_entry alloc j OutcomeStartupFailed m else m)"
    have "gone (startup_finish alloc t j f m) = gone m1"
      by (auto simp: gone_def startup_finish_def manager_defs Let_def m1_def [symmetric] nth_update_if)
    then show ?thesis by (simp add: m1_def stop)
  qed
  have shutdown: "gone (manager_request_shutdown alloc m) = gone m" for alloc
    using all [of alloc "rm_registry m" "m\<lparr>rm_counters := (rm_counters m)\<lparr>rs_lifecycle := RuntimeDraining\<rparr>\<rparr>"]
    by (simp add: manager_request_shutdown_def Let_def gone_def changed_def)
  have len: "length (rm_entries m) = length (rm_entries m')" if "gone m' = gone m"
    using arg_cong [OF that, of length] by (simp add: gone_def)
  have "gone m' = gone m \<Longrightarrow> ?thesis" using same len by simp
  with assms show ?thesis
    by (elim manager_stepE)
      (auto simp: finish shutdown,
       auto simp: gone_def manager_add_def manager_remove_def manager_acquire_def manager_release_def
        startup_take_def startup_install_def startup_start_def startup_started_def startup_caught_def
        supervisor_scan_def supervisor_check_def supervisor_lifecycle_def supervisor_flush_def
        supervisor_take_def supervisor_erase_def supervisor_wake_def dispatch_take_def dispatch_done_def
        record_rejection_def manager_defs Let_def nth_append nth_update_if
        split: option.splits list.splits prod.splits if_splits)
qed

section \<open>Properties\<close>

lemma registry_length:
  assumes "core_inv m"
  shows "length (rm_registry m) \<le> length (rm_entries m)"
proof -
  have "card (set (map snd (rm_registry m))) \<le> card {..<length (rm_entries m)}"
    using assms by (intro card_mono) (auto simp: core_inv_def places_ok_def)
  then show ?thesis using distinct_card [OF registry_distinct [OF assms]] by simp
qed

text \<open>
  The limits of the runtime. In every reachable state the registry, the startup queue and the
  notification queue are within their configured bounds, each session id is registered once,
  the sessions admitted are exactly the sessions retired and the sessions registered, without
  wrap-around, and the rejections are the sum of their reasons.
\<close>

theorem manager_accounting:
  assumes "reachable manager_init manager_step m"
  shows "length (rm_registry m) \<le> rc_max_sessions (rm_config m) \<and>
    length (rm_pending m) \<le> rc_max_pending_starts (rm_config m) \<and>
    length (rm_notifications m) \<le> rc_max_pending_notifications (rm_config m) \<and>
    distinct (map fst (rm_registry m)) \<and>
    (let c = rm_counters m
     in unat (rs_admitted c) = unat (rs_retired c) + length (rm_registry m) \<and>
        rs_rejected c = rs_rejected_invalid c + rs_rejected_duplicate c + rs_rejected_capacity c +
          rs_rejected_queue c + rs_rejected_draining c + rs_rejected_identity c)"
proof -
  have inv: "core_inv m" "handle_inv m" "account_inv m" "notify_inv m"
    using manager.reachable_inv [OF assms] by (auto simp: manager_inv_def)
  let ?n = "length (rm_entries m)" and ?r = "length (rm_registry m)"
  have le: "?r \<le> ?n" using registry_length [OF inv(1)] .
  have small: "?n < 2 ^ 64" using inv(2) by (simp add: handle_inv_def)
  have "rs_retired (rm_counters m) = of_nat ?n - of_nat ?r"
    using inv(3) by (simp add: account_inv_def Let_def)
  also have "\<dots> = of_nat (?n - ?r)" using le by (simp add: of_nat_diff)
  finally have "unat (rs_retired (rm_counters m)) = ?n - ?r"
    using u64_of_nat [of "?n - ?r"] small by simp
  moreover have "rs_admitted (rm_counters m) = of_nat ?n" using inv(3) by (simp add: account_inv_def Let_def)
  then have "unat (rs_admitted (rm_counters m)) = ?n" using u64_of_nat [OF small] by metis
  ultimately show ?thesis
    using inv le core_invD(1) [OF inv(1)] by (simp add: account_inv_def notify_inv_def umap_wf_def Let_def)
qed

text \<open>
  C1: the promises of an admission. In every reachable state neither promise of an admitted
  session has been set twice; \<open>retired\<close> is ready exactly when the session has left the registry,
  carries its outcome, and then \<open>started\<close> is ready too, the session object is destroyed, no call
  on it is in flight and no startup worker holds it.
\<close>

theorem manager_promises_kept:
  assumes "reachable manager_init manager_step m" and "i < length (rm_entries m)"
  shows "let e = rm_entries m ! i
    in en_started e \<noteq> Broken \<and> en_retired e \<noteq> Broken \<and>
      (en_retired e \<noteq> Unset \<longleftrightarrow> map_of (rm_registry m) (sh_id (en_handle e)) \<noteq> Some i) \<and>
      (en_retired e \<noteq> Unset \<longrightarrow> en_retired e = Ready (en_outcome e) \<and> en_started e \<noteq> Unset \<and>
         en_session e = None \<and> i \<notin> set (rm_calls m) \<and> i \<notin> set (held (rm_workers m)))"
proof -
  have inv: "core_inv m" "calls_inv m"
    using manager.reachable_inv [OF assms(1)] by (auto simp: manager_inv_def)
  let ?e = "rm_entries m ! i"
  let ?st = "stage (rm_registry m) (rm_pending m) (rm_workers m) (rm_supervisor m) i ?e"
  have st: "stage_ok ?st ?e" using core_invD(7) [OF inv(1) assms(2)] by (simp add: entry_ok_def)
  have gone: "?st = Gone \<longleftrightarrow> map_of (rm_registry m) (sh_id (en_handle ?e)) \<noteq> Some i"
    by (simp add: stage_def)
  have "en_operations ?e = 0 \<Longrightarrow> i \<notin> set (rm_calls m)"
    using inv(2) assms(2) by (simp add: calls_inv_def count_list_0_iff)
  moreover have "?st = Gone \<Longrightarrow> i \<notin> set (held (rm_workers m))"
    using core_invD(6) [OF inv(1), of i] gone by auto
  ultimately show ?thesis
    using st gone by (cases ?st) (auto simp: Let_def split: if_splits)
qed

text \<open>
  C31: a retired handle is stale for ever. Once the session of an accepted handle is retired, then in
  that and every later state, also when its id has been admitted again, the handle matches
  nothing: \<open>find\<close> and every call report it, \<open>remove\<close> and \<open>fail\<close> change nothing.
\<close>

theorem manager_stale_handle:
  assumes "reachable manager_init manager_step m" and "i < length (rm_entries m)"
    and "en_retired (rm_entries m ! i) \<noteq> Unset" and "steps manager_step m m'"
  defines "handle \<equiv> en_handle (rm_entries m ! i)"
  shows "manager_find handle m' = None \<and> manager_acquire handle m' = (None, m') \<and>
    fst (manager_remove alloc handle reason m') \<in> {NotFound, StaleHandle} \<and>
    snd (manager_remove alloc handle reason m') = m'"
proof -
  have inv: "manager_inv m" "manager_inv m'"
    using manager.reachable_inv [OF assms(1)] manager.steps_inv [OF assms(4)] by auto
  then have core: "core_inv m" "core_inv m'" "handle_inv m'" by (auto simp: manager_inv_def)
  have le: "i < length (rm_entries m')" "entry_le (rm_entries m ! i) (rm_entries m' ! i)"
    using manager_steps_entries [OF assms(4) inv(1)] assms(2) by (auto simp: entries_le_def)
  have "en_retired (rm_entries m ! i) \<noteq> Broken"
    using core_invD(7) [OF core(1) assms(2)] by (cases "stage (rm_registry m) (rm_pending m) (rm_workers m)
      (rm_supervisor m) i (rm_entries m ! i)") (auto simp: entry_ok_def)
  then obtain v where "en_retired (rm_entries m ! i) = Ready v"
    using assms(3) by (cases "en_retired (rm_entries m ! i)") auto
  then have ret: "en_retired (rm_entries m' ! i) \<noteq> Unset" and h: "en_handle (rm_entries m' ! i) = handle"
    using le(2) by (auto simp: entry_le_def handle_def)
  have gone: "map_of (rm_registry m') (sh_id handle) \<noteq> Some i"
    using core_invD(7) [OF core(2) le(1)] ret h by (auto simp: entry_ok_def stage_def split: if_splits)
  have other: "sh_generation (en_handle (rm_entries m' ! j)) \<noteq> sh_generation handle"
    if "map_of (rm_registry m') (sh_id handle) = Some j" for j
  proof -
    have j: "j < length (rm_entries m')" "j \<noteq> i" using core_invD(5) [OF core(2) that] that gone by auto
    have "Suc i < 2 ^ 64" "Suc j < 2 ^ 64" using core(3) j(1) le(1) by (auto simp: handle_inv_def)
    moreover have "sh_generation handle = of_nat (Suc i)"
      "sh_generation (en_handle (rm_entries m' ! j)) = of_nat (Suc j)"
      using core(3) j(1) le(1) h by (auto simp: handle_inv_def simp del: of_nat_Suc)
    ultimately show ?thesis using j(2) u64_of_nat [of "Suc i"] u64_of_nat [of "Suc j"]
      by (metis nat.inject)
  qed
  then have "matching handle m' = None" by (auto simp: matching_def split: option.split)
  then show ?thesis using other
    by (auto simp: manager_find_def manager_acquire_def manager_remove_def split: option.split)
qed

text \<open>
  C11: shutdown is complete when it is reported. In a reachable state whose lifecycle is \<open>Stopped\<close>,
  the registry, the startup queue and the notification queue are empty, every thread of the
  runtime has returned, and both promises of every session ever admitted are ready; the
  lifecycle stays \<open>Stopped\<close> and every later admission is refused.
\<close>

theorem manager_shutdown_complete:
  assumes "reachable manager_init manager_step m" and "wait_shutdown_ready m"
    and "steps manager_step m m'"
  shows "rm_registry m = [] \<and> rm_pending m = [] \<and> rm_notifications m = [] \<and> manager_joined m \<and>
    list_all (\<lambda>e. en_started e \<noteq> Unset \<and> en_retired e = Ready (en_outcome e)) (rm_entries m) \<and>
    wait_shutdown_ready m' \<and> fst (manager_add alloc sid factory_given m') \<noteq> AdmissionAccepted"
proof -
  have inv: "manager_inv m" using manager.reachable_inv [OF assms(1)] .
  then have p: "core_inv m" "workers_inv m" "drain_inv m" by (auto simp: manager_inv_def)
  have d: "rm_registry m = []" "rm_supervisor m = SvReturned" "rm_dispatcher m = NdReturned"
    "rm_notifications m = []" "rm_workers_done m = rc_startup_workers (rm_config m)"
    "list_all en_stop_requested (rm_entries m)"
    using p(3) assms(2) by (auto simp: drain_inv_def wait_shutdown_ready_def)
  have "rm_pending m = []" using core_stopped_not_pending [OF p(1) d(6)] .
  moreover have "list_all (\<lambda>w. w = SwReturned) (rm_workers m)"
    using p(2) d(5) by (simp add: workers_inv_def returned_all [symmetric])
  moreover have "list_all (\<lambda>e. en_started e \<noteq> Unset \<and> en_retired e = Ready (en_outcome e)) (rm_entries m)"
    unfolding list_all_length
  proof (intro allI impI)
    fix i assume "i < length (rm_entries m)"
    from core_invD(7) [OF p(1) this]
    show "en_started (rm_entries m ! i) \<noteq> Unset \<and>
        en_retired (rm_entries m ! i) = Ready (en_outcome (rm_entries m ! i))"
      by (auto simp: entry_ok_def stage_def d(1))
  qed
  moreover have stopped: "rs_lifecycle (rm_counters m') = RuntimeStopped"
    using manager.steps_rank [OF assms(3) inv] assms(2)
    by (cases "rs_lifecycle (rm_counters m')") (simp_all add: wait_shutdown_ready_def)
  moreover have "fst (manager_add alloc sid factory_given m') \<noteq> AdmissionAccepted"
    using stopped by (auto simp: manager_add_def manager_admission_def Let_def)
  ultimately show ?thesis using d(1-4) by (simp add: manager_joined_def wait_shutdown_ready_def)
qed

text \<open>
  Failures are not masked. From a reachable state on, an entry keeps its handle, a requested
  stop is never withdrawn, an outcome that records a failure is never replaced (a removal or a
  shutdown that follows does not overwrite it, nor another failure), and a promise keeps its
  value.
\<close>

theorem manager_outcome_final:
  assumes "reachable manager_init manager_step m" and "i < length (rm_entries m)"
    and "steps manager_step m m'"
  shows "let e = rm_entries m ! i; e' = rm_entries m' ! i
    in i < length (rm_entries m') \<and> en_handle e' = en_handle e \<and>
      (en_stop_requested e \<longrightarrow> en_stop_requested e') \<and>
      (failed (en_outcome e) \<longrightarrow> en_outcome e' = en_outcome e) \<and>
      (en_started e \<noteq> Unset \<longrightarrow> en_started e' = en_started e) \<and>
      (en_retired e \<noteq> Unset \<longrightarrow> en_retired e' = en_retired e)"
proof -
  have inv: "manager_inv m" using manager.reachable_inv [OF assms(1)] .
  then have core: "core_inv m" by (simp add: manager_inv_def)
  let ?e = "rm_entries m ! i"
  have ok: "stage_ok (stage (rm_registry m) (rm_pending m) (rm_workers m) (rm_supervisor m) i ?e) ?e"
    "en_stop_requested ?e \<longleftrightarrow> en_outcome ?e \<noteq> NoOutcome"
    using core_invD(7) [OF core assms(2)] by (auto simp: entry_ok_def)
  have nb: "en_started ?e \<noteq> Broken" "en_retired ?e \<noteq> Broken"
    using ok(1) by (cases "stage (rm_registry m) (rm_pending m) (rm_workers m) (rm_supervisor m) i ?e";
      auto split: if_splits)+
  have "i < length (rm_entries m') \<and> entry_le ?e (rm_entries m' ! i)"
    using manager_steps_entries [OF assms(3) inv] assms(2) by (auto simp: entries_le_def)
  moreover have "failed (en_outcome ?e) \<Longrightarrow> en_stop_requested ?e" using ok(2) by auto
  ultimately show ?thesis using nb
    by (cases "en_started ?e"; cases "en_retired ?e") (auto simp: entry_le_def Let_def)
qed

text \<open>
  C15: a session object is destroyed only at rest. A step that destroys the session of an entry is
  taken in a state in which a stop was requested, the session's lifecycle is \<open>Stopped\<close> or
  \<open>Failed\<close>, no call admitted by the runtime is in flight on it, the session admits no operation
  and no startup worker holds the entry.
\<close>

theorem manager_destroys_at_rest:
  assumes "reachable manager_init manager_step m" and "manager_step m m'"
    and "i < length (rm_entries m)" and "en_session (rm_entries m ! i) = Some s"
    and "en_session (rm_entries m' ! i) = None"
  shows "en_stop_requested (rm_entries m ! i) \<and> terminal (cs_lifecycle s) \<and> i \<notin> set (rm_calls m) \<and>
    cs_active_operations s = 0 \<and> i \<notin> set (held (rm_workers m))"
proof -
  have inv: "core_inv m" "calls_inv m"
    using manager.reachable_inv [OF assms(1)] by (auto simp: manager_inv_def)
  obtain observed rest where sv: "rm_supervisor m = SvTake observed i rest"
    and ops: "en_operations (rm_entries m ! i) = 0"
    using sessions_kept [OF assms(2,3) _ assms(5)] assms(4) by auto
  have ok: "en_startup_done (rm_entries m ! i)" "en_stop_requested (rm_entries m ! i)" "ended (rm_entries m ! i)"
    "session_inv s"
    using core_invD(7) [OF inv(1) assms(3)] assms(4) by (simp_all add: entry_ok_def sv)
  have t: "terminal (cs_lifecycle s)" using ok(3) assms(4) by (simp add: ended_def)
  have "cs_active_operations s = 0"
    using ok(4) t by (auto simp: session_inv_def control_inv_def)
  moreover have "i \<notin> set (held (rm_workers m))"
    using core_settled(4) [OF inv(1), of i] sv ok(1) by simp
  moreover have "i \<notin> set (rm_calls m)"
    using inv(2) assms(3) ops by (simp add: calls_inv_def count_list_0_iff)
  ultimately show ?thesis using t ok(2) by blast
qed

text \<open>
  The run of the witnesses: a session is admitted, removed while its factory runs, installed
  stopped, ended by its lane, retired by the supervisor; then the runtime shuts down.
\<close>

definition runtime_example_ended :: ConversationSession where
  "runtime_example_ended =
     \<lparr>cs_id = ''s'', cs_generation = 1, cs_run = \<lparr>tr_state = \<lparr>tl_config =
     \<lparr>tlc_max_events = 2, tlc_max_pending_notifications = 2, tlc_max_event_bytes = 64,
     tlc_session_id = ''s'', tlc_generation = 1\<rparr>, tl_events = [\<lparr>ev_type =
     SessionStopped, ev_session_id = ''s'', ev_turn_id = [], ev_sequence = 1, ev_timestamp = 0,
     ev_name = ''stopped'', ev_data = [], ev_trace_id = [], ev_received_at = 0, ev_generation =
     1\<rparr>], tl_pending = [], tl_counters = \<lparr>ts_accepted = 1, ts_evicted = 0, ts_rejected
     = 0, ts_dropped_notifications = 1, ts_observer_failures = 0,
     ts_notification_allocation_failures = 1, ts_first_dropped_sequence = 1,
     ts_last_dropped_sequence = 1, ts_oldest_sequence = 0, ts_newest_sequence = 0, ts_retained = 0,
     ts_pending_notifications = 0, ts_notification_high_watermark = 0\<rparr>, tl_enqueued = 0,
     tl_completed = 0, tl_closed = True, tl_dispatcher = DispatchWaiting\<rparr>, tr_log =
     [(\<lparr>ev_type = SessionStopped, ev_session_id = ''s'', ev_turn_id = [], ev_sequence = 1,
     ev_timestamp = 0, ev_name = ''stopped'', ev_data = [], ev_trace_id = [], ev_received_at = 0,
     ev_generation = 1\<rparr>, False)], tr_delivered = []\<rparr>, cs_active_operations = 0,
     cs_lifecycle = Stopped, cs_start_requested = False, cs_stop_requested = True, cs_failure =
     None, cs_capabilities = \<lparr>cap_native_full_duplex = False, cap_simultaneous_listen_speak =
     False, cap_native_interruption = False, cap_native_end_of_utterance = False,
     cap_native_backchannel = False, cap_transcript_available = True, cap_response_cancellation =
     False\<rparr>, cs_lane = LaneDone, cs_operations = [], cs_engine_calls = []\<rparr>"

definition runtime_example_0 :: RuntimeManager where
  "runtime_example_0 = projr (manager_new 1 \<lparr>rc_max_sessions = 2, rc_max_pending_starts = 2,
     rc_startup_workers = 1, rc_max_pending_notifications = 8, rc_max_session_id_bytes = 16,
     rc_supervisor_interval = 5\<rparr> True)"

definition runtime_example_started :: RuntimeManager where
  "runtime_example_started =
  \<lparr>rm_config =
    \<lparr>rc_max_sessions = 2, rc_max_pending_starts = 2, rc_startup_workers = 1,
       rc_max_pending_notifications = 8, rc_max_session_id_bytes = 16,
       rc_supervisor_interval = 5\<rparr>,
    rm_has_notify = True, rm_runtime_id = 1, rm_registry = [(''s'', 0)],
    rm_pending = [],
    rm_notifications =
      [\<lparr>nt_sequence = 1, nt_type = NotifyReserved,
          nt_handle = \<lparr>sh_runtime_id = 1, sh_id = ''s'', sh_generation = 1\<rparr>,
          nt_outcome = NoOutcome\<rparr>,
       \<lparr>nt_sequence = 2, nt_type = NotifyStopRequested,
          nt_handle = \<lparr>sh_runtime_id = 1, sh_id = ''s'', sh_generation = 1\<rparr>,
          nt_outcome = Removed\<rparr>],
    rm_counters =
      \<lparr>rs_lifecycle = RuntimeRunning, rs_admitted = 1, rs_rejected = 0,
         rs_retired = 0, rs_failures = 0, rs_rejected_invalid = 0,
         rs_rejected_duplicate = 0, rs_rejected_capacity = 0,
         rs_rejected_queue = 0, rs_rejected_draining = 0,
         rs_rejected_identity = 0, rs_notification_high_watermark = 2,
         rs_dropped_notifications = 0, rs_observer_failures = 0,
         rs_first_dropped_sequence = 0, rs_last_dropped_sequence = 0\<rparr>,
    rm_generation = 2, rm_sequence = 3, rm_enqueued = 2, rm_delivered = 0,
    rm_revision = 3, rm_workers_done = 0, rm_supervisor_done = False,
    rm_entries =
      [\<lparr>en_handle = \<lparr>sh_runtime_id = 1, sh_id = ''s'', sh_generation = 1\<rparr>,
          en_factory = False, en_session = Some (session_request_stop session_example), en_phase = PhaseStopRequested,
          en_outcome = Removed, en_operations = 0, en_stop_requested = True,
          en_startup_done = True, en_cancelled_before_start = False,
          en_started = Ready Removed, en_retired = Unset\<rparr>],
    rm_workers = [SwWaiting], rm_supervisor = SvScan,
    rm_dispatcher = NdWaiting, rm_calls = []\<rparr>"

definition runtime_example_take :: RuntimeManager where
  "runtime_example_take =
  \<lparr>rm_config =
    \<lparr>rc_max_sessions = 2, rc_max_pending_starts = 2, rc_startup_workers = 1,
       rc_max_pending_notifications = 8, rc_max_session_id_bytes = 16,
       rc_supervisor_interval = 5\<rparr>,
    rm_has_notify = True, rm_runtime_id = 1, rm_registry = [(''s'', 0)],
    rm_pending = [],
    rm_notifications =
      [\<lparr>nt_sequence = 1, nt_type = NotifyReserved,
          nt_handle = \<lparr>sh_runtime_id = 1, sh_id = ''s'', sh_generation = 1\<rparr>,
          nt_outcome = NoOutcome\<rparr>,
       \<lparr>nt_sequence = 2, nt_type = NotifyStopRequested,
          nt_handle = \<lparr>sh_runtime_id = 1, sh_id = ''s'', sh_generation = 1\<rparr>,
          nt_outcome = Removed\<rparr>],
    rm_counters =
      \<lparr>rs_lifecycle = RuntimeRunning, rs_admitted = 1, rs_rejected = 0,
         rs_retired = 0, rs_failures = 0, rs_rejected_invalid = 0,
         rs_rejected_duplicate = 0, rs_rejected_capacity = 0,
         rs_rejected_queue = 0, rs_rejected_draining = 0,
         rs_rejected_identity = 0, rs_notification_high_watermark = 2,
         rs_dropped_notifications = 0, rs_observer_failures = 0,
         rs_first_dropped_sequence = 0, rs_last_dropped_sequence = 0\<rparr>,
    rm_generation = 2, rm_sequence = 3, rm_enqueued = 2, rm_delivered = 0,
    rm_revision = 3, rm_workers_done = 0, rm_supervisor_done = False,
    rm_entries =
      [\<lparr>en_handle = \<lparr>sh_runtime_id = 1, sh_id = ''s'', sh_generation = 1\<rparr>,
          en_factory = False, en_session = Some runtime_example_ended, en_phase = PhaseStopRequested,
          en_outcome = Removed, en_operations = 0, en_stop_requested = True,
          en_startup_done = True, en_cancelled_before_start = False,
          en_started = Ready Removed, en_retired = Unset\<rparr>],
    rm_workers = [SwWaiting], rm_supervisor = SvTake 3 0 [],
    rm_dispatcher = NdWaiting, rm_calls = []\<rparr>"

definition runtime_example_retired :: RuntimeManager where
  "runtime_example_retired =
  \<lparr>rm_config =
    \<lparr>rc_max_sessions = 2, rc_max_pending_starts = 2, rc_startup_workers = 1,
       rc_max_pending_notifications = 8, rc_max_session_id_bytes = 16,
       rc_supervisor_interval = 5\<rparr>,
    rm_has_notify = True, rm_runtime_id = 1, rm_registry = [],
    rm_pending = [],
    rm_notifications =
      [\<lparr>nt_sequence = 1, nt_type = NotifyReserved,
          nt_handle = \<lparr>sh_runtime_id = 1, sh_id = ''s'', sh_generation = 1\<rparr>,
          nt_outcome = NoOutcome\<rparr>,
       \<lparr>nt_sequence = 2, nt_type = NotifyStopRequested,
          nt_handle = \<lparr>sh_runtime_id = 1, sh_id = ''s'', sh_generation = 1\<rparr>,
          nt_outcome = Removed\<rparr>,
       \<lparr>nt_sequence = 3, nt_type = NotifyRetired,
          nt_handle = \<lparr>sh_runtime_id = 1, sh_id = ''s'', sh_generation = 1\<rparr>,
          nt_outcome = Removed\<rparr>],
    rm_counters =
      \<lparr>rs_lifecycle = RuntimeRunning, rs_admitted = 1, rs_rejected = 0,
         rs_retired = 1, rs_failures = 0, rs_rejected_invalid = 0,
         rs_rejected_duplicate = 0, rs_rejected_capacity = 0,
         rs_rejected_queue = 0, rs_rejected_draining = 0,
         rs_rejected_identity = 0, rs_notification_high_watermark = 3,
         rs_dropped_notifications = 0, rs_observer_failures = 0,
         rs_first_dropped_sequence = 0, rs_last_dropped_sequence = 0\<rparr>,
    rm_generation = 2, rm_sequence = 4, rm_enqueued = 3, rm_delivered = 0,
    rm_revision = 4, rm_workers_done = 0, rm_supervisor_done = False,
    rm_entries =
      [\<lparr>en_handle = \<lparr>sh_runtime_id = 1, sh_id = ''s'', sh_generation = 1\<rparr>,
          en_factory = False, en_session = None, en_phase = PhaseRetiring,
          en_outcome = Removed, en_operations = 0, en_stop_requested = True,
          en_startup_done = True, en_cancelled_before_start = False,
          en_started = Ready Removed, en_retired = Ready Removed\<rparr>],
    rm_workers = [SwWaiting], rm_supervisor = SvCheck 3 [],
    rm_dispatcher = NdWaiting, rm_calls = []\<rparr>"

definition runtime_example_stopped :: RuntimeManager where
  "runtime_example_stopped =
     (let m = manager_request_shutdown (\<lambda>_. True) (supervisor_check 3 [] runtime_example_retired);
          m = supervisor_scan (supervisor_wake (startup_take 0 m));
          m = dispatch_done False (dispatch_take m);
          m = dispatch_done True (dispatch_take m);
          m = dispatch_done False (dispatch_take m)
      in dispatch_take m)"

lemma runtime_example_started_reachable: "reachable manager_init manager_step runtime_example_started"
proof -
  let ?added = "snd (snd (manager_add (\<lambda>_. True) ''s'' True runtime_example_0))"
  let ?took = "startup_take 0 ?added"
  let ?removed = "snd (manager_remove (\<lambda>_. True) (en_handle (rm_entries ?took ! 0)) Removed ?took)"
  let ?installed = "startup_install 0 0 (Some session_example) ?removed"
  note reach = reach_step [where step = manager_step]
  have "manager_new 1 \<lparr>rc_max_sessions = 2, rc_max_pending_starts = 2, rc_startup_workers = 1,
      rc_max_pending_notifications = 8, rc_max_session_id_bytes = 16, rc_supervisor_interval = 5\<rparr> True =
      Inr runtime_example_0"
    by (simp add: runtime_example_0_def manager_new_def)
  then have "manager_init runtime_example_0" by blast
  then have "reachable manager_init manager_step runtime_example_0" by (rule reach_init)
  then have "reachable manager_init manager_step ?added" by (rule reach [OF _ manager_step.add])
  then have "reachable manager_init manager_step ?took"
    by (rule reach [OF _ manager_step.startup_take]) code_simp+
  then have "reachable manager_init manager_step ?removed" by (rule reach [OF _ manager_step.remove])
  then have "reachable manager_init manager_step ?installed"
  proof (rule reach [OF _ manager_step.startup_install])
    show "0 < length (rm_workers ?removed)" and "rm_workers ?removed ! 0 = SwFactory 0" by code_simp+
    have "en_handle (rm_entries ?removed ! 0) = \<lparr>sh_runtime_id = 1, sh_id = ''s'', sh_generation = 1\<rparr>"
      by code_simp
    then show "session_new (sh_id (en_handle (rm_entries ?removed ! 0))) True True
        (\<lparr>tlc_max_events = 2, tlc_max_pending_notifications = 2, tlc_max_event_bytes = 64,
          tlc_session_id = [], tlc_generation = 0\<rparr>\<lparr>tlc_generation :=
            sh_generation (en_handle (rm_entries ?removed ! 0))\<rparr>) = Inr session_example"
      by (simp add: session_example_def session_new_def timeline_new_def scoped_config_def)
  qed
  then have "reachable manager_init manager_step (startup_finish (\<lambda>_. True) 0 0 False ?installed)"
    by (rule reach [OF _ manager_step.startup_finish]) code_simp+
  moreover have "startup_finish (\<lambda>_. True) 0 0 False ?installed = runtime_example_started" by code_simp
  ultimately show ?thesis by simp
qed

text \<open>The steps of a session are steps of the runtime that holds it.\<close>

lemma manager_session_steps:
  assumes "steps session_step s s'" and "i < length (rm_entries m)" and "en_session (rm_entries m ! i) = Some s"
  shows "steps manager_step m (entry_update i (\<lambda>e. e\<lparr>en_session := Some s'\<rparr>) m)"
  using assms
proof (induction rule: steps.induct)
  case (steps_refl s)
  then have "entry_update i (\<lambda>e. e\<lparr>en_session := Some s\<rparr>) m = m"
    by (cases m; cases "rm_entries m ! i") (simp add: entry_update_def list_update_same_conv)
  then show ?case by (simp add: steps.steps_refl)
next
  case (steps_step s t u)
  let ?m = "entry_update i (\<lambda>e. e\<lparr>en_session := Some t\<rparr>) m"
  have "manager_step ?m (entry_update i (\<lambda>e. e\<lparr>en_session := Some u\<rparr>) ?m)"
    using steps_step by (intro manager_step.session) (simp_all add: entry_update_def)
  moreover have "entry_update i (\<lambda>e. e\<lparr>en_session := Some u\<rparr>) ?m = entry_update i (\<lambda>e. e\<lparr>en_session := Some u\<rparr>) m"
    using steps_step.prems(1) by (simp add: entry_update_def)
  ultimately show ?case using steps.steps_step [where step = manager_step] steps_step by metis
qed

lemma runtime_example_ended_steps: "steps session_step (session_request_stop session_example) runtime_example_ended"
proof -
  let ?stop = "session_request_stop session_example"
  let ?begun = "lane_begin ?stop"
  let ?drained = "set_lane (LaneStop False None) ?begun"
  let ?stopped = "lane_stop None False None ?drained"
  let ?published = "lane_publish_end 0 False True None ?stopped"
  let ?closed = "lane_close None ?published"
  note next_step = steps_step [where step = session_step]
  have "steps session_step ?stop ?stop" by (rule steps_refl)
  then have "steps session_step ?stop ?begun"
    by (rule next_step [OF _ session_step.lane_begin]) code_simp+
  then have "steps session_step ?stop ?drained"
    by (rule next_step [OF _ session_step.lane_drain [where attempted = False and failure = None]]) code_simp+
  then have "steps session_step ?stop ?stopped"
    by (rule next_step [OF _ session_step.lane_stop]) code_simp
  then have "steps session_step ?stop ?published"
    by (rule next_step [OF _ session_step.lane_publish_end]) code_simp
  then have "steps session_step ?stop ?closed"
    by (rule next_step [OF _ session_step.lane_close]) code_simp
  then have "steps session_step ?stop (lane_finish None ?closed)"
    by (rule next_step [OF _ session_step.lane_finish]) code_simp
  moreover have "lane_finish None ?closed = runtime_example_ended" by code_simp
  ultimately show ?thesis by simp
qed

lemma runtime_example_take_reachable: "reachable manager_init manager_step runtime_example_take"
proof -
  let ?ended = "entry_update 0 (\<lambda>e. e\<lparr>en_session := Some runtime_example_ended\<rparr>) runtime_example_started"
  let ?scan = "supervisor_scan ?ended"
  let ?check = "supervisor_check 3 [0] ?scan"
  let ?life = "supervisor_lifecycle (\<lambda>_. True) 3 0 [] runtime_example_ended ?check"
  note reach = reach_step [where step = manager_step]
  have "steps manager_step runtime_example_started ?ended"
    by (rule manager_session_steps [OF runtime_example_ended_steps]) code_simp+
  then have "reachable manager_init manager_step ?ended"
    using runtime_example_started_reachable by (rule reachable_steps)
  then have "reachable manager_init manager_step ?scan" by (rule reach [OF _ manager_step.scan]) code_simp
  then have "reachable manager_init manager_step ?check" by (rule reach [OF _ manager_step.check]) code_simp
  then have "reachable manager_init manager_step ?life" by (rule reach [OF _ manager_step.lifecycle]) code_simp+
  then have "reachable manager_init manager_step (supervisor_flush 3 0 [] runtime_example_ended ?life)"
    by (rule reach [OF _ manager_step.flush]) code_simp+
  moreover have "supervisor_flush 3 0 [] runtime_example_ended ?life = runtime_example_take" by code_simp
  ultimately show ?thesis by simp
qed

lemma runtime_example_retired_reachable: "reachable manager_init manager_step runtime_example_retired"
proof -
  note reach = reach_step [where step = manager_step]
  have "reachable manager_init manager_step (supervisor_take 3 0 [] runtime_example_take)"
    using runtime_example_take_reachable by (rule reach [OF _ manager_step.take]) code_simp
  then have "reachable manager_init manager_step
      (supervisor_erase (\<lambda>_. True) 3 0 [] (supervisor_take 3 0 [] runtime_example_take))"
    by (rule reach [OF _ manager_step.erase]) code_simp
  moreover have "supervisor_erase (\<lambda>_. True) 3 0 [] (supervisor_take 3 0 [] runtime_example_take) =
      runtime_example_retired" by code_simp
  ultimately show ?thesis by simp
qed

lemma runtime_example_retired_eval:
  "length (rm_entries runtime_example_retired) = 1"
  "en_retired (rm_entries runtime_example_retired ! 0) = Ready Removed"
  by (code_simp, code_simp)

lemma runtime_example_shut_eval:
  "startup_ready (manager_request_shutdown (\<lambda>_. True) (supervisor_check 3 [] runtime_example_retired))"
  "length (rm_workers (manager_request_shutdown (\<lambda>_. True) (supervisor_check 3 [] runtime_example_retired))) = 1"
  "rm_workers (manager_request_shutdown (\<lambda>_. True) (supervisor_check 3 [] runtime_example_retired)) ! 0 = SwWaiting"
  by (code_simp, code_simp, code_simp)

lemma runtime_example_stopped_reachable: "reachable manager_init manager_step runtime_example_stopped"
proof -
  let ?sleep = "supervisor_check 3 [] runtime_example_retired"
  let ?shut = "manager_request_shutdown (\<lambda>_. True) ?sleep"
  let ?left = "startup_take 0 ?shut"
  let ?fin = "supervisor_scan (supervisor_wake ?left)"
  let ?one = "dispatch_done False (dispatch_take ?fin)"
  let ?two = "dispatch_done True (dispatch_take ?one)"
  let ?three = "dispatch_done False (dispatch_take ?two)"
  note reach = reach_step [where step = manager_step]
  have "reachable manager_init manager_step ?sleep"
    using runtime_example_retired_reachable by (rule reach [OF _ manager_step.check]) code_simp
  then have "reachable manager_init manager_step ?shut" by (rule reach [OF _ manager_step.request_shutdown])
  then have "reachable manager_init manager_step ?left"
    by (rule reach [OF _ manager_step.startup_take]) (simp_all add: runtime_example_shut_eval)
  then have "reachable manager_init manager_step (supervisor_wake ?left)"
    by (rule reach [OF _ manager_step.wake [where observed = 3]]) code_simp
  then have "reachable manager_init manager_step ?fin" by (rule reach [OF _ manager_step.scan]) code_simp
  then have "reachable manager_init manager_step (dispatch_take ?fin)"
    by (rule reach [OF _ manager_step.dispatch_take]) code_simp+
  then have "reachable manager_init manager_step ?one"
    by (rule reach [OF _ manager_step.dispatch_done [where n = "hd (rm_notifications ?fin)"]]) code_simp
  then have "reachable manager_init manager_step (dispatch_take ?one)"
    by (rule reach [OF _ manager_step.dispatch_take]) code_simp+
  then have "reachable manager_init manager_step ?two"
    by (rule reach [OF _ manager_step.dispatch_done [where n = "hd (rm_notifications ?one)"]]) code_simp
  then have "reachable manager_init manager_step (dispatch_take ?two)"
    by (rule reach [OF _ manager_step.dispatch_take]) code_simp+
  then have "reachable manager_init manager_step ?three"
    by (rule reach [OF _ manager_step.dispatch_done [where n = "hd (rm_notifications ?two)"]]) code_simp
  then have "reachable manager_init manager_step (dispatch_take ?three)"
    by (rule reach [OF _ manager_step.dispatch_take]) code_simp+
  then show ?thesis by (simp add: runtime_example_stopped_def Let_def)
qed

theorem manager_accounting_witness:
  "unat (rs_admitted (rm_counters runtime_example_take)) =
     unat (rs_retired (rm_counters runtime_example_take)) + length (rm_registry runtime_example_take)"
  using manager_accounting [OF runtime_example_take_reachable] by (simp add: Let_def)

theorem manager_promises_kept_witness:
  "en_started (rm_entries runtime_example_retired ! 0) \<noteq> Unset"
  using manager_promises_kept [OF runtime_example_retired_reachable, of 0]
  by (simp add: runtime_example_retired_eval Let_def)

theorem manager_stale_handle_witness:
  "manager_find (en_handle (rm_entries runtime_example_retired ! 0)) runtime_example_retired = None"
  using manager_stale_handle [OF runtime_example_retired_reachable _ _ steps_refl, of 0]
  by (simp add: runtime_example_retired_eval)

theorem manager_shutdown_complete_witness:
  "manager_joined runtime_example_stopped"
proof -
  have "wait_shutdown_ready runtime_example_stopped" by code_simp
  with manager_shutdown_complete [OF runtime_example_stopped_reachable _ steps_refl] show ?thesis by blast
qed

theorem manager_outcome_final_witness:
  "en_started (rm_entries (supervisor_take 3 0 [] runtime_example_take) ! 0) =
     en_started (rm_entries runtime_example_take ! 0)"
proof -
  have "0 < length (rm_entries runtime_example_take)" "en_started (rm_entries runtime_example_take ! 0) \<noteq> Unset"
    by code_simp+
  moreover have "steps manager_step runtime_example_take (supervisor_take 3 0 [] runtime_example_take)"
    by (rule steps_one, rule manager_step.take) code_simp
  ultimately show ?thesis
    using manager_outcome_final [OF runtime_example_take_reachable] by (simp add: Let_def)
qed

theorem manager_destroys_at_rest_witness:
  "terminal (cs_lifecycle runtime_example_ended)"
proof -
  have "manager_step runtime_example_take (supervisor_take 3 0 [] runtime_example_take)"
    by (rule manager_step.take) code_simp
  moreover have "0 < length (rm_entries runtime_example_take)" by code_simp
  moreover have "en_session (rm_entries runtime_example_take ! 0) = Some runtime_example_ended" by code_simp
  moreover have "en_session (rm_entries (supervisor_take 3 0 [] runtime_example_take) ! 0) = None" by code_simp
  ultimately show ?thesis using manager_destroys_at_rest [OF runtime_example_take_reachable] by blast
qed

end
