(* ===== verification/Json.thy ===== *)
theory Json
  imports Byteturn_Types Segmenter
begin

unbundle bit_operations_syntax

text \<open>
  The JSON reader and the string escaping of the OpenAI-compatible adapter
  (\<open>openai_compatible.cpp\<close>): \<open>Json\<close>, \<open>JsonParser\<close>, \<open>escape\<close>. A parser works on a cursor, the
  position and the bytes from there on, and returns the exception or a value with the new
  cursor. The conversion of a number token, \<open>std::stod\<close>, is a parameter, and so is the type of
  its results. The mutual recursion of values, objects and arrays runs on fuel; every input
  returns within twice its length.
\<close>

section \<open>Values\<close>

datatype 'd json =
    JNull
  | JBool bool
  | JNumber 'd
  | JString string
  | JArray "'d json list"
  | JObject "(string \<times> 'd json) list"

definition json_at :: "string \<Rightarrow> 'd json \<Rightarrow> exn + 'd json" where
  "json_at key j =
     (case j of
        JObject members \<Rightarrow> (case map_of members key of
            None \<Rightarrow> Inl (StdException (''missing JSON field: '' @ key))
          | Some v \<Rightarrow> Inr v)
      | _ \<Rightarrow> Inl (StdException ''expected JSON object''))"

definition json_find :: "string \<Rightarrow> 'd json \<Rightarrow> 'd json option" where
  "json_find key j = (case j of JObject members \<Rightarrow> map_of members key | _ \<Rightarrow> None)"

definition json_array :: "'d json \<Rightarrow> exn + 'd json list" where
  "json_array j = (case j of JArray items \<Rightarrow> Inr items | _ \<Rightarrow> Inl (StdException ''expected JSON array''))"

definition string_or_empty :: "'d json \<Rightarrow> string" where
  "string_or_empty j = (case j of JString s \<Rightarrow> s | _ \<Rightarrow> [])"

text \<open>\<open>as_index\<close>: a number that is at least 0, truncated to a \<open>std::size_t\<close>; 0 otherwise.\<close>

definition index_or_zero :: "('d \<Rightarrow> nat) \<Rightarrow> 'd json \<Rightarrow> nat" where
  "index_or_zero as_index j = (case j of JNumber d \<Rightarrow> as_index d | _ \<Rightarrow> 0)"

section \<open>Cursor and character classes\<close>

type_synonym cursor = "nat \<times> string"

definition json_fail :: "cursor \<Rightarrow> string \<Rightarrow> exn + 'a" where
  "json_fail p reason =
     Inl (StdException (''invalid JSON near byte '' @ to_string (fst p) @ '': '' @ reason))"

definition advance :: "nat \<Rightarrow> cursor \<Rightarrow> cursor" where
  "advance k p = (fst p + k, drop k (snd p))"

abbreviation quote :: char where "quote \<equiv> CHR 0x22"

abbreviation backslash :: char where "backslash \<equiv> CHR 0x5C"

fun space :: "cursor \<Rightarrow> cursor" where
  "space (n, []) = (n, [])"
| "space (n, c # s) = (if isspace c then space (n + 1, s) else (n, c # s))"

definition consume :: "char \<Rightarrow> cursor \<Rightarrow> cursor option" where
  "consume c p = (case snd p of [] \<Rightarrow> None | d # s \<Rightarrow> if d = c then Some (advance 1 p) else None)"

definition json_literal :: "string \<Rightarrow> 'd json \<Rightarrow> cursor \<Rightarrow> exn + ('d json \<times> cursor)" where
  "json_literal expected result p =
     (if take (length expected) (snd p) \<noteq> expected then json_fail p ''literal''
      else Inr (result, advance (length expected) p))"

definition hex_value :: "char \<Rightarrow> nat option" where
  "hex_value c =
     (let k = of_char c :: nat
      in if 48 \<le> k \<and> k \<le> 57 then Some (k - 48)
      else if 97 \<le> k \<and> k \<le> 102 then Some (k - 97 + 10)
      else if 65 \<le> k \<and> k \<le> 70 then Some (k - 65 + 10)
      else None)"

fun hex_digits :: "nat \<Rightarrow> nat \<Rightarrow> cursor \<Rightarrow> exn + (nat \<times> cursor)" where
  "hex_digits 0 v p = Inr (v, p)"
| "hex_digits (Suc k) v p =
     (case snd p of
        [] \<Rightarrow> json_fail p ''short unicode escape''
      | c # s \<Rightarrow>
          (case hex_value c of
             None \<Rightarrow> json_fail (advance 1 p) ''invalid unicode escape''
           | Some d \<Rightarrow> hex_digits k (v * 16 + d) (advance 1 p)))"

definition hex4 :: "cursor \<Rightarrow> exn + (nat \<times> cursor)" where
  "hex4 p = (if length (snd p) < 4 then json_fail p ''short unicode escape'' else hex_digits 4 0 p)"

definition append_utf8 :: "nat \<Rightarrow> string" where
  "append_utf8 codepoint =
     (if codepoint \<le> 0x7F then [char_of codepoint]
      else if codepoint \<le> 0x7FF then
        [char_of (0xC0 OR drop_bit 6 codepoint), char_of (0x80 OR (codepoint AND 0x3F))]
      else if codepoint \<le> 0xFFFF then
        [char_of (0xE0 OR drop_bit 12 codepoint), char_of (0x80 OR (drop_bit 6 codepoint AND 0x3F)),
         char_of (0x80 OR (codepoint AND 0x3F))]
      else
        [char_of (0xF0 OR drop_bit 18 codepoint), char_of (0x80 OR (drop_bit 12 codepoint AND 0x3F)),
         char_of (0x80 OR (drop_bit 6 codepoint AND 0x3F)), char_of (0x80 OR (codepoint AND 0x3F))])"

text \<open>What follows \<open>\u\<close>: one unit, or a surrogate pair.\<close>

definition json_unicode :: "cursor \<Rightarrow> exn + (nat \<times> cursor)" where
  "json_unicode p =
     (case hex4 p of
        Inl e \<Rightarrow> Inl e
      | Inr (codepoint, q) \<Rightarrow>
          if 0xD800 \<le> codepoint \<and> codepoint \<le> 0xDBFF then
            (if take 2 (snd q) \<noteq> [backslash, CHR ''u''] then json_fail q ''missing low surrogate''
             else case hex4 (advance 2 q) of
                 Inl e \<Rightarrow> Inl e
               | Inr (low, r) \<Rightarrow>
                   if low < 0xDC00 \<or> low > 0xDFFF then json_fail r ''invalid low surrogate''
                   else Inr (0x10000 + push_bit 10 (codepoint - 0xD800) + (low - 0xDC00), r))
          else if 0xDC00 \<le> codepoint \<and> codepoint \<le> 0xDFFF then json_fail q ''unexpected low surrogate''
          else Inr (codepoint, q))"

section \<open>Strings and numbers\<close>

definition simple_escape :: "char \<Rightarrow> char option" where
  "simple_escape c =
     (if c = quote then Some quote
      else if c = backslash then Some backslash
      else if c = CHR ''/'' then Some CHR ''/''
      else if c = CHR ''b'' then Some CHR 0x08
      else if c = CHR ''f'' then Some CHR 0x0C
      else if c = CHR ''n'' then Some CHR 0x0A
      else if c = CHR ''r'' then Some CHR 0x0D
      else if c = CHR ''t'' then Some CHR 0x09
      else None)"

lemma advance_simps [simp]: "snd (advance k p) = drop k (snd p)" "fst (advance k p) = fst p + k"
  by (simp_all add: advance_def)

lemma hex_digits_rest: "hex_digits k v p = Inr (w, q) \<Longrightarrow> length (snd q) \<le> length (snd p)"
proof (induction k v p rule: hex_digits.induct)
  case (2 k v p)
  then obtain c s d where p: "snd p = c # s" "hex_value c = Some d"
    "hex_digits k (v * 16 + d) (advance 1 p) = Inr (w, q)"
    by (auto simp: json_fail_def split: list.splits option.splits)
  then show ?case using "2.IH" [OF p(1,2)] by simp
qed simp

lemma json_unicode_rest: "json_unicode p = Inr (w, q) \<Longrightarrow> length (snd q) \<le> length (snd p)"
  by (auto simp: json_unicode_def hex4_def json_fail_def dest!: hex_digits_rest
      split: if_splits sum.splits prod.splits)

text \<open>The characters of a string, after its opening quote.\<close>

function json_chars :: "string \<Rightarrow> cursor \<Rightarrow> exn + (string \<times> cursor)" where
  "json_chars result (n, []) = json_fail (n, []) ''unterminated string''"
| "json_chars result (n, c # s) =
     (if c = quote then Inr (result, (n + 1, s))
      else if c \<noteq> backslash then json_chars (result @ [c]) (n + 1, s)
      else case s of
          [] \<Rightarrow> json_fail (n + 1, []) ''escape''
        | escaped # s' \<Rightarrow>
            (case simple_escape escaped of
               Some d \<Rightarrow> json_chars (result @ [d]) (n + 2, s')
             | None \<Rightarrow>
                 if escaped = CHR ''u'' then
                   (case json_unicode (n + 2, s') of
                      Inl e \<Rightarrow> Inl e
                    | Inr (codepoint, q) \<Rightarrow> json_chars (result @ append_utf8 codepoint) q)
                 else json_fail (n + 2, s') ''unsupported escape''))"
  by pat_completeness auto
termination
  by (relation "measure (\<lambda>(result, p). length (snd p))") (auto dest: json_unicode_rest)

definition json_string :: "cursor \<Rightarrow> exn + (string \<times> cursor)" where
  "json_string p = json_chars [] (advance 1 p)"

definition number_char :: "char \<Rightarrow> bool" where
  "number_char c \<longleftrightarrow>
     (let k = of_char c :: nat in 48 \<le> k \<and> k \<le> 57) \<or> c \<in> set ''-+.eE''"

definition json_number :: "(string \<Rightarrow> exn + 'd) \<Rightarrow> cursor \<Rightarrow> exn + ('d json \<times> cursor)" where
  "json_number stod p =
     (let token = takeWhile number_char (snd p)
      in if token = [] then json_fail p ''value''
         else case stod token of
             Inl e \<Rightarrow> Inl e
           | Inr d \<Rightarrow> Inr (JNumber d, advance (length token) p))"

section \<open>Values, objects and arrays\<close>

text \<open>
  \<open>json_members\<close> is the loop of \<open>object()\<close> with the map built so far, which keeps the first value
  of a repeated key, \<open>json_elements\<close> the loop of \<open>array()\<close>. \<open>None\<close>: the fuel is spent.
\<close>

fun json_value :: "(string \<Rightarrow> exn + 'd) \<Rightarrow> nat \<Rightarrow> cursor \<Rightarrow> (exn + ('d json \<times> cursor)) option"
  and json_members :: "(string \<Rightarrow> exn + 'd) \<Rightarrow> nat \<Rightarrow> (string, 'd json) umap \<Rightarrow> cursor \<Rightarrow>
    (exn + ('d json \<times> cursor)) option"
  and json_elements :: "(string \<Rightarrow> exn + 'd) \<Rightarrow> nat \<Rightarrow> 'd json list \<Rightarrow> cursor \<Rightarrow>
    (exn + ('d json \<times> cursor)) option" where
  "json_value stod 0 p = None"
| "json_value stod (Suc k) p =
     (let p = space p
      in case snd p of
          [] \<Rightarrow> Some (json_fail p ''unexpected end'')
        | c # s \<Rightarrow>
            if c = CHR ''{'' then
              (case consume CHR ''}'' (space (advance 1 p)) of
                 Some q \<Rightarrow> Some (Inr (JObject [], q))
               | None \<Rightarrow> json_members stod k [] (space (advance 1 p)))
            else if c = CHR ''['' then
              (case consume CHR '']'' (space (advance 1 p)) of
                 Some q \<Rightarrow> Some (Inr (JArray [], q))
               | None \<Rightarrow> json_elements stod k [] (space (advance 1 p)))
            else if c = quote then
              Some (case json_string p of Inl e \<Rightarrow> Inl e | Inr (text, q) \<Rightarrow> Inr (JString text, q))
            else if c = CHR ''t'' then Some (json_literal ''true'' (JBool True) p)
            else if c = CHR ''f'' then Some (json_literal ''false'' (JBool False) p)
            else if c = CHR ''n'' then Some (json_literal ''null'' JNull p)
            else Some (json_number stod p))"
| "json_members stod 0 members p = None"
| "json_members stod (Suc k) members p =
     (let p = space p
      in if snd p = [] \<or> hd (snd p) \<noteq> quote then Some (json_fail p ''object key'')
      else case json_string p of
          Inl e \<Rightarrow> Some (Inl e)
        | Inr (key, q) \<Rightarrow>
            (case consume CHR '':'' (space q) of
               None \<Rightarrow> Some (json_fail (space q) ''colon'')
             | Some r \<Rightarrow>
                 (case json_value stod k r of
                    None \<Rightarrow> None
                  | Some (Inl e) \<Rightarrow> Some (Inl e)
                  | Some (Inr (v, t)) \<Rightarrow>
                      let members = umap_emplace key v members; t = space t
                      in case consume CHR ''}'' t of
                          Some u \<Rightarrow> Some (Inr (JObject members, u))
                        | None \<Rightarrow>
                            (case consume CHR '','' t of
                               None \<Rightarrow> Some (json_fail t ''comma'')
                             | Some u \<Rightarrow> json_members stod k members u))))"
| "json_elements stod 0 items p = None"
| "json_elements stod (Suc k) items p =
     (case json_value stod k p of
        None \<Rightarrow> None
      | Some (Inl e) \<Rightarrow> Some (Inl e)
      | Some (Inr (v, t)) \<Rightarrow>
          let items = items @ [v]; t = space t
          in case consume CHR '']'' t of
              Some u \<Rightarrow> Some (Inr (JArray items, u))
            | None \<Rightarrow>
                (case consume CHR '','' t of
                   None \<Rightarrow> Some (json_fail t ''comma'')
                 | Some u \<Rightarrow> json_elements stod k items u))"

definition json_fuel :: "string \<Rightarrow> nat" where
  "json_fuel s = 2 * length s + 1"

definition json_parse :: "(string \<Rightarrow> exn + 'd) \<Rightarrow> string \<Rightarrow> exn + 'd json" where
  "json_parse stod input =
     (case json_value stod (json_fuel input) (0, input) of
        None \<Rightarrow> Inl OtherException
      | Some (Inl e) \<Rightarrow> Inl e
      | Some (Inr (v, p)) \<Rightarrow>
          if snd (space p) \<noteq> [] then json_fail (space p) ''trailing data'' else Inr v)"

section \<open>Escaping\<close>

text \<open>\<open>None\<close>: the control character for which \<open>escape\<close> throws.\<close>

definition escape_char :: "char \<Rightarrow> string option" where
  "escape_char c =
     (if c = quote then Some [backslash, quote]
      else if c = backslash then Some [backslash, backslash]
      else if c = CHR 0x0A then Some [backslash, CHR ''n'']
      else if c = CHR 0x0D then Some [backslash, CHR ''r'']
      else if c = CHR 0x09 then Some [backslash, CHR ''t'']
      else if (of_char c :: nat) < 0x20 then None
      else Some [c])"

fun escape :: "string \<Rightarrow> exn + string" where
  "escape [] = Inr []"
| "escape (c # s) =
     (case escape_char c of
        None \<Rightarrow> Inl (StdException ''control character in JSON string'')
      | Some e \<Rightarrow> (case escape s of Inl err \<Rightarrow> Inl err | Inr r \<Rightarrow> Inr (e @ r)))"

end
