(* ===== verification/Json_Reading.thy ===== *)
theory Json_Reading
  imports Json
begin

text \<open>
  What the reader of \<open>Json\<close> does: every parser consumes input, so parsing returns on every input,
  and a text printed by the adapter's string escaping, and the objects and arrays made of such
  texts, read back as the values they stand for.
\<close>

section \<open>Every parser consumes input\<close>

declare json_chars.simps [simp del] json_value.simps [simp del] json_members.simps [simp del]
  json_elements.simps [simp del]

lemma space_rest: "length (snd (space p)) \<le> length (snd p)"
  by (induction p rule: space.induct) auto

lemma consume_rest: "consume c p = Some q \<Longrightarrow> length (snd p) = Suc (length (snd q))"
  by (auto simp: consume_def split: list.splits if_splits)

lemma json_chars_rest: "json_chars r p = Inr (t, q) \<Longrightarrow> length (snd q) < length (snd p)"
proof (induction r p rule: json_chars.induct)
  case (2 r n c s)
  consider "c = quote" | "c \<noteq> quote" "c \<noteq> backslash" | "c = backslash" "s = []"
    | e s' where "c = backslash" "s = e # s'" by (cases s) auto
  then show ?case
  proof cases
    case 1
    with "2.prems" show ?thesis by (auto simp: json_chars.simps)
  next
    case 2
    with "2.prems" have "json_chars (r @ [c]) (n + 1, s) = Inr (t, q)" by (simp add: json_chars.simps)
    from "2.IH"(1) [OF 2 this] show ?thesis by simp
  next
    case 3
    with "2.prems" show ?thesis by (simp add: json_chars.simps json_fail_def)
  next
    case (4 e s')
    note def = "2.prems" [unfolded json_chars.simps(2) [of r n c s]]
    show ?thesis
    proof (cases "simple_escape e")
      case (Some d)
      with def 4 have "json_chars (r @ [d]) (n + 2, s') = Inr (t, q)" by simp
      from "2.IH"(3) [OF _ _ 4(2) Some this] 4 show ?thesis by simp
    next
      case None
      with def 4 obtain u w where u: "e = CHR ''u''" "json_unicode (n + 2, s') = Inr (u, w)"
        "json_chars (r @ append_utf8 u) w = Inr (t, q)"
        by (auto simp: json_fail_def split: if_splits sum.splits)
      from "2.IH"(2) [OF _ _ 4(2) None u(1,2) refl u(3)] 4 json_unicode_rest [OF u(2)] show ?thesis by simp
    qed
  qed
qed (simp add: json_chars.simps json_fail_def)

lemma json_string_rest: "json_string p = Inr (t, q) \<Longrightarrow> length (snd q) < length (snd p)"
  unfolding json_string_def by (drule json_chars_rest) simp

lemma json_literal_rest:
  "json_literal e v p = Inr (w, q) \<Longrightarrow> e \<noteq> [] \<Longrightarrow> snd p \<noteq> [] \<Longrightarrow> length (snd q) < length (snd p)"
  by (auto simp: json_literal_def json_fail_def split: if_splits)

lemma json_number_rest: "json_number stod p = Inr (w, q) \<Longrightarrow> length (snd q) < length (snd p)"
  by (cases "snd p") (auto simp: json_number_def json_fail_def Let_def split: if_splits sum.splits)

text \<open>What a successful run of each loop has done.\<close>

lemma json_members_SucE:
  assumes "json_members stod (Suc k) ms p = Some (Inr (v, q))"
  obtains key q1 r w t where "json_string (space p) = Inr (key, q1)" "consume CHR '':'' (space q1) = Some r"
    "json_value stod k r = Some (Inr (w, t))"
    "consume CHR ''}'' (space t) = Some q \<or>
      (\<exists>u. consume CHR '','' (space t) = Some u \<and>
        json_members stod k (umap_emplace key w ms) u = Some (Inr (v, q)))"
  using assms by (auto simp: json_members.simps Let_def json_fail_def split: if_splits sum.splits option.splits)

lemma json_elements_SucE:
  assumes "json_elements stod (Suc k) items p = Some (Inr (v, q))"
  obtains w t where "json_value stod k p = Some (Inr (w, t))"
    "consume CHR '']'' (space t) = Some q \<or>
      (\<exists>u. consume CHR '','' (space t) = Some u \<and>
        json_elements stod k (items @ [w]) u = Some (Inr (v, q)))"
  using assms by (auto simp: json_elements.simps Let_def json_fail_def split: sum.splits option.splits)

lemma json_value_SucE:
  assumes "json_value stod (Suc k) p = Some (Inr (v, q))"
  obtains u where "u = space (advance 1 (space p))" "snd (space p) \<noteq> []"
      "consume CHR ''}'' u = Some q \<or> consume CHR '']'' u = Some q \<or>
       json_members stod k [] u = Some (Inr (v, q)) \<or> json_elements stod k [] u = Some (Inr (v, q))"
  | "length (snd q) < length (snd (space p))"
  using assms json_string_rest [of "space p" _ q] json_literal_rest [of _ _ "space p" v q]
    json_number_rest [of stod "space p" v q]
  by (auto simp: json_value.simps Let_def json_fail_def split: if_splits sum.splits option.splits list.splits)

lemma json_rest:
  "(\<forall>p v q. json_value stod k p = Some (Inr (v, q)) \<longrightarrow> length (snd q) < length (snd p)) \<and>
   (\<forall>ms p v q. json_members stod k ms p = Some (Inr (v, q)) \<longrightarrow> length (snd q) < length (snd p)) \<and>
   (\<forall>items p v q. json_elements stod k items p = Some (Inr (v, q)) \<longrightarrow> length (snd q) < length (snd p))"
proof (induction k)
  case 0
  then show ?case by (simp add: json_value.simps json_members.simps json_elements.simps)
next
  case (Suc k)
  then have value_ih: "\<And>p v q. json_value stod k p = Some (Inr (v, q)) \<Longrightarrow> length (snd q) < length (snd p)"
    and members: "\<And>ms p v q. json_members stod k ms p = Some (Inr (v, q)) \<Longrightarrow> length (snd q) < length (snd p)"
    and elements: "\<And>items p v q. json_elements stod k items p = Some (Inr (v, q)) \<Longrightarrow> length (snd q) < length (snd p)"
    by blast+
  show ?case
  proof (intro conjI allI impI)
    fix p v q assume "json_value stod (Suc k) p = Some (Inr (v, q))"
    then show "length (snd q) < length (snd p)"
    proof (cases rule: json_value_SucE)
      case (1 u)
      then have "length (snd q) < Suc (length (snd u))"
        using 1(3) by (elim disjE) (auto dest: consume_rest members elements)
      moreover have "length (snd u) \<le> length (snd (space p)) - 1"
        using space_rest [of "advance 1 (space p)"] 1(1) by simp
      moreover have "0 < length (snd (space p))" using 1(2) by simp
      ultimately show ?thesis using space_rest [of p] by linarith
    qed (use space_rest [of p] in simp)
  next
    fix ms p v q assume "json_members stod (Suc k) ms p = Some (Inr (v, q))"
    then show "length (snd q) < length (snd p)"
    proof (cases rule: json_members_SucE)
      case (1 key q1 r w t)
      have "length (snd q) < length (snd (space t))"
        using 1(4) by (elim disjE exE conjE) (auto dest!: consume_rest members)
      then show ?thesis
        using json_string_rest [OF 1(1)] consume_rest [OF 1(2)] value_ih [OF 1(3)]
          space_rest [of p] space_rest [of q1] space_rest [of t] by simp
    qed
  next
    fix items p v q assume "json_elements stod (Suc k) items p = Some (Inr (v, q))"
    then show "length (snd q) < length (snd p)"
    proof (cases rule: json_elements_SucE)
      case (1 w t)
      have "length (snd q) < length (snd (space t))"
        using 1(2) by (elim disjE exE conjE) (auto dest!: consume_rest elements)
      then show ?thesis using value_ih [OF 1(1)] space_rest [of t] by simp
    qed
  qed
qed

lemmas json_value_rest = json_rest [THEN conjunct1, rule_format]

section \<open>Enough fuel\<close>

lemma json_total:
  "(\<forall>p. 2 * length (snd p) + 1 \<le> k \<longrightarrow> json_value stod k p \<noteq> None) \<and>
   (\<forall>ms p. 2 * length (snd p) + 1 \<le> k \<longrightarrow> json_members stod k ms p \<noteq> None) \<and>
   (\<forall>items p. 2 * length (snd p) + 2 \<le> k \<longrightarrow> json_elements stod k items p \<noteq> None)"
proof (induction k)
  case (Suc k)
  then have value_ih: "\<And>p. 2 * length (snd p) + 1 \<le> k \<Longrightarrow> json_value stod k p \<noteq> None"
    and members: "\<And>ms p. 2 * length (snd p) + 1 \<le> k \<Longrightarrow> json_members stod k ms p \<noteq> None"
    and elements: "\<And>items p. 2 * length (snd p) + 2 \<le> k \<Longrightarrow> json_elements stod k items p \<noteq> None"
    by blast+
  show ?case
  proof (intro conjI allI impI)
    fix p :: cursor assume k: "2 * length (snd p) + 1 \<le> Suc k"
    show "json_value stod (Suc k) p \<noteq> None"
    proof (cases "snd (space p)")
      case (Cons c s)
      then have "2 * length (snd (space (advance 1 (space p)))) + 2 \<le> k"
        using k space_rest [of p] space_rest [of "advance 1 (space p)"] by simp
      then show ?thesis using members [of "space (advance 1 (space p))"] elements [of "space (advance 1 (space p))"]
        by (auto simp: json_value.simps Let_def Cons split: option.splits)
    qed (simp add: json_value.simps Let_def)
  next
    fix ms and p :: cursor assume k: "2 * length (snd p) + 1 \<le> Suc k"
    show "json_members stod (Suc k) ms p \<noteq> None"
    proof (cases "snd (space p) = [] \<or> hd (snd (space p)) \<noteq> quote")
      case False
      show ?thesis
      proof (cases "json_string (space p)")
        case (Inr kq)
        obtain key q where kq: "kq = (key, q)" by (cases kq) blast
        have q: "length (snd q) < length (snd p)"
          using json_string_rest [OF Inr [unfolded kq]] space_rest [of p] by simp
        show ?thesis
        proof (cases "consume CHR '':'' (space q)")
          case (Some r)
          have r: "length (snd r) < length (snd q)" using consume_rest [OF Some] space_rest [of q] by simp
          then obtain res where res: "json_value stod k r = Some res" using value_ih [of r] k q by auto
          have next_ok: "json_members stod k ms' u \<noteq> None"
            if "res = Inr (w, t)" "consume CHR '','' (space t) = Some u" for w t u ms'
            using members [of u] consume_rest [OF that(2)] space_rest [of t]
              json_value_rest [OF res [unfolded that(1)]] k q r by simp
          show ?thesis using False next_ok
            by (cases res) (auto simp: json_members.simps Let_def Inr kq Some res split: option.splits)
        qed (use False in \<open>simp add: json_members.simps Let_def Inr kq\<close>)
      qed (use False in \<open>simp add: json_members.simps Let_def\<close>)
    qed (auto simp: json_members.simps Let_def)
  next
    fix items and p :: cursor assume k: "2 * length (snd p) + 2 \<le> Suc k"
    then obtain res where res: "json_value stod k p = Some res" using value_ih [of p] by auto
    have next_ok: "json_elements stod k items' u \<noteq> None"
      if "res = Inr (w, t)" "consume CHR '','' (space t) = Some u" for w t u items'
      using elements [of u] consume_rest [OF that(2)] space_rest [of t]
        json_value_rest [OF res [unfolded that(1)]] k by simp
    then show "json_elements stod (Suc k) items p \<noteq> None"
      by (cases res) (auto simp: json_elements.simps Let_def res split: option.splits)
  qed
qed simp

text \<open>
  C33: the reader returns on every input. Within fuel twice the length of the input plus one the
  parser ends with a value or an exception, so that \<open>json_parse\<close> is that result, whatever the
  bytes are and whatever \<open>std::stod\<close> makes of them; what it has read is never longer than the input.
\<close>

theorem json_parse_terminates:
  "\<exists>result. json_value stod (json_fuel input) (0, input) = Some result \<and>
    (case result of
       Inl e \<Rightarrow> json_parse stod input = Inl e
     | Inr (v, p) \<Rightarrow> length (snd p) < length input \<and>
         (json_parse stod input = Inr v \<longleftrightarrow> snd (space p) = []))"
proof -
  have "json_value stod (json_fuel input) (0, input) \<noteq> None"
    using json_total [THEN conjunct1, rule_format, of "(0, input)" "json_fuel input" stod]
    by (simp add: json_fuel_def)
  then obtain result where r: "json_value stod (json_fuel input) (0, input) = Some result" by blast
  show ?thesis
  proof (cases result)
    case (Inr vp)
    then show ?thesis using r json_value_rest [of stod "json_fuel input" "(0, input)" "fst vp" "snd vp"]
      by (auto simp: json_parse_def json_fail_def split: prod.split)
  qed (use r in \<open>auto simp: json_parse_def\<close>)
qed

section \<open>What the reader makes of printed text\<close>

lemma escape_char_cases:
  assumes "escape_char c = Some e"
  obtains d where "e = [backslash, d]" "simple_escape d = Some c"
  | "e = [c]" "c \<noteq> quote" "c \<noteq> backslash"
proof -
  consider "c = quote" | "c = backslash" | "c = CHR 0x0A" | "c = CHR 0x0D" | "c = CHR 0x09"
    | "c \<noteq> quote" "c \<noteq> backslash" "e = [c]"
    using assms unfolding escape_char_def by (metis option.inject option.distinct(1))
  then show ?thesis
  proof cases
    case 1
    show ?thesis by (rule that(1) [of quote]) (use assms 1 in \<open>simp_all add: escape_char_def simple_escape_def\<close>)
  next
    case 2
    show ?thesis by (rule that(1) [of backslash]) (use assms 2 in \<open>simp_all add: escape_char_def simple_escape_def\<close>)
  next
    case 3
    show ?thesis by (rule that(1) [of "CHR ''n''"]) (use assms 3 in \<open>simp_all add: escape_char_def simple_escape_def\<close>)
  next
    case 4
    show ?thesis by (rule that(1) [of "CHR ''r''"]) (use assms 4 in \<open>simp_all add: escape_char_def simple_escape_def\<close>)
  next
    case 5
    show ?thesis by (rule that(1) [of "CHR ''t''"]) (use assms 5 in \<open>simp_all add: escape_char_def simple_escape_def\<close>)
  next
    case 6
    then show ?thesis by (intro that(2))
  qed
qed

lemma json_chars_escape:
  "escape x = Inr e \<Longrightarrow>
     json_chars r (n, e @ quote # s) = Inr (r @ x, (n + length e + 1, s))"
proof (induction x arbitrary: e r n)
  case (Cons c x)
  then obtain e1 e2 where e: "escape_char c = Some e1" "escape x = Inr e2" "e = e1 @ e2"
    by (auto split: option.splits sum.splits)
  note IH = Cons.IH [OF e(2)]
  from e(1) show ?case
  proof (cases rule: escape_char_cases)
    case (1 d)
    have "json_chars r (n, backslash # d # e2 @ quote # s) = json_chars (r @ [c]) (n + 2, e2 @ quote # s)"
      by (subst json_chars.simps) (simp add: 1)
    then show ?thesis using IH [of "r @ [c]" "n + 2"] e 1 by simp
  next
    case 2
    have "json_chars r (n, c # e2 @ quote # s) = json_chars (r @ [c]) (n + 1, e2 @ quote # s)"
      by (subst json_chars.simps) (simp add: 2)
    then show ?thesis using IH [of "r @ [c]" "n + 1"] e 2 by simp
  qed
qed (simp add: json_chars.simps)

lemma json_string_escape:
  "escape x = Inr e \<Longrightarrow> json_string (n, quote # e @ quote # s) = Inr (x, (n + length e + 2, s))"
  using json_chars_escape [of x e "[]" "n + 1" s] by (simp add: json_string_def advance_def)

text \<open>
  A text reads as a value when the parser takes exactly the text for it, whatever follows that
  is not part of a number.
\<close>

definition reads :: "(string \<Rightarrow> exn + 'd) \<Rightarrow> string \<Rightarrow> 'd json \<Rightarrow> bool" where
  "reads stod text v \<longleftrightarrow>
     text \<noteq> [] \<and> \<not> isspace (hd text) \<and> hd text \<noteq> CHR '']'' \<and> hd text \<noteq> CHR ''}'' \<and>
     (\<forall>k n s. 2 * length text + 1 \<le> k \<longrightarrow> s = [] \<or> \<not> number_char (hd s) \<longrightarrow>
        json_value stod k (n, text @ s) = Some (Inr (v, (n + length text, s))))"

lemma space_nonspace: "s = [] \<or> \<not> isspace (hd s) \<Longrightarrow> space (n, s) = (n, s)"
  by (cases s) simp_all

lemma reads_head: "reads stod text v \<Longrightarrow> space (n, text @ s) = (n, text @ s)"
  by (rule space_nonspace) (auto simp: reads_def)

lemma punctuation_class [simp]:
  "\<not> isspace CHR '',''" "\<not> isspace CHR '':''" "\<not> isspace CHR '']''" "\<not> isspace CHR ''}''"
  "\<not> isspace CHR ''{''" "\<not> isspace CHR ''[''" "\<not> isspace quote"
  "\<not> number_char CHR '',''" "\<not> number_char CHR '']''" "\<not> number_char CHR ''}''"
  by (simp_all add: isspace_def byte_def number_char_def)

lemma consume_Cons [simp]: "consume c (n, d # s) = (if d = c then Some (n + 1, s) else None)"
  by (simp add: consume_def advance_def)

lemma reads_string:
  assumes "escape x = Inr e"
  shows "reads stod (quote # e @ [quote]) (JString x)"
  unfolding reads_def
proof (intro conjI allI impI)
  fix k n s assume "2 * length (quote # e @ [quote]) + 1 \<le> k"
  then obtain k' where "k = Suc k'" by (cases k) auto
  then show "json_value stod k (n, (quote # e @ [quote]) @ s) =
      Some (Inr (JString x, (n + length (quote # e @ [quote]), s)))"
    using json_string_escape [OF assms, of n s] by (simp add: json_value.simps Let_def space_nonspace)
qed simp_all

lemma number_char_class: "number_char c \<Longrightarrow>
    \<not> isspace c \<and> c \<notin> {CHR ''{'', CHR ''['', CHR '']'', CHR ''}'', quote, CHR ''t'', CHR ''f'', CHR ''n''}"
  by (auto simp: number_char_def isspace_def byte_def Let_def)

lemma reads_number:
  assumes "token \<noteq> []" and "list_all number_char token" and "stod token = Inr d"
  shows "reads stod token (JNumber d)"
  unfolding reads_def
proof (intro conjI allI impI)
  have hd: "number_char (hd token)" using assms(1,2) by (cases token) auto
  then show "\<not> isspace (hd token)" "hd token \<noteq> CHR '']''" "hd token \<noteq> CHR ''}''"
    using number_char_class by auto
  fix k n s assume k: "2 * length token + 1 \<le> k" and s: "s = [] \<or> \<not> number_char (hd s)"
  obtain k' where k': "k = Suc k'" using k by (cases k) auto
  have "takeWhile number_char (token @ s) = token"
    using assms(2) s by (cases s) (auto simp: takeWhile_append list_all_iff)
  then have num: "json_number stod (n, token @ s) = Inr (JNumber d, (n + length token, s))"
    using assms(1,3) by (simp add: json_number_def Let_def advance_def)
  obtain c t where ct: "token = c # t" using assms(1) by (cases token) auto
  show "json_value stod k (n, token @ s) = Some (Inr (JNumber d, (n + length token, s)))"
    using number_char_class [OF hd] num by (simp add: k' json_value.simps Let_def space_nonspace ct)
qed (rule assms(1))

lemma reads_true: "reads stod ''true'' (JBool True)"
  unfolding reads_def
proof (intro conjI allI impI)
  fix k n s assume "2 * length ''true'' + 1 \<le> k"
  then obtain k' where "k = Suc k'" by (cases k) auto
  then show "json_value stod k (n, ''true'' @ s) = Some (Inr (JBool True, (n + length ''true'', s)))"
    by (simp add: json_value.simps Let_def space_nonspace isspace_def byte_def json_literal_def advance_def)
qed (simp_all add: isspace_def byte_def)

text \<open>Texts separated by commas.\<close>

fun commas :: "string list \<Rightarrow> string" where
  "commas [] = []"
| "commas [t] = t"
| "commas (t # ts) = t @ CHR '','' # commas ts"

lemma reads_elements:
  assumes "list_all2 (reads stod) texts vs" and "texts \<noteq> []"
    and "2 * length (commas texts @ '']'') + 2 \<le> k"
  shows "json_elements stod k items (n, commas texts @ CHR '']'' # s) =
    Some (Inr (JArray (items @ vs), (n + length (commas texts) + 1, s)))"
  using assms
proof (induction texts arbitrary: vs k items n rule: commas.induct)
  case (2 t)
  then obtain v k' where v: "vs = [v]" "reads stod t v" and k: "k = Suc k'"
    by (cases k) (auto simp: list_all2_Cons1)
  have "json_value stod k' (n, t @ CHR '']'' # s) = Some (Inr (v, (n + length t, CHR '']'' # s)))"
    using v(2) 2(3) k unfolding reads_def by simp
  then show ?case by (simp add: k json_elements.simps Let_def v space_nonspace)
next
  case (3 t t' ts)
  then obtain v vs' k' where v: "vs = v # vs'" "reads stod t v" "list_all2 (reads stod) (t' # ts) vs'"
    and k: "k = Suc k'" by (cases k) (auto simp: list_all2_Cons1)
  have *: "json_value stod k' (n, t @ CHR '','' # commas (t' # ts) @ CHR '']'' # s) =
      Some (Inr (v, (n + length t, CHR '','' # commas (t' # ts) @ CHR '']'' # s)))"
    using v(2) 3(4) k unfolding reads_def by simp
  have "json_elements stod k' (items @ [v]) (n + length t + 1, commas (t' # ts) @ CHR '']'' # s) =
      Some (Inr (JArray ((items @ [v]) @ vs'), (n + length t + 1 + length (commas (t' # ts)) + 1, s)))"
    by (rule 3(1) [OF v(3)]) (use 3(4) k in auto)
  then show ?case using * by (simp add: k json_elements.simps Let_def v space_nonspace)
qed simp

lemma commas_head:
  assumes "list_all2 (reads stod) texts vs" and "texts \<noteq> []"
  shows "commas texts \<noteq> [] \<and> \<not> isspace (hd (commas texts)) \<and> hd (commas texts) \<noteq> CHR '']''"
  using assms by (cases texts rule: commas.cases) (auto simp: reads_def list_all2_Cons1)

lemma reads_array:
  assumes "list_all2 (reads stod) texts vs"
  shows "reads stod (CHR ''['' # commas texts @ '']'') (JArray vs)"
  unfolding reads_def
proof (intro conjI allI impI)
  fix k n s assume k: "2 * length (CHR ''['' # commas texts @ '']'') + 1 \<le> k"
  then obtain k' where k': "k = Suc k'" by (cases k) auto
  show "json_value stod k (n, (CHR ''['' # commas texts @ '']'') @ s) =
      Some (Inr (JArray vs, (n + length (CHR ''['' # commas texts @ '']''), s)))"
  proof (cases "texts = []")
    case True
    with assms show ?thesis by (simp add: k' json_value.simps Let_def space_nonspace advance_def)
  next
    case False
    note head = commas_head [OF assms False]
    obtain c t where ct: "commas texts = c # t" using head by (cases "commas texts") auto
    have "json_elements stod k' [] (n + 1, commas texts @ CHR '']'' # s) =
        Some (Inr (JArray ([] @ vs), (n + 1 + length (commas texts) + 1, s)))"
      by (rule reads_elements [OF assms False]) (use k k' in simp)
    then show ?thesis using head
      by (simp add: k' json_value.simps Let_def space_nonspace advance_def ct)
  qed
qed simp_all

text \<open>The fields of an object: key, printed key, printed value, value.\<close>

definition field_text :: "string \<times> string \<times> string \<times> 'd json \<Rightarrow> string" where
  "field_text f = (case f of (key, ekey, text, v) \<Rightarrow> quote # ekey @ quote # CHR '':'' # text)"

definition field_ok :: "(string \<Rightarrow> exn + 'd) \<Rightarrow> string \<times> string \<times> string \<times> 'd json \<Rightarrow> bool" where
  "field_ok stod f \<longleftrightarrow> (case f of (key, ekey, text, v) \<Rightarrow> escape key = Inr ekey \<and> reads stod text v)"

definition add_field ::
  "string \<times> string \<times> string \<times> 'd json \<Rightarrow> (string, 'd json) umap \<Rightarrow> (string, 'd json) umap" where
  "add_field f ms = (case f of (key, ekey, text, v) \<Rightarrow> umap_emplace key v ms)"

lemma reads_member:
  assumes "field_ok stod f" and "2 * length (field_text f) + 1 \<le> k" and "c = CHR '','' \<or> c = CHR ''}''"
  shows "json_members stod (Suc k) ms (n, field_text f @ c # s) =
    (if c = CHR ''}'' then Some (Inr (JObject (add_field f ms), (n + length (field_text f) + 1, s)))
     else json_members stod k (add_field f ms) (n + length (field_text f) + 1, s))"
proof -
  obtain key ekey body v where f: "f = (key, ekey, body, v)" by (cases f) auto
  have ok: "escape key = Inr ekey" "reads stod body v" using assms(1) by (simp_all add: field_ok_def f)
  have str: "json_string (n, quote # ekey @ quote # CHR '':'' # body @ c # s) =
      Inr (key, (n + length ekey + 2, CHR '':'' # body @ c # s))"
    using json_string_escape [OF ok(1)] by simp
  have val: "json_value stod k (n + length ekey + 2 + 1, body @ c # s) =
      Some (Inr (v, (n + length ekey + 2 + 1 + length body, c # s)))"
    using ok(2) assms(2,3) unfolding reads_def by (auto simp: field_text_def f)
  show ?thesis using assms(3) str val
    by (auto simp: json_members.simps Let_def field_text_def f space_nonspace add_field_def add.assoc)
qed

lemma reads_members:
  assumes "list_all (field_ok stod) fs" and "fs \<noteq> []"
    and "2 * length (commas (map field_text fs) @ ''}'') \<le> k"
  shows "json_members stod k ms (n, commas (map field_text fs) @ CHR ''}'' # s) =
    Some (Inr (JObject (fold add_field fs ms), (n + length (commas (map field_text fs)) + 1, s)))"
  using assms
proof (induction fs arbitrary: k ms n)
  case (Cons f fs)
  then obtain k' where k: "k = Suc k'" by (cases k) auto
  show ?case
  proof (cases fs)
    case Nil
    then show ?thesis using reads_member [of stod f k' "CHR ''}''" ms n s] Cons.prems k by simp
  next
    case (Cons g gs)
    have "json_members stod (Suc k') ms (n, field_text f @ CHR '','' # commas (map field_text fs) @ CHR ''}'' # s) =
        json_members stod k' (add_field f ms)
          (n + length (field_text f) + 1, commas (map field_text fs) @ CHR ''}'' # s)"
      using reads_member [of stod f k' "CHR '',''" ms n "commas (map field_text fs) @ CHR ''}'' # s"]
        Cons.prems k by (simp add: \<open>fs = g # gs\<close>)
    also have "\<dots> = Some (Inr (JObject (fold add_field fs (add_field f ms)),
        (n + length (field_text f) + 1 + length (commas (map field_text fs)) + 1, s)))"
      using Cons.prems k \<open>fs = g # gs\<close> by (intro Cons.IH) auto
    finally show ?thesis by (simp add: k \<open>fs = g # gs\<close>)
  qed
qed simp

lemma reads_object:
  assumes "list_all (field_ok stod) fs"
  shows "reads stod (CHR ''{'' # commas (map field_text fs) @ ''}'') (JObject (fold add_field fs []))"
  unfolding reads_def
proof (intro conjI allI impI)
  fix k n s assume k: "2 * length (CHR ''{'' # commas (map field_text fs) @ ''}'') + 1 \<le> k"
  then obtain k' where k': "k = Suc k'" by (cases k) auto
  show "json_value stod k (n, (CHR ''{'' # commas (map field_text fs) @ ''}'') @ s) =
      Some (Inr (JObject (fold add_field fs []), (n + length (CHR ''{'' # commas (map field_text fs) @ ''}''), s)))"
  proof (cases fs)
    case Nil
    then show ?thesis by (simp add: k' json_value.simps Let_def space_nonspace advance_def)
  next
    case (Cons f gs)
    have "json_members stod k' [] (n + 1, commas (map field_text fs) @ CHR ''}'' # s) =
        Some (Inr (JObject (fold add_field fs []), (n + 1 + length (commas (map field_text fs)) + 1, s)))"
      by (rule reads_members [OF assms]) (use k k' Cons in auto)
    moreover have "\<exists>t. commas (map field_text fs) = quote # t"
      by (cases gs) (auto simp: Cons field_text_def split: prod.split)
    ultimately show ?thesis
      by (auto simp: k' json_value.simps Let_def space_nonspace advance_def)
  qed
qed simp_all

lemma reads_parse:
  assumes "reads stod text v"
  shows "json_parse stod text = Inr v"
proof -
  have "json_value stod (json_fuel text) (0, text @ []) = Some (Inr (v, (0 + length text, [])))"
    using assms unfolding reads_def json_fuel_def by blast
  then show ?thesis by (simp add: json_parse_def)
qed

end
