(* ===== verification/Openai_Llm.thy ===== *)
theory Openai_Llm
  imports Json_Reading
begin

text \<open>
  The OpenAI-compatible language model (\<open>openai_compatible.h\<close>, \<open>openai_compatible.cpp\<close>): the
  request it prints, the response it reads, and the stream of server-sent events. The transport
  is a parameter: the pieces of the body it hands to the sink, in order, and the response or
  exception it ends with; an exception of the sink ends the transfer and is thrown on. The
  consumer of the text is client code, a function of all deltas it was given.
\<close>

section \<open>Data\<close>

record HttpRequest =
  hq_method :: string
  hq_url :: string
  hq_headers :: "(string, string) umap"
  hq_body :: string
  hq_streaming :: bool

record HttpResponse =
  hr_status :: int
  hr_body :: string
  hr_headers :: "(string, string) umap"

record ToolDefinition =
  td_name :: string
  td_description :: string
  td_parameters_json :: string

record 'd OpenAiCompatibleConfig =
  oc_base_url :: string
  oc_api_key :: string
  oc_model :: string
  oc_tools :: "ToolDefinition list"
  oc_temperature :: 'd

definition openai_new :: "'d OpenAiCompatibleConfig \<Rightarrow> exn + 'd OpenAiCompatibleConfig" where
  "openai_new c = (if oc_model c = [] then Inl (StdException ''model is required'') else Inr c)"

section \<open>The request\<close>

fun role_name :: "Role \<Rightarrow> string" where
  "role_name System = ''system''"
| "role_name User = ''user''"
| "role_name Assistant = ''assistant''"
| "role_name Tool = ''tool''"

text \<open>Concatenation of printed pieces, of which the first exception is thrown.\<close>

fun concat_texts :: "(exn + string) list \<Rightarrow> exn + string" where
  "concat_texts [] = Inr []"
| "concat_texts (t # ts) =
     (case t of
        Inl e \<Rightarrow> Inl e
      | Inr s \<Rightarrow> (case concat_texts ts of Inl e \<Rightarrow> Inl e | Inr r \<Rightarrow> Inr (s @ r)))"

text \<open>The loops that put a comma before every item but the first.\<close>

fun comma_texts :: "(exn + string) list \<Rightarrow> exn + string" where
  "comma_texts [] = Inr []"
| "comma_texts (t # ts) = concat_texts (t # concat (map (\<lambda>u. [Inr '','', u]) ts))"

definition tool_call_json :: "ToolCall \<Rightarrow> exn + string" where
  "tool_call_json call =
     concat_texts [Inr ''{\"id\":\"'', escape (tc_id call),
       Inr ''\",\"type\":\"function\",\"function\":{\"name\":\"'', escape (tc_name call),
       Inr ''\",\"arguments\":\"'', escape (tc_arguments call), Inr ''\"}}'']"

definition message_json :: "Message \<Rightarrow> exn + string" where
  "message_json m =
     concat_texts
       ([Inr ''{\"role\":\"'', Inr (role_name (msg_role m)), Inr ''\"''] @
        (if msg_role m = Tool
         then [Inr '',\"tool_call_id\":\"'', escape (msg_tool_call_id m), Inr ''\"''] else []) @
        [Inr '',\"content\":\"'', escape (msg_content m), Inr ''\"''] @
        (if msg_tool_calls m \<noteq> []
         then [Inr '',\"tool_calls\":['', comma_texts (map tool_call_json (msg_tool_calls m)), Inr '']'']
         else []) @
        [Inr ''}''])"

definition tool_definition_json :: "ToolDefinition \<Rightarrow> exn + string" where
  "tool_definition_json t =
     concat_texts [Inr ''{\"type\":\"function\",\"function\":{\"name\":\"'', escape (td_name t),
       Inr ''\",\"description\":\"'', escape (td_description t),
       Inr ''\",\"parameters\":'', Inr (td_parameters_json t), Inr ''}}'']"

text \<open>\<open>double_text\<close> is \<open>std::to_string\<close> on a \<open>double\<close>.\<close>

definition request_body ::
  "('d \<Rightarrow> string) \<Rightarrow> 'd OpenAiCompatibleConfig \<Rightarrow> Message list \<Rightarrow> exn + string" where
  "request_body double_text c history =
     concat_texts
       ([Inr ''{\"model\":\"'', escape (oc_model c), Inr ''\",\"messages\":['',
         comma_texts (map message_json history), Inr ''],\"temperature\":'',
         Inr (double_text (oc_temperature c))] @
        (if oc_tools c \<noteq> []
         then [Inr '',\"tools\":['', comma_texts (map tool_definition_json (oc_tools c)), Inr '']'']
         else []) @
        [Inr ''}''])"

definition strip_slashes :: "string \<Rightarrow> string" where
  "strip_slashes base = rev (dropWhile (\<lambda>c. c = CHR ''/'') (rev base))"

definition make_request ::
  "('d \<Rightarrow> string) \<Rightarrow> 'd OpenAiCompatibleConfig \<Rightarrow> Message list \<Rightarrow> exn + HttpRequest" where
  "make_request double_text c history =
     (case request_body double_text c history of
        Inl e \<Rightarrow> Inl e
      | Inr body \<Rightarrow> Inr
          \<lparr>hq_method = ''POST'', hq_url = strip_slashes (oc_base_url c) @ ''/chat/completions'',
           hq_headers = (if oc_api_key c \<noteq> [] then [(''Authorization'', ''Bearer '' @ oc_api_key c)] else []) @
             [(''Content-Type'', ''application/json'')],
           hq_body = body, hq_streaming = False\<rparr>)"

section \<open>The response\<close>

definition int_to_string :: "int \<Rightarrow> string" where
  "int_to_string i = (if i < 0 then ''-'' @ to_string (nat (- i)) else to_string (nat i))"

definition http_failed :: "HttpResponse \<Rightarrow> bool" where
  "http_failed r \<longleftrightarrow> hr_status r < 200 \<or> hr_status r \<ge> 300"

definition http_error :: "HttpResponse \<Rightarrow> exn" where
  "http_error r = StdException (''LLM HTTP status '' @ int_to_string (hr_status r))"

definition read_tool_call :: "'d json \<Rightarrow> exn + ToolCall" where
  "read_tool_call item =
     (case json_at ''function'' item of
        Inl e \<Rightarrow> Inl e
      | Inr function \<Rightarrow>
          (case json_at ''id'' item of
             Inl e \<Rightarrow> Inl e
           | Inr i \<Rightarrow>
               (case json_at ''name'' function of
                  Inl e \<Rightarrow> Inl e
                | Inr n \<Rightarrow>
                    (case json_at ''arguments'' function of
                       Inl e \<Rightarrow> Inl e
                     | Inr a \<Rightarrow> Inr \<lparr>tc_id = string_or_empty i, tc_name = string_or_empty n,
                         tc_arguments = string_or_empty a\<rparr>))))"

text \<open>The loop appends to the result until an item throws: the calls read and the exception.\<close>

fun read_tool_calls :: "'d json list \<Rightarrow> ToolCall list \<times> exn option" where
  "read_tool_calls [] = ([], None)"
| "read_tool_calls (item # items) =
     (case read_tool_call item of
        Inl e \<Rightarrow> ([], Some e)
      | Inr call \<Rightarrow> (case read_tool_calls items of (calls, e) \<Rightarrow> (call # calls, e)))"

definition contains :: "string \<Rightarrow> string \<Rightarrow> bool" where
  "contains haystack needle \<longleftrightarrow>
     list_ex (\<lambda>i. take (length needle) (drop i haystack) = needle) [0..<Suc (length haystack)]"

definition missing_tool_calls :: "exn \<Rightarrow> bool" where
  "missing_tool_calls e =
     (case e of StdException what \<Rightarrow> contains what ''missing JSON field: tool_calls'' | OtherException \<Rightarrow> False)"

definition read_message :: "'d json \<Rightarrow> exn + LlmTurn" where
  "read_message message =
     (case json_at ''content'' message of
        Inl e \<Rightarrow> Inl e
      | Inr content \<Rightarrow>
          (case (case json_at ''tool_calls'' message of
               Inl e \<Rightarrow> ([], Some e)
             | Inr calls \<Rightarrow> (case json_array calls of Inl e \<Rightarrow> ([], Some e) | Inr items \<Rightarrow> read_tool_calls items))
           of (calls, error) \<Rightarrow>
             let turn = \<lparr>lt_text = string_or_empty content, lt_tool_calls = calls, lt_complete = True\<rparr>
             in case error of
                 None \<Rightarrow> Inr turn
               | Some e \<Rightarrow> if missing_tool_calls e then Inr turn else Inl e))"

definition parse_response :: "(string \<Rightarrow> exn + 'd) \<Rightarrow> HttpResponse \<Rightarrow> exn + LlmTurn" where
  "parse_response stod r =
     (if http_failed r then Inl (http_error r)
      else case json_parse stod (hr_body r) of
          Inl e \<Rightarrow> Inl e
        | Inr root \<Rightarrow>
            (case json_at ''choices'' root of
               Inl e \<Rightarrow> Inl e
             | Inr choices \<Rightarrow>
                 (case json_array choices of
                    Inl e \<Rightarrow> Inl e
                  | Inr [] \<Rightarrow> Inl (StdException ''LLM response has no choices'')
                  | Inr (choice # _) \<Rightarrow>
                      (case json_at ''message'' choice of
                         Inl e \<Rightarrow> Inl e
                       | Inr message \<Rightarrow> read_message message))))"

definition openai_complete ::
  "('d \<Rightarrow> string) \<Rightarrow> (string \<Rightarrow> exn + 'd) \<Rightarrow> (HttpRequest \<Rightarrow> exn + HttpResponse) \<Rightarrow>
   'd OpenAiCompatibleConfig \<Rightarrow> Message list \<Rightarrow> exn + LlmTurn" where
  "openai_complete double_text stod perform c history =
     (case make_request double_text c history of
        Inl e \<Rightarrow> Inl e
      | Inr request \<Rightarrow>
          (case perform request of Inl e \<Rightarrow> Inl e | Inr response \<Rightarrow> parse_response stod response))"

section \<open>Server-sent events\<close>

record SseParser =
  sp_buffer :: string
  sp_data :: string

abbreviation newline :: char where "newline \<equiv> CHR 0x0A"

abbreviation carriage_return :: char where "carriage_return \<equiv> CHR 0x0D"

text \<open>The sink is the adapter's event handler on its own state; it may throw.\<close>

type_synonym 's sse_sink = "string \<Rightarrow> 's \<Rightarrow> exn + 's"

definition sse_new :: SseParser where
  "sse_new = \<lparr>sp_buffer = [], sp_data = []\<rparr>"

definition sse_dispatch :: "'s sse_sink \<Rightarrow> SseParser \<Rightarrow> 's \<Rightarrow> exn + (SseParser \<times> 's)" where
  "sse_dispatch sink p st =
     (if sp_data p = [] then Inr (p, st)
      else case sink (sp_data p) st of Inl e \<Rightarrow> Inl e | Inr st' \<Rightarrow> Inr (p\<lparr>sp_data := []\<rparr>, st'))"

definition sse_process_line :: "'s sse_sink \<Rightarrow> string \<Rightarrow> SseParser \<Rightarrow> 's \<Rightarrow> exn + (SseParser \<times> 's)" where
  "sse_process_line sink line p st =
     (if line = [] then sse_dispatch sink p st
      else if take 5 line \<noteq> ''data:'' then Inr (p, st)
      else
        let content = drop 5 line;
            content = (case content of c # rest \<Rightarrow> if c = CHR '' '' then rest else content | [] \<Rightarrow> [])
        in Inr (p\<lparr>sp_data := (if sp_data p \<noteq> [] then sp_data p @ [newline] else []) @ content\<rparr>, st))"

lemma sse_process_line_buffer: "sse_process_line sink line p st = Inr (p', st') \<Longrightarrow> sp_buffer p' = sp_buffer p"
  by (auto simp: sse_process_line_def sse_dispatch_def Let_def split: if_splits sum.splits)

definition strip_return :: "string \<Rightarrow> string" where
  "strip_return line = (if line \<noteq> [] \<and> last line = carriage_return then butlast line else line)"

function sse_lines :: "'s sse_sink \<Rightarrow> SseParser \<Rightarrow> 's \<Rightarrow> exn + (SseParser \<times> 's)" where
  "sse_lines sink p st =
     (if newline \<notin> set (sp_buffer p) then Inr (p, st)
      else
        let line = takeWhile (\<lambda>c. c \<noteq> newline) (sp_buffer p);
            p = p\<lparr>sp_buffer := drop (length line + 1) (sp_buffer p)\<rparr>
        in case sse_process_line sink (strip_return line) p st of
            Inl e \<Rightarrow> Inl e
          | Inr (p', st') \<Rightarrow> sse_lines sink p' st')"
  by pat_completeness auto
termination
  by (relation "measure (\<lambda>(sink, p, st). length (sp_buffer p))")
    (auto simp: sse_process_line_buffer dest: length_pos_if_in_set)

declare sse_lines.simps [simp del]

definition sse_feed :: "'s sse_sink \<Rightarrow> string \<Rightarrow> SseParser \<Rightarrow> 's \<Rightarrow> exn + (SseParser \<times> 's)" where
  "sse_feed sink bytes p st = sse_lines sink (p\<lparr>sp_buffer := sp_buffer p @ bytes\<rparr>) st"

definition sse_finish :: "'s sse_sink \<Rightarrow> SseParser \<Rightarrow> 's \<Rightarrow> exn + (SseParser \<times> 's)" where
  "sse_finish sink p st =
     (if sp_buffer p \<noteq> [] then
        (case sse_process_line sink (strip_return (sp_buffer p)) p st of
           Inl e \<Rightarrow> Inl e
         | Inr (p', st') \<Rightarrow> sse_dispatch sink (p'\<lparr>sp_buffer := []\<rparr>) st')
      else sse_dispatch sink p st)"

text \<open>The calls of the body sink, in order.\<close>

fun sse_feeds :: "'s sse_sink \<Rightarrow> string list \<Rightarrow> SseParser \<Rightarrow> 's \<Rightarrow> exn + (SseParser \<times> 's)" where
  "sse_feeds sink [] p st = Inr (p, st)"
| "sse_feeds sink (bytes # chunks) p st =
     (case sse_feed sink bytes p st of Inl e \<Rightarrow> Inl e | Inr (p', st') \<Rightarrow> sse_feeds sink chunks p' st')"

section \<open>Streaming\<close>

record LlmStream =
  ls_text :: string
  ls_tool_calls :: "ToolCall list"
  ls_done :: bool
  ls_deltas :: "string list"

definition stream_start :: LlmStream where
  "stream_start = \<lparr>ls_text = [], ls_tool_calls = [], ls_done = False, ls_deltas = []\<rparr>"

definition empty_tool_call :: ToolCall where
  "empty_tool_call = \<lparr>tc_id = [], tc_name = [], tc_arguments = []\<rparr>"

text \<open>\<open>resize\<close> up to index \<open>i\<close>.\<close>

definition grow_calls :: "nat \<Rightarrow> ToolCall list \<Rightarrow> ToolCall list" where
  "grow_calls i calls =
     (if length calls \<le> i then calls @ replicate (i + 1 - length calls) empty_tool_call else calls)"

definition found_text :: "string \<Rightarrow> 'd json \<Rightarrow> string" where
  "found_text key j = (case json_find key j of None \<Rightarrow> [] | Some v \<Rightarrow> string_or_empty v)"

definition stream_tool_call :: "('d \<Rightarrow> nat) \<Rightarrow> 'd json \<Rightarrow> LlmStream \<Rightarrow> LlmStream" where
  "stream_tool_call as_index item st =
     (let i = (case json_find ''index'' item of None \<Rightarrow> 0 | Some v \<Rightarrow> index_or_zero as_index v);
          calls = grow_calls i (ls_tool_calls st);
          call = calls ! i;
          call = call\<lparr>tc_id := tc_id call @ found_text ''id'' item\<rparr>;
          call = (case json_find ''function'' item of
               None \<Rightarrow> call
             | Some function \<Rightarrow> call\<lparr>tc_name := tc_name call @ found_text ''name'' function,
                 tc_arguments := tc_arguments call @ found_text ''arguments'' function\<rparr>)
      in st\<lparr>ls_tool_calls := calls[i := call]\<rparr>)"

definition stream_content ::
  "(string list \<Rightarrow> exn + bool) \<Rightarrow> 'd json \<Rightarrow> LlmStream \<Rightarrow> exn + LlmStream" where
  "stream_content consumer delta st =
     (let body = found_text ''content'' delta
      in if body = [] then Inr st
      else
        let st = st\<lparr>ls_text := ls_text st @ body, ls_deltas := ls_deltas st @ [body]\<rparr>
        in case consumer (ls_deltas st) of
            Inl e \<Rightarrow> Inl e
          | Inr False \<Rightarrow> Inl (StdException ''LLM stream consumer stopped'')
          | Inr True \<Rightarrow> Inr st)"

definition stream_delta ::
  "('d \<Rightarrow> nat) \<Rightarrow> (string list \<Rightarrow> exn + bool) \<Rightarrow> 'd json \<Rightarrow> LlmStream \<Rightarrow> exn + LlmStream" where
  "stream_delta as_index consumer delta st =
     (case stream_content consumer delta st of
        Inl e \<Rightarrow> Inl e
      | Inr st \<Rightarrow>
          (case json_find ''tool_calls'' delta of
             None \<Rightarrow> Inr st
           | Some calls \<Rightarrow>
               (case json_array calls of
                  Inl e \<Rightarrow> Inl e
                | Inr items \<Rightarrow> Inr (fold (stream_tool_call as_index) items st))))"

text \<open>The handler of one event.\<close>

definition stream_event ::
  "(string \<Rightarrow> exn + 'd) \<Rightarrow> ('d \<Rightarrow> nat) \<Rightarrow> (string list \<Rightarrow> exn + bool) \<Rightarrow> LlmStream sse_sink" where
  "stream_event stod as_index consumer event st =
     (if ls_done st then Inr st
      else if event = ''[DONE]'' then Inr (st\<lparr>ls_done := True\<rparr>)
      else case json_parse stod event of
          Inl e \<Rightarrow> Inl e
        | Inr root \<Rightarrow>
            (case json_find ''choices'' root of
               None \<Rightarrow> Inr st
             | Some choices \<Rightarrow>
                 (case json_array choices of
                    Inl e \<Rightarrow> Inl e
                  | Inr [] \<Rightarrow> Inr st
                  | Inr (choice # _) \<Rightarrow>
                      (case json_find ''delta'' choice of
                         None \<Rightarrow> Inr st
                       | Some delta \<Rightarrow> stream_delta as_index consumer delta st))))"

definition stream_request :: "HttpRequest \<Rightarrow> HttpRequest" where
  "stream_request q =
     q\<lparr>hq_body := butlast (hq_body q) @ '',\"stream\":true}'',
       hq_headers := (''Accept'', ''text/event-stream'') # hq_headers q, hq_streaming := True\<rparr>"

definition stream_result :: "LlmStream \<Rightarrow> LlmTurn" where
  "stream_result st =
     \<lparr>lt_text = ls_text st, lt_tool_calls = ls_tool_calls st, lt_complete = ls_done st\<rparr>"

text \<open>
  The transfer and what follows it: the pieces through the sink, then the status, then the end of
  the stream.
\<close>

definition stream_transfer ::
  "LlmStream sse_sink \<Rightarrow> string list \<Rightarrow> exn + HttpResponse \<Rightarrow> exn + LlmTurn" where
  "stream_transfer sink chunks outcome =
     (case sse_feeds sink chunks sse_new stream_start of
        Inl e \<Rightarrow> Inl e
      | Inr (p, st) \<Rightarrow>
          (case outcome of
             Inl e \<Rightarrow> Inl e
           | Inr response \<Rightarrow>
               if http_failed response then Inl (http_error response)
               else case sse_finish sink p st of
                   Inl e \<Rightarrow> Inl e
                 | Inr (_, st) \<Rightarrow> Inr (stream_result st)))"

definition openai_stream ::
  "('d \<Rightarrow> string) \<Rightarrow> (string \<Rightarrow> exn + 'd) \<Rightarrow> ('d \<Rightarrow> nat) \<Rightarrow>
   (HttpRequest \<Rightarrow> string list \<times> (exn + HttpResponse)) \<Rightarrow> (string list \<Rightarrow> exn + bool) \<Rightarrow>
   'd OpenAiCompatibleConfig \<Rightarrow> Message list \<Rightarrow> exn + LlmTurn" where
  "openai_stream double_text stod as_index perform consumer c history =
     (case make_request double_text c history of
        Inl e \<Rightarrow> Inl e
      | Inr request \<Rightarrow>
          (case perform (stream_request request) of
             (chunks, outcome) \<Rightarrow>
               stream_transfer (stream_event stod as_index consumer) chunks outcome))"

end
