(* ===== verification/Openai_Request.thy ===== *)
theory Openai_Request
  imports Openai_Llm
begin

text \<open>
  The request of the OpenAI-compatible adapter read back: each printer of \<open>Openai_Llm\<close> prints a
  text that \<open>json_parse\<close> reads as the value written here beside it, up to the whole body.
\<close>

section \<open>The printed request\<close>

lemma concat_texts_map: "concat_texts (map Inr ss) = Inr (concat ss)"
  by (induction ss) auto

lemma concat_texts_pieces: "concat_texts ts = Inr s \<Longrightarrow> \<exists>ss. ts = map Inr ss"
proof (induction ts arbitrary: s)
  case (Cons t ts)
  then obtain x r where x: "t = Inr x" "concat_texts ts = Inr r" by (auto split: sum.splits)
  then obtain ss where "ts = map Inr ss" using Cons.IH by blast
  with x show ?case by (intro exI [of _ "x # ss"]) simp
qed simp

lemma concat_texts_Inr: "concat_texts ts = Inr s \<longleftrightarrow> (\<exists>ss. ts = map Inr ss \<and> s = concat ss)"
  using concat_texts_pieces [of ts s] concat_texts_map by auto

declare concat_texts.simps [simp del]

lemma comma_pieces:
  "concat (map (\<lambda>u. [Inr '','', u]) ts) = map Inr ss \<Longrightarrow> \<exists>us. ts = map Inr us \<and> concat ss = concat (map (\<lambda>u. CHR '','' # u) us)"
proof (induction ts arbitrary: ss)
  case (Cons t ts)
  then obtain u ss' where "t = Inr u" "ss = '','' # u # ss'" "concat (map (\<lambda>u. [Inr '','', u]) ts) = map Inr ss'"
    by (auto simp: Cons_eq_map_conv)
  with Cons.IH [of ss'] obtain us where "ts = map Inr us" "concat ss' = concat (map (\<lambda>u. CHR '','' # u) us)"
    by blast
  then show ?case using \<open>t = Inr u\<close> \<open>ss = '','' # u # ss'\<close> by (intro exI [of _ "u # us"]) simp
qed auto

lemma commas_concat: "commas (t # ts) = t @ concat (map (\<lambda>u. CHR '','' # u) ts)"
  by (induction ts arbitrary: t) auto

lemma comma_texts_Inr: "comma_texts ts = Inr s \<Longrightarrow> \<exists>ss. ts = map Inr ss \<and> s = commas ss"
proof (cases ts)
  case (Cons t us)
  assume "comma_texts ts = Inr s"
  then have "concat_texts (t # concat (map (\<lambda>u. [Inr '','', u]) us)) = Inr s" by (simp add: Cons)
  then obtain ss where ss: "t # concat (map (\<lambda>u. [Inr '','', u]) us) = map Inr ss" "s = concat ss"
    unfolding concat_texts_Inr by (elim exE conjE) (rule that)
  then obtain x ss' where x: "ss = x # ss'" "t = Inr x" "concat (map (\<lambda>u. [Inr '','', u]) us) = map Inr ss'"
    by (auto simp: Cons_eq_map_conv)
  obtain ws where "us = map Inr ws" "concat ss' = concat (map (\<lambda>u. CHR '','' # u) ws)"
    using comma_pieces [OF x(3)] by blast
  then show ?thesis using ss x by (intro exI [of _ "x # ws"]) (simp add: Cons commas_concat)
qed simp

lemma commas_snoc: "ts \<noteq> [] \<Longrightarrow> commas (ts @ [t]) = commas ts @ CHR '','' # t"
  by (cases ts) (simp_all add: commas_concat)

text \<open>The values the request stands for.\<close>

definition json_object :: "(string \<times> 'd json) list \<Rightarrow> 'd json" where
  "json_object kvs = JObject (fold (\<lambda>(k, v). umap_emplace k v) kvs [])"

definition tool_call_value :: "ToolCall \<Rightarrow> 'd json" where
  "tool_call_value call =
     json_object [(''id'', JString (tc_id call)), (''type'', JString ''function''),
       (''function'', json_object [(''name'', JString (tc_name call)),
         (''arguments'', JString (tc_arguments call))])]"

definition message_value :: "Message \<Rightarrow> 'd json" where
  "message_value m =
     json_object ([(''role'', JString (role_name (msg_role m)))] @
       (if msg_role m = Tool then [(''tool_call_id'', JString (msg_tool_call_id m))] else []) @
       [(''content'', JString (msg_content m))] @
       (if msg_tool_calls m \<noteq> [] then [(''tool_calls'', JArray (map tool_call_value (msg_tool_calls m)))] else []))"

definition tool_definition_value :: "ToolDefinition \<Rightarrow> 'd json \<Rightarrow> 'd json" where
  "tool_definition_value t schema =
     json_object [(''type'', JString ''function''), (''function'',
       json_object [(''name'', JString (td_name t)), (''description'', JString (td_description t)),
         (''parameters'', schema)])]"

definition request_pairs ::
  "'d OpenAiCompatibleConfig \<Rightarrow> Message list \<Rightarrow> 'd \<Rightarrow> 'd json list \<Rightarrow> (string \<times> 'd json) list" where
  "request_pairs c history temperature schemas =
     [(''model'', JString (oc_model c)), (''messages'', JArray (map message_value history)),
      (''temperature'', JNumber temperature)] @
     (if oc_tools c \<noteq> [] then [(''tools'', JArray (map2 tool_definition_value (oc_tools c) schemas))] else [])"

lemma reads_fields:
  assumes "list_all (field_ok stod) fs" and "kvs = map (\<lambda>(k, ek, t, v). (k, v)) fs"
    and "s = CHR ''{'' # commas (map field_text fs) @ ''}''"
  shows "reads stod s (json_object kvs)"
proof -
  have "fold (\<lambda>(k, v). umap_emplace k v) kvs ms = fold add_field fs ms" for ms
    unfolding assms(2) by (induction fs arbitrary: ms) (auto simp: add_field_def)
  then show ?thesis using reads_object [OF assms(1)] by (simp add: assms(3) json_object_def)
qed

lemma escape_keys [simp]:
  "escape ''id'' = Inr ''id''" "escape ''type'' = Inr ''type''" "escape ''function'' = Inr ''function''"
  "escape ''name'' = Inr ''name''" "escape ''arguments'' = Inr ''arguments''" "escape ''role'' = Inr ''role''"
  "escape ''tool_call_id'' = Inr ''tool_call_id''" "escape ''content'' = Inr ''content''"
  "escape ''tool_calls'' = Inr ''tool_calls''" "escape ''description'' = Inr ''description''"
  "escape ''parameters'' = Inr ''parameters''" "escape ''model'' = Inr ''model''"
  "escape ''messages'' = Inr ''messages''" "escape ''temperature'' = Inr ''temperature''"
  "escape ''tools'' = Inr ''tools''" "escape ''stream'' = Inr ''stream''"
  by (simp_all add: escape_char_def)

lemma escape_role [simp]: "escape (role_name r) = Inr (role_name r)"
  by (cases r) (simp_all add: escape_char_def)

declare escape.simps [simp del]

lemma map_Inr_eq [simp]: "[] = map Inr ss \<longleftrightarrow> ss = []"
  "x # xs = map Inr ss \<longleftrightarrow> (\<exists>y ys. ss = y # ys \<and> x = Inr y \<and> xs = map Inr ys)"
  by (auto simp: Cons_eq_map_conv)

lemma reads_tool_call:
  fixes stod :: "string \<Rightarrow> exn + 'd"
  assumes "tool_call_json call = Inr s"
  shows "reads stod s (tool_call_value call)"
proof -
  obtain i n a where e: "escape (tc_id call) = Inr i" "escape (tc_name call) = Inr n" "escape (tc_arguments call) = Inr a"
    and s: "s = ''{\"id\":\"'' @ i @ ''\",\"type\":\"function\",\"function\":{\"name\":\"'' @ n @
      ''\",\"arguments\":\"'' @ a @ ''\"}}''"
    using assms by (auto simp: tool_call_json_def concat_texts_Inr)
  let ?callee = "CHR ''{'' # commas (map field_text
      [(''name'', ''name'', quote # n @ [quote], JString (tc_name call) :: 'd json),
       (''arguments'', ''arguments'', quote # a @ [quote], JString (tc_arguments call))]) @ ''}''"
  have f: "reads stod ?callee (json_object [(''name'', JString (tc_name call)),
      (''arguments'', JString (tc_arguments call))])"
    by (rule reads_fields [OF _ _ refl]) (simp_all add: field_ok_def reads_string e)
  show ?thesis unfolding tool_call_value_def
    by (rule reads_fields [where fs = "[(''id'', ''id'', quote # i @ [quote], JString (tc_id call)),
        (''type'', ''type'', quote # ''function'' @ [quote], JString ''function''),
        (''function'', ''function'', ?callee, json_object [(''name'', JString (tc_name call)),
          (''arguments'', JString (tc_arguments call))])]"])
      (use f reads_string [of "''function''" "''function''" stod] in
        \<open>simp_all add: field_ok_def reads_string e s field_text_def\<close>)
qed

lemma reads_comma_texts:
  assumes "comma_texts (map printer xs) = Inr s"
    and "\<And>x t. x \<in> set xs \<Longrightarrow> printer x = Inr t \<Longrightarrow> reads stod t (val x)"
  shows "reads stod (CHR ''['' # s @ '']'') (JArray (map val xs))"
proof -
  obtain ss where ss: "map printer xs = map Inr ss" "s = commas ss" using comma_texts_Inr [OF assms(1)] by blast
  have "list_all2 (\<lambda>x t. printer x = Inr t) xs ss"
    using ss(1) by (auto simp: list_all2_conv_all_nth dest: map_eq_imp_length_eq) (metis length_map nth_map)
  then have "list_all2 (reads stod) ss (map val xs)"
    using assms(2) by (induction xs ss rule: list_all2_induct) auto
  then show ?thesis using reads_array ss(2) by simp
qed

lemma reads_message:
  assumes "message_json m = Inr s"
  shows "reads stod s (message_value m)"
proof -
  obtain i b calls where
    i: "msg_role m = Tool \<Longrightarrow> escape (msg_tool_call_id m) = Inr i"
    and b: "escape (msg_content m) = Inr b"
    and calls: "msg_tool_calls m \<noteq> [] \<Longrightarrow> comma_texts (map tool_call_json (msg_tool_calls m)) = Inr calls"
    and s: "s = ''{\"role\":\"'' @ role_name (msg_role m) @ ''\"'' @
      (if msg_role m = Tool then '',\"tool_call_id\":\"'' @ i @ ''\"'' else []) @
      '',\"content\":\"'' @ b @ ''\"'' @
      (if msg_tool_calls m \<noteq> [] then '',\"tool_calls\":['' @ calls @ '']'' else []) @ ''}''"
    using assms that by (auto simp: message_json_def concat_texts_Inr split: if_splits)
  have array: "msg_tool_calls m \<noteq> [] \<Longrightarrow>
      reads stod (CHR ''['' # calls @ '']'') (JArray (map tool_call_value (msg_tool_calls m)))"
    by (rule reads_comma_texts [OF calls reads_tool_call])
  show ?thesis unfolding message_value_def
    by (rule reads_fields [where fs = "[(''role'', ''role'', quote # role_name (msg_role m) @ [quote],
          JString (role_name (msg_role m)))] @
        (if msg_role m = Tool then [(''tool_call_id'', ''tool_call_id'', quote # i @ [quote],
          JString (msg_tool_call_id m))] else []) @
        [(''content'', ''content'', quote # b @ [quote], JString (msg_content m))] @
        (if msg_tool_calls m \<noteq> [] then [(''tool_calls'', ''tool_calls'', CHR ''['' # calls @ '']'',
          JArray (map tool_call_value (msg_tool_calls m)))] else [])"])
      (use i b array in \<open>simp_all add: field_ok_def reads_string s field_text_def\<close>)
qed

definition schemas_read :: "(string \<Rightarrow> exn + 'd) \<Rightarrow> ToolDefinition list \<Rightarrow> 'd json list \<Rightarrow> bool" where
  "schemas_read stod tools schemas \<longleftrightarrow>
     list_all2 (\<lambda>t v. reads stod (td_parameters_json t) v) tools schemas"

lemma reads_tool_definition:
  fixes stod :: "string \<Rightarrow> exn + 'd"
  assumes "tool_definition_json t = Inr s" and schema: "reads stod (td_parameters_json t) v"
  shows "reads stod s (tool_definition_value t v)"
proof -
  obtain n d where e: "escape (td_name t) = Inr n" "escape (td_description t) = Inr d"
    and s: "s = ''{\"type\":\"function\",\"function\":{\"name\":\"'' @ n @
      ''\",\"description\":\"'' @ d @ ''\",\"parameters\":'' @ td_parameters_json t @ ''}}''"
    using assms(1) by (auto simp: tool_definition_json_def concat_texts_Inr)
  let ?callee = "CHR ''{'' # commas (map field_text
      [(''name'', ''name'', quote # n @ [quote], JString (td_name t) :: 'd json),
       (''description'', ''description'', quote # d @ [quote], JString (td_description t)),
       (''parameters'', ''parameters'', td_parameters_json t, v)]) @ ''}''"
  have f: "reads stod ?callee (json_object [(''name'', JString (td_name t)),
      (''description'', JString (td_description t)), (''parameters'', v)])"
    by (rule reads_fields [OF _ _ refl]) (simp_all add: field_ok_def reads_string e schema)
  show ?thesis unfolding tool_definition_value_def
    by (rule reads_fields [where fs = "[(''type'', ''type'', quote # ''function'' @ [quote], JString ''function''),
        (''function'', ''function'', ?callee, json_object [(''name'', JString (td_name t)),
          (''description'', JString (td_description t)), (''parameters'', v)])]"])
      (use f reads_string [of "''function''" "''function''" stod] in
        \<open>simp_all add: field_ok_def e s field_text_def\<close>)
qed

lemma reads_tool_definitions:
  fixes stod :: "string \<Rightarrow> exn + 'd"
  assumes "comma_texts (map tool_definition_json tools) = Inr s" and "schemas_read stod tools schemas"
  shows "reads stod (CHR ''['' # s @ '']'') (JArray (map2 tool_definition_value tools schemas))"
proof -
  obtain ss where ss: "map tool_definition_json tools = map Inr ss" "s = commas ss"
    using comma_texts_Inr [OF assms(1)] by blast
  have "list_all2 (reads stod) ss (map2 tool_definition_value tools schemas)"
    using assms(2) ss(1) unfolding schemas_read_def
  proof (induction tools schemas arbitrary: ss rule: list_all2_induct)
    case (Cons t tools v schemas)
    then obtain r ss' where r: "ss = r # ss'" "tool_definition_json t = Inr r"
      "map tool_definition_json tools = map Inr ss'" by auto
    with Cons reads_tool_definition [of t r stod v] show ?case by simp
  qed simp
  then show ?thesis using reads_array ss(2) by simp
qed

text \<open>The fields of the request, as printed and as values.\<close>

lemma request_fields:
  fixes stod :: "string \<Rightarrow> exn + 'd"
  assumes "request_body double_text c history = Inr body"
    and temp: "double_text (oc_temperature c) \<noteq> []" "list_all number_char (double_text (oc_temperature c))"
      "stod (double_text (oc_temperature c)) = Inr temperature"
    and schemas: "schemas_read stod (oc_tools c) schemas"
  obtains fs where "list_all (field_ok stod) fs" "fs \<noteq> []"
    "body = CHR ''{'' # commas (map field_text fs) @ ''}''"
    "request_pairs c history temperature schemas = map (\<lambda>(k, ek, t, v). (k, v)) fs"
proof -
  obtain m hs ts where m: "escape (oc_model c) = Inr m"
    and hs: "comma_texts (map message_json history) = Inr hs"
    and ts: "oc_tools c \<noteq> [] \<Longrightarrow> comma_texts (map tool_definition_json (oc_tools c)) = Inr ts"
    and body: "body = ''{\"model\":\"'' @ m @ ''\",\"messages\":['' @ hs @ ''],\"temperature\":'' @
      double_text (oc_temperature c) @
      (if oc_tools c \<noteq> [] then '',\"tools\":['' @ ts @ '']'' else []) @ ''}''"
    using assms(1) that by (auto simp: request_body_def concat_texts_Inr split: if_splits)
  have history: "reads stod (CHR ''['' # hs @ '']'') (JArray (map message_value history))"
    by (rule reads_comma_texts [OF hs reads_message])
  have tools: "oc_tools c \<noteq> [] \<Longrightarrow>
      reads stod (CHR ''['' # ts @ '']'') (JArray (map2 tool_definition_value (oc_tools c) schemas))"
    by (rule reads_tool_definitions [OF ts schemas])
  show ?thesis
    by (rule that [of "[(''model'', ''model'', quote # m @ [quote], JString (oc_model c)),
        (''messages'', ''messages'', CHR ''['' # hs @ '']'', JArray (map message_value history)),
        (''temperature'', ''temperature'', double_text (oc_temperature c), JNumber temperature)] @
        (if oc_tools c \<noteq> [] then [(''tools'', ''tools'', CHR ''['' # ts @ '']'',
          JArray (map2 tool_definition_value (oc_tools c) schemas))] else [])"])
      (use m history tools in \<open>simp_all add: field_ok_def reads_string reads_number [of "double_text (oc_temperature c)" stod temperature, OF temp] body
        field_text_def request_pairs_def\<close>)
qed


lemma field_stream: "field_ok stod (''stream'', ''stream'', ''true'', JBool True)"
  by (simp add: field_ok_def reads_true)

text \<open>C23: the request body printed for a history is valid JSON and reads back, by the adapter's own
  reader, as the object with the model, the messages in order with their roles, contents, tool call
  ids and tool calls, the temperature and the tool definitions, whatever bytes the texts contain;
  and the body of a streaming request, whose closing brace is replaced, reads back as the same
  object with \<open>stream\<close> true.\<close>

theorem request_roundtrip:
  fixes stod :: "string \<Rightarrow> exn + 'd"
  assumes "make_request double_text c history = Inr request"
    and "double_text (oc_temperature c) \<noteq> []" and "list_all number_char (double_text (oc_temperature c))"
    and "stod (double_text (oc_temperature c)) = Inr temperature"
    and "list_all2 (\<lambda>t v. reads stod (td_parameters_json t) v) (oc_tools c) schemas"
  shows "json_parse stod (hq_body request) =
      Inr (json_object (request_pairs c history temperature schemas)) \<and>
    json_parse stod (hq_body (stream_request request)) =
      Inr (json_object (request_pairs c history temperature schemas @ [(''stream'', JBool True)]))"
proof -
  have body: "request_body double_text c history = Inr (hq_body request)"
    using assms(1) by (auto simp: make_request_def split: sum.splits)
  obtain fs where fs: "list_all (field_ok stod) fs" "fs \<noteq> []"
    "hq_body request = CHR ''{'' # commas (map field_text fs) @ ''}''"
    "request_pairs c history temperature schemas = map (\<lambda>(k, ek, t, v). (k, v)) fs"
    using request_fields [of double_text c history "hq_body request" stod temperature schemas]
      body assms(2-5) unfolding schemas_read_def by metis
  let ?stream = "(''stream'', ''stream'', ''true'', JBool True :: 'd json)"
  have "hq_body (stream_request request) = CHR ''{'' # commas (map field_text (fs @ [?stream])) @ ''}''"
    using fs(2) by (simp add: stream_request_def fs(3) butlast_append commas_snoc field_text_def)
  then have "reads stod (hq_body (stream_request request))
      (json_object (request_pairs c history temperature schemas @ [(''stream'', JBool True)]))"
    by (intro reads_fields [of stod "fs @ [?stream]"]) (simp_all add: fs field_stream)
  moreover have "reads stod (hq_body request) (json_object (request_pairs c history temperature schemas))"
    by (rule reads_fields [OF fs(1,4,3)])
  ultimately show ?thesis using reads_parse by blast
qed


definition example_stod :: "string \<Rightarrow> exn + nat" where
  "example_stod token =
     (if token = ''0.7'' then Inr 7 else if token = ''1'' then Inr 1 else Inl (StdException ''stod''))"

definition example_config :: "nat OpenAiCompatibleConfig" where
  "example_config =
     \<lparr>oc_base_url = ''http://h/'', oc_api_key = ''k'', oc_model = ''m'',
      oc_tools = [\<lparr>td_name = ''t'', td_description = ''d'', td_parameters_json = ''{}''\<rparr>],
      oc_temperature = 7\<rparr>"

definition example_text :: "nat \<Rightarrow> string" where
  "example_text d = (if d = 7 then ''0.7'' else ''1'')"

definition example_request :: HttpRequest where
  "example_request =
     (case make_request example_text example_config [] of
        Inl _ \<Rightarrow> \<lparr>hq_method = [], hq_url = [], hq_headers = [], hq_body = [], hq_streaming = False\<rparr>
      | Inr q \<Rightarrow> q)"

theorem request_roundtrip_witness:
  "json_parse example_stod (hq_body example_request) =
      Inr (json_object (request_pairs example_config [] 7 [JObject []])) \<and>
   json_parse example_stod (hq_body (stream_request example_request)) =
      Inr (json_object (request_pairs example_config [] 7 [JObject []] @ [(''stream'', JBool True)]))"
proof (rule request_roundtrip)
  show "make_request example_text example_config [] = Inr example_request" by code_simp
  show "list_all2 (\<lambda>t v. reads example_stod (td_parameters_json t) v) (oc_tools example_config) [JObject []]"
    using reads_object [of example_stod "[]"] by (simp add: example_config_def)
qed (simp_all add: example_config_def example_text_def example_stod_def number_char_def)

end
