(* ===== verification/Openai_Stream.thy ===== *)
theory Openai_Stream
  imports Openai_Request
begin

text \<open>
  The streamed response of the OpenAI-compatible adapter: the events of \<open>SseParser\<close> against a
  reference on the whole text, independent of how the transport cuts it, and the completion they
  decide.
\<close>

section \<open>Events without the parser's state\<close>

text \<open>
  A reference for the stream of events: the text is cut into lines, a return before the newline
  dropped; blank lines separate blocks; the data of a block are its \<open>data:\<close> lines, a first space
  dropped, joined by newlines without the empty ones at the start. Blocks without data are no
  events.
\<close>

fun split_lines :: "string \<Rightarrow> string list" where
  "split_lines [] = []"
| "split_lines (c # s) =
     (if c = newline then [] # split_lines s
      else case split_lines s of [] \<Rightarrow> [[c]] | l # ls \<Rightarrow> (c # l) # ls)"

definition sse_value :: "string \<Rightarrow> string option" where
  "sse_value line =
     (if take 5 line \<noteq> ''data:'' then None
      else Some (case drop 5 line of c # rest \<Rightarrow> if c = CHR '' '' then rest else c # rest | [] \<Rightarrow> []))"

fun join_lines :: "string list \<Rightarrow> string" where
  "join_lines [] = []"
| "join_lines [l] = l"
| "join_lines (l # ls) = l @ newline # join_lines ls"

fun blocks :: "string list \<Rightarrow> string list list" where
  "blocks [] = [[]]"
| "blocks (l # ls) = (if l = [] then [] # blocks ls else (case blocks ls of b # bs \<Rightarrow> (l # b) # bs | [] \<Rightarrow> [[l]]))"

definition sse_event :: "string list \<Rightarrow> string" where
  "sse_event block = join_lines (dropWhile (\<lambda>v. v = []) (List.map_filter sse_value block))"

definition sse_events :: "string \<Rightarrow> string list" where
  "sse_events text = filter (\<lambda>e. e \<noteq> []) (map sse_event (blocks (map strip_return (split_lines text))))"

text \<open>The sink on a list of events.\<close>

fun sink_all :: "'s sse_sink \<Rightarrow> string list \<Rightarrow> 's \<Rightarrow> exn + 's" where
  "sink_all sink [] st = Inr st"
| "sink_all sink (e # es) st = (case sink e st of Inl x \<Rightarrow> Inl x | Inr st' \<Rightarrow> sink_all sink es st')"

definition sse_run :: "'s sse_sink \<Rightarrow> string list \<Rightarrow> 's \<Rightarrow> exn + 's" where
  "sse_run sink chunks st =
     (case sse_feeds sink chunks sse_new st of
        Inl e \<Rightarrow> Inl e
      | Inr (p, st') \<Rightarrow> (case sse_finish sink p st' of Inl e \<Rightarrow> Inl e | Inr (_, st') \<Rightarrow> Inr st'))"

section \<open>The parser against the reference\<close>

lemma first_line_length: "c \<in> set s \<Longrightarrow> length (takeWhile (\<lambda>d. d \<noteq> c) s) < length s"
  by (induction s) auto

lemma sse_lines_append:
  "sse_lines sink (p\<lparr>sp_buffer := sp_buffer p @ bytes\<rparr>) st =
     (case sse_lines sink p st of
        Inl e \<Rightarrow> Inl e
      | Inr (p', st') \<Rightarrow> sse_feed sink bytes p' st')"
proof (induction sink p st rule: sse_lines.induct)
  case (1 sink p st)
  show ?case
  proof (cases "newline \<in> set (sp_buffer p)")
    case True
    define line where "line = takeWhile (\<lambda>c. c \<noteq> newline) (sp_buffer p)"
    define q where "q = p\<lparr>sp_buffer := drop (length line + 1) (sp_buffer p)\<rparr>"
    have tw: "takeWhile (\<lambda>c. c \<noteq> newline) (sp_buffer p @ bytes) = line"
      using True by (auto simp: line_def takeWhile_append)
    have len: "length line + 1 \<le> length (sp_buffer p)"
      using first_line_length [OF True] by (simp add: line_def)
    have left: "sse_lines sink (p\<lparr>sp_buffer := sp_buffer p @ bytes\<rparr>) st =
        (case sse_process_line sink (strip_return line) (q\<lparr>sp_buffer := sp_buffer q @ bytes\<rparr>) st of
            Inl e \<Rightarrow> Inl e | Inr (p', st') \<Rightarrow> sse_lines sink p' st')"
      using True len by (subst sse_lines.simps) (simp add: tw Let_def q_def)
    have right: "sse_lines sink p st =
        (case sse_process_line sink (strip_return line) q st of
            Inl e \<Rightarrow> Inl e | Inr (p', st') \<Rightarrow> sse_lines sink p' st')"
      using True by (subst sse_lines.simps) (simp add: Let_def q_def line_def)
    have frame: "sse_process_line sink l (r\<lparr>sp_buffer := b\<rparr>) s =
        (case sse_process_line sink l r s of
            Inl e \<Rightarrow> Inl e | Inr (p', st') \<Rightarrow> Inr (p'\<lparr>sp_buffer := b\<rparr>, st'))" for l r s b
      by (auto simp: sse_process_line_def sse_dispatch_def Let_def split: sum.splits)
    show ?thesis
    proof (cases "sse_process_line sink (strip_return line) q st")
      case (Inr ps)
      obtain p' st' where ps: "ps = (p', st')" by (cases ps)
      have "sp_buffer p' = sp_buffer q" using Inr ps sse_process_line_buffer by metis
      moreover have "sse_lines sink (p'\<lparr>sp_buffer := sp_buffer p' @ bytes\<rparr>) st' =
          (case sse_lines sink p' st' of Inl e \<Rightarrow> Inl e | Inr (p', st') \<Rightarrow> sse_feed sink bytes p' st')"
        using 1 [OF _ line_def q_def Inr ps [symmetric]] True by simp
      ultimately show ?thesis unfolding left right by (simp add: frame Inr ps)
    qed (simp add: left right frame)
  qed (subst (2) sse_lines.simps, simp add: sse_feed_def)
qed

lemma sse_feed_append:
  "sse_feed sink (a @ b) p st =
     (case sse_feed sink a p st of Inl e \<Rightarrow> Inl e | Inr (p', st') \<Rightarrow> sse_feed sink b p' st')"
  using sse_lines_append [of sink "p\<lparr>sp_buffer := sp_buffer p @ a\<rparr>" b st] by (simp add: sse_feed_def)

lemma sse_feeds_concat: "newline \<notin> set (sp_buffer p) \<Longrightarrow> sse_feeds sink chunks p st = sse_feed sink (concat chunks) p st"
proof (induction chunks arbitrary: p st)
  case Nil
  then show ?case by (simp add: sse_feed_def sse_lines.simps)
next
  case (Cons a chunks)
  have "newline \<notin> set (sp_buffer p')" if "sse_feed sink a p st = Inr (p', st')" for p' st'
  proof -
    have "sse_lines sink q s = Inr (p', st') \<Longrightarrow> newline \<notin> set (sp_buffer p')" for q s
    proof (induction sink q s rule: sse_lines.induct)
      case (1 sink q s)
      from 1(2) show ?case
        by (subst (asm) sse_lines.simps)
          (use 1(1) [OF _ refl refl _ refl] in \<open>auto simp: Let_def split: if_splits sum.splits prod.splits\<close>)
    qed
    with that show ?thesis by (simp add: sse_feed_def)
  qed
  with Cons.IH show ?case by (auto simp: sse_feed_append split: sum.split)
qed

lemma first_line_split: "c \<in> set s \<Longrightarrow>
    s = takeWhile (\<lambda>d. d \<noteq> c) s @ c # drop (Suc (length (takeWhile (\<lambda>d. d \<noteq> c) s))) s"
  by (induction s) auto

lemma split_lines_line: "newline \<notin> set l \<Longrightarrow> split_lines (l @ newline # rest) = l # split_lines rest"
  by (induction l) auto

lemma split_lines_last: "newline \<notin> set l \<Longrightarrow> l \<noteq> [] \<Longrightarrow> split_lines l = [l]"
proof (induction l)
  case (Cons c l)
  then show ?case by (cases l) auto
qed simp

text \<open>The lines one by one, with the data collected so far.\<close>

definition add_line :: "string \<Rightarrow> string \<Rightarrow> string" where
  "add_line data line =
     (case sse_value line of
        None \<Rightarrow> data
      | Some v \<Rightarrow> (if data \<noteq> [] then data @ [newline] else []) @ v)"

fun run_lines :: "'s sse_sink \<Rightarrow> string \<Rightarrow> string list \<Rightarrow> 's \<Rightarrow> exn + 's" where
  "run_lines sink data [] st = (if data = [] then Inr st else sink data st)"
| "run_lines sink data (l # ls) st =
     (if l = [] then
        (if data = [] then run_lines sink [] ls st
         else case sink data st of Inl e \<Rightarrow> Inl e | Inr st' \<Rightarrow> run_lines sink [] ls st')
      else run_lines sink (add_line data l) ls st)"

definition sse_end :: "'s sse_sink \<Rightarrow> exn + SseParser \<times> 's \<Rightarrow> exn + 's" where
  "sse_end sink r =
     (case r of
        Inl e \<Rightarrow> Inl e
      | Inr (p, st) \<Rightarrow> (case sse_finish sink p st of Inl e \<Rightarrow> Inl e | Inr (_, st') \<Rightarrow> Inr st'))"

lemma sse_process_line_add: "l \<noteq> [] \<Longrightarrow> sse_process_line sink l p st = Inr (p\<lparr>sp_data := add_line (sp_data p) l\<rparr>, st)"
  by (auto simp: sse_process_line_def add_line_def sse_value_def Let_def split: list.split)

lemma sse_dispatch_cases:
  "sp_data p = [] \<Longrightarrow> sse_dispatch sink p st = Inr (p, st)"
  "sp_data p \<noteq> [] \<Longrightarrow> sink (sp_data p) st = Inl e \<Longrightarrow> sse_dispatch sink p st = Inl e"
  "sp_data p \<noteq> [] \<Longrightarrow> sink (sp_data p) st = Inr st' \<Longrightarrow> sse_dispatch sink p st = Inr (p\<lparr>sp_data := []\<rparr>, st')"
  by (simp_all add: sse_dispatch_def)

lemma sse_finish_lines:
  assumes "newline \<notin> set (sp_buffer p)"
  shows "sse_end sink (Inr (p, st)) =
    run_lines sink (sp_data p) (map strip_return (split_lines (sp_buffer p))) st"
proof -
  consider "sp_data p = []" | e where "sp_data p \<noteq> []" "sink (sp_data p) st = Inl e"
    | st' where "sp_data p \<noteq> []" "sink (sp_data p) st = Inr st'"
    by (cases "sink (sp_data p) st") auto
  note data = this
  show ?thesis
  proof (cases "sp_buffer p = []")
    case True
    from data show ?thesis
      by cases (simp_all add: sse_end_def sse_finish_def True sse_dispatch_cases)
  next
    case False
    note lines = split_lines_last [OF assms False]
    show ?thesis
    proof (cases "strip_return (sp_buffer p) = []")
      case True
      from data show ?thesis
        by cases (simp_all add: sse_end_def sse_finish_def lines True False sse_dispatch_cases sse_process_line_def)
    next
      case nonempty: False
      let ?d = "add_line (sp_data p) (strip_return (sp_buffer p))"
      consider "?d = []" | e where "?d \<noteq> []" "sink ?d st = Inl e" | st' where "?d \<noteq> []" "sink ?d st = Inr st'"
        by (cases "sink ?d st") auto
      then show ?thesis
        by cases (simp_all add: sse_end_def sse_finish_def lines False nonempty sse_process_line_add
            sse_dispatch_cases)
    qed
  qed
qed

lemma sse_lines_run: "sse_end sink (sse_lines sink p st) =
    run_lines sink (sp_data p) (map strip_return (split_lines (sp_buffer p))) st"
proof (induction sink p st rule: sse_lines.induct)
  case (1 sink p st)
  show ?case
  proof (cases "newline \<in> set (sp_buffer p)")
    case True
    define line where "line = takeWhile (\<lambda>c. c \<noteq> newline) (sp_buffer p)"
    define q where "q = p\<lparr>sp_buffer := drop (length line + 1) (sp_buffer p)\<rparr>"
    have step: "sse_lines sink p st =
        (case sse_process_line sink (strip_return line) q st of
            Inl e \<Rightarrow> Inl e | Inr (p', st') \<Rightarrow> sse_lines sink p' st')"
      using True by (subst sse_lines.simps) (simp add: Let_def q_def line_def)
    have "sp_buffer p = line @ newline # sp_buffer q"
      using first_line_split [OF True] by (simp add: q_def line_def)
    moreover have "newline \<notin> set line" by (auto simp: line_def dest: set_takeWhileD)
    ultimately have lines: "split_lines (sp_buffer p) = line # split_lines (sp_buffer q)"
      by (simp add: split_lines_line)
    have data: "sp_data q = sp_data p" by (simp add: q_def)
    note IH = 1 [OF _ line_def q_def _ refl] 
    show ?thesis
    proof (cases "strip_return line = []")
      case False
      then have pl: "sse_process_line sink (strip_return line) q st =
          Inr (q\<lparr>sp_data := add_line (sp_data q) (strip_return line)\<rparr>, st)"
        by (rule sse_process_line_add)
      show ?thesis using IH [OF _ pl] True False by (simp add: step pl lines data)
    next
      case blank: True
      show ?thesis
      proof (cases "sp_data q = []")
        case empty: True
        then have pl: "sse_process_line sink (strip_return line) q st = Inr (q, st)"
          by (simp add: sse_process_line_def blank sse_dispatch_def)
        show ?thesis unfolding step pl using IH [OF _ pl] True blank empty by (simp add: lines data)
      next
        case False
        show ?thesis
        proof (cases "sink (sp_data q) st")
          case (Inl e)
          then have "sse_process_line sink (strip_return line) q st = Inl e"
            using False by (simp add: sse_process_line_def blank sse_dispatch_def)
          then show ?thesis unfolding step using Inl False by (simp add: lines blank sse_end_def data)
        next
          case (Inr st')
          then have pl: "sse_process_line sink (strip_return line) q st = Inr (q\<lparr>sp_data := []\<rparr>, st')"
            using False by (simp add: sse_process_line_def blank sse_dispatch_def)
          show ?thesis unfolding step pl using IH [OF _ pl] True blank False Inr by (simp add: lines data)
        qed
      qed
    qed
  next
    case False
    then show ?thesis using sse_finish_lines [of p sink st] by (subst sse_lines.simps) simp
  qed
qed

lemma add_lines_some: "data \<noteq> [] \<Longrightarrow>
    foldl add_line data b = data @ concat (map (\<lambda>v. newline # v) (List.map_filter sse_value b))"
  by (induction b arbitrary: data) (auto simp: add_line_def map_filter_simps split: option.split)

lemma join_lines_Cons: "join_lines (v # vs) = v @ concat (map (\<lambda>v. newline # v) vs)"
  by (induction vs arbitrary: v) auto

lemma add_line_empty: "add_line [] l = (case sse_value l of None \<Rightarrow> [] | Some v \<Rightarrow> v)"
  by (simp add: add_line_def split: option.split)

lemma add_lines_none: "foldl add_line [] b = sse_event b"
proof (induction b)
  case (Cons l b)
  then show ?case
    by (cases "sse_value l")
      (auto simp: add_line_empty sse_event_def map_filter_simps add_lines_some join_lines_Cons)
qed (simp add: sse_event_def map_filter_simps)

lemma blocks_not_Nil: "blocks ls \<noteq> []"
  by (induction ls) (auto split: list.split)

lemma run_lines_events: "run_lines sink data ls st =
    sink_all sink (filter (\<lambda>e. e \<noteq> []) (foldl add_line data (hd (blocks ls)) # map sse_event (tl (blocks ls)))) st"
proof (induction sink data ls st rule: run_lines.induct)
  case (1 sink data st)
  then show ?case by (auto split: sum.split)
next
  case (2 sink data l ls st)
  obtain b bs where b: "blocks ls = b # bs" using blocks_not_Nil by (cases "blocks ls") auto
  show ?case
  proof (cases "l = []")
    case True
    then show ?thesis using 2 by (auto simp: b add_lines_none split: sum.split)
  next
    case False
    then show ?thesis using 2(3) by (simp add: b)
  qed
qed

lemma sse_run_events: "sse_run sink chunks st = sink_all sink (sse_events (concat chunks)) st"
proof -
  have "sse_run sink chunks st = sse_end sink (sse_feeds sink chunks sse_new st)"
    by (simp add: sse_run_def sse_end_def)
  also have "\<dots> = sse_end sink (sse_lines sink (sse_new\<lparr>sp_buffer := concat chunks\<rparr>) st)"
    by (subst sse_feeds_concat) (simp_all add: sse_feed_def sse_new_def)
  also have "\<dots> = sink_all sink (sse_events (concat chunks)) st"
    unfolding sse_lines_run run_lines_events using blocks_not_Nil
    by (cases "blocks (map strip_return (split_lines (concat chunks)))")
      (auto simp: sse_new_def sse_events_def add_lines_none)
  finally show ?thesis .
qed


text \<open>C10: however the transport cuts the body of a stream into pieces, feeding the pieces one after
  the other and then finishing calls the sink with exactly the events that the text as a whole has
  by the reference (lines, blocks, \<open>data:\<close> fields), in order, and ends in the same state or with
  the same exception.\<close>

theorem sse_chunks_equivalence: "sse_run sink chunks st = sink_all sink (sse_events (concat chunks)) st"
  by (rule sse_run_events)

section \<open>The stream and its end marker\<close>

lemma sink_all_append:
  "sink_all sink (a @ b) st = (case sink_all sink a st of Inl e \<Rightarrow> Inl e | Inr st' \<Rightarrow> sink_all sink b st')"
  by (induction a arbitrary: st) (auto split: sum.split)

text \<open>What the consumer saw: the text is its deltas, and it wanted more after each of them.\<close>

definition stream_ok :: "(string list \<Rightarrow> exn + bool) \<Rightarrow> LlmStream \<Rightarrow> bool" where
  "stream_ok consumer st \<longleftrightarrow>
     ls_text st = concat (ls_deltas st) \<and>
     (\<forall>n < length (ls_deltas st). consumer (take (Suc n) (ls_deltas st)) = Inr True)"

lemma stream_ok_snoc:
  "stream_ok consumer st \<Longrightarrow> consumer (ls_deltas st @ [t]) = Inr True \<Longrightarrow>
     stream_ok consumer (st\<lparr>ls_text := ls_text st @ t, ls_deltas := ls_deltas st @ [t]\<rparr>)"
  by (auto simp: stream_ok_def less_Suc_eq)

lemma stream_content_ok:
  assumes "stream_content consumer delta st = Inr st'" and "stream_ok consumer st"
  shows "stream_ok consumer st' \<and> ls_done st' = ls_done st"
proof (cases "found_text ''content'' delta = []")
  case True
  then show ?thesis using assms by (simp add: stream_content_def)
next
  case False
  let ?st = "st\<lparr>ls_text := ls_text st @ found_text ''content'' delta,
      ls_deltas := ls_deltas st @ [found_text ''content'' delta]\<rparr>"
  have "consumer (ls_deltas ?st) = Inr True \<and> st' = ?st"
    using assms(1) False by (auto simp: stream_content_def Let_def split: sum.splits bool.splits)
  then show ?thesis using stream_ok_snoc [OF assms(2)] by simp
qed

lemma stream_tool_call_frame: "ls_text (stream_tool_call as_index item st) = ls_text st"
  "ls_deltas (stream_tool_call as_index item st) = ls_deltas st"
  "ls_done (stream_tool_call as_index item st) = ls_done st"
  by (simp_all add: stream_tool_call_def Let_def)

lemma stream_tool_calls_frame: "ls_text (fold (stream_tool_call as_index) items st) = ls_text st"
  "ls_deltas (fold (stream_tool_call as_index) items st) = ls_deltas st"
  "ls_done (fold (stream_tool_call as_index) items st) = ls_done st"
  by (induction items arbitrary: st) (simp_all add: stream_tool_call_frame)

lemma stream_delta_ok:
  assumes "stream_delta as_index consumer delta st = Inr st'" and "stream_ok consumer st"
  shows "stream_ok consumer st' \<and> ls_done st' = ls_done st"
  using assms by (auto simp: stream_delta_def stream_ok_def stream_tool_calls_frame
      dest!: stream_content_ok split: sum.splits option.splits)

lemma stream_event_ok:
  assumes "stream_event stod as_index consumer event st = Inr st'" and "stream_ok consumer st"
  shows "stream_ok consumer st'"
    and "event \<noteq> ''[DONE]'' \<Longrightarrow> ls_done st' = ls_done st"
  using assms by (auto simp: stream_event_def stream_ok_def dest!: stream_delta_ok
      split: if_splits sum.splits option.splits list.splits)

lemma stream_all_ok:
  assumes "sink_all (stream_event stod as_index consumer) events st = Inr st'" and "stream_ok consumer st"
  shows "stream_ok consumer st' \<and> (''[DONE]'' \<notin> set events \<longrightarrow> ls_done st' = ls_done st)"
  using assms
proof (induction events arbitrary: st)
  case (Cons e events)
  then obtain s where s: "stream_event stod as_index consumer e st = Inr s"
    "sink_all (stream_event stod as_index consumer) events s = Inr st'"
    by (auto split: sum.splits)
  show ?case using Cons.IH [OF s(2)] stream_event_ok [OF s(1) Cons.prems(2)] by auto
qed simp

lemma stream_all_done: "ls_done st \<Longrightarrow> sink_all (stream_event stod as_index consumer) events st = Inr st"
  by (induction events) (simp_all add: stream_event_def)

lemma stream_start_ok: "stream_ok consumer stream_start" "\<not> ls_done stream_start"
  by (simp_all add: stream_ok_def stream_start_def)

lemma stream_transfer_run:
  "\<not> http_failed response \<Longrightarrow> stream_transfer sink chunks (Inr response) =
     (case sse_run sink chunks stream_start of Inl e \<Rightarrow> Inl e | Inr st \<Rightarrow> Inr (stream_result st))"
  by (auto simp: stream_transfer_def sse_run_def split: sum.split)

lemma stream_events_fenced:
  assumes "\<not> ls_done st" and ok: "stream_ok consumer st"
  shows "sink_all (stream_event stod as_index consumer) events st =
    (case sink_all (stream_event stod as_index consumer) (takeWhile (\<lambda>e. e \<noteq> ''[DONE]'') events) st of
       Inl e \<Rightarrow> Inl e
     | Inr st' \<Rightarrow> Inr (st'\<lparr>ls_done := ''[DONE]'' \<in> set events\<rparr>))"
proof (cases "''[DONE]'' \<in> set events")
  case True
  define before where "before = takeWhile (\<lambda>e. e \<noteq> ''[DONE]'') events"
  obtain after where split: "events = before @ ''[DONE]'' # after"
    using first_line_split [OF True] unfolding before_def by blast
  have step: "stream_event stod as_index consumer ''[DONE]'' st' = Inr (st'\<lparr>ls_done := True\<rparr>)" for st'
    by (cases st') (simp add: stream_event_def)
  have "sink_all (stream_event stod as_index consumer) (before @ ''[DONE]'' # after) st =
      (case sink_all (stream_event stod as_index consumer) before st of
         Inl e \<Rightarrow> Inl e | Inr st' \<Rightarrow> Inr (st'\<lparr>ls_done := True\<rparr>))"
    by (simp only: sink_all_append sink_all.simps step sum.case)
      (simp add: stream_all_done split: sum.split)
  then show ?thesis unfolding before_def [symmetric] split [symmetric] using True by (simp split: sum.split)
next
  case False
  then have whole: "takeWhile (\<lambda>e. e \<noteq> ''[DONE]'') events = events"
    unfolding takeWhile_eq_all_conv by blast
  have "st'\<lparr>ls_done := False\<rparr> = st'"
    if "sink_all (stream_event stod as_index consumer) events st = Inr st'" for st'
    using stream_all_ok [OF that ok] assms(1) False by (cases st') simp
  with False show ?thesis unfolding whole
    by (cases "sink_all (stream_event stod as_index consumer) events st") simp_all
qed

text \<open>C22: a streaming completion is decided by the events before the first \<open>[DONE]\<close> alone: it throws
  what the first failing of them throws, and otherwise returns their deltas joined, their tool
  calls, and \<open>complete\<close> exactly when \<open>[DONE]\<close> was received; no delta, tool call or malformed payload
  after the marker matters; and every delta was accepted by the consumer, which is not called again
  once it stops or throws.\<close>

theorem stream_fence:
  assumes "\<not> http_failed response"
  shows "stream_transfer (stream_event stod as_index consumer) chunks (Inr response) =
      (case sink_all (stream_event stod as_index consumer)
          (takeWhile (\<lambda>e. e \<noteq> ''[DONE]'') (sse_events (concat chunks))) stream_start of
         Inl e \<Rightarrow> Inl e
       | Inr st \<Rightarrow> Inr \<lparr>lt_text = concat (ls_deltas st), lt_tool_calls = ls_tool_calls st,
           lt_complete = (''[DONE]'' \<in> set (sse_events (concat chunks)))\<rparr>) \<and>
    (case sink_all (stream_event stod as_index consumer)
          (takeWhile (\<lambda>e. e \<noteq> ''[DONE]'') (sse_events (concat chunks))) stream_start of
         Inl e \<Rightarrow> True
       | Inr st \<Rightarrow> \<forall>n < length (ls_deltas st). consumer (take (Suc n) (ls_deltas st)) = Inr True)"
proof (cases "sink_all (stream_event stod as_index consumer)
    (takeWhile (\<lambda>e. e \<noteq> ''[DONE]'') (sse_events (concat chunks))) stream_start")
  case (Inl e)
  then show ?thesis
    unfolding stream_transfer_run [OF assms] sse_run_events
    by (subst stream_events_fenced [OF stream_start_ok(2,1)]) simp
next
  case (Inr st)
  have "stream_ok consumer st" using stream_all_ok [OF Inr stream_start_ok(1)] by simp
  then show ?thesis
    unfolding stream_transfer_run [OF assms] sse_run_events
    by (subst stream_events_fenced [OF stream_start_ok(2,1)])
      (simp add: Inr stream_result_def stream_ok_def)
qed

definition example_stream :: "string list" where
  "example_stream =
     [''data: {\"choices\":[{\"delta\":{\"con'', ''tent\":\"hi\"}}]}'' @ [carriage_return],
      [newline, newline] @ ''data: [DONE]'' @ [newline, newline] @ ''data: broken'']"

theorem stream_fence_witness:
  "stream_transfer (stream_event example_stod (\<lambda>d. d) (\<lambda>deltas. Inr True)) example_stream
     (Inr \<lparr>hr_status = 200, hr_body = [], hr_headers = []\<rparr>) =
   Inr \<lparr>lt_text = ''hi'', lt_tool_calls = [], lt_complete = True\<rparr>"
proof -
  have ok: "\<not> http_failed \<lparr>hr_status = 200, hr_body = [], hr_headers = []\<rparr>" by (simp add: http_failed_def)
  have events: "sse_events (concat example_stream) =
      [''{\"choices\":[{\"delta\":{\"content\":\"hi\"}}]}'', ''[DONE]'', ''broken'']" by code_simp
  have run: "sink_all (stream_event example_stod (\<lambda>d. d) (\<lambda>deltas. Inr True))
      [''{\"choices\":[{\"delta\":{\"content\":\"hi\"}}]}''] stream_start =
      Inr \<lparr>ls_text = ''hi'', ls_tool_calls = [], ls_done = False, ls_deltas = [''hi'']\<rparr>" by code_simp
  show ?thesis
    using stream_fence [OF ok, of example_stod "\<lambda>d. d" "\<lambda>deltas. Inr True" example_stream]
    by (simp add: events run del: sink_all.simps)
qed


end
