(* ===== verification/Curl_Transport.thy ===== *)
theory Curl_Transport
  imports Openai_Llm
begin

text \<open>
  The HTTP transport (\<open>curl_transport.h\<close>, \<open>curl_transport.cpp\<close>): limits, the callbacks of a
  transfer, classification of results, and the retry loop. libcurl is a parameter: for each
  attempt and the options set, the callbacks it made, its result code and what
  \<open>curl_easy_getinfo\<close> reports; so are the answers of the cancellation callback, the jitter and
  the clock. Durations are milliseconds without a bound. Metrics are the calls on the registry,
  timing values left out. The body sink is client code on its own state and may throw.
\<close>

section \<open>Data\<close>

record CurlTransportConfig =
  cc_connect_timeout :: int
  cc_request_timeout :: int
  cc_initial_backoff :: int
  cc_max_backoff :: int
  cc_max_response_bytes :: nat
  cc_max_attempts :: nat
  cc_retry_http_errors :: bool
  cc_https_only :: bool
  cc_verify_tls :: bool
  cc_ca_bundle :: string
  cc_user_agent :: string
  cc_metrics :: bool

datatype CURLcode =
    CURLE_OK | CURLE_ABORTED_BY_CALLBACK | CURLE_COULDNT_RESOLVE_HOST | CURLE_COULDNT_CONNECT
  | CURLE_OPERATION_TIMEDOUT | CURLE_SEND_ERROR | CURLE_RECV_ERROR | CURLE_GOT_NOTHING
  | CURLE_HTTP2 | CURLE_OTHER nat

record TransferState =
  ts_response :: HttpResponse
  ts_limit :: nat
  ts_too_large :: bool
  ts_received_bytes :: nat
  ts_sink_error :: "exn option"
  ts_first_body :: bool
  ts_sunk :: "string list"

datatype Callback = HeaderLine string | BodyBytes string

datatype Metric = Increment string | Observe string

text \<open>The options of a transfer, and an attempt as libcurl and the process see it.\<close>

record CurlOptions =
  co_url :: string
  co_method :: string
  co_headers :: "string list"
  co_body :: string
  co_connect_timeout :: int
  co_request_timeout :: int
  co_user_agent :: string
  co_verify_peer :: nat
  co_verify_host :: nat
  co_protocols :: string
  co_redirect_protocols :: string
  co_follow :: bool
  co_ca_bundle :: "string option"

record CurlAttempt =
  ca_cancelled :: bool
  ca_handle :: bool
  ca_headers_allocated :: bool
  ca_callbacks :: "Callback list"
  ca_code :: CURLcode
  ca_status :: int
  ca_error :: string
  ca_strerror :: string
  ca_jitter :: "int \<Rightarrow> int"
  ca_now :: int

type_synonym curl = "nat \<Rightarrow> CurlOptions \<Rightarrow> CurlAttempt"

type_synonym 's body_sink = "string \<Rightarrow> 's \<Rightarrow> (exn + bool) \<times> 's"

definition curl_new :: "CurlTransportConfig \<Rightarrow> bool \<Rightarrow> exn + CurlTransportConfig" where
  "curl_new c global_init =
     (if cc_max_attempts c = 0 then Inl (StdException ''max_attempts must be positive'')
      else if cc_max_response_bytes c = 0 then Inl (StdException ''max_response_bytes must be positive'')
      else if cc_connect_timeout c \<le> 0 \<or> cc_request_timeout c \<le> 0
      then Inl (StdException ''timeouts must be positive'')
      else if \<not> global_init then Inl (StdException ''curl global initialization failed'')
      else Inr c)"

section \<open>Text\<close>

definition curl_trim :: "string \<Rightarrow> string" where
  "curl_trim value = rev (dropWhile isspace (rev (dropWhile isspace value)))"

definition lower_char :: "char \<Rightarrow> char" where
  "lower_char c = (let k = of_char c :: nat in if 65 \<le> k \<and> k \<le> 90 then char_of (k + 32) else c)"

definition lower :: "string \<Rightarrow> string" where
  "lower value = map lower_char value"

text \<open>A C string ends before its first zero byte.\<close>

definition c_str :: "string \<Rightarrow> string" where
  "c_str s = takeWhile (\<lambda>c. c \<noteq> CHR 0x00) s"

text \<open>
  \<open>std::stoll\<close>: spaces, a sign, digits; the value and the bytes consumed, or none when there are
  no digits or the value does not fit.
\<close>

definition decimal_digit :: "char \<Rightarrow> bool" where
  "decimal_digit c \<longleftrightarrow> (let k = of_char c :: nat in 48 \<le> k \<and> k \<le> 57)"

fun decimal :: "nat \<Rightarrow> string \<Rightarrow> nat" where
  "decimal n [] = n"
| "decimal n (c # s) = decimal (10 * n + (of_char c - 48)) s"

definition stoll :: "string \<Rightarrow> (int \<times> nat) option" where
  "stoll s =
     (let spaces = takeWhile isspace s;
          rest = drop (length spaces) s;
          sign = (case rest of c # _ \<Rightarrow> if c = CHR ''-'' \<or> c = CHR ''+'' then [c] else [] | [] \<Rightarrow> []);
          digits = takeWhile decimal_digit (drop (length sign) rest);
          value = (if sign = ''-'' then - int (decimal 0 digits) else int (decimal 0 digits))
      in if digits = [] \<or> value < - (2 ^ 63) \<or> value \<ge> 2 ^ 63 then None
         else Some (value, length spaces + length sign + length digits))"

section \<open>Callbacks\<close>

definition write_body ::
  "bool \<Rightarrow> 's body_sink \<Rightarrow> string \<Rightarrow> TransferState \<times> 's \<Rightarrow> nat \<times> TransferState \<times> 's" where
  "write_body has_sink sink data r =
     (case r of (state, st) \<Rightarrow>
       let bytes = length data; state = state\<lparr>ts_first_body := True\<rparr>
       in if bytes > ts_limit state - min (ts_limit state) (ts_received_bytes state)
          then (0, state\<lparr>ts_too_large := True\<rparr>, st)
          else
            let state = state\<lparr>ts_received_bytes := ts_received_bytes state + bytes\<rparr>
            in if has_sink then
                 let state = state\<lparr>ts_sunk := ts_sunk state @ [data]\<rparr>
                 in (case sink data st of
                       (Inr wanted, st) \<Rightarrow> ((if wanted then bytes else 0), state, st)
                     | (Inl e, st) \<Rightarrow> (0, state\<lparr>ts_sink_error := Some e\<rparr>, st))
               else
                 (bytes, state\<lparr>ts_response := (ts_response state)
                   \<lparr>hr_body := hr_body (ts_response state) @ data\<rparr>\<rparr>, st))"

definition put_header :: "string \<Rightarrow> string \<Rightarrow> (string, string) umap \<Rightarrow> (string, string) umap" where
  "put_header k v m = (if map_of m k = None then umap_emplace k v m else umap_set k v m)"

definition write_header :: "string \<Rightarrow> TransferState \<Rightarrow> nat \<times> TransferState" where
  "write_header line state =
     (length line,
      (if CHR '':'' \<notin> set line then state
       else
         let name = lower (curl_trim (takeWhile (\<lambda>c. c \<noteq> CHR '':'') line));
             value = curl_trim (tl (dropWhile (\<lambda>c. c \<noteq> CHR '':'') line))
         in if name = [] then state
            else state\<lparr>ts_response := (ts_response state)
              \<lparr>hr_headers := put_header name value (hr_headers (ts_response state))\<rparr>\<rparr>))"

text \<open>\<open>progress\<close>: the request has a cancellation callback and it answers true.\<close>

definition progress :: "bool \<Rightarrow> bool \<Rightarrow> nat" where
  "progress has_cancelled answer = (if has_cancelled \<and> answer then 1 else 0)"

definition run_callback ::
  "bool \<Rightarrow> 's body_sink \<Rightarrow> Callback \<Rightarrow> TransferState \<times> 's \<Rightarrow> TransferState \<times> 's" where
  "run_callback has_sink sink cb r =
     (case cb of
        HeaderLine line \<Rightarrow> (snd (write_header line (fst r)), snd r)
      | BodyBytes data \<Rightarrow> snd (write_body has_sink sink data r))"

definition transfer_new :: "CurlTransportConfig \<Rightarrow> TransferState" where
  "transfer_new c =
     \<lparr>ts_response = \<lparr>hr_status = 0, hr_body = [], hr_headers = []\<rparr>, ts_limit = cc_max_response_bytes c,
      ts_too_large = False, ts_received_bytes = 0, ts_sink_error = None, ts_first_body = False,
      ts_sunk = []\<rparr>"

section \<open>Classification\<close>

fun retryable_curl :: "CURLcode \<Rightarrow> bool" where
  "retryable_curl CURLE_COULDNT_RESOLVE_HOST = True"
| "retryable_curl CURLE_COULDNT_CONNECT = True"
| "retryable_curl CURLE_OPERATION_TIMEDOUT = True"
| "retryable_curl CURLE_SEND_ERROR = True"
| "retryable_curl CURLE_RECV_ERROR = True"
| "retryable_curl CURLE_GOT_NOTHING = True"
| "retryable_curl CURLE_HTTP2 = True"
| "retryable_curl _ = False"

definition retryable_http_status :: "int \<Rightarrow> bool" where
  "retryable_http_status status \<longleftrightarrow> status \<in> {408, 429, 500, 502, 503, 504}"

text \<open>\<open>getdate\<close> is \<open>curl_getdate\<close>, in seconds; the clock counts nanoseconds.\<close>

definition parse_retry_after :: "(string \<Rightarrow> int) \<Rightarrow> string \<Rightarrow> int \<Rightarrow> int" where
  "parse_retry_after getdate value now =
     (case stoll (curl_trim value) of
        Some (seconds, consumed) \<Rightarrow>
          if consumed = length (curl_trim value) \<and> seconds > 0 then seconds * 1000
          else
            (let date = getdate (c_str value)
             in if date < 0 \<or> date * 10 ^ 9 \<le> now then 0 else (date * 10 ^ 9 - now) div 10 ^ 6)
      | None \<Rightarrow>
          (let date = getdate (c_str value)
           in if date < 0 \<or> date * 10 ^ 9 \<le> now then 0 else (date * 10 ^ 9 - now) div 10 ^ 6))"

section \<open>The retry loop\<close>

definition curl_options :: "CurlTransportConfig \<Rightarrow> HttpRequest \<Rightarrow> CurlOptions" where
  "curl_options c q =
     \<lparr>co_url = c_str (hq_url q), co_method = c_str (hq_method q),
      co_headers = map (\<lambda>(k, v). c_str (k @ '': '' @ v)) (hq_headers q), co_body = hq_body q,
      co_connect_timeout = cc_connect_timeout c, co_request_timeout = cc_request_timeout c,
      co_user_agent = c_str (cc_user_agent c), co_verify_peer = (if cc_verify_tls c then 1 else 0),
      co_verify_host = (if cc_verify_tls c then 2 else 0),
      co_protocols = (if cc_https_only c then ''https'' else ''http,https''),
      co_redirect_protocols = (if cc_https_only c then ''https'' else ''http,https''), co_follow = False,
      co_ca_bundle = (if cc_ca_bundle c \<noteq> [] then Some (c_str (cc_ca_bundle c)) else None)\<rparr>"

record 's CurlRun =
  cr_sink :: 's
  cr_transfers :: "TransferState list"
  cr_sleeps :: "int list"
  cr_metrics :: "Metric list"

definition attempt_metrics :: "int \<Rightarrow> Metric list" where
  "attempt_metrics status =
     [Increment ''byteturn_http_attempts_total'', Observe ''byteturn_http_attempt_duration_ms'',
      Observe ''byteturn_http_dns_ms'', Observe ''byteturn_http_connect_ms'',
      Observe ''byteturn_http_tls_ms'', Observe ''byteturn_http_first_byte_ms''] @
     (if status > 0
      then Increment ''byteturn_http_responses_total'' #
        (if status \<ge> 400 then [Increment ''byteturn_http_error_responses_total''] else [])
      else [])"

definition add_metrics :: "CurlTransportConfig \<Rightarrow> Metric list \<Rightarrow> 's CurlRun \<Rightarrow> 's CurlRun" where
  "add_metrics c ms run = (if cc_metrics c then run\<lparr>cr_metrics := cr_metrics run @ ms\<rparr> else run)"

definition curl_retry :: "CurlTransportConfig \<Rightarrow> HttpRequest \<Rightarrow> nat \<Rightarrow> CURLcode \<Rightarrow> TransferState \<Rightarrow> bool" where
  "curl_retry c q attempt code state \<longleftrightarrow>
     attempt < cc_max_attempts c \<and>
     (\<not> hq_streaming q \<or> ts_received_bytes state = 0) \<and>
     (retryable_curl code \<or>
      code = CURLE_OK \<and> cc_retry_http_errors c \<and> retryable_http_status (hr_status (ts_response state)))"

definition curl_delay ::
  "(string \<Rightarrow> int) \<Rightarrow> CurlTransportConfig \<Rightarrow> CurlAttempt \<Rightarrow> int \<Rightarrow> TransferState \<Rightarrow> int" where
  "curl_delay getdate c a backoff state =
     (let delay = ca_jitter a backoff;
          delay = (case map_of (hr_headers (ts_response state)) ''retry-after'' of
              None \<Rightarrow> delay
            | Some value \<Rightarrow> max delay (parse_retry_after getdate value (ca_now a)))
      in min delay (cc_max_backoff c))"

definition curl_transfer ::
  "CurlTransportConfig \<Rightarrow> 's body_sink \<Rightarrow> HttpRequest \<Rightarrow> CurlAttempt \<Rightarrow> 's CurlRun \<Rightarrow> TransferState \<times> 's CurlRun" where
  "curl_transfer c sink q a run =
     (case fold (run_callback (hq_streaming q) sink) (ca_callbacks a) (transfer_new c, cr_sink run) of
        (state, st) \<Rightarrow>
          let state = state\<lparr>ts_response := (ts_response state)\<lparr>hr_status := ca_status a\<rparr>\<rparr>
          in (state, add_metrics c (attempt_metrics (ca_status a))
            (run\<lparr>cr_sink := st, cr_transfers := cr_transfers run @ [state]\<rparr>)))"

text \<open>What follows a transfer that is not tried again.\<close>

definition curl_finish ::
  "CurlTransportConfig \<Rightarrow> CurlAttempt \<Rightarrow> TransferState \<Rightarrow> 's CurlRun \<Rightarrow> (exn + HttpResponse) \<times> 's CurlRun" where
  "curl_finish c a state run =
     (if ca_code a \<noteq> CURLE_OK
      then (Inl (StdException (''HTTP transport failed: '' @
          (if c_str (ca_error a) \<noteq> [] then c_str (ca_error a) else ca_strerror a))),
        add_metrics c [Increment ''byteturn_http_errors_total''] run)
      else (Inr (ts_response state),
        add_metrics c ((if ts_first_body state then [Observe ''byteturn_provider_first_packet_ms''] else []) @
          [Observe ''byteturn_provider_request_duration_ms'']) run))"

text \<open>One round of the loop: its result, or none when the request is tried again.\<close>

definition curl_attempt ::
  "(string \<Rightarrow> int) \<Rightarrow> curl \<Rightarrow> CurlTransportConfig \<Rightarrow> 's body_sink \<Rightarrow> HttpRequest \<Rightarrow> nat \<Rightarrow> int \<Rightarrow>
   's CurlRun \<Rightarrow> (exn + HttpResponse) option \<times> 's CurlRun" where
  "curl_attempt getdate curl c sink q attempt backoff run =
     (let a = curl attempt (curl_options c q)
      in if ca_cancelled a then (Some (Inl (StdException ''HTTP request cancelled'')), run)
         else if \<not> ca_handle a then (Some (Inl (StdException ''curl easy initialization failed'')), run)
         else if \<not> ca_headers_allocated a
         then (Some (Inl (StdException ''failed to allocate HTTP headers'')), run)
         else
           (case curl_transfer c sink q a run of
              (state, run) \<Rightarrow>
                if ts_too_large state
                then (Some (Inl (StdException ''HTTP response exceeds configured limit'')), run)
                else case ts_sink_error state of
                    Some e \<Rightarrow> (Some (Inl e), run)
                  | None \<Rightarrow>
                      if ca_code a = CURLE_ABORTED_BY_CALLBACK
                      then (Some (Inl (StdException ''HTTP request cancelled'')), run)
                      else if \<not> curl_retry c q attempt (ca_code a) state
                      then (case curl_finish c a state run of (r, run) \<Rightarrow> (Some r, run))
                      else
                        let run = add_metrics c [Increment ''byteturn_http_retries_total''] run
                        in (None, run\<lparr>cr_sleeps :=
                          cr_sleeps run @ [curl_delay getdate c a backoff state]\<rparr>)))"

function curl_loop ::
  "(string \<Rightarrow> int) \<Rightarrow> curl \<Rightarrow> CurlTransportConfig \<Rightarrow> 's body_sink \<Rightarrow> HttpRequest \<Rightarrow> nat \<Rightarrow> int \<Rightarrow>
   's CurlRun \<Rightarrow> (exn + HttpResponse) \<times> 's CurlRun" where
  "curl_loop getdate curl c sink q attempt backoff run =
     (if attempt > cc_max_attempts c then (Inl (StdException ''HTTP retry loop exhausted''), run)
      else case curl_attempt getdate curl c sink q attempt backoff run of
          (Some r, run) \<Rightarrow> (r, run)
        | (None, run) \<Rightarrow>
            curl_loop getdate curl c sink q (attempt + 1) (min (backoff * 2) (cc_max_backoff c)) run)"
  by pat_completeness auto
termination
  by (relation "measure (\<lambda>(getdate, curl, c, sink, q, attempt, backoff, run). cc_max_attempts c + 1 - attempt)") auto

declare curl_loop.simps [simp del]

definition curl_perform ::
  "(string \<Rightarrow> int) \<Rightarrow> curl \<Rightarrow> CurlTransportConfig \<Rightarrow> 's body_sink \<Rightarrow> HttpRequest \<Rightarrow> 's \<Rightarrow>
   (exn + HttpResponse) \<times> 's CurlRun" where
  "curl_perform getdate curl c sink q st =
     curl_loop getdate curl c sink q 1 (cc_initial_backoff c)
       \<lparr>cr_sink = st, cr_transfers = [], cr_sleeps = [], cr_metrics = []\<rparr>"

section \<open>One transfer\<close>

definition transfer_ok :: "CurlTransportConfig \<Rightarrow> TransferState \<Rightarrow> bool" where
  "transfer_ok c state \<longleftrightarrow>
     ts_limit state = cc_max_response_bytes c \<and> ts_received_bytes state \<le> ts_limit state \<and>
     length (concat (ts_sunk state)) + length (hr_body (ts_response state)) = ts_received_bytes state"

lemma write_body_ok: "transfer_ok c (fst r) \<Longrightarrow> transfer_ok c (fst (snd (write_body has_sink sink data r)))"
  by (cases r) (auto simp: transfer_ok_def write_body_def Let_def split: prod.split sum.split)

lemma write_header_ok: "transfer_ok c state \<Longrightarrow> transfer_ok c (snd (write_header line state))"
  by (auto simp: transfer_ok_def write_header_def Let_def)

lemma run_callback_ok: "transfer_ok c (fst r) \<Longrightarrow> transfer_ok c (fst (run_callback has_sink sink cb r))"
  by (cases cb) (simp_all add: run_callback_def write_body_ok write_header_ok)

lemma run_callbacks_ok: "transfer_ok c (fst r) \<Longrightarrow> transfer_ok c (fst (fold (run_callback has_sink sink) cbs r))"
  by (induction cbs arbitrary: r) (simp_all add: run_callback_ok)

lemma curl_transfer_run:
  assumes "curl_transfer c sink q a run = (state, run')"
  shows "transfer_ok c state" "cr_transfers run' = cr_transfers run @ [state]" "cr_sleeps run' = cr_sleeps run"
proof -
  obtain s st where f: "fold (run_callback (hq_streaming q) sink) (ca_callbacks a) (transfer_new c, cr_sink run) = (s, st)"
    by fastforce
  have "transfer_ok c s"
    using run_callbacks_ok [of c "(transfer_new c, cr_sink run)" "hq_streaming q" sink "ca_callbacks a"] f
    by (simp add: transfer_ok_def transfer_new_def)
  with assms f show "transfer_ok c state" "cr_transfers run' = cr_transfers run @ [state]"
    "cr_sleeps run' = cr_sleeps run"
    by (auto simp: curl_transfer_def Let_def add_metrics_def transfer_ok_def)
qed

section \<open>The loop\<close>

text \<open>What holds before an attempt, and of the run when the loop is over.\<close>

definition retried :: "CurlTransportConfig \<Rightarrow> HttpRequest \<Rightarrow> TransferState list \<Rightarrow> bool" where
  "retried c q ts \<longleftrightarrow>
     list_all (transfer_ok c) ts \<and> (hq_streaming q \<longrightarrow> list_all (\<lambda>t. ts_received_bytes t = 0) ts)"

definition run_before :: "CurlTransportConfig \<Rightarrow> HttpRequest \<Rightarrow> nat \<Rightarrow> 's CurlRun \<Rightarrow> bool" where
  "run_before c q n run \<longleftrightarrow>
     length (cr_transfers run) = n \<and> length (cr_sleeps run) = n \<and>
     list_all (\<lambda>d. d \<le> cc_max_backoff c) (cr_sleeps run) \<and> retried c q (cr_transfers run)"

definition run_after :: "CurlTransportConfig \<Rightarrow> HttpRequest \<Rightarrow> (exn + HttpResponse) \<times> 's CurlRun \<Rightarrow> bool" where
  "run_after c q r \<longleftrightarrow>
     length (cr_transfers (snd r)) \<le> cc_max_attempts c \<and>
     length (cr_sleeps (snd r)) < cc_max_attempts c \<and>
     length (cr_sleeps (snd r)) \<le> length (cr_transfers (snd r)) \<and>
     length (cr_transfers (snd r)) \<le> Suc (length (cr_sleeps (snd r))) \<and>
     list_all (\<lambda>d. d \<le> cc_max_backoff c) (cr_sleeps (snd r)) \<and>
     list_all (transfer_ok c) (cr_transfers (snd r)) \<and> retried c q (butlast (cr_transfers (snd r))) \<and>
     (\<forall>response. fst r = Inr response \<longrightarrow>
        cr_transfers (snd r) \<noteq> [] \<and> response = ts_response (last (cr_transfers (snd r))))"

lemma retried_snoc: "retried c q (ts @ [t]) \<longleftrightarrow>
    retried c q ts \<and> transfer_ok c t \<and> (hq_streaming q \<longrightarrow> ts_received_bytes t = 0)"
  by (auto simp: retried_def)

lemma run_after_failed:
  assumes "run_before c q n run" and "n < cc_max_attempts c"
  shows "run_after c q (Inl e, run)"
proof -
  have "retried c q (butlast ts)" if "retried c q ts" for ts
    using that by (cases ts rule: rev_cases) (simp_all add: retried_snoc)
  with assms show ?thesis by (simp add: run_before_def run_after_def) (simp add: retried_def)
qed

lemma add_metrics_frame [simp]: "cr_transfers (add_metrics c ms run) = cr_transfers run"
  "cr_sleeps (add_metrics c ms run) = cr_sleeps run"
  by (simp_all add: add_metrics_def)

lemma run_after_last:
  assumes "run_before c q n run" and "n < cc_max_attempts c" and "transfer_ok c state"
    and "cr_transfers run' = cr_transfers run @ [state]" and "cr_sleeps run' = cr_sleeps run"
    and "\<And>response. r = Inr response \<Longrightarrow> response = ts_response state"
  shows "run_after c q (r, run')"
  using assms by (simp add: run_before_def run_after_def retried_def)

lemma curl_attempt_ok:
  assumes before: "run_before c q n run" and n: "attempt = Suc n" "n < cc_max_attempts c"
    and result: "curl_attempt getdate curl c sink q attempt backoff run = (r, run')"
  shows "case r of
      Some r \<Rightarrow> run_after c q (r, run')
    | None \<Rightarrow> run_before c q attempt run' \<and> attempt < cc_max_attempts c"
proof -
  define a where "a = curl attempt (curl_options c q)"
  obtain state run1 where t: "curl_transfer c sink q a run = (state, run1)" by fastforce
  note tr = curl_transfer_run [OF t]
  note early = run_after_failed [OF before n(2)]
  note final = run_after_last [OF before n(2) tr(1)]
  note unfold = curl_attempt_def Let_def a_def [symmetric] t prod.case
  consider "ca_cancelled a \<or> \<not> ca_handle a \<or> \<not> ca_headers_allocated a"
    | (stopped) "\<not> ca_cancelled a" "ca_handle a" "ca_headers_allocated a" "ts_too_large state \<or> ts_sink_error state \<noteq> None \<or>
        ca_code a = CURLE_ABORTED_BY_CALLBACK"
    | (ended) "\<not> ca_cancelled a" "ca_handle a" "ca_headers_allocated a" "\<not> ts_too_large state"
      "ts_sink_error state = None" "ca_code a \<noteq> CURLE_ABORTED_BY_CALLBACK"
      "\<not> curl_retry c q attempt (ca_code a) state"
    | (again) "\<not> ca_cancelled a" "ca_handle a" "ca_headers_allocated a" "\<not> ts_too_large state"
      "ts_sink_error state = None" "ca_code a \<noteq> CURLE_ABORTED_BY_CALLBACK"
      "curl_retry c q attempt (ca_code a) state" by blast
  then show ?thesis
  proof cases
    case 1
    then have "run' = run \<and> (\<exists>e. r = Some (Inl e))"
      using result unfolding unfold by (auto split: if_splits)
    then show ?thesis using early by auto
  next
    case stopped
    then have "run' = run1 \<and> (\<exists>e. r = Some (Inl e))"
      using result unfolding unfold by (auto split: if_splits option.splits)
    then obtain e where "r = Some (Inl e)" "run' = run1" by blast
    then show ?thesis using final [OF tr(2,3), of "Inl e"] by simp
  next
    case ended
    then obtain r' where r: "r = Some r'" "curl_finish c a state run1 = (r', run')"
      using result unfolding unfold by (auto split: prod.splits)
    then have "cr_transfers run' = cr_transfers run1" "cr_sleeps run' = cr_sleeps run1"
      "\<And>response. r' = Inr response \<Longrightarrow> response = ts_response state"
      by (auto simp: curl_finish_def split: if_splits)
    then show ?thesis using final [of run' r'] tr r by simp
  next
    case again
    then have "r = None" "cr_transfers run' = cr_transfers run @ [state]"
      "cr_sleeps run' = cr_sleeps run @ [curl_delay getdate c a backoff state]"
      using result tr unfolding unfold by (auto simp: tr)
    moreover have "curl_delay getdate c a backoff state \<le> cc_max_backoff c"
      by (simp add: curl_delay_def Let_def)
    ultimately show ?thesis using before n again tr(1)
      by (simp add: run_before_def retried_snoc curl_retry_def)
  qed
qed

lemma curl_loop_ok:
  assumes "run_before c q n run" and "attempt = Suc n" and "n < cc_max_attempts c"
  shows "run_after c q (curl_loop getdate curl c sink q attempt backoff run)"
  using assms
proof (induction getdate curl c sink q attempt backoff run arbitrary: n rule: curl_loop.induct)
  case (1 getdate curl c sink q attempt backoff run)
  obtain r run' where r: "curl_attempt getdate curl c sink q attempt backoff run = (r, run')" by fastforce
  have loop: "curl_loop getdate curl c sink q attempt backoff run =
      (case r of Some r \<Rightarrow> (r, run')
       | None \<Rightarrow> curl_loop getdate curl c sink q (attempt + 1) (min (backoff * 2) (cc_max_backoff c)) run')"
    using "1.prems"(2,3) r by (subst curl_loop.simps) (auto split: option.split)
  note ok = curl_attempt_ok [OF "1.prems" r]
  show ?case
  proof (cases r)
    case None
    then have "run_before c q attempt run'" "attempt < cc_max_attempts c" using ok by simp_all
    then have "run_after c q (curl_loop getdate curl c sink q (attempt + 1)
        (min (backoff * 2) (cc_max_backoff c)) run')"
      using "1.IH" [OF _ r [symmetric] None, of attempt] by simp
    then show ?thesis by (simp add: loop None)
  next
    case (Some x)
    then show ?thesis using ok by (simp add: loop)
  qed
qed

section \<open>Properties\<close>

lemma butlast_silent:
  "retried c q ts \<Longrightarrow> hq_streaming q \<Longrightarrow> concat (concat (map ts_sunk ts)) = []"
  by (induction ts) (auto simp: retried_def transfer_ok_def)

text \<open>C24: a request makes at most \<open>max_attempts\<close> transfers with one wait, of at most
  \<open>max_backoff\<close> whatever the server's \<open>Retry-After\<close> says, between two of them; each takes at
  most \<open>max_response_bytes\<close> of body; a response returned is that of the last transfer; and a
  streaming request is never tried again once a byte of body was given to its sink: all transfers
  but the last gave it nothing.\<close>

theorem curl_retry_discipline:
  assumes "curl_new c global_init = Inr c'"
    and "curl_perform getdate curl c sink q st = (result, run)"
  shows "length (cr_transfers run) \<le> cc_max_attempts c \<and>
    length (cr_sleeps run) < cc_max_attempts c \<and>
    length (cr_sleeps run) \<le> length (cr_transfers run) \<and>
    length (cr_transfers run) \<le> Suc (length (cr_sleeps run)) \<and>
    (\<forall>d\<in>set (cr_sleeps run). d \<le> cc_max_backoff c) \<and>
    (\<forall>t\<in>set (cr_transfers run). length (concat (ts_sunk t)) + length (hr_body (ts_response t)) =
       ts_received_bytes t \<and> ts_received_bytes t \<le> cc_max_response_bytes c) \<and>
    (\<forall>response. result = Inr response \<longrightarrow>
       cr_transfers run \<noteq> [] \<and> response = ts_response (last (cr_transfers run))) \<and>
    (hq_streaming q \<longrightarrow> concat (concat (map ts_sunk (butlast (cr_transfers run)))) = [])"
proof -
  have "0 < cc_max_attempts c" using assms(1) by (auto simp: curl_new_def split: if_splits)
  then have "run_after c q (result, run)"
    using curl_loop_ok [of c q 0 "\<lparr>cr_sink = st, cr_transfers = [], cr_sleeps = [], cr_metrics = []\<rparr>" 1
        getdate curl sink "cc_initial_backoff c"] assms(2)
    by (simp add: curl_perform_def run_before_def retried_def)
  then show ?thesis using butlast_silent
    by (auto simp: run_after_def list_all_iff transfer_ok_def)
qed

text \<open>
  \<open>parse_retry_after\<close> turns the header's seconds into milliseconds; a value the header may hold
  overflows the 64-bit count the code computes them in.
\<close>

lemma retry_after_overflows:
  "parse_retry_after getdate ''9223372036854775807'' now = 9223372036854775807000 \<and>
   (2 :: int) ^ 63 \<le> 9223372036854775807000"
  by (simp add: parse_retry_after_def stoll_def curl_trim_def isspace_def byte_def decimal_digit_def Let_def)


text \<open>A request refused twice with a wait of an hour, then answered.\<close>

definition example_curl_config :: CurlTransportConfig where
  "example_curl_config =
     \<lparr>cc_connect_timeout = 3000, cc_request_timeout = 30000, cc_initial_backoff = 200,
      cc_max_backoff = 5000, cc_max_response_bytes = 100, cc_max_attempts = 3,
      cc_retry_http_errors = True, cc_https_only = True, cc_verify_tls = True, cc_ca_bundle = [],
      cc_user_agent = ''u'', cc_metrics = False\<rparr>"

definition example_curl :: curl where
  "example_curl attempt options =
     \<lparr>ca_cancelled = False, ca_handle = True, ca_headers_allocated = True,
      ca_callbacks = (if attempt < 3 then [HeaderLine ''Retry-After: 3600''] else [BodyBytes ''ok'']),
      ca_code = CURLE_OK, ca_status = (if attempt < 3 then 503 else 200), ca_error = [], ca_strerror = [],
      ca_jitter = (\<lambda>d. d), ca_now = 0\<rparr>"

definition example_http :: HttpRequest where
  "example_http = \<lparr>hq_method = ''POST'', hq_url = ''https://h'', hq_headers = [], hq_body = ''{}'', hq_streaming = True\<rparr>"

definition example_curl_run :: "(exn + HttpResponse) \<times> string CurlRun" where
  "example_curl_run =
     curl_perform (\<lambda>s. -1) example_curl example_curl_config (\<lambda>data st. (Inr True, st @ data)) example_http []"

theorem curl_retry_discipline_witness:
  "length (cr_transfers (snd example_curl_run)) \<le> 3 \<and> length (cr_sleeps (snd example_curl_run)) < 3 \<and>
   concat (concat (map ts_sunk (butlast (cr_transfers (snd example_curl_run))))) = [] \<and>
   cr_sleeps (snd example_curl_run) = [5000, 5000] \<and> cr_sink (snd example_curl_run) = ''ok''"
proof -
  have new: "curl_new example_curl_config True = Inr example_curl_config"
    by (simp add: curl_new_def example_curl_config_def)
  have run: "curl_perform (\<lambda>s. -1) example_curl example_curl_config (\<lambda>data st. (Inr True, st @ data)) example_http [] =
      (fst example_curl_run, snd example_curl_run)"
    by (simp add: example_curl_run_def)
  have "cr_sleeps (snd example_curl_run) = [5000, 5000]" "cr_sink (snd example_curl_run) = ''ok''" by code_simp+
  then show ?thesis using curl_retry_discipline [OF new run]
    by (simp add: example_curl_config_def example_http_def)
qed

end
