(* ===== verification/Full_Duplex.thy ===== *)
theory Full_Duplex
  imports Byteturn_Types
begin

text \<open>
  \<open>FullDuplexConversation\<close> (\<open>full_duplex_conversation.h\<close>, \<open>full_duplex_conversation.cpp\<close>): the
  bounded input queue and its worker, the state of the current response, barge-in, and close.
  Any number of threads call the operations, also from inside the callbacks the class makes. A
  thread is a stack of frames, one per call, each the sections it still has to execute; a section
  under one mutex, an atomic load and an external call are one step each. Thread 0 is the input
  worker. The theory starts where the constructor has returned.
\<close>

section \<open>State\<close>

record DuplexAudio =
  da_response_id :: string
  da_start_sample :: u64
  da_frame :: AudioFrame

record FullDuplexConfig =
  fdc_max_input_frames :: nat
  fdc_input_sample_rate_hz :: int
  fdc_output_sample_rate_hz :: int
  fdc_server_vad :: bool

record RealtimeSessionConfig =
  rsc_session_id :: string
  rsc_input_sample_rate_hz :: int
  rsc_output_sample_rate_hz :: int
  rsc_server_vad :: bool

text \<open>A section of an operation, with what the sections before it computed.\<close>

datatype Task =
    PushAudio AudioFrame | EnqueueAudio AudioFrame
  | SpeechStart | SpeechStartSection
  | SpeechEnd | SpeechEndSection
  | StartPlayback string | AcknowledgePlayback string u64
  | Close | JoinWorker | CloseProvider
  | ProviderEvent RealtimeEvent | HandleEvent RealtimeEvent
  | BargeIn | CancelResponse string u64 | CommitInput
  | PublishEvent EventType string string string
  | SinkAudio DuplexAudio | SinkTranscript string bool
  | InputLoop | PushProvider AudioFrame

text \<open>
  What the calls out of the class say of a response, read off the calls themselves: the audio given
  to the sink, the cancellation sent to the provider and the events about speech and playback.
\<close>

datatype Happened =
    Began string
  | Chunk string nat nat
  | Started string
  | Heard string nat
  | Generated string
  | Cancelled string nat
  | Reported string nat

definition text_number :: "string \<Rightarrow> nat" where
  "text_number = foldl (\<lambda>n c. 10 * n + (of_char c - 48)) 0"

fun happened :: "Task \<Rightarrow> Happened list" where
  "happened (SinkAudio out) =
     [Chunk (da_response_id out) (unat (da_start_sample out)) (length (af_samples (da_frame out)))]"
| "happened (CancelResponse r played) = [Cancelled r (unat played)]"
| "happened (PublishEvent ty r name data) =
     (if ty = SpeechStarted then [Began r]
      else if ty = PlaybackStarted then [Started r]
      else if ty = PlaybackProgress then [Heard r (text_number data)]
      else if ty = SpeechCompleted then [Generated r]
      else if ty = OutputCancelled then [Reported r (text_number data)]
      else [])"
| "happened _ = []"

record FullDuplex =
  fd_config :: FullDuplexConfig
  fd_session_id :: string
  fd_has_transcript_sink :: bool
  fd_has_events :: bool
  fd_input_queue :: "AudioFrame list"
  fd_response_id :: string
  fd_delivered_samples :: u64
  fd_played_samples :: u64
  fd_response_active :: bool
  fd_generation_done :: bool
  fd_playback_started :: bool
  fd_input_speech_active :: bool
  fd_stopping :: bool
  fd_threads :: "Task list list list"
  fd_provider_closed :: bool
  fd_events :: "Event list"
  fd_history :: "Happened list"
  fd_made :: "Happened list"
  fd_accepted :: "AudioFrame list"
  fd_pushed :: "AudioFrame list"
  fd_discarded :: "AudioFrame list"

text \<open>\<open>connect\<close> is the provider: whether it returned a session, or its exception.\<close>

definition fd_new ::
  "(RealtimeSessionConfig \<Rightarrow> exn + bool) \<Rightarrow> string \<Rightarrow> bool \<Rightarrow> bool \<Rightarrow> bool \<Rightarrow> FullDuplexConfig \<Rightarrow> nat \<Rightarrow>
   exn + FullDuplex" where
  "fd_new connect session transcript_sink audio_sink events config threads =
     (if session = [] then Inl (StdException ''session id is required'')
      else if \<not> audio_sink then Inl (StdException ''audio sink is required'')
      else if fdc_max_input_frames config = 0 \<or> fdc_input_sample_rate_hz config \<le> 0 \<or>
        fdc_output_sample_rate_hz config \<le> 0
      then Inl (StdException ''invalid full-duplex configuration'')
      else case connect \<lparr>rsc_session_id = session,
          rsc_input_sample_rate_hz = fdc_input_sample_rate_hz config,
          rsc_output_sample_rate_hz = fdc_output_sample_rate_hz config,
          rsc_server_vad = fdc_server_vad config\<rparr> of
        Inl e \<Rightarrow> Inl e
      | Inr False \<Rightarrow> Inl (StdException ''realtime provider returned no session'')
      | Inr True \<Rightarrow> Inr
          \<lparr>fd_config = config, fd_session_id = session, fd_has_transcript_sink = transcript_sink,
           fd_has_events = events, fd_input_queue = [], fd_response_id = [],
           fd_delivered_samples = 0, fd_played_samples = 0, fd_response_active = False,
           fd_generation_done = False, fd_playback_started = False,
           fd_input_speech_active = False, fd_stopping = False,
           fd_threads = [[InputLoop]] # replicate threads [], fd_provider_closed = False,
           fd_events = [], fd_history = [], fd_made = [], fd_accepted = [], fd_pushed = [], fd_discarded = []\<rparr>)"

section \<open>Input\<close>

definition fd_push_audio :: "AudioFrame \<Rightarrow> FullDuplex \<Rightarrow> Task list" where
  "fd_push_audio frame s = (if fd_stopping s then [] else [EnqueueAudio frame])"

definition fd_enqueue :: "AudioFrame \<Rightarrow> FullDuplex \<Rightarrow> Task list \<times> FullDuplex" where
  "fd_enqueue frame s =
     (if fd_stopping s then ([], s)
      else if length (fd_input_queue s) \<ge> fdc_max_input_frames (fd_config s)
      then ([PublishEvent ErrorEvent [] ''audio_overload'' ''full-duplex input queue is full''], s)
      else ([], s\<lparr>fd_input_queue := fd_input_queue s @ [frame],
          fd_accepted := fd_accepted s @ [frame]\<rparr>))"

definition fd_input_speech_started :: "FullDuplex \<Rightarrow> Task list" where
  "fd_input_speech_started s = (if fd_stopping s then [] else [SpeechStartSection])"

definition fd_speech_started_section :: "FullDuplex \<Rightarrow> Task list \<times> FullDuplex" where
  "fd_speech_started_section s =
     (if fd_input_speech_active s then ([], s)
      else ([PublishEvent InputSpeechStarted [] [] [], BargeIn], s\<lparr>fd_input_speech_active := True\<rparr>))"

definition fd_input_speech_ended :: "FullDuplex \<Rightarrow> Task list" where
  "fd_input_speech_ended s = (if fd_stopping s then [] else [SpeechEndSection])"

definition fd_speech_ended_section :: "FullDuplex \<Rightarrow> Task list \<times> FullDuplex" where
  "fd_speech_ended_section s =
     ((if fd_input_speech_active s then [PublishEvent InputSpeechEnded [] [] []] else []) @ [CommitInput],
      s\<lparr>fd_input_speech_active := False\<rparr>)"

text \<open>The worker's loop, and the call it makes with the frame it took.\<close>

definition fd_input_loop :: "FullDuplex \<Rightarrow> Task list \<times> FullDuplex" where
  "fd_input_loop s =
     (if fd_stopping s
      then ([], s\<lparr>fd_input_queue := [], fd_discarded := fd_input_queue s\<rparr>)
      else ([PushProvider (hd (fd_input_queue s)), InputLoop], s\<lparr>fd_input_queue := tl (fd_input_queue s)\<rparr>))"

definition fd_push_provider :: "bool \<Rightarrow> AudioFrame \<Rightarrow> FullDuplex \<Rightarrow> Task list \<times> FullDuplex" where
  "fd_push_provider accepted frame s =
     ((if accepted then []
       else [PublishEvent ErrorEvent [] ''provider_backpressure'' ''realtime provider rejected input audio'']) @
      (if af_end_of_utterance frame \<and> \<not> fdc_server_vad (fd_config s) then [SpeechEnd] else []),
      s\<lparr>fd_pushed := fd_pushed s @ [frame]\<rparr>)"

section \<open>Responses and playback\<close>

definition fd_playback_started_section :: "string \<Rightarrow> FullDuplex \<Rightarrow> Task list \<times> FullDuplex" where
  "fd_playback_started_section r s =
     (if fd_response_active s \<and> r = fd_response_id s \<and> \<not> fd_playback_started s
      then ([PublishEvent PlaybackStarted r [] []], s\<lparr>fd_playback_started := True\<rparr>)
      else ([], s))"

definition fd_acknowledge_playback :: "string \<Rightarrow> u64 \<Rightarrow> FullDuplex \<Rightarrow> Task list \<times> FullDuplex" where
  "fd_acknowledge_playback r played s =
     (let accepted = min played (fd_delivered_samples s)
      in if fd_response_active s \<and> r = fd_response_id s \<and> accepted > fd_played_samples s
         then ([PublishEvent PlaybackProgress r [] (to_string (unat accepted))],
           s\<lparr>fd_played_samples := accepted,
             fd_response_active := \<not> (fd_generation_done s \<and> accepted = fd_delivered_samples s)\<rparr>)
         else ([], s))"

definition fd_response_started :: "string \<Rightarrow> FullDuplex \<Rightarrow> Task list \<times> FullDuplex" where
  "fd_response_started r s =
     ([PublishEvent SpeechStarted r [] []],
      s\<lparr>fd_response_id := r, fd_delivered_samples := 0, fd_played_samples := 0,
        fd_response_active := True, fd_generation_done := False, fd_playback_started := False\<rparr>)"

definition fd_audio_delta :: "string \<Rightarrow> AudioFrame \<Rightarrow> FullDuplex \<Rightarrow> Task list \<times> FullDuplex" where
  "fd_audio_delta r frame s =
     (if \<not> fd_response_active s \<or> fd_generation_done s \<or> r \<noteq> fd_response_id s then ([], s)
      else
        ([SinkAudio \<lparr>da_response_id = r, da_start_sample = fd_delivered_samples s, da_frame = frame\<rparr>],
         s\<lparr>fd_delivered_samples := fd_delivered_samples s + of_nat (length (af_samples frame))\<rparr>))"

definition fd_sink_audio :: "bool \<Rightarrow> DuplexAudio \<Rightarrow> Task list" where
  "fd_sink_audio accepted out =
     (if \<not> accepted then [BargeIn]
      else [PublishEvent AudioOutput (da_response_id out) []
        (to_string (length (af_samples (da_frame out))))])"

definition fd_response_completed :: "string \<Rightarrow> FullDuplex \<Rightarrow> Task list \<times> FullDuplex" where
  "fd_response_completed r s =
     (if fd_response_active s \<and> \<not> fd_generation_done s \<and> r = fd_response_id s
      then ([PublishEvent SpeechCompleted r [] [], PublishEvent ConversationTurnCompleted r [] []],
        s\<lparr>fd_generation_done := True,
          fd_response_active := fd_played_samples s < fd_delivered_samples s\<rparr>)
      else ([], s))"

definition fd_begin_barge_in :: "FullDuplex \<Rightarrow> Task list \<times> FullDuplex" where
  "fd_begin_barge_in s =
     (if \<not> fd_response_active s then ([], s)
      else
        ([PublishEvent BargeInDetected (fd_response_id s) [] [],
          CancelResponse (fd_response_id s) (fd_played_samples s),
          PublishEvent OutputCancelled (fd_response_id s) [] (to_string (unat (fd_played_samples s)))],
         s\<lparr>fd_response_active := False\<rparr>))"

definition fd_on_provider_event :: "RealtimeEvent \<Rightarrow> FullDuplex \<Rightarrow> Task list \<times> FullDuplex" where
  "fd_on_provider_event e s =
     (case re_type e of
        Connected \<Rightarrow> ([PublishEvent RealtimeSessionStarted [] [] []], s)
      | RtInputSpeechStarted \<Rightarrow> ([SpeechStart], s)
      | RtInputSpeechEnded \<Rightarrow>
          ((if fd_input_speech_active s then [PublishEvent InputSpeechEnded [] [] []] else []),
           s\<lparr>fd_input_speech_active := False\<rparr>)
      | RtTranscriptPartial \<Rightarrow>
          ((if fd_has_transcript_sink s then [SinkTranscript (re_text e) False] else []) @
           [PublishEvent TranscriptPartial (re_response_id e) [] (re_text e)], s)
      | RtTranscriptFinal \<Rightarrow>
          ((if fd_has_transcript_sink s then [SinkTranscript (re_text e) True] else []) @
           [PublishEvent TranscriptFinal (re_response_id e) [] (re_text e)], s)
      | ResponseStarted \<Rightarrow> fd_response_started (re_response_id e) s
      | AudioDelta \<Rightarrow> fd_audio_delta (re_response_id e) (re_audio e) s
      | ResponseCompleted \<Rightarrow> fd_response_completed (re_response_id e) s
      | RtError \<Rightarrow> ([PublishEvent ErrorEvent (re_response_id e) (re_error_code e) (re_text e)], s)
      | Closed \<Rightarrow> ([PublishEvent RealtimeSessionClosed [] [] []], s))"

section \<open>Close and events\<close>

definition fd_close :: "FullDuplex \<Rightarrow> Task list \<times> FullDuplex" where
  "fd_close s = (if fd_stopping s then ([], s) else ([JoinWorker], s\<lparr>fd_stopping := True\<rparr>))"

definition fd_publish :: "EventType \<Rightarrow> string \<Rightarrow> string \<Rightarrow> string \<Rightarrow> FullDuplex \<Rightarrow> FullDuplex" where
  "fd_publish ty r name data s =
     (if fd_has_events s
      then s\<lparr>fd_events := fd_events s @ [mk_event ty (fd_session_id s) r name data []]\<rparr> else s)"

section \<open>Steps\<close>

text \<open>
  \<open>outcome\<close> is what the external call returns. The join returns when the worker has ended.
\<close>

definition worker_stack :: "FullDuplex \<Rightarrow> Task list list" where
  "worker_stack s = fd_threads s ! 0"

fun fd_ready :: "Task \<Rightarrow> FullDuplex \<Rightarrow> bool" where
  "fd_ready InputLoop s \<longleftrightarrow> fd_stopping s \<or> fd_input_queue s \<noteq> []"
| "fd_ready JoinWorker s \<longleftrightarrow> worker_stack s = []"
| "fd_ready _ s \<longleftrightarrow> True"

fun fd_exec :: "bool \<Rightarrow> Task \<Rightarrow> FullDuplex \<Rightarrow> Task list \<times> FullDuplex" where
  "fd_exec outcome (PushAudio frame) s = (fd_push_audio frame s, s)"
| "fd_exec outcome (EnqueueAudio frame) s = fd_enqueue frame s"
| "fd_exec outcome SpeechStart s = (fd_input_speech_started s, s)"
| "fd_exec outcome SpeechStartSection s = fd_speech_started_section s"
| "fd_exec outcome SpeechEnd s = (fd_input_speech_ended s, s)"
| "fd_exec outcome SpeechEndSection s = fd_speech_ended_section s"
| "fd_exec outcome (StartPlayback r) s = fd_playback_started_section r s"
| "fd_exec outcome (AcknowledgePlayback r played) s = fd_acknowledge_playback r played s"
| "fd_exec outcome Close s = fd_close s"
| "fd_exec outcome JoinWorker s = ([CloseProvider], s)"
| "fd_exec outcome CloseProvider s =
     ([PublishEvent RealtimeSessionClosed [] [] []], s\<lparr>fd_provider_closed := True\<rparr>)"
| "fd_exec outcome (ProviderEvent e) s = ((if fd_stopping s then [] else [HandleEvent e]), s)"
| "fd_exec outcome (HandleEvent e) s = fd_on_provider_event e s"
| "fd_exec outcome BargeIn s = fd_begin_barge_in s"
| "fd_exec outcome (CancelResponse r played) s = ([], s)"
| "fd_exec outcome CommitInput s = ([], s)"
| "fd_exec outcome (PublishEvent ty r name data) s = ([], fd_publish ty r name data s)"
| "fd_exec outcome (SinkAudio out) s = (fd_sink_audio outcome out, s)"
| "fd_exec outcome (SinkTranscript body final) s = ([], s)"
| "fd_exec outcome InputLoop s = fd_input_loop s"
| "fd_exec outcome (PushProvider frame) s = fd_push_provider outcome frame s"

text \<open>Calls out of the class, inside which its operations may be called, and those that may throw.\<close>

fun fd_external :: "Task \<Rightarrow> bool" where
  "fd_external CloseProvider = True"
| "fd_external (CancelResponse r played) = True"
| "fd_external CommitInput = True"
| "fd_external (PublishEvent ty r name data) = True"
| "fd_external (SinkAudio out) = True"
| "fd_external (SinkTranscript body final) = True"
| "fd_external (PushProvider frame) = True"
| "fd_external _ = False"

fun fd_may_throw :: "Task \<Rightarrow> bool" where
  "fd_may_throw (PublishEvent ty r name data) = False"
| "fd_may_throw task = fd_external task"

fun fd_operation :: "Task \<Rightarrow> bool" where
  "fd_operation (PushAudio frame) = True"
| "fd_operation SpeechStart = True"
| "fd_operation SpeechEnd = True"
| "fd_operation (StartPlayback r) = True"
| "fd_operation (AcknowledgePlayback r played) = True"
| "fd_operation Close = True"
| "fd_operation (ProviderEvent e) = True"
| "fd_operation _ = False"

definition set_thread :: "nat \<Rightarrow> Task list list \<Rightarrow> FullDuplex \<Rightarrow> FullDuplex" where
  "set_thread t stack s = s\<lparr>fd_threads := (fd_threads s)[t := stack]\<rparr>"

definition in_callback :: "Task list list \<Rightarrow> bool" where
  "in_callback stack = (case stack of (task # rest) # below \<Rightarrow> fd_external task | _ \<Rightarrow> False)"

text \<open>
  Recorded for the theorems, in each step that executes a task: what the calls the section issues
  will say (\<open>fd_history\<close>), in the order of the sections, and what the call now made says
  (\<open>fd_made\<close>), in the order of the calls.
\<close>

definition fd_note :: "Task \<Rightarrow> Task list \<Rightarrow> FullDuplex \<Rightarrow> FullDuplex" where
  "fd_note task new s =
     s\<lparr>fd_history := fd_history s @ concat (map happened new), fd_made := fd_made s @ happened task\<rparr>"

text \<open>
  A thread other than the worker calls an operation, or a callback does; the worker itself does not
  call \<open>close\<close>, whose join would be of itself. An exception that leaves the worker ends the process.
\<close>

inductive fd_step :: "FullDuplex \<Rightarrow> FullDuplex \<Rightarrow> bool" where
  fd_call: "fd_operation task \<Longrightarrow> t < length (fd_threads s) \<Longrightarrow>
    in_callback (fd_threads s ! t) \<or> t \<noteq> 0 \<and> fd_threads s ! t = [] \<Longrightarrow>
    \<not> (t = 0 \<and> task = Close) \<Longrightarrow>
    fd_step s (set_thread t ([task] # fd_threads s ! t) s)"
| fd_section: "t < length (fd_threads s) \<Longrightarrow> fd_threads s ! t = (task # rest) # below \<Longrightarrow>
    fd_ready task s \<Longrightarrow> fd_exec outcome task s = (new, s') \<Longrightarrow>
    fd_step s (set_thread t ((new @ rest) # below) (fd_note task new s'))"
| fd_return: "t < length (fd_threads s) \<Longrightarrow> fd_threads s ! t = [] # below \<Longrightarrow>
    fd_step s (set_thread t below s)"
| fd_throw: "t < length (fd_threads s) \<Longrightarrow> fd_threads s ! t = (task # rest) # below \<Longrightarrow>
    fd_may_throw task \<Longrightarrow> t \<noteq> 0 \<or> below \<noteq> [] \<Longrightarrow>
    fd_step s (set_thread t below (fd_note task [] s))"

end
