(* ===== verification/Full_Duplex_Properties.thy ===== *)
theory Full_Duplex_Properties
  imports Full_Duplex "HOL-Library.Multiset"
begin

text \<open>
  The full-duplex conversation against its contracts: the sections on the current response are a
  run of the playback contract, and the input queue with its worker is a bounded queue whose
  accepted frames reach the provider in order until close.
\<close>

inductive_cases fd_stepE: "fd_step s t"

section \<open>The contract of playback\<close>

text \<open>
  One response at a time, with unbounded counts: audio is taken only while the response is live and
  still being generated, at the offset where the audio before it ended; a listener has heard at
  most what was delivered; a live response ends when all of a finished one was heard, or by a
  cancellation at exactly what was heard.
\<close>

record Response =
  rp_name :: string
  rp_delivered :: nat
  rp_heard :: nat
  rp_live :: bool
  rp_generated :: bool
  rp_started :: bool

definition no_response :: Response where
  "no_response = \<lparr>rp_name = [], rp_delivered = 0, rp_heard = 0, rp_live = False, rp_generated = False,
     rp_started = False\<rparr>"

fun response_step :: "Happened \<Rightarrow> Response \<Rightarrow> Response option" where
  "response_step (Began r) p =
     Some \<lparr>rp_name = r, rp_delivered = 0, rp_heard = 0, rp_live = True, rp_generated = False,
       rp_started = False\<rparr>"
| "response_step (Chunk r start n) p =
     (if rp_live p \<and> \<not> rp_generated p \<and> r = rp_name p \<and> start = rp_delivered p
      then Some (p\<lparr>rp_delivered := start + n\<rparr>) else None)"
| "response_step (Started r) p =
     (if rp_live p \<and> r = rp_name p \<and> \<not> rp_started p then Some (p\<lparr>rp_started := True\<rparr>) else None)"
| "response_step (Heard r n) p =
     (if rp_live p \<and> r = rp_name p \<and> rp_heard p < n \<and> n \<le> rp_delivered p
      then Some (p\<lparr>rp_heard := n, rp_live := \<not> (rp_generated p \<and> n = rp_delivered p)\<rparr>) else None)"
| "response_step (Generated r) p =
     (if rp_live p \<and> \<not> rp_generated p \<and> r = rp_name p
      then Some (p\<lparr>rp_generated := True, rp_live := rp_heard p < rp_delivered p\<rparr>) else None)"
| "response_step (Cancelled r n) p =
     (if rp_live p \<and> r = rp_name p \<and> n = rp_heard p then Some (p\<lparr>rp_live := False\<rparr>) else None)"
| "response_step (Reported r n) p =
     (if \<not> rp_live p \<and> r = rp_name p \<and> n = rp_heard p then Some p else None)"

fun response_run :: "Happened list \<Rightarrow> Response \<Rightarrow> Response option" where
  "response_run [] p = Some p"
| "response_run (h # hs) p = (case response_step h p of None \<Rightarrow> None | Some q \<Rightarrow> response_run hs q)"

lemma response_run_append:
  "response_run (hs @ hs') p = (case response_run hs p of None \<Rightarrow> None | Some q \<Rightarrow> response_run hs' q)"
  by (induction hs arbitrary: p) (auto split: option.split)

definition fd_response :: "FullDuplex \<Rightarrow> Response" where
  "fd_response s =
     \<lparr>rp_name = fd_response_id s, rp_delivered = unat (fd_delivered_samples s),
      rp_heard = unat (fd_played_samples s), rp_live = fd_response_active s,
      rp_generated = fd_generation_done s, rp_started = fd_playback_started s\<rparr>"

fun chunk_samples :: "Happened \<Rightarrow> nat" where
  "chunk_samples (Chunk r start n) = n"
| "chunk_samples _ = 0"

definition samples_received :: "FullDuplex \<Rightarrow> nat" where
  "samples_received s = sum_list (map chunk_samples (fd_history s))"

definition heard_le_delivered :: "Response \<Rightarrow> bool" where
  "heard_le_delivered p \<longleftrightarrow> rp_heard p \<le> rp_delivered p \<and>
     (rp_live p \<and> rp_generated p \<longrightarrow> rp_heard p < rp_delivered p)"

lemma response_step_heard: "response_step h p = Some q \<Longrightarrow> heard_le_delivered p \<Longrightarrow> heard_le_delivered q"
  by (cases h) (auto simp: heard_le_delivered_def split: if_splits)

lemma response_run_heard: "response_run hs p = Some q \<Longrightarrow> heard_le_delivered p \<Longrightarrow> heard_le_delivered q"
  by (induction hs arbitrary: p) (auto split: option.splits dest: response_step_heard)

text \<open>The sections against the contract, while the counts have not wrapped.\<close>

definition response_refines :: "FullDuplex \<Rightarrow> bool" where
  "response_refines s \<longleftrightarrow>
     (samples_received s < 2 ^ 64 \<longrightarrow>
        response_run (fd_history s) no_response = Some (fd_response s) \<and>
        unat (fd_delivered_samples s) \<le> samples_received s)"

text \<open>What the calls issued by a section say, after what was said before.\<close>

abbreviation said :: "Task list \<Rightarrow> Happened list" where
  "said new \<equiv> concat (map happened new)"

lemma response_refines_extend:
  assumes "response_refines s" and "fd_history s' = fd_history s"
    and "samples_received s + sum_list (map chunk_samples (said new)) < 2 ^ 64 \<Longrightarrow>
      unat (fd_delivered_samples s) \<le> samples_received s \<Longrightarrow>
      response_run (said new) (fd_response s) = Some (fd_response s') \<and>
      unat (fd_delivered_samples s') \<le> samples_received s + sum_list (map chunk_samples (said new))"
  shows "response_refines (fd_note task new s')"
  using assms
  by (auto simp: response_refines_def samples_received_def response_run_append fd_note_def fd_response_def)

lemma response_refines_same:
  assumes "response_refines s" and "fd_history s' = fd_history s" and "fd_response s' = fd_response s"
    and "said new = []"
  shows "response_refines (fd_note task new s')"
  using assms(1-3)
  by (simp add: response_refines_def samples_received_def fd_response_def fd_note_def assms(4))

lemma text_number_append: "text_number (xs @ [c]) = 10 * text_number xs + (of_char c - 48)"
  by (simp add: text_number_def)

lemma text_number_to_string [simp]: "text_number (to_string n) = n"
proof (induction n rule: to_string.induct)
  case (1 n)
  have digit: "of_char (digit d) - 48 = d" if "d < 10" for d
    using that by (simp add: digit_def take_bit_eq_mod)
  show ?case
  proof (cases "n < 10")
    case True
    then show ?thesis using digit [of n] by (simp add: to_string.simps [of n] text_number_def)
  next
    case False
    then show ?thesis using digit [of "n mod 10"] 1
      by (subst to_string.simps) (simp add: text_number_append)
  qed
qed

lemma refines_audio_delta:
  assumes "response_refines s" and e: "fd_audio_delta r frame s = (new, s')"
  shows "response_refines (fd_note task new s')"
proof (cases "\<not> fd_response_active s \<or> fd_generation_done s \<or> r \<noteq> fd_response_id s")
  case True
  then show ?thesis using e by (intro response_refines_same [OF assms(1)]) (auto simp: fd_audio_delta_def)
next
  case False
  let ?n = "length (af_samples frame)"
  have new: "said new = [Chunk r (unat (fd_delivered_samples s)) ?n]"
    and s': "s' = s\<lparr>fd_delivered_samples := fd_delivered_samples s + of_nat ?n\<rparr>"
    using e False by (auto simp: fd_audio_delta_def)
  show ?thesis
  proof (rule response_refines_extend [OF assms(1)], goal_cases)
    case 1
    show ?case by (simp add: s')
  next
    case 2
    then have b: "samples_received s + ?n < 2 ^ 64" and d: "unat (fd_delivered_samples s) \<le> samples_received s"
      by (simp_all add: new)
    have "unat (of_nat ?n :: u64) = ?n" by (rule u64_of_nat) (use b in simp)
    then have "unat (fd_delivered_samples s + of_nat ?n) = unat (fd_delivered_samples s) + ?n"
      using b d by (subst unat_add_lem [THEN iffD1]) simp_all
    then show ?case using False d by (simp add: new s' fd_response_def)
  qed
qed

lemma refines_acknowledge:
  assumes "response_refines s" and e: "fd_acknowledge_playback r played s = (new, s')"
  shows "response_refines (fd_note task new s')"
proof -
  let ?a = "min played (fd_delivered_samples s)"
  show ?thesis
  proof (cases "fd_response_active s \<and> r = fd_response_id s \<and> ?a > fd_played_samples s")
    case True
    have a: "unat ?a \<le> unat (fd_delivered_samples s)" "unat (fd_played_samples s) < unat ?a"
      using True by (simp_all add: word_le_nat_alt [symmetric] word_less_nat_alt [symmetric])
    have new: "said new = [Heard r (unat ?a)]"
      and s': "s' = s\<lparr>fd_played_samples := ?a,
        fd_response_active := \<not> (fd_generation_done s \<and> ?a = fd_delivered_samples s)\<rparr>"
      using e True by (auto simp: fd_acknowledge_playback_def Let_def)
    show ?thesis
      by (rule response_refines_extend [OF assms(1)])
        (use True a in \<open>auto simp: new s' fd_response_def unsigned_word_eqI\<close>)
  next
    case False
    then have "new = []" "s' = s" using e by (auto simp: fd_acknowledge_playback_def Let_def)
    then show ?thesis by (intro response_refines_same [OF assms(1)]) auto
  qed
qed

lemma refines_started:
  "response_refines s \<Longrightarrow> fd_response_started r s = (new, s') \<Longrightarrow> response_refines (fd_note task new s')"
  by (rule response_refines_extend [of s]) (auto simp: fd_response_started_def fd_response_def)

lemma refines_playback_started:
  "response_refines s \<Longrightarrow> fd_playback_started_section r s = (new, s') \<Longrightarrow>
   response_refines (fd_note task new s')"
  by (rule response_refines_extend [of s])
    (auto simp: fd_playback_started_section_def fd_response_def split: if_splits)

lemma refines_completed:
  assumes "response_refines s" and e: "fd_response_completed r s = (new, s')"
  shows "response_refines (fd_note task new s')"
  by (rule response_refines_extend [OF assms(1)])
    (use e in \<open>auto simp: fd_response_completed_def fd_response_def word_less_nat_alt split: if_splits\<close>)

lemma refines_barge_in:
  "response_refines s \<Longrightarrow> fd_begin_barge_in s = (new, s') \<Longrightarrow> response_refines (fd_note task new s')"
  by (rule response_refines_extend [of s])
    (auto simp: fd_begin_barge_in_def fd_response_def split: if_splits)

text \<open>Every other section leaves the response alone.\<close>

lemma refines_event:
  assumes "response_refines s" and e: "fd_on_provider_event v s = (new, s')"
  shows "response_refines (fd_note task new s')"
proof (cases "re_type v")
  case ResponseStarted
  then show ?thesis using e refines_started [OF assms(1)] by (simp add: fd_on_provider_event_def)
next
  case AudioDelta
  then show ?thesis using e refines_audio_delta [OF assms(1)] by (simp add: fd_on_provider_event_def)
next
  case ResponseCompleted
  then show ?thesis using e refines_completed [OF assms(1)] by (simp add: fd_on_provider_event_def)
qed (rule response_refines_same [OF assms(1)];
    use e in \<open>auto simp: fd_on_provider_event_def fd_response_def split: if_splits\<close>)+

lemmas fd_section_defs = fd_enqueue_def fd_speech_started_section_def fd_speech_ended_section_def
  fd_playback_started_section_def fd_close_def fd_publish_def fd_input_loop_def fd_push_provider_def

lemma refines_exec:
  assumes "response_refines s" and e: "fd_exec outcome task s = (new, s')"
  shows "response_refines (fd_note task' new s')"
proof -
  have other: ?thesis
    if "fd_history s' = fd_history s \<and> fd_response s' = fd_response s \<and> said new = []"
    using that response_refines_same [OF assms(1)] by blast
  show ?thesis
  proof (cases task)
    case (HandleEvent v)
    then show ?thesis using refines_event [OF assms(1)] e by simp
  next
    case BargeIn
    then show ?thesis using refines_barge_in [OF assms(1)] e by simp
  next
    case (AcknowledgePlayback r played)
    then show ?thesis using refines_acknowledge [OF assms(1)] e by simp
  next
    case (StartPlayback r)
    then show ?thesis using refines_playback_started [OF assms(1)] e by simp
  qed (rule other; use e in \<open>auto simp: fd_section_defs fd_push_audio_def fd_input_speech_started_def
      fd_input_speech_ended_def fd_sink_audio_def fd_response_def split: if_splits\<close>)+
qed

lemma response_refines_thread: "response_refines (set_thread t stack s) = response_refines s"
  by (simp add: response_refines_def samples_received_def fd_response_def set_thread_def)

lemma response_refines_thrown: "response_refines (fd_note task [] s) = response_refines s"
  by (simp add: response_refines_def samples_received_def fd_response_def fd_note_def)

lemma refines_step: "response_refines s \<Longrightarrow> fd_step s t \<Longrightarrow> response_refines t"
proof (erule fd_stepE)
  fix u task rest below outcome new s'
  assume "response_refines s" "t = set_thread u ((new @ rest) # below) (fd_note task new s')"
    "fd_exec outcome task s = (new, s')"
  then show "response_refines t" using refines_exec [of s outcome task] by (simp add: response_refines_thread)
qed (simp_all add: response_refines_thread response_refines_thrown)

text \<open>
  The calls made and those still on the threads are among the calls issued, each at most as often:
  an exception drops the calls behind it.
\<close>

definition pending :: "FullDuplex \<Rightarrow> Happened multiset" where
  "pending s = sum_list (map (\<lambda>stack. mset (said (concat stack))) (fd_threads s))"

definition calls_issued :: "FullDuplex \<Rightarrow> bool" where
  "calls_issued s \<longleftrightarrow> mset (fd_made s) + pending s \<subseteq># mset (fd_history s)"

lemma sum_list_update_mset:
  "t < length xs \<Longrightarrow> sum_list (map f (xs[t := x])) + f (xs ! t) = sum_list (map f xs) + (f x :: 'a multiset)"
proof (induction xs arbitrary: t)
  case (Cons y ys)
  then show ?case by (cases t) (simp_all add: ac_simps)
qed simp

lemma pending_set:
  "t < length (fd_threads s) \<Longrightarrow>
   pending (set_thread t stack s) + mset (said (concat (fd_threads s ! t))) =
   pending s + mset (said (concat stack))"
  using sum_list_update_mset [of t "fd_threads s" "\<lambda>stack. mset (said (concat stack))" stack]
  by (simp add: pending_def set_thread_def)

lemma calls_issued_move:
  assumes "calls_issued s" and "t < length (fd_threads s)"
    and "fd_threads s' = fd_threads s"
    and "mset (fd_made s') = mset (fd_made s) + made" and "mset (fd_history s') = mset (fd_history s) + issued"
    and "made + mset (said (concat stack)) \<subseteq># mset (said (concat (fd_threads s ! t))) + issued"
  shows "calls_issued (set_thread t stack s')"
proof -
  let ?new = "pending (set_thread t stack s')" and ?old = "mset (said (concat (fd_threads s ! t)))"
  have p: "?new + ?old = pending s + mset (said (concat stack))"
    using pending_set [of t s' stack] assms(2,3) by (simp add: pending_def)
  have "mset (fd_made s) + made + ?new + ?old = (mset (fd_made s) + pending s) + (made + mset (said (concat stack)))"
    using p by (simp add: ac_simps)
  also have "\<dots> \<subseteq># mset (fd_history s) + (?old + issued)"
    by (rule mset_subset_eq_mono_add) (use assms(1,6) in \<open>simp_all add: calls_issued_def\<close>)
  finally have "mset (fd_made s) + made + ?new + ?old \<subseteq># mset (fd_history s) + issued + ?old"
    by (simp add: ac_simps)
  then have "mset (fd_made s) + made + ?new \<subseteq># mset (fd_history s) + issued" by simp
  moreover have "fd_made (set_thread t stack s') = fd_made s'" "fd_history (set_thread t stack s') = fd_history s'"
    by (simp_all add: set_thread_def)
  ultimately show ?thesis using assms(4,5) by (simp add: calls_issued_def)
qed

lemma operation_silent: "fd_operation task \<Longrightarrow> happened task = []"
  by (cases task) simp_all

lemma exec_keeps:
  "fd_exec outcome task s = (new, s') \<Longrightarrow>
   fd_threads s' = fd_threads s \<and> fd_made s' = fd_made s \<and> fd_history s' = fd_history s"
  by (cases task) (auto simp: fd_section_defs fd_acknowledge_playback_def fd_begin_barge_in_def
      fd_on_provider_event_def fd_response_started_def fd_audio_delta_def fd_response_completed_def
      Let_def split: if_splits RealtimeEventType.splits)

lemma calls_issued_step: "calls_issued s \<Longrightarrow> fd_step s u \<Longrightarrow> calls_issued u"
proof -
  assume ok: "calls_issued s" and step: "fd_step s u"
  from step show "calls_issued u"
  proof cases
    case (fd_call task t)
    show ?thesis unfolding fd_call(1)
      by (rule calls_issued_move [OF ok fd_call(3), of s "{#}" "{#}"])
        (simp_all add: operation_silent [OF fd_call(2)])
  next
    case (fd_section t task rest below outcome new s')
    note keep = exec_keeps [OF fd_section(5)]
    show ?thesis unfolding fd_section(1)
      by (rule calls_issued_move [OF ok fd_section(2), of _ "mset (happened task)" "mset (said new)"])
        (simp_all add: keep fd_note_def fd_section(3))
  next
    case (fd_return t below)
    show ?thesis unfolding fd_return(1)
      by (rule calls_issued_move [OF ok fd_return(2), of s "{#}" "{#}"]) (simp_all add: fd_return(3))
  next
    case (fd_throw t task rest below)
    show ?thesis unfolding fd_throw(1)
      by (rule calls_issued_move [OF ok fd_throw(2), of _ "mset (happened task)" "{#}"])
        (simp_all add: fd_note_def fd_throw(3) mset_subset_eq_add_left)
  qed
qed

definition fd_init :: "FullDuplex \<Rightarrow> bool" where
  "fd_init s \<longleftrightarrow> (\<exists>connect session transcript_sink audio_sink events config threads.
     fd_new connect session transcript_sink audio_sink events config threads = Inr s)"


section \<open>The input queue and its worker\<close>

fun worker_task :: "Task \<Rightarrow> bool" where
  "worker_task InputLoop = True"
| "worker_task (PushProvider frame) = True"
| "worker_task _ = False"

fun task_frame :: "Task \<Rightarrow> AudioFrame list" where
  "task_frame (PushProvider frame) = [frame]"
| "task_frame _ = []"

definition plain :: "Task list \<Rightarrow> bool" where
  "plain tasks \<longleftrightarrow> list_all (\<lambda>task. \<not> worker_task task) tasks"

text \<open>The bottom frame of the worker: in the loop, or in a call for a frame, or returned.\<close>

definition loop_frame :: "Task list \<Rightarrow> bool" where
  "loop_frame tasks \<longleftrightarrow>
     tasks = [] \<or> (\<exists>frame. tasks = [PushProvider frame, InputLoop]) \<or>
     (\<exists>before. plain before \<and> tasks = before @ [InputLoop])"

definition loop_stack :: "Task list list \<Rightarrow> bool" where
  "loop_stack stack \<longleftrightarrow> stack = [] \<or> list_all plain (butlast stack) \<and> loop_frame (last stack)"

definition in_flight :: "Task list list \<Rightarrow> AudioFrame list" where
  "in_flight stack = concat (map task_frame (concat stack))"

definition worker_gone :: "Task list list \<Rightarrow> bool" where
  "worker_gone stack \<longleftrightarrow> stack = [] \<or> last stack = []"

text \<open>The section only the closing thread executes, once the worker was joined.\<close>

definition closing :: "FullDuplex \<Rightarrow> bool" where
  "closing s \<longleftrightarrow> fd_provider_closed s \<or> CloseProvider \<in> set (concat (concat (fd_threads s)))"

definition threads_ok :: "Task list list list \<Rightarrow> bool" where
  "threads_ok threads \<longleftrightarrow> threads \<noteq> [] \<and> loop_stack (hd threads) \<and> list_all (list_all plain) (tl threads)"

definition input_ok :: "FullDuplex \<Rightarrow> bool" where
  "input_ok s \<longleftrightarrow>
     fd_accepted s = fd_pushed s @ in_flight (worker_stack s) @ fd_input_queue s @ fd_discarded s \<and>
     length (fd_input_queue s) \<le> fdc_max_input_frames (fd_config s) \<and>
     (worker_gone (worker_stack s) \<longrightarrow> fd_stopping s \<and> fd_input_queue s = []) \<and>
     (fd_discarded s \<noteq> [] \<longrightarrow> worker_gone (worker_stack s)) \<and>
     (closing s \<longrightarrow> worker_stack s = [])"

definition fd_inv :: "FullDuplex \<Rightarrow> bool" where
  "fd_inv s \<longleftrightarrow> threads_ok (fd_threads s) \<and> input_ok s \<and> response_refines s \<and> calls_issued s"

lemma note_fields [simp]:
  "fd_accepted (fd_note task new s) = fd_accepted s" "fd_pushed (fd_note task new s) = fd_pushed s"
  "fd_input_queue (fd_note task new s) = fd_input_queue s"
  "fd_discarded (fd_note task new s) = fd_discarded s" "fd_config (fd_note task new s) = fd_config s"
  "fd_stopping (fd_note task new s) = fd_stopping s" "fd_threads (fd_note task new s) = fd_threads s"
  "fd_provider_closed (fd_note task new s) = fd_provider_closed s"
  by (simp_all add: fd_note_def)

lemma plain_simps [simp]:
  "plain []" "plain (task # tasks) \<longleftrightarrow> \<not> worker_task task \<and> plain tasks"
  "plain (as @ bs) \<longleftrightarrow> plain as \<and> plain bs"
  by (simp_all add: plain_def)

lemma plain_in_flight: "plain tasks \<Longrightarrow> concat (map task_frame tasks) = []"
proof (induction tasks)
  case (Cons task tasks)
  then show ?case by (cases task) simp_all
qed simp

text \<open>What a section of other tasks adds to its frame.\<close>

lemma exec_plain:
  "\<not> worker_task task \<Longrightarrow> fd_exec outcome task s = (new, s') \<Longrightarrow> plain new"
  by (cases task) (auto simp: fd_section_defs fd_push_audio_def fd_input_speech_started_def
      fd_input_speech_ended_def fd_acknowledge_playback_def fd_begin_barge_in_def fd_sink_audio_def
      fd_on_provider_event_def fd_response_started_def fd_audio_delta_def fd_response_completed_def
      Let_def split: if_splits RealtimeEventType.splits)

lemmas exec_defs = fd_section_defs fd_push_audio_def fd_input_speech_started_def
      fd_input_speech_ended_def fd_acknowledge_playback_def fd_begin_barge_in_def fd_sink_audio_def
      fd_on_provider_event_def fd_response_started_def fd_audio_delta_def fd_response_completed_def
      Let_def

lemma exec_worker_frame:
  "fd_exec outcome task s = (new, s') \<Longrightarrow> fd_threads s' = fd_threads s \<and> fd_config s' = fd_config s"
  by (cases task) (auto simp: exec_defs split: if_splits RealtimeEventType.splits)

text \<open>The fields of the input path, and what sections outside the worker's loop do to them.\<close>

definition same_input :: "FullDuplex \<Rightarrow> FullDuplex \<Rightarrow> bool" where
  "same_input s s' \<longleftrightarrow> fd_accepted s' = fd_accepted s \<and> fd_pushed s' = fd_pushed s \<and>
     fd_discarded s' = fd_discarded s \<and> fd_input_queue s' = fd_input_queue s"

definition enqueued :: "FullDuplex \<Rightarrow> FullDuplex \<Rightarrow> bool" where
  "enqueued s s' \<longleftrightarrow> \<not> fd_stopping s \<and> fd_stopping s' = fd_stopping s \<and>
     length (fd_input_queue s) < fdc_max_input_frames (fd_config s) \<and>
     fd_pushed s' = fd_pushed s \<and> fd_discarded s' = fd_discarded s \<and>
     (\<exists>frame. fd_accepted s' = fd_accepted s @ [frame] \<and> fd_input_queue s' = fd_input_queue s @ [frame])"

lemma exec_input:
  assumes "fd_exec outcome task s = (new, s')" and "\<not> worker_task task"
  shows "(same_input s s' \<and> (fd_stopping s \<longrightarrow> fd_stopping s')) \<or> enqueued s s'"
proof -
  have other: "same_input s s' \<and> (fd_stopping s \<longrightarrow> fd_stopping s')" if "\<forall>frame. task \<noteq> EnqueueAudio frame"
    using assms that by (cases task) (auto simp: same_input_def exec_defs split: if_splits RealtimeEventType.splits)
  show ?thesis
  proof (cases task)
    case (EnqueueAudio frame)
    have e: "fd_enqueue frame s = (new, s')" using assms(1) EnqueueAudio by simp
    show ?thesis
    proof (cases "fd_stopping s \<or> length (fd_input_queue s) \<ge> fdc_max_input_frames (fd_config s)")
      case True
      then have "s' = s" using e by (auto simp: fd_enqueue_def split: if_splits)
      then show ?thesis by (simp add: same_input_def)
    next
      case False
      then have "s' = s\<lparr>fd_input_queue := fd_input_queue s @ [frame], fd_accepted := fd_accepted s @ [frame]\<rparr>"
        using e by (simp add: fd_enqueue_def)
      with False have "enqueued s s'" unfolding enqueued_def by simp
      then show ?thesis by blast
    qed
  qed (use other in auto)
qed

lemma exec_closing:
  assumes "fd_exec outcome task s = (new, s')"
  shows "CloseProvider \<in> set new \<Longrightarrow> task = JoinWorker"
    and "fd_provider_closed s' \<Longrightarrow> fd_provider_closed s \<or> task = CloseProvider"
  using assms by (cases task; auto simp: exec_defs split: if_splits RealtimeEventType.splits)+

lemma worker_stack_note [simp]: "worker_stack (fd_note task new s) = worker_stack s"
  by (simp add: worker_stack_def)

lemma input_ok_note [simp]:
  "input_ok (set_thread t stack (fd_note task new s)) = input_ok (set_thread t stack s)"
  by (simp add: input_ok_def worker_stack_def closing_def set_thread_def)

text \<open>Threads.\<close>

lemma threads_set:
  assumes "threads_ok threads" and "t < length threads"
    and "t = 0 \<Longrightarrow> loop_stack stack" and "t \<noteq> 0 \<Longrightarrow> list_all plain stack"
  shows "threads_ok (threads[t := stack])"
proof (cases threads)
  case (Cons w others)
  then show ?thesis using assms
    by (cases t) (auto simp: threads_ok_def list_all_iff dest!: set_update_subset_insert [THEN subsetD])
qed (use assms in simp)

lemma threads_get:
  assumes "threads_ok threads" and "t < length threads"
  shows "t = 0 \<Longrightarrow> loop_stack (threads ! t)" and "t \<noteq> 0 \<Longrightarrow> list_all plain (threads ! t)"
  using assms by (cases threads; cases t; simp add: threads_ok_def list_all_length)+

lemma worker_stack_set:
  "t < length (fd_threads s) \<Longrightarrow> worker_stack (set_thread t stack s) = (if t = 0 then stack else worker_stack s)"
  by (cases t) (auto simp: worker_stack_def set_thread_def)

lemma closing_set:
  "closing (set_thread t stack s) \<Longrightarrow> closing s \<or> CloseProvider \<in> set (concat stack)"
  by (auto simp: closing_def set_thread_def dest!: set_update_subset_insert [THEN subsetD])

lemma closing_get: "t < length (fd_threads s) \<Longrightarrow> CloseProvider \<in> set (concat (fd_threads s ! t)) \<Longrightarrow> closing s"
  by (auto simp: closing_def intro: bexI [OF _ nth_mem])

lemma set_thread_fields [simp]:
  "fd_accepted (set_thread t stack s) = fd_accepted s" "fd_pushed (set_thread t stack s) = fd_pushed s"
  "fd_input_queue (set_thread t stack s) = fd_input_queue s"
  "fd_discarded (set_thread t stack s) = fd_discarded s"
  "fd_config (set_thread t stack s) = fd_config s" "fd_stopping (set_thread t stack s) = fd_stopping s"
  "fd_threads (set_thread t stack s) = (fd_threads s)[t := stack]"
  "fd_provider_closed (set_thread t stack s) = fd_provider_closed s"
  by (simp_all add: set_thread_def)

lemma loop_stack_Cons: "below \<noteq> [] \<Longrightarrow> loop_stack (tasks # below) \<longleftrightarrow> plain tasks \<and> loop_stack below"
  by (cases below) (auto simp: loop_stack_def)

lemma loop_stack_single: "loop_stack [tasks] \<longleftrightarrow> loop_frame tasks"
  by (simp add: loop_stack_def)

lemma loop_frame_plain_task:
  "loop_frame (task # rest) \<Longrightarrow> \<not> worker_task task \<Longrightarrow> \<exists>before. plain before \<and> rest = before @ [InputLoop]"
  by (auto simp: loop_frame_def Cons_eq_append_conv)

text \<open>A stack whose top frame runs a section of another task.\<close>

lemma loop_stack_exec:
  assumes "loop_stack ((task # rest) # below)" and "\<not> worker_task task" and "plain new"
  shows "loop_stack ((new @ rest) # below)" "in_flight ((new @ rest) # below) = in_flight ((task # rest) # below)"
    "worker_gone ((new @ rest) # below) \<longleftrightarrow> worker_gone ((task # rest) # below)"
proof -
  have "task_frame task = []" using assms(2) by (cases task) auto
  then show "in_flight ((new @ rest) # below) = in_flight ((task # rest) # below)"
    using plain_in_flight [OF assms(3)] by (simp add: in_flight_def)
  show "loop_stack ((new @ rest) # below)"
  proof (cases "below = []")
    case True
    then obtain before where "plain before" "rest = before @ [InputLoop]"
      using loop_frame_plain_task assms(1,2) by (auto simp: loop_stack_single)
    then show ?thesis using True assms(3)
      by (auto simp: loop_stack_single loop_frame_def intro!: exI [of _ "new @ before"])
  next
    case False
    then show ?thesis using assms by (simp add: loop_stack_Cons)
  qed
  show "worker_gone ((new @ rest) # below) \<longleftrightarrow> worker_gone ((task # rest) # below)"
  proof (cases "below = []")
    case True
    then have "rest \<noteq> []" using loop_frame_plain_task assms(1,2) by (auto simp: loop_stack_single)
    then show ?thesis using True by (simp add: worker_gone_def)
  qed (simp add: worker_gone_def)
qed

text \<open>A step that moves only stacks.\<close>

lemma input_ok_set:
  assumes "input_ok s" and "t < length (fd_threads s)"
    and "t = 0 \<Longrightarrow> in_flight stack = in_flight (worker_stack s) \<and>
      (worker_gone stack \<longleftrightarrow> worker_gone (worker_stack s)) \<and> (worker_stack s = [] \<longrightarrow> stack = [])"
    and "CloseProvider \<in> set (concat stack) \<Longrightarrow> closing s \<or> worker_stack s = []"
  shows "input_ok (set_thread t stack s)"
  using assms closing_set [of t stack s]
  by (cases "t = 0") (auto simp: input_ok_def worker_stack_set)

lemma input_call:
  assumes "fd_inv s" and "fd_operation task" and "t < length (fd_threads s)"
    and "in_callback (fd_threads s ! t) \<or> t \<noteq> 0 \<and> fd_threads s ! t = []"
  shows "threads_ok ((fd_threads s)[t := [task] # fd_threads s ! t]) \<and>
    input_ok (set_thread t ([task] # fd_threads s ! t) s)"
proof -
  have task: "\<not> worker_task task" "task_frame task = []" "task \<noteq> CloseProvider"
    using assms(2) by (cases task; simp)+
  have ok: "threads_ok (fd_threads s)" "input_ok s" using assms(1) by (simp_all add: fd_inv_def)
  have nonempty: "t = 0 \<Longrightarrow> fd_threads s ! t \<noteq> []" using assms(4) by (auto simp: in_callback_def)
  have "threads_ok ((fd_threads s)[t := [task] # fd_threads s ! t])"
    using threads_get [OF ok(1) assms(3)] nonempty task(1)
    by (intro threads_set [OF ok(1) assms(3)]) (simp_all add: loop_stack_Cons)
  moreover have "input_ok (set_thread t ([task] # fd_threads s ! t) s)"
  proof (rule input_ok_set [OF ok(2) assms(3)])
    show "CloseProvider \<in> set (concat ([task] # fd_threads s ! t)) \<Longrightarrow> closing s \<or> worker_stack s = []"
      using task(3) closing_get [OF assms(3)] by auto
  qed (use nonempty task in \<open>auto simp: worker_stack_def in_flight_def worker_gone_def\<close>)
  ultimately show ?thesis by simp
qed

lemma input_pop:
  assumes "fd_inv s" and "t < length (fd_threads s)" and "fd_threads s ! t = tasks # below"
    and "tasks = [] \<or> t \<noteq> 0 \<or> below \<noteq> []"
  shows "threads_ok ((fd_threads s)[t := below]) \<and> input_ok (set_thread t below s)"
proof -
  have ok: "threads_ok (fd_threads s)" "input_ok s" using assms(1) by (simp_all add: fd_inv_def)
  note get = threads_get [OF ok(1) assms(2), unfolded assms(3)]
  have below: "t = 0 \<Longrightarrow> loop_stack below"
    using get(1) by (cases "below = []") (simp_all add: loop_stack_Cons loop_stack_def)
  have "threads_ok ((fd_threads s)[t := below])"
    using get(2) below by (intro threads_set [OF ok(1) assms(2)]) simp_all
  moreover have "input_ok (set_thread t below s)"
  proof (rule input_ok_set [OF ok(2) assms(2)])
    show "CloseProvider \<in> set (concat below) \<Longrightarrow> closing s \<or> worker_stack s = []"
      using closing_get [OF assms(2)] assms(3) by auto
    assume t: "t = 0"
    then have w: "worker_stack s = tasks # below" using assms(3) by (simp add: worker_stack_def)
    have "concat (map task_frame tasks) = []"
      using assms(4) t get(1) by (cases "below = []") (auto simp: loop_stack_Cons plain_in_flight)
    then show "in_flight below = in_flight (worker_stack s) \<and>
        (worker_gone below \<longleftrightarrow> worker_gone (worker_stack s)) \<and> (worker_stack s = [] \<longrightarrow> below = [])"
      using assms(4) t unfolding w by (auto simp: in_flight_def worker_gone_def)
  qed
  ultimately show ?thesis by simp
qed

lemma input_exec:
  assumes ok: "input_ok s" and e: "fd_exec outcome task s = (new, s')" and "\<not> worker_task task"
    and "task = CloseProvider \<Longrightarrow> closing s"
  shows "input_ok s'"
proof -
  have w: "worker_stack s' = worker_stack s" "fd_config s' = fd_config s" "fd_threads s' = fd_threads s"
    using exec_worker_frame [OF e] by (simp_all add: worker_stack_def)
  have c: "closing s' \<Longrightarrow> closing s"
    using exec_closing(2) [OF e] assms(4) w(3) by (auto simp: closing_def)
  show ?thesis
  proof (cases "enqueued s s'")
    case True
    have "\<not> worker_gone (worker_stack s)" "fd_discarded s = []"
      using ok True by (auto simp: input_ok_def enqueued_def)
    then show ?thesis using ok True c w by (auto simp: input_ok_def enqueued_def)
  next
    case False
    then have "same_input s s'" "fd_stopping s \<longrightarrow> fd_stopping s'" using exec_input [OF e assms(3)] by auto
    then show ?thesis using ok c w by (auto simp: input_ok_def same_input_def)
  qed
qed

lemma input_section:
  assumes inv: "fd_inv s" and t: "t < length (fd_threads s)"
    and stack: "fd_threads s ! t = (task # rest) # below" and ready: "fd_ready task s"
    and e: "fd_exec outcome task s = (new, s')" and task: "\<not> worker_task task"
  shows "threads_ok ((fd_threads s')[t := (new @ rest) # below]) \<and>
    input_ok (set_thread t ((new @ rest) # below) s')"
proof -
  have ok: "threads_ok (fd_threads s)" "input_ok s" using inv by (simp_all add: fd_inv_def)
  have w: "fd_threads s' = fd_threads s" "worker_stack s' = worker_stack s"
    using exec_worker_frame [OF e] by (simp_all add: worker_stack_def)
  have new: "plain new" by (rule exec_plain [OF task e])
  note get = threads_get [OF ok(1) t, unfolded stack]
  have c: "task = CloseProvider \<Longrightarrow> closing s" using closing_get [OF t] stack by auto
  have "threads_ok ((fd_threads s')[t := (new @ rest) # below])" unfolding w
    using get loop_stack_exec(1) [OF _ task new] new by (intro threads_set [OF ok(1) t]) simp_all
  moreover have "input_ok (set_thread t ((new @ rest) # below) s')"
  proof (rule input_ok_set [OF input_exec [OF ok(2) e task c]])
    show "t < length (fd_threads s')" using t w by simp
    show "CloseProvider \<in> set (concat ((new @ rest) # below)) \<Longrightarrow> closing s' \<or> worker_stack s' = []"
    proof -
      assume "CloseProvider \<in> set (concat ((new @ rest) # below))"
      then consider "CloseProvider \<in> set new" | "CloseProvider \<in> set (concat (fd_threads s' ! t))"
        using stack w by auto
      then show ?thesis
      proof cases
        case 1
        then have "fd_ready JoinWorker s" using exec_closing(1) [OF e] ready by simp
        then show ?thesis using w by simp
      next
        case 2
        then show ?thesis using closing_get [of t s'] t w by simp
      qed
    qed
    assume "t = 0"
    then have "worker_stack s' = (task # rest) # below" using stack w by (simp add: worker_stack_def)
    with \<open>t = 0\<close> show "in_flight ((new @ rest) # below) = in_flight (worker_stack s') \<and>
        (worker_gone ((new @ rest) # below) \<longleftrightarrow> worker_gone (worker_stack s')) \<and>
        (worker_stack s' = [] \<longrightarrow> (new @ rest) # below = [])"
      using loop_stack_exec [OF get(1) task new] by simp
  qed
  ultimately show ?thesis by simp
qed

lemma worker_position:
  assumes "threads_ok (fd_threads s)" and "t < length (fd_threads s)"
    and "fd_threads s ! t = (task # rest) # below" and "worker_task task"
  shows "t = 0 \<and> below = [] \<and> (task = InputLoop \<and> rest = [] \<or> (\<exists>f. task = PushProvider f) \<and> rest = [InputLoop])"
proof -
  note get = threads_get [OF assms(1,2), unfolded assms(3)]
  have t: "t = 0" using get(2) assms(4) by (cases "t = 0") simp_all
  have below: "below = []" using get(1) [OF t] assms(4) by (cases "below = []") (simp_all add: loop_stack_Cons)
  have "loop_frame (task # rest)" using get(1) [OF t] below by (simp add: loop_stack_single)
  then show ?thesis using t below assms(4) by (auto simp: loop_frame_def Cons_eq_append_conv)
qed

lemma threads_worker:
  "threads_ok (fd_threads s) \<Longrightarrow> loop_frame tasks \<Longrightarrow> threads_ok ((fd_threads s)[0 := [tasks]])"
  by (cases "fd_threads s") (auto simp: threads_ok_def loop_stack_single)

lemma input_worker:
  assumes inv: "fd_inv s" and t: "t < length (fd_threads s)"
    and stack: "fd_threads s ! t = (task # rest) # below" and ready: "fd_ready task s"
    and e: "fd_exec outcome task s = (new, s')" and task: "worker_task task"
  shows "threads_ok ((fd_threads s')[t := (new @ rest) # below]) \<and>
    input_ok (set_thread t ((new @ rest) # below) s')"
proof -
  have ok: "threads_ok (fd_threads s)" "input_ok s" using inv by (simp_all add: fd_inv_def)
  note pos = worker_position [OF ok(1) t stack task]
  have w: "fd_threads s' = fd_threads s" using exec_worker_frame [OF e] by simp
  have stack': "worker_stack s = [task # rest]" using stack pos by (simp add: worker_stack_def)
  have here: "\<not> closing s" "fd_discarded s = []"
    using ok(2) stack' by (auto simp: input_ok_def worker_gone_def)
  have eq: "fd_accepted s = fd_pushed s @ in_flight [task # rest] @ fd_input_queue s"
    and bound: "length (fd_input_queue s) \<le> fdc_max_input_frames (fd_config s)"
    using ok(2) here by (simp_all add: input_ok_def stack')
  consider "task = InputLoop" "rest = []" "fd_stopping s"
    | frame queue where "task = InputLoop" "rest = []" "\<not> fd_stopping s" "fd_input_queue s = frame # queue"
    | frame where "task = PushProvider frame" "rest = [InputLoop]"
    using pos ready by (cases "fd_input_queue s") auto
  then show ?thesis
  proof cases
    case 1
    then have s': "s' = s\<lparr>fd_input_queue := [], fd_discarded := fd_input_queue s\<rparr>" "new = []"
      using e by (simp_all add: fd_input_loop_def)
    have "\<not> closing (set_thread 0 [[]] s')"
      using here(1) closing_set [of 0 "[[]]" s'] w by (auto simp: closing_def s')
    then show ?thesis using 1 pos eq t ok(1) s'
      by (simp add: input_ok_def worker_stack_set in_flight_def worker_gone_def threads_worker loop_frame_def)
  next
    case (2 frame queue)
    then have s': "s' = s\<lparr>fd_input_queue := queue\<rparr>" "new = [PushProvider frame, InputLoop]"
      using e by (simp_all add: fd_input_loop_def)
    have "\<not> closing (set_thread 0 [[PushProvider frame, InputLoop]] s')"
      using here(1) closing_set [of 0 "[[PushProvider frame, InputLoop]]" s'] w by (auto simp: closing_def s')
    then show ?thesis using 2 pos eq bound t ok(1) s' here
      by (simp add: input_ok_def worker_stack_set in_flight_def worker_gone_def threads_worker loop_frame_def)
  next
    case (3 frame)
    have e': "fd_push_provider outcome frame s = (new, s')" using e 3 by simp
    then have s': "s' = s\<lparr>fd_pushed := fd_pushed s @ [frame]\<rparr>" and new: "plain new" "CloseProvider \<notin> set new"
      by (auto simp: fd_push_provider_def split: if_splits)
    have "\<not> closing (set_thread 0 [new @ [InputLoop]] s')"
      using here(1) closing_set [of 0 "[new @ [InputLoop]]" s'] w new(2) by (auto simp: closing_def s')
    moreover have "loop_frame (new @ [InputLoop])" using new(1) by (auto simp: loop_frame_def)
    moreover have "in_flight [new @ [InputLoop]] = []" using plain_in_flight [OF new(1)] by (simp add: in_flight_def)
    moreover have "in_flight [task # rest] = [frame]" using 3 by (simp add: in_flight_def)
    ultimately show ?thesis using 3 pos eq bound t ok(1) s' here
      by (simp add: input_ok_def worker_stack_set worker_gone_def threads_worker)
  qed
qed

lemma fd_step_inv: "fd_inv s \<Longrightarrow> fd_step s u \<Longrightarrow> fd_inv u"
proof -
  assume inv: "fd_inv s" and step: "fd_step s u"
  have "response_refines u \<and> calls_issued u"
    using refines_step [OF _ step] calls_issued_step [OF _ step] inv by (simp add: fd_inv_def)
  moreover have "threads_ok (fd_threads u) \<and> input_ok u"
    using step
  proof cases
    case (fd_call task t)
    then show ?thesis using input_call [OF inv, of task t] by simp
  next
    case (fd_section t task rest below outcome new s')
    then show ?thesis
      using input_section [OF inv, of t task rest below outcome new s']
        input_worker [OF inv, of t task rest below outcome new s']
      by (cases "worker_task task") simp_all
  next
    case (fd_return t below)
    then show ?thesis using input_pop [OF inv, of t "[]" below] by simp
  next
    case (fd_throw t task rest below)
    then show ?thesis using input_pop [OF inv, of t "task # rest" below] by simp
  qed
  ultimately show "fd_inv u" by (simp add: fd_inv_def)
qed

lemma pending_idle: "pending s = {#}" if "fd_threads s = [InputLoop # []] # replicate n []"
proof -
  have "sum_list (map (\<lambda>stack. mset (said (concat stack))) (replicate n [])) = {#}" by (induction n) simp_all
  then show ?thesis by (simp add: pending_def that)
qed

lemma fd_init_inv: "fd_init s \<Longrightarrow> fd_inv s"
  by (auto simp: fd_init_def fd_new_def fd_inv_def threads_ok_def loop_stack_def loop_frame_def
      input_ok_def in_flight_def worker_stack_def worker_gone_def closing_def response_refines_def
      samples_received_def fd_response_def no_response_def list_all_iff calls_issued_def pending_idle
      split: if_splits sum.splits bool.splits)

interpretation fd: invariant_system fd_init fd_step fd_inv
  by unfold_locales (rule fd_init_inv, assumption, rule fd_step_inv)

section \<open>Properties\<close>

text \<open>A response that is not live has no events but the begin of the next.\<close>

lemma response_run_dead:
  "response_run (hs @ [Chunk r start n]) p = Some q \<Longrightarrow> \<not> rp_live p \<Longrightarrow> \<exists>r'. Began r' \<in> set hs"
proof (induction hs arbitrary: p)
  case (Cons h hs)
  then show ?case by (cases h) (auto split: if_splits)
qed simp

lemma response_run_cancelled:
  assumes "response_run (hs @ Cancelled r n # mid @ Chunk r' start k # rest) p = Some q"
  shows "\<exists>r''. Began r'' \<in> set mid"
proof -
  have split: "hs @ Cancelled r n # mid @ Chunk r' start k # rest =
      (hs @ [Cancelled r n]) @ (mid @ [Chunk r' start k]) @ rest" by simp
  obtain c where c: "response_run (hs @ [Cancelled r n]) p = Some c"
    "response_run ((mid @ [Chunk r' start k]) @ rest) c = Some q"
    using assms unfolding split by (subst (asm) response_run_append) (auto split: option.splits)
  have "\<not> rp_live c" using c(1) by (auto simp: response_run_append split: option.splits if_splits)
  moreover obtain d where "response_run (mid @ [Chunk r' start k]) c = Some d"
    using c(2) by (subst (asm) response_run_append) (auto split: option.splits)
  ultimately show ?thesis using response_run_dead by blast
qed

lemma in_flight_le: "loop_stack stack \<Longrightarrow> length (in_flight stack) \<le> 1"
proof (induction stack)
  case (Cons tasks below)
  show ?case
  proof (cases "below = []")
    case True
    then have "loop_frame tasks" using Cons.prems by (simp add: loop_stack_single)
    then show ?thesis using True by (auto simp: loop_frame_def in_flight_def plain_in_flight)
  next
    case False
    then show ?thesis using Cons by (simp add: loop_stack_Cons in_flight_def plain_in_flight)
  qed
qed (simp add: in_flight_def)

lemma closed_step:
  assumes "fd_inv s" and "fd_step s u" and "worker_stack s = []"
  shows "fd_pushed u = fd_pushed s \<and> worker_stack u = []"
  using assms(2)
proof cases
  case (fd_call task t)
  have "t \<noteq> 0" using fd_call assms(3) by (cases "t = 0") (auto simp: worker_stack_def in_callback_def)
  then show ?thesis using fd_call assms(3) by (simp add: worker_stack_set)
next
  case (fd_section t task rest below outcome new s')
  have "t \<noteq> 0" using fd_section assms(3) by (cases "t = 0") (auto simp: worker_stack_def)
  then have task: "\<not> worker_task task"
    using threads_get(2) [of "fd_threads s" t] fd_section assms(1) by (auto simp: fd_inv_def)
  have w: "worker_stack s' = []" "t < length (fd_threads s')"
    using exec_worker_frame [of outcome task s new s'] fd_section assms(3) by (simp_all add: worker_stack_def)
  have "fd_pushed s' = fd_pushed s"
    using exec_input [of outcome task s new s'] fd_section task by (auto simp: same_input_def enqueued_def)
  then show ?thesis using fd_section w \<open>t \<noteq> 0\<close> by (simp add: worker_stack_set)
next
  case (fd_return t below)
  then show ?thesis using assms(3) by (cases "t = 0") (auto simp: worker_stack_set worker_stack_def)
next
  case (fd_throw t task rest below)
  then show ?thesis using assms(3) by (cases "t = 0") (auto simp: worker_stack_set worker_stack_def)
qed

interpretation closed: final_condition fd_step "\<lambda>s. fd_inv s \<and> worker_stack s = []" fd_pushed
proof unfold_locales
  fix s t assume "fd_inv s \<and> worker_stack s = []" "fd_step s t"
  then show "(fd_inv t \<and> worker_stack t = []) \<and> fd_pushed t = fd_pushed s"
    using closed_step [of s t] fd.step_inv [of s t] by simp
qed

text \<open>C6: whatever the interleaving of provider events, acknowledgements and barge-ins, what the
  sections hand to the audio sink, the provider's cancellation and the events on a response is, in
  the order of the sections, a run of the playback contract as long as fewer than 2^64 samples were
  received: the audio given to the sink is contiguous from 0 in each response, playback is reported
  started at most once, the progress reported is monotone and never beyond what was delivered, the
  provider's cancellation and the event about it carry exactly what was heard, a finished response
  stays live only while some of it is unheard, and after a cancellation no audio goes to the sink
  before the next response begins. The calls made by the threads so far, to the sink, the provider
  and the events, are among those, each at most once.\<close>

theorem duplex_refines_playback:
  assumes "reachable fd_init fd_step s" and "samples_received s < 2 ^ 64"
  shows "response_run (fd_history s) no_response = Some (fd_response s) \<and>
    fd_played_samples s \<le> fd_delivered_samples s \<and>
    (fd_response_active s \<and> fd_generation_done s \<longrightarrow> fd_played_samples s < fd_delivered_samples s) \<and>
    (\<forall>hs r n mid r' start k rest.
       fd_history s = hs @ Cancelled r n # mid @ Chunk r' start k # rest \<longrightarrow>
       (\<exists>r''. Began r'' \<in> set mid)) \<and>
    mset (fd_made s) \<subseteq># mset (fd_history s)"
proof -
  have "calls_issued s" using fd.reachable_inv [OF assms(1)] by (simp add: fd_inv_def)
  then have made: "mset (fd_made s) \<subseteq># mset (fd_history s)"
    unfolding calls_issued_def by (meson mset_subset_eq_add_left subset_mset.order_trans)
  have run: "response_run (fd_history s) no_response = Some (fd_response s)"
    using fd.reachable_inv [OF assms(1)] assms(2) by (simp add: fd_inv_def response_refines_def)
  have "heard_le_delivered (fd_response s)"
    by (rule response_run_heard [OF run]) (simp add: no_response_def heard_le_delivered_def)
  then have "fd_played_samples s \<le> fd_delivered_samples s"
    "fd_response_active s \<and> fd_generation_done s \<longrightarrow> fd_played_samples s < fd_delivered_samples s"
    by (simp_all add: heard_le_delivered_def fd_response_def word_le_nat_alt word_less_nat_alt)
  then show ?thesis using run response_run_cancelled made by metis
qed

text \<open>C26: the input queue never exceeds its limit, and the frames for which \<open>push_audio\<close> returned
  true are, in order, those given to the provider, at most one on its way, those queued and those
  dropped by close; frames are dropped only by close, and once the provider's session is closed the
  queue is empty, no frame is on its way and none is ever given to the provider again.\<close>

theorem duplex_input_fifo:
  assumes "reachable fd_init fd_step s"
  shows "length (fd_input_queue s) \<le> fdc_max_input_frames (fd_config s) \<and>
    (\<exists>flying. length flying \<le> 1 \<and>
       fd_accepted s = fd_pushed s @ flying @ fd_input_queue s @ fd_discarded s \<and>
       (fd_provider_closed s \<longrightarrow> flying = [])) \<and>
    (fd_discarded s \<noteq> [] \<longrightarrow> fd_stopping s) \<and>
    (fd_provider_closed s \<longrightarrow> fd_input_queue s = [] \<and>
       (\<forall>u. steps fd_step s u \<longrightarrow> fd_pushed u = fd_pushed s))"
proof -
  have inv: "fd_inv s" by (rule fd.reachable_inv [OF assms])
  then have ok: "threads_ok (fd_threads s)" "input_ok s" by (simp_all add: fd_inv_def)
  have "fd_threads s \<noteq> []" using ok(1) by (simp add: threads_ok_def)
  then have "length (in_flight (worker_stack s)) \<le> 1"
    using threads_get(1) [OF ok(1), of 0] in_flight_le by (simp add: worker_stack_def)
  moreover have closed: "fd_provider_closed s \<Longrightarrow> worker_stack s = []"
    using ok(2) by (simp add: input_ok_def closing_def)
  then have "fd_provider_closed s \<Longrightarrow> in_flight (worker_stack s) = []"
    "fd_provider_closed s \<Longrightarrow> worker_gone (worker_stack s)"
    by (simp_all add: in_flight_def worker_gone_def)
  moreover have "fd_provider_closed s \<Longrightarrow> steps fd_step s u \<Longrightarrow> fd_pushed u = fd_pushed s" for u
    using closed.final_steps [of s] inv closed by blast
  ultimately show ?thesis using ok(2) unfolding input_ok_def by metis
qed

text \<open>A run: one thread delivers a response and its audio and is interrupted.\<close>

datatype example_move = Call nat Task | Section nat | Return nat

fun example_step :: "example_move \<Rightarrow> FullDuplex \<Rightarrow> FullDuplex option" where
  "example_step (Call t task) s =
     (if fd_operation task \<and> t < length (fd_threads s) \<and> t \<noteq> 0 \<and> fd_threads s ! t = []
      then Some (set_thread t [[task]] s) else None)"
| "example_step (Section t) s =
     (if t < length (fd_threads s)
      then case fd_threads s ! t of
          (task # rest) # below \<Rightarrow>
            if fd_ready task s
            then case fd_exec True task s of (new, s') \<Rightarrow> Some (set_thread t ((new @ rest) # below) (fd_note task new s'))
            else None
        | _ \<Rightarrow> None
      else None)"
| "example_step (Return t) s =
     (if t < length (fd_threads s)
      then case fd_threads s ! t of [] # below \<Rightarrow> Some (set_thread t below s) | _ \<Rightarrow> None
      else None)"

fun example_run :: "example_move list \<Rightarrow> FullDuplex \<Rightarrow> FullDuplex option" where
  "example_run [] s = Some s"
| "example_run (m # ms) s = (case example_step m s of None \<Rightarrow> None | Some u \<Rightarrow> example_run ms u)"

lemma example_step_sound: "example_step m s = Some u \<Longrightarrow> fd_step s u"
proof (induction m s rule: example_step.induct)
  case (1 t task s)
  then have u: "u = set_thread t ([task] # fd_threads s ! t) s" by (auto split: if_splits)
  show ?case unfolding u by (rule fd_call) (use 1 in \<open>auto split: if_splits\<close>)
next
  case (2 t s)
  then obtain task rest below new s' where *: "t < length (fd_threads s)"
    "fd_threads s ! t = (task # rest) # below" "fd_ready task s" "fd_exec True task s = (new, s')"
    "u = set_thread t ((new @ rest) # below) (fd_note task new s')"
    by (auto split: if_splits list.splits prod.splits)
  show ?case unfolding *(5) by (rule fd_section [OF *(1-4)])
next
  case (3 t s)
  then show ?case by (auto intro: fd_return split: if_splits list.splits)
qed

lemma example_run_sound:
  "example_run ms s = Some u \<Longrightarrow> reachable fd_init fd_step s \<Longrightarrow> reachable fd_init fd_step u"
proof (induction ms arbitrary: s)
  case (Cons m ms)
  then obtain v where v: "example_step m s = Some v" "example_run ms v = Some u" by (auto split: option.splits)
  have "reachable fd_init fd_step v" by (rule reach_step [OF Cons.prems(2) example_step_sound [OF v(1)]])
  then show ?case by (rule Cons.IH [OF v(2)])
qed simp


definition example_fd_config :: FullDuplexConfig where
  "example_fd_config =
     \<lparr>fdc_max_input_frames = 1, fdc_input_sample_rate_hz = 16000, fdc_output_sample_rate_hz = 24000,
      fdc_server_vad = True\<rparr>"

definition example_frame :: AudioFrame where
  "example_frame =
     \<lparr>af_samples = [1, 2], af_sample_rate_hz = 24000, af_channels = 1, af_end_of_utterance = False\<rparr>"

definition example_event :: "RealtimeEventType \<Rightarrow> RealtimeEvent" where
  "example_event ty =
     \<lparr>re_type = ty, re_response_id = ''r'', re_text = [], re_audio = example_frame, re_error_code = []\<rparr>"

definition example_moves :: "example_move list" where
  "example_moves =
     [Call 1 (ProviderEvent (example_event ResponseStarted)), Section 1, Section 1, Section 1, Return 1,
      Call 1 (ProviderEvent (example_event AudioDelta)), Section 1, Section 1, Section 1, Section 1, Return 1,
      Call 1 (PushAudio example_frame), Section 1, Section 1, Return 1,
      Section 0, Section 0,
      Call 1 (ProviderEvent (example_event RtInputSpeechStarted)), Section 1, Section 1, Section 1,
      Section 1, Section 1, Section 1, Section 1, Section 1, Section 1, Return 1,
      Call 1 Close, Section 1, Section 0, Return 0, Section 1, Section 1, Section 1, Return 1]"

definition example_start :: FullDuplex where
  "example_start =
     (case fd_new (\<lambda>c. Inr True) ''s'' True True False example_fd_config 1 of
        Inr s \<Rightarrow> s | Inl e \<Rightarrow> undefined)"

definition example_end :: FullDuplex where
  "example_end = (case example_run example_moves example_start of Some s \<Rightarrow> s | None \<Rightarrow> example_start)"

lemma example_end_reachable: "reachable fd_init fd_step example_end"
proof -
  have start: "fd_new (\<lambda>c. Inr True) ''s'' True True False example_fd_config 1 = Inr example_start"
    by (simp add: fd_new_def example_fd_config_def example_start_def)
  have "reachable fd_init fd_step example_start"
    by (rule reach_init) (use start in \<open>unfold fd_init_def, blast\<close>)
  then show ?thesis
    by (cases "example_run example_moves example_start")
      (simp_all add: example_end_def example_run_sound)
qed

lemma example_end_fields:
  "fd_history example_end = [Began ''r'', Chunk ''r'' 0 2, Cancelled ''r'' 0, Reported ''r'' 0]"
  "fd_made example_end = [Began ''r'', Chunk ''r'' 0 2, Cancelled ''r'' 0, Reported ''r'' 0]"
  "fd_response example_end =
     \<lparr>rp_name = ''r'', rp_delivered = 2, rp_heard = 0, rp_live = False, rp_generated = False,
      rp_started = False\<rparr>"
  "fd_pushed example_end = [example_frame]" "fd_provider_closed example_end"
  "fd_played_samples example_end = 0" "fd_delivered_samples example_end = 2"
  by code_simp+

theorem duplex_refines_playback_witness:
  "response_run [Began ''r'', Chunk ''r'' 0 2, Cancelled ''r'' 0, Reported ''r'' 0] no_response =
     Some \<lparr>rp_name = ''r'', rp_delivered = 2, rp_heard = 0, rp_live = False, rp_generated = False,
       rp_started = False\<rparr> \<and>
   mset (fd_made example_end) \<subseteq># mset (fd_history example_end)"
  using duplex_refines_playback [OF example_end_reachable]
  by (simp add: example_end_fields samples_received_def del: response_run.simps response_step.simps)

theorem duplex_input_fifo_witness:
  "fd_input_queue example_end = [] \<and> fd_provider_closed example_end \<and>
   fd_accepted example_end = fd_pushed example_end @ fd_discarded example_end"
  using duplex_input_fifo [OF example_end_reachable] by (auto simp: example_end_fields)

end
