(* ===== verification/Observability.thy ===== *)
theory Observability
  imports Json_Reading "HOL-Library.List_Lexorder" "HOL-Library.Char_ord"
begin

text \<open>
  Metrics, the runtime observer and the JSON event log (\<open>observability.h\<close>,
  \<open>observability.cpp\<close>). Sections under a mutex are single functions of the state. A \<open>double\<close> is a
  value of a linearly ordered type; its sum, the test for finite values, the conversion of
  intervals and the printed form are parameters. Counters are 64-bit and wrap.
\<close>

section \<open>Names and escapes\<close>

definition metric_char :: "char \<Rightarrow> bool" where
  "metric_char c \<longleftrightarrow>
     (let k = of_char c :: nat
      in 97 \<le> k \<and> k \<le> 122 \<or> 65 \<le> k \<and> k \<le> 90 \<or> 48 \<le> k \<and> k \<le> 57 \<or> c = CHR ''_'' \<or> c = CHR '':'')"

definition metric_name :: "string \<Rightarrow> string" where
  "metric_name name = map (\<lambda>c. if metric_char c then c else CHR ''_'') name"

definition hex_digit :: "nat \<Rightarrow> char" where
  "hex_digit k = (if k < 10 then char_of (48 + k) else char_of (87 + k))"

definition json_escape_char :: "char \<Rightarrow> string" where
  "json_escape_char c =
     (if c = quote then [backslash, quote]
      else if c = backslash then [backslash, backslash]
      else if c = CHR 0x0A then [backslash, CHR ''n'']
      else if c = CHR 0x0D then [backslash, CHR ''r'']
      else if c = CHR 0x09 then [backslash, CHR ''t'']
      else if (of_char c :: nat) \<ge> 0x20 then [c]
      else [backslash, CHR ''u'', CHR ''0'', CHR ''0'',
        hex_digit (of_char c div 16), hex_digit (of_char c mod 16)])"

definition json_escape :: "string \<Rightarrow> string" where
  "json_escape input = concat (map json_escape_char input)"

section \<open>Metrics\<close>

record 'd Histogram =
  hg_count :: u64
  hg_sum :: 'd
  hg_bounds :: "'d list"
  hg_bucket_counts :: "u64 list"

record 'd MetricsRegistry =
  mr_counters :: "(string, u64) umap"
  mr_histograms :: "(string, 'd Histogram) umap"

record 'd double_ops =
  d_zero :: 'd
  d_add :: "'d \<Rightarrow> 'd \<Rightarrow> 'd"
  d_finite :: "'d \<Rightarrow> bool"
  d_elapsed_ms :: "time_point \<Rightarrow> time_point \<Rightarrow> 'd"
  d_default_bounds :: "'d list"
  d_text :: "'d \<Rightarrow> string"

definition metrics_new :: "'d MetricsRegistry" where
  "metrics_new = \<lparr>mr_counters = [], mr_histograms = []\<rparr>"

text \<open>\<open>map[key]\<close>, assigned.\<close>

definition umap_put :: "'k \<Rightarrow> 'v \<Rightarrow> ('k, 'v) umap \<Rightarrow> ('k, 'v) umap" where
  "umap_put k v m = (if map_of m k = None then umap_emplace k v m else umap_set k v m)"

definition metrics_counter :: "string \<Rightarrow> 'd MetricsRegistry \<Rightarrow> u64" where
  "metrics_counter name m = (case map_of (mr_counters m) (metric_name name) of None \<Rightarrow> 0 | Some v \<Rightarrow> v)"

definition metrics_increment :: "string \<Rightarrow> u64 \<Rightarrow> 'd MetricsRegistry \<Rightarrow> 'd MetricsRegistry" where
  "metrics_increment name value m =
     m\<lparr>mr_counters := umap_put (metric_name name) (metrics_counter name m + value) (mr_counters m)\<rparr>"

definition empty_histogram :: "'d double_ops \<Rightarrow> 'd Histogram" where
  "empty_histogram d = \<lparr>hg_count = 0, hg_sum = d_zero d, hg_bounds = [], hg_bucket_counts = []\<rparr>"

definition resize_counts :: "nat \<Rightarrow> u64 list \<Rightarrow> u64 list" where
  "resize_counts n counts = take n counts @ replicate (n - length counts) 0"

definition histogram_observe :: "'d :: linorder double_ops \<Rightarrow> 'd \<Rightarrow> 'd list \<Rightarrow> 'd Histogram \<Rightarrow> 'd Histogram" where
  "histogram_observe d value bounds h =
     (let h = (if hg_bounds h = []
          then (let sorted_bounds = remdups_adj (sort bounds)
            in h\<lparr>hg_bounds := sorted_bounds,
              hg_bucket_counts := resize_counts (length sorted_bounds + 1) (hg_bucket_counts h)\<rparr>)
          else h);
          i = length (takeWhile (\<lambda>b. b < value) (hg_bounds h))
      in h\<lparr>hg_count := hg_count h + 1, hg_sum := d_add d (hg_sum h) value,
           hg_bucket_counts := (hg_bucket_counts h)[i := hg_bucket_counts h ! i + 1]\<rparr>)"

definition metrics_observe ::
  "'d :: linorder double_ops \<Rightarrow> string \<Rightarrow> 'd \<Rightarrow> 'd list \<Rightarrow> 'd MetricsRegistry \<Rightarrow> 'd MetricsRegistry" where
  "metrics_observe d name value bounds m =
     (if \<not> d_finite d value then m
      else
        let h = (case map_of (mr_histograms m) (metric_name name) of None \<Rightarrow> empty_histogram d | Some h \<Rightarrow> h)
        in m\<lparr>mr_histograms := umap_put (metric_name name) (histogram_observe d value bounds h) (mr_histograms m)\<rparr>)"

definition metrics_histogram :: "'d double_ops \<Rightarrow> string \<Rightarrow> 'd MetricsRegistry \<Rightarrow> 'd Histogram" where
  "metrics_histogram d name m =
     (case map_of (mr_histograms m) (metric_name name) of None \<Rightarrow> empty_histogram d | Some h \<Rightarrow> h)"

text \<open>A \<open>std::map\<close> is printed in the order of its keys.\<close>

fun bucket_lines :: "'d double_ops \<Rightarrow> string \<Rightarrow> u64 \<Rightarrow> 'd list \<Rightarrow> u64 list \<Rightarrow> string" where
  "bucket_lines d name cumulative bounds [] = []"
| "bucket_lines d name cumulative bounds (n # counts) =
     name @ ''_bucket{le=\"'' @ (case bounds of [] \<Rightarrow> ''+Inf'' | b # _ \<Rightarrow> d_text d b) @ ''\"} '' @
     to_string (unat (cumulative + n)) @ [CHR 0x0A] @ bucket_lines d name (cumulative + n) (tl bounds) counts"

definition histogram_text :: "'d double_ops \<Rightarrow> string \<times> 'd Histogram \<Rightarrow> string" where
  "histogram_text d entry =
     (case entry of (name, h) \<Rightarrow>
        bucket_lines d name 0 (hg_bounds h) (hg_bucket_counts h) @
        name @ ''_sum '' @ d_text d (hg_sum h) @ [CHR 0x0A] @
        name @ ''_count '' @ to_string (unat (hg_count h)) @ [CHR 0x0A])"

definition prometheus_text :: "'d double_ops \<Rightarrow> 'd MetricsRegistry \<Rightarrow> string" where
  "prometheus_text d m =
     concat (map (\<lambda>(name, v). name @ '' '' @ to_string (unat v) @ [CHR 0x0A]) (sort_key fst (mr_counters m))) @
     concat (map (histogram_text d) (sort_key fst (mr_histograms m)))"

section \<open>Event names and the JSON log\<close>

fun event_type_name :: "EventType \<Rightarrow> string" where
  "event_type_name RealtimeSessionStarted = ''realtime_session_started''"
| "event_type_name InputSpeechStarted = ''input_speech_started''"
| "event_type_name InputSpeechEnded = ''input_speech_ended''"
| "event_type_name AsrEndOfUtterance = ''asr_end_of_utterance''"
| "event_type_name TranscriptPartial = ''transcript_partial''"
| "event_type_name TranscriptFinal = ''transcript_final''"
| "event_type_name TurnStarted = ''turn_started''"
| "event_type_name ModelStarted = ''model_started''"
| "event_type_name FirstToken = ''first_token''"
| "event_type_name ModelTextDelta = ''model_text_delta''"
| "event_type_name ModelCompleted = ''model_completed''"
| "event_type_name ToolStarted = ''tool_started''"
| "event_type_name ToolCompleted = ''tool_completed''"
| "event_type_name SpeechStarted = ''speech_started''"
| "event_type_name TtsChunkStarted = ''tts_chunk_started''"
| "event_type_name FirstAudio = ''first_audio''"
| "event_type_name AudioOutput = ''audio_output''"
| "event_type_name PlaybackStarted = ''playback_started''"
| "event_type_name PlaybackProgress = ''playback_progress''"
| "event_type_name BargeInDetected = ''barge_in_detected''"
| "event_type_name OutputCancelled = ''output_cancelled''"
| "event_type_name SpeechCompleted = ''speech_completed''"
| "event_type_name ConversationTurnCompleted = ''conversation_turn_completed''"
| "event_type_name TurnCompleted = ''turn_completed''"
| "event_type_name TurnCancelled = ''turn_cancelled''"
| "event_type_name RealtimeSessionClosed = ''realtime_session_closed''"
| "event_type_name ErrorEvent = ''error''"
| "event_type_name SessionStarted = ''session_started''"
| "event_type_name SessionStopped = ''session_stopped''"
| "event_type_name SessionFailed = ''session_failed''"
| "event_type_name ResponseCancelRequested = ''response_cancel_requested''"
| "event_type_name TurnFailed = ''turn_failed''"
| "event_type_name ConversationTurnCancelled = ''conversation_turn_cancelled''"
| "event_type_name ConversationTurnFailed = ''conversation_turn_failed''"

definition int_text :: "int \<Rightarrow> string" where
  "int_text i = (if i < 0 then ''-'' @ to_string (nat (- i)) else to_string (nat i))"

text \<open>Times are counts of nanoseconds.\<close>

definition event_json :: "bool \<Rightarrow> Event \<Rightarrow> string" where
  "event_json include_payload e =
     ''{\"schema_version\":1,\"sequence\":'' @ to_string (unat (ev_sequence e)) @
     '',\"event\":\"'' @ event_type_name (ev_type e) @
     ''\",\"session_id\":\"'' @ json_escape (ev_session_id e) @
     ''\",\"generation\":'' @ to_string (unat (ev_generation e)) @
     '',\"turn_id\":\"'' @ json_escape (ev_turn_id e) @
     ''\",\"name\":\"'' @ json_escape (ev_name e) @
     ''\",\"trace_id\":\"'' @ json_escape (ev_trace_id e) @
     ''\",\"timestamp_ns\":'' @ int_text (ev_timestamp e) @
     '',\"received_at_ns\":'' @ int_text (ev_received_at e) @
     (if include_payload then '',\"data\":\"'' @ json_escape (ev_data e) @ ''\"'' else []) @ ''}''"

definition logger_write :: "bool \<Rightarrow> Event \<Rightarrow> string \<Rightarrow> string" where
  "logger_write include_payload e output = output @ event_json include_payload e @ [CHR 0x0A]"

section \<open>The runtime observer\<close>

text \<open>Session, generation, turn, phase, operation.\<close>

type_synonym SpanKey = "string \<times> u64 \<times> string \<times> string \<times> string"

record 'd RuntimeObserver =
  ro_metrics :: "'d MetricsRegistry"
  ro_max_pending_spans :: nat
  ro_starts :: "(SpanKey, time_point) umap"

definition observer_new :: "'d MetricsRegistry \<Rightarrow> nat \<Rightarrow> exn + 'd RuntimeObserver" where
  "observer_new m max_pending =
     (if max_pending = 0 then Inl (StdException ''observer span limit must be positive'')
      else Inr \<lparr>ro_metrics = m, ro_max_pending_spans = max_pending, ro_starts = []\<rparr>)"

definition span_key :: "Event \<Rightarrow> string \<Rightarrow> bool \<Rightarrow> SpanKey" where
  "span_key e phase operation =
     (ev_session_id e, ev_generation e, ev_turn_id e, phase, if operation then ev_name e else [])"

definition pending_spans :: "'d RuntimeObserver \<Rightarrow> nat" where
  "pending_spans o' = length (ro_starts o')"

definition observer_count :: "string \<Rightarrow> u64 \<Rightarrow> 'd RuntimeObserver \<Rightarrow> 'd RuntimeObserver" where
  "observer_count name n s = s\<lparr>ro_metrics := metrics_increment name n (ro_metrics s)\<rparr>"

definition span_begin :: "Event \<Rightarrow> string \<Rightarrow> bool \<Rightarrow> 'd RuntimeObserver \<Rightarrow> 'd RuntimeObserver" where
  "span_begin e phase operation s =
     (let k = span_key e phase operation
      in case map_of (ro_starts s) k of
          Some _ \<Rightarrow> observer_count ''byteturn_observer_duplicate_starts_total'' 1
            (s\<lparr>ro_starts := umap_set k 0 (ro_starts s)\<rparr>)
        | None \<Rightarrow>
            if length (ro_starts s) \<ge> ro_max_pending_spans s
            then observer_count ''byteturn_observer_span_limit_rejections_total'' 1 s
            else s\<lparr>ro_starts := umap_emplace k (ev_timestamp e) (ro_starts s)\<rparr>)"

definition span_finish ::
  "'d :: linorder double_ops \<Rightarrow> Event \<Rightarrow> string \<Rightarrow> string \<Rightarrow> bool \<Rightarrow> bool \<Rightarrow> 'd RuntimeObserver \<Rightarrow>
   bool \<times> 'd RuntimeObserver" where
  "span_finish d e phase metric operation required s =
     (let k = span_key e phase operation
      in case map_of (ro_starts s) k of
          None \<Rightarrow> (False,
            if required then observer_count ''byteturn_observer_unmatched_endpoints_total'' 1 s else s)
        | Some start \<Rightarrow>
            (let s = s\<lparr>ro_starts := umap_erase k (ro_starts s)\<rparr>
             in (True,
               if start = 0 \<or> ev_timestamp e = 0 \<or> ev_timestamp e < start
               then observer_count ''byteturn_observer_invalid_intervals_total'' 1 s
               else s\<lparr>ro_metrics := metrics_observe d metric (d_elapsed_ms d start (ev_timestamp e))
                 (d_default_bounds d) (ro_metrics s)\<rparr>)))"

definition discarded_span :: "Event \<Rightarrow> bool \<Rightarrow> bool \<Rightarrow> SpanKey \<Rightarrow> bool" where
  "discarded_span e entire_session agent_only k \<longleftrightarrow>
     (case k of (session, generation, turn, phase, operation) \<Rightarrow>
        session = ev_session_id e \<and> generation = ev_generation e \<and>
        (entire_session \<or> turn = ev_turn_id e) \<and>
        (\<not> agent_only \<or> phase \<in> {''turn'', ''model'', ''first_token'', ''tool''}))"

definition spans_discard :: "Event \<Rightarrow> bool \<Rightarrow> bool \<Rightarrow> 'd RuntimeObserver \<Rightarrow> 'd RuntimeObserver" where
  "spans_discard e entire_session agent_only s =
     (let kept = filter (\<lambda>(k, _). \<not> discarded_span e entire_session agent_only k) (ro_starts s);
          n = length (ro_starts s) - length kept;
          s = s\<lparr>ro_starts := kept\<rparr>
      in if n > 0 then observer_count ''byteturn_observer_discarded_spans_total'' (of_nat n) s else s)"

text \<open>A span of the event's own turn, or else of the session without a turn.\<close>

definition finish_or_input ::
  "'d :: linorder double_ops \<Rightarrow> Event \<Rightarrow> string \<Rightarrow> string \<Rightarrow> 'd RuntimeObserver \<Rightarrow> 'd RuntimeObserver" where
  "finish_or_input d e phase metric s =
     (case span_finish d e phase metric False False s of
        (found, s) \<Rightarrow>
          if \<not> found \<and> ev_turn_id e \<noteq> []
          then snd (span_finish d (e\<lparr>ev_turn_id := []\<rparr>) phase metric False False s) else s)"

definition observe_event :: "'d :: linorder double_ops \<Rightarrow> Event \<Rightarrow> 'd RuntimeObserver \<Rightarrow> 'd RuntimeObserver" where
  "observe_event d e s =
     (case ev_type e of
        TurnStarted \<Rightarrow> span_begin e ''turn'' False s
      | ModelStarted \<Rightarrow> span_begin e ''first_token'' True (span_begin e ''model'' True s)
      | ToolStarted \<Rightarrow> span_begin e ''tool'' True s
      | AsrEndOfUtterance \<Rightarrow> span_begin e ''conversation_turn'' False
          (span_begin e ''s2s_first_audio'' False (span_begin e ''asr_final'' False s))
      | InputSpeechEnded \<Rightarrow> span_begin e ''conversation_turn'' False
          (span_begin e ''duplex_first_audible'' False (span_begin e ''duplex_first_audio'' False s))
      | TranscriptFinal \<Rightarrow>
          snd (span_finish d e ''asr_final'' ''byteturn_asr_final_latency_ms'' False False s)
      | FirstToken \<Rightarrow>
          snd (span_finish d e ''first_token'' ''byteturn_time_to_first_token_ms'' True True s)
      | ModelCompleted \<Rightarrow>
          (let s = snd (span_finish d e ''model'' ''byteturn_model_duration_ms'' True True s)
           in s\<lparr>ro_starts := umap_erase (span_key e ''first_token'' True) (ro_starts s)\<rparr>)
      | ToolCompleted \<Rightarrow> snd (span_finish d e ''tool'' ''byteturn_tool_duration_ms'' True True s)
      | TurnCompleted \<Rightarrow> spans_discard e False True
          (snd (span_finish d e ''turn'' ''byteturn_turn_duration_ms'' False True s))
      | TurnCancelled \<Rightarrow> spans_discard e False True (observer_count ''byteturn_turns_cancelled_total'' 1 s)
      | TurnFailed \<Rightarrow> spans_discard e False True (observer_count ''byteturn_turns_failed_total'' 1 s)
      | TtsChunkStarted \<Rightarrow>
          (if map_of (ro_starts s) (span_key e ''tts_total'' False) = None
           then span_begin e ''tts_total'' False (span_begin e ''tts_first_audio'' False s) else s)
      | FirstAudio \<Rightarrow>
          snd (span_finish d e ''s2s_first_audio'' ''byteturn_s2s_first_audio_latency_ms'' False False
            (snd (span_finish d e ''tts_first_audio'' ''byteturn_tts_first_audio_latency_ms'' False True s)))
      | AudioOutput \<Rightarrow>
          finish_or_input d e ''duplex_first_audio'' ''byteturn_s2s_first_audio_latency_ms'' s
      | PlaybackStarted \<Rightarrow>
          finish_or_input d e ''duplex_first_audible'' ''byteturn_s2s_first_audible_latency_ms'' s
      | BargeInDetected \<Rightarrow> span_begin e ''barge_in_stop'' False s
      | OutputCancelled \<Rightarrow> spans_discard e False False
          (snd (span_finish d e ''barge_in_stop'' ''byteturn_barge_in_stop_latency_ms'' False False s))
      | SpeechCompleted \<Rightarrow>
          snd (span_finish d e ''tts_total'' ''byteturn_tts_total_duration_ms'' False False s)
      | ConversationTurnCompleted \<Rightarrow> spans_discard e False False
          (finish_or_input d e ''conversation_turn'' ''byteturn_conversation_turn_duration_ms'' s)
      | ConversationTurnCancelled \<Rightarrow> spans_discard e False False s
      | ConversationTurnFailed \<Rightarrow> spans_discard e False False s
      | SessionStopped \<Rightarrow> spans_discard e True False s
      | SessionFailed \<Rightarrow> spans_discard e True False s
      | RealtimeSessionClosed \<Rightarrow> spans_discard e True False s
      | ErrorEvent \<Rightarrow> observer_count ''byteturn_errors_total'' 1 s
      | _ \<Rightarrow> s)"

definition observer_observe :: "'d :: linorder double_ops \<Rightarrow> Event \<Rightarrow> 'd RuntimeObserver \<Rightarrow> 'd RuntimeObserver" where
  "observer_observe d e s =
     observe_event d e
       (observer_count (''byteturn_events_'' @ event_type_name (ev_type e) @ ''_total'') 1 s)"

end
