(* ===== verification/Observability_Properties.thy ===== *)
theory Observability_Properties
  imports Observability Openai_Request
begin

text \<open>
  Metrics, observer and event log: histograms count the values they were given, the observer's
  spans stay bounded and are dropped with their session, and a logged line reads back as its event.
\<close>

section \<open>Histograms\<close>

text \<open>
  A registry's histograms are well formed: once observed they have one bucket more than bounds,
  their bounds are strictly increasing, and the buckets add up to the count (modulo 2^64).
\<close>

definition histogram_ok :: "'d :: linorder Histogram \<Rightarrow> bool" where
  "histogram_ok h \<longleftrightarrow>
     length (hg_bucket_counts h) = length (hg_bounds h) + 1 \<and> sorted (hg_bounds h) \<and>
     distinct (hg_bounds h) \<and> sum_list (hg_bucket_counts h) = hg_count h"

text \<open>The same for the empty histogram before its first observation.\<close>

definition histogram_pre :: "'d :: linorder Histogram \<Rightarrow> bool" where
  "histogram_pre h \<longleftrightarrow> histogram_ok h \<or> hg_bounds h = [] \<and> hg_bucket_counts h = [] \<and> hg_count h = 0"

lemma sum_list_bump: "i < length (ns :: u64 list) \<Longrightarrow> sum_list (ns[i := ns ! i + 1]) = sum_list ns + 1"
proof (induction ns arbitrary: i)
  case (Cons n ns)
  then show ?case by (cases i) (simp_all add: ac_simps)
qed simp

lemma sorted_remdups: "sorted (remdups_adj (sort xs)) \<and> distinct (remdups_adj (sort xs))"
proof -
  have "sorted ys \<Longrightarrow> distinct (remdups_adj ys)" for ys :: "'a :: linorder list"
    by (induction ys rule: remdups_adj.induct) (auto simp: less_le)
  then show ?thesis by simp
qed

lemma histogram_observe_ok:
  assumes "histogram_pre h"
  shows "histogram_ok (histogram_observe d value bounds h)"
proof -
  let ?h = "if hg_bounds h = []
      then h\<lparr>hg_bounds := remdups_adj (sort bounds),
        hg_bucket_counts := resize_counts (length (remdups_adj (sort bounds)) + 1) (hg_bucket_counts h)\<rparr>
      else h"
  have h: "histogram_ok ?h"
  proof (cases "hg_bounds h = []")
    case True
    then have "length (hg_bucket_counts h) \<le> 1" "sum_list (hg_bucket_counts h) = hg_count h"
      using assms by (auto simp: histogram_pre_def histogram_ok_def)
    then show ?thesis using True sorted_remdups [of bounds]
      by (simp add: histogram_ok_def resize_counts_def sum_list_replicate)
  qed (use assms in \<open>auto simp: histogram_pre_def\<close>)
  have i: "length (takeWhile (\<lambda>b. b < value) (hg_bounds ?h)) < length (hg_bucket_counts ?h)"
    using h length_takeWhile_le [of "\<lambda>b. b < value" "hg_bounds ?h"] unfolding histogram_ok_def by linarith
  then show ?thesis using h
    unfolding histogram_observe_def Let_def histogram_ok_def by (simp add: sum_list_bump)
qed

definition metrics_ok :: "'d :: linorder MetricsRegistry \<Rightarrow> bool" where
  "metrics_ok m \<longleftrightarrow> (\<forall>name h. map_of (mr_histograms m) name = Some h \<longrightarrow> histogram_ok h)"

lemma map_of_put: "map_of (umap_put k v m) = (map_of m)(k \<mapsto> v)"
  by (auto simp: umap_put_def map_of_emplace map_of_set)

lemma metrics_observe_ok: "metrics_ok m \<Longrightarrow> metrics_ok (metrics_observe d name value bounds m)"
  by (auto simp: metrics_observe_def metrics_ok_def Let_def map_of_put histogram_pre_def empty_histogram_def
      intro!: histogram_observe_ok split: option.splits if_splits)

lemma metrics_increment_histograms [simp]: "mr_histograms (metrics_increment name n m) = mr_histograms m"
  by (simp add: metrics_increment_def)

text \<open>What a fresh histogram holds after a list of observations.\<close>

definition observe_all :: "'d :: linorder double_ops \<Rightarrow> 'd list \<Rightarrow> 'd list \<Rightarrow> 'd Histogram \<Rightarrow> 'd Histogram" where
  "observe_all d bounds values h = fold (\<lambda>v. histogram_observe d v bounds) values h"

definition bucket_of :: "'d :: linorder list \<Rightarrow> 'd \<Rightarrow> nat" where
  "bucket_of bounds v = length (takeWhile (\<lambda>b. b < v) bounds)"

definition bucket_values :: "'d :: linorder list \<Rightarrow> 'd list \<Rightarrow> nat \<Rightarrow> nat" where
  "bucket_values bounds values i = length (filter (\<lambda>v. bucket_of bounds v = i) values)"

lemma bucket_of_le: "bucket_of bounds v \<le> length bounds"
  by (simp add: bucket_of_def length_takeWhile_le)

lemma bucket_of_iff: "sorted bounds \<Longrightarrow> i < length bounds \<Longrightarrow> bucket_of bounds v \<le> i \<longleftrightarrow> v \<le> bounds ! i"
proof (induction bounds arbitrary: i)
  case (Cons b bounds)
  show ?case
  proof (cases "b < v")
    case True
    then show ?thesis using Cons by (cases i) (auto simp: bucket_of_def)
  next
    case False
    have "b \<le> (b # bounds) ! i" using Cons.prems by (cases i) auto
    with False show ?thesis by (auto simp: bucket_of_def)
  qed
qed simp

lemma observe_all_counts:
  fixes bounds :: "'d :: linorder list"
  defines "bs \<equiv> remdups_adj (sort bounds)"
  assumes "bounds \<noteq> []" and "values \<noteq> []"
  shows "hg_bounds (observe_all d bounds values (empty_histogram d)) = bs"
    and "hg_bucket_counts (observe_all d bounds values (empty_histogram d)) =
      map (\<lambda>i. of_nat (bucket_values bs values i)) [0..<Suc (length bs)]"
    and "hg_count (observe_all d bounds values (empty_histogram d)) = of_nat (length values)"
proof -
  have bs: "bs \<noteq> []" using assms(2) by (simp add: bs_def) (metis set_empty set_sort)
  have step: "histogram_observe d v bounds h = h\<lparr>hg_count := hg_count h + 1, hg_sum := d_add d (hg_sum h) v,
      hg_bucket_counts := (hg_bucket_counts h)[bucket_of bs v := hg_bucket_counts h ! bucket_of bs v + 1]\<rparr>"
    if "hg_bounds h = bs" for h v
    using that bs by (simp add: histogram_observe_def bucket_of_def Let_def)
  define h0 where "h0 = (empty_histogram d)\<lparr>hg_bounds := bs, hg_bucket_counts := replicate (Suc (length bs)) 0\<rparr>"
  have first: "histogram_observe d v bounds (empty_histogram d) = histogram_observe d v bounds h0" for v
    using bs by (simp add: histogram_observe_def h0_def empty_histogram_def resize_counts_def bs_def [symmetric] Let_def)
  have all: "hg_bounds (observe_all d bounds vs h0) = bs \<and>
      hg_bucket_counts (observe_all d bounds vs h0) = map (\<lambda>i. of_nat (bucket_values bs vs i)) [0..<Suc (length bs)] \<and>
      hg_count (observe_all d bounds vs h0) = of_nat (length vs)" for vs
  proof (induction vs rule: rev_induct)
    case Nil
    then show ?case by (auto simp: observe_all_def h0_def bucket_values_def empty_histogram_def
        map_replicate_trivial simp del: upt_Suc intro!: nth_equalityI)
  next
    case (snoc v vs)
    let ?h = "observe_all d bounds vs h0"
    have h: "observe_all d bounds (vs @ [v]) h0 = histogram_observe d v bounds ?h" by (simp add: observe_all_def)
    have "(map (\<lambda>i. of_nat (bucket_values bs vs i)) [0..<Suc (length bs)] :: u64 list)
        [bucket_of bs v := of_nat (bucket_values bs vs (bucket_of bs v)) + 1] =
        map (\<lambda>i. of_nat (bucket_values bs (vs @ [v]) i)) [0..<Suc (length bs)]"
      by (rule nth_equalityI) (auto simp: nth_list_update bucket_values_def simp del: upt_Suc)
    moreover have "bucket_of bs v < Suc (length bs)" using bucket_of_le [of bs v] by simp
    ultimately show ?case using snoc unfolding h by (simp add: step nth_append del: upt_Suc)
  qed
  have "observe_all d bounds values (empty_histogram d) = observe_all d bounds values h0"
    using assms(3) by (cases "values") (simp_all add: observe_all_def first)
  with all [of "values"] show "hg_bounds (observe_all d bounds values (empty_histogram d)) = bs"
    "hg_bucket_counts (observe_all d bounds values (empty_histogram d)) =
      map (\<lambda>i. of_nat (bucket_values bs values i)) [0..<Suc (length bs)]"
    "hg_count (observe_all d bounds values (empty_histogram d)) = of_nat (length values)" by simp_all
qed

lemma sum_bucket_values: "(\<Sum>i\<leftarrow>[0..<n]. bucket_values bounds values i) = length (filter (\<lambda>v. bucket_of bounds v < n) values)"
proof (induction n)
  case (Suc n)
  have "length (filter (\<lambda>v. bucket_of bounds v < Suc n) values) =
      length (filter (\<lambda>v. bucket_of bounds v < n) values) + length (filter (\<lambda>v. bucket_of bounds v = n) values)"
    by (induction "values") (auto simp: less_Suc_eq)
  with Suc show ?case by (simp add: bucket_values_def)
qed simp

lemma cumulative_bucket:
  assumes "sorted bounds" and "i < length bounds"
  shows "(\<Sum>j\<leftarrow>[0..<Suc i]. bucket_values bounds values j) = length (filter (\<lambda>v. v \<le> bounds ! i) values)"
  unfolding sum_bucket_values less_Suc_eq_le bucket_of_iff [OF assms] ..

lemma sum_list_of_nat: "sum_list (map (\<lambda>i. of_nat (f i) :: u64) xs) = of_nat (sum_list (map f xs))"
  by (induction xs) simp_all

text \<open>The histogram printed for a metric is the histogram of its values: after any observations of
  a metric with a non-empty list of bounds, in any order and with duplicates, the bounds are those
  values in increasing order, the cumulative count at each bound is the number of values up to
  it, boundaries included, and the total count is the number of values, all modulo 2^64.\<close>

theorem histogram_counts_values:
  assumes "bounds \<noteq> []" and "values \<noteq> []"
    and "h = fold (\<lambda>v. histogram_observe d v bounds) values (empty_histogram d)"
  shows "set (hg_bounds h) = set bounds \<and> sorted (hg_bounds h) \<and> distinct (hg_bounds h) \<and>
    hg_count h = of_nat (length values) \<and>
    (\<forall>i < length (hg_bounds h).
       sum_list (take (Suc i) (hg_bucket_counts h)) =
       of_nat (length (filter (\<lambda>v. v \<le> hg_bounds h ! i) values))) \<and>
    sum_list (hg_bucket_counts h) = hg_count h"
proof -
  let ?bs = "remdups_adj (sort bounds)"
  have h: "h = observe_all d bounds values (empty_histogram d)" using assms(3) by (simp add: observe_all_def)
  note counts = observe_all_counts [OF assms(1,2), of d, folded h]
  have bs: "sorted ?bs" "distinct ?bs" using sorted_remdups [of bounds] by simp_all
  have take: "take n [0..<Suc (length ?bs)] = [0..<n]" if "n \<le> Suc (length ?bs)" for n
    using that by (simp del: upt_Suc)
  have cum: "sum_list (take (Suc i) (hg_bucket_counts h)) = of_nat (length (filter (\<lambda>v. v \<le> ?bs ! i) values))"
    if "i < length ?bs" for i
    unfolding counts(2) take_map using take [of "Suc i"] that cumulative_bucket [OF bs(1) that, of "values"]
    by (simp add: sum_list_of_nat del: upt_Suc)
  have "bucket_of ?bs v < Suc (length ?bs)" for v using bucket_of_le [of ?bs v] by simp
  then have "sum_list (hg_bucket_counts h) = hg_count h"
    unfolding counts(2,3) sum_list_of_nat sum_bucket_values by simp
  with counts cum bs show ?thesis by simp
qed

theorem histogram_counts_values_witness:
  "hg_bounds (fold (\<lambda>v. histogram_observe
      \<lparr>d_zero = 0, d_add = (+), d_finite = (\<lambda>_. True), d_elapsed_ms = (\<lambda>_ _. 0), d_default_bounds = [],
       d_text = (\<lambda>_. [])\<rparr> v [10 :: nat, 5]) [10, 7, 20] (empty_histogram
      \<lparr>d_zero = 0, d_add = (+), d_finite = (\<lambda>_. True), d_elapsed_ms = (\<lambda>_ _. 0), d_default_bounds = [],
       d_text = (\<lambda>_. [])\<rparr>)) = [5, 10] \<and>
   hg_count (fold (\<lambda>v. histogram_observe
      \<lparr>d_zero = 0, d_add = (+), d_finite = (\<lambda>_. True), d_elapsed_ms = (\<lambda>_ _. 0), d_default_bounds = [],
       d_text = (\<lambda>_. [])\<rparr> v [10 :: nat, 5]) [10, 7, 20] (empty_histogram
      \<lparr>d_zero = 0, d_add = (+), d_finite = (\<lambda>_. True), d_elapsed_ms = (\<lambda>_ _. 0), d_default_bounds = [],
       d_text = (\<lambda>_. [])\<rparr>)) = 3"
  using histogram_counts_values [OF _ _ refl, of "[10 :: nat, 5]" "[10, 7, 20]"
      "\<lparr>d_zero = 0, d_add = (+), d_finite = (\<lambda>_. True), d_elapsed_ms = (\<lambda>_ _. 0), d_default_bounds = [],
       d_text = (\<lambda>_. [])\<rparr>"]
  by (simp add: histogram_observe_def empty_histogram_def resize_counts_def Let_def)

declare escape.simps [simp del]

section \<open>The log read back\<close>

lemma hex_digit_value: "k < 16 \<Longrightarrow> hex_value (hex_digit k) = Some k"
proof -
  assume "k < 16"
  moreover have "list_all (\<lambda>k. hex_value (hex_digit k) = Some k) [0..<16]" by code_simp
  ultimately show ?thesis by (simp add: list_all_iff)
qed

lemma char_of_low: "(of_char c :: nat) < 0x80 \<Longrightarrow> append_utf8 (of_char c) = [c]"
  by (simp add: append_utf8_def)

lemma json_unicode_low:
  assumes "(of_char c :: nat) < 32"
  shows "json_unicode (n, CHR ''0'' # CHR ''0'' # hex_digit (of_char c div 16) # hex_digit (of_char c mod 16) # s) =
    Inr (of_char c, (n + 4, s))"
proof -
  have zero: "hex_value CHR ''0'' = Some 0" by code_simp
  have v: "hex_value (hex_digit (of_char c div 16)) = Some (of_char c div 16)"
    "hex_value (hex_digit (of_char c mod 16)) = Some (of_char c mod 16)"
    using assms by (auto intro!: hex_digit_value)
  have sum: "(of_char c div 16) * 16 + of_char c mod 16 = (of_char c :: nat)" by simp
  have four: "4 = Suc (Suc (Suc (Suc 0)))" by simp
  have "hex_digits 4 0 (n, CHR ''0'' # CHR ''0'' # hex_digit (of_char c div 16) # hex_digit (of_char c mod 16) # s) =
      Inr (of_char c, (n + 4, s))"
    unfolding four by (simp add: v zero advance_def sum)
  then show ?thesis using assms by (simp add: json_unicode_def hex4_def)
qed

lemma json_chars_json_escape:
  "json_chars r (n, json_escape x @ quote # s) = Inr (r @ x, (n + length (json_escape x) + 1, s))"
proof (induction x arbitrary: r n)
  case (Cons c x)
  have e: "json_escape (c # x) = json_escape_char c @ json_escape x" by (simp add: json_escape_def)
  note IH = Cons.IH
  consider (simple) k where "json_escape_char c = [backslash, k]" "simple_escape k = Some c"
    | (plain) "json_escape_char c = [c]" "c \<noteq> quote" "c \<noteq> backslash"
    | (low) "json_escape_char c = [backslash, CHR ''u'', CHR ''0'', CHR ''0'',
        hex_digit (of_char c div 16), hex_digit (of_char c mod 16)]" "(of_char c :: nat) < 32"
  proof -
    consider "c = quote" | "c = backslash" | "c = CHR 0x0A" | "c = CHR 0x0D" | "c = CHR 0x09"
      | "c \<notin> {quote, backslash, CHR 0x0A, CHR 0x0D, CHR 0x09}" by blast
    then show thesis
    proof cases
      case 1
      show ?thesis by (rule simple [of quote]) (simp_all add: 1 json_escape_char_def simple_escape_def)
    next
      case 2
      show ?thesis by (rule simple [of backslash]) (simp_all add: 2 json_escape_char_def simple_escape_def)
    next
      case 3
      show ?thesis by (rule simple [of "CHR ''n''"]) (simp_all add: 3 json_escape_char_def simple_escape_def)
    next
      case 4
      show ?thesis by (rule simple [of "CHR ''r''"]) (simp_all add: 4 json_escape_char_def simple_escape_def)
    next
      case 5
      show ?thesis by (rule simple [of "CHR ''t''"]) (simp_all add: 5 json_escape_char_def simple_escape_def)
    next
      case 6
      then show ?thesis using plain low by (cases "(of_char c :: nat) \<ge> 0x20") (simp_all add: json_escape_char_def)
    qed
  qed
  then show ?case
  proof cases
    case simple
    have "json_chars r (n, backslash # k # json_escape x @ quote # s) =
        json_chars (r @ [c]) (n + 2, json_escape x @ quote # s)"
      by (subst json_chars.simps) (simp add: simple)
    then show ?thesis using IH [of "r @ [c]" "n + 2"] simple by (simp add: e)
  next
    case plain
    have "json_chars r (n, c # json_escape x @ quote # s) = json_chars (r @ [c]) (n + 1, json_escape x @ quote # s)"
      by (subst json_chars.simps) (simp add: plain)
    then show ?thesis using IH [of "r @ [c]" "n + 1"] plain by (simp add: e)
  next
    case low
    have none: "simple_escape CHR ''u'' = None" by code_simp
    have "json_chars r (n, json_escape_char c @ json_escape x @ quote # s) =
        json_chars (r @ [c]) (n + 2 + 4, json_escape x @ quote # s)"
      unfolding low(1) by (subst append.simps(2), subst json_chars.simps)
        (use json_unicode_low [OF low(2), of "n + 2" "json_escape x @ quote # s"] low(2) in
          \<open>simp add: none char_of_low\<close>)
    then show ?thesis using IH [of "r @ [c]" "n + 2 + 4"] low(1) by (simp add: e)
  qed
qed (simp add: json_escape_def json_chars.simps)

lemma reads_json_escape: "reads stod (quote # json_escape x @ [quote]) (JString x)"
  unfolding reads_def
proof (intro conjI allI impI)
  fix k n s assume "2 * length (quote # json_escape x @ [quote]) + 1 \<le> k"
  then obtain k' where "k = Suc k'" by (cases k) auto
  then show "json_value stod k (n, (quote # json_escape x @ [quote]) @ s) =
      Some (Inr (JString x, (n + length (quote # json_escape x @ [quote]), s)))"
    using json_chars_json_escape [of "[]" "n + 1" x s]
    by (simp add: json_value.simps Let_def space_nonspace json_string_def advance_def)
qed simp_all

lemma to_string_number: "list_all number_char (to_string n)"
proof (induction n rule: to_string.induct)
  case (1 n)
  have "number_char (digit k)" if "k < 10" for k
  proof -
    have "list_all (\<lambda>k. number_char (digit k)) [0..<10]" by code_simp
    then show ?thesis using that by (simp add: list_all_iff)
  qed
  with 1 show ?case by (subst to_string.simps) simp
qed

lemma int_text_number: "int_text i \<noteq> [] \<and> list_all number_char (int_text i)"
  by (simp add: int_text_def to_string_number number_char_def)

lemma int_text_of_nat: "to_string n = int_text (int n)"
  by (simp add: int_text_def)

lemma reads_int:
  assumes "stod (int_text i) = Inr (num i)"
  shows "reads stod (int_text i) (JNumber (num i))"
  by (rule reads_number) (use int_text_number assms in auto)

lemma escape_event_type: "escape (event_type_name ty) = Inr (event_type_name ty)"
  by (cases ty; simp only: event_type_name.simps; code_simp)

definition event_pairs :: "(int \<Rightarrow> 'd) \<Rightarrow> bool \<Rightarrow> Event \<Rightarrow> (string \<times> 'd json) list" where
  "event_pairs num include_payload e =
     [(''schema_version'', JNumber (num 1)), (''sequence'', JNumber (num (uint (ev_sequence e)))),
      (''event'', JString (event_type_name (ev_type e))), (''session_id'', JString (ev_session_id e)),
      (''generation'', JNumber (num (uint (ev_generation e)))), (''turn_id'', JString (ev_turn_id e)),
      (''name'', JString (ev_name e)), (''trace_id'', JString (ev_trace_id e)),
      (''timestamp_ns'', JNumber (num (ev_timestamp e))),
      (''received_at_ns'', JNumber (num (ev_received_at e)))] @
     (if include_payload then [(''data'', JString (ev_data e))] else [])"

lemma escape_log_keys:
  "escape ''schema_version'' = Inr ''schema_version''" "escape ''sequence'' = Inr ''sequence''"
  "escape ''event'' = Inr ''event''" "escape ''session_id'' = Inr ''session_id''"
  "escape ''generation'' = Inr ''generation''" "escape ''turn_id'' = Inr ''turn_id''"
  "escape ''trace_id'' = Inr ''trace_id''" "escape ''timestamp_ns'' = Inr ''timestamp_ns''"
  "escape ''received_at_ns'' = Inr ''received_at_ns''" "escape ''data'' = Inr ''data''"
  by code_simp+

lemma line_free:
  "newline \<notin> set (json_escape x)" "newline \<notin> set (int_text i)" "newline \<notin> set (event_type_name ty)"
proof -
  have hex: "hex_digit k \<noteq> newline" if "k < 16" for k
  proof -
    have "list_all (\<lambda>k. hex_digit k \<noteq> newline) [0..<16]" by code_simp
    then show ?thesis using that by (simp add: list_all_iff)
  qed
  have "newline \<notin> set (json_escape_char c)" for c
  proof (cases "(of_char c :: nat) \<ge> 0x20")
    case True
    then have "c \<noteq> newline" by auto
    with True show ?thesis by (auto simp: json_escape_char_def)
  next
    case False
    then have "newline \<noteq> hex_digit (of_char c div 16)" "newline \<noteq> hex_digit (of_char c mod 16)"
      by (intro hex [THEN not_sym]; simp)+
    with False show ?thesis by (simp add: json_escape_char_def)
  qed
  then show "newline \<notin> set (json_escape x)" by (auto simp: json_escape_def)
  have "\<not> number_char newline" by code_simp
  then show "newline \<notin> set (int_text i)" using int_text_number [of i] by (auto simp: list_all_iff)
  show "newline \<notin> set (event_type_name ty)" by (cases ty; simp)
qed

text \<open>C35: every line of the event log is a JSON object that reads back as the event's type, identity and
  correlation texts exactly, whatever bytes (control characters, quotes, broken UTF-8) they contain,
  and as what \<open>std::stod\<close> makes of the decimal text of its sequence, generation and times (a double:
  rounded when above 2^53), in this order and with the payload present exactly when the options ask
  for it, so that no event can break out of its line or its string. Of \<open>std::stod\<close> it is assumed
  that it accepts decimal integers below 2^64 in magnitude, giving some \<open>num\<close> of them.\<close>

theorem event_json_roundtrip:
  fixes stod :: "string \<Rightarrow> exn + 'd"
  assumes "\<And>i. \<bar>i\<bar> < 2 ^ 64 \<Longrightarrow> stod (int_text i) = Inr (num i)"
    and "\<bar>ev_timestamp e\<bar> < 2 ^ 64" and "\<bar>ev_received_at e\<bar> < 2 ^ 64"
  shows "json_parse stod (event_json include_payload e) = Inr (json_object (event_pairs num include_payload e)) \<and>
    newline \<notin> set (event_json include_payload e)"
proof -
  have int: "reads stod (int_text i) (JNumber (num i))" if "\<bar>i\<bar> < 2 ^ 64" for i
    by (rule reads_int) (rule assms(1) [OF that])
  have word: "reads stod (int_text (uint w)) (JNumber (num (uint w)))" for w :: u64
    using uint_lt2p [of w] by (intro int) simp
  have first: "reads stod (int_text 1) (JNumber (num 1))" by (rule int) simp
  have one: "''1'' = int_text 1" by code_simp
  let ?fs = "[(''schema_version'', ''schema_version'', int_text 1, JNumber (num 1)),
      (''sequence'', ''sequence'', int_text (uint (ev_sequence e)), JNumber (num (uint (ev_sequence e)))),
      (''event'', ''event'', quote # event_type_name (ev_type e) @ [quote], JString (event_type_name (ev_type e))),
      (''session_id'', ''session_id'', quote # json_escape (ev_session_id e) @ [quote], JString (ev_session_id e)),
      (''generation'', ''generation'', int_text (uint (ev_generation e)), JNumber (num (uint (ev_generation e)))),
      (''turn_id'', ''turn_id'', quote # json_escape (ev_turn_id e) @ [quote], JString (ev_turn_id e)),
      (''name'', ''name'', quote # json_escape (ev_name e) @ [quote], JString (ev_name e)),
      (''trace_id'', ''trace_id'', quote # json_escape (ev_trace_id e) @ [quote], JString (ev_trace_id e)),
      (''timestamp_ns'', ''timestamp_ns'', int_text (ev_timestamp e), JNumber (num (ev_timestamp e))),
      (''received_at_ns'', ''received_at_ns'', int_text (ev_received_at e), JNumber (num (ev_received_at e)))] @
      (if include_payload
       then [(''data'', ''data'', quote # json_escape (ev_data e) @ [quote], JString (ev_data e) :: 'd json)] else [])"
  have body: "event_json include_payload e = CHR ''{'' # commas (map field_text ?fs) @ ''}''"
    by (simp add: event_json_def field_text_def int_text_of_nat one)
  have "list_all (field_ok stod) ?fs"
    by (simp add: field_ok_def escape_log_keys word first int [OF assms(2)] int [OF assms(3)]
        reads_json_escape reads_string escape_event_type)
  then have "reads stod (event_json include_payload e) (json_object (event_pairs num include_payload e))"
    by (rule reads_fields [OF _ _ body]) (simp add: event_pairs_def)
  moreover have "newline \<notin> set (event_json include_payload e)"
    using line_free(2) by (auto simp: event_json_def line_free int_text_of_nat)
  ultimately show ?thesis using reads_parse by blast
qed


text \<open>A reader of numbers with a range, as \<open>std::stod\<close> has.\<close>

definition ranged_stod :: "string \<Rightarrow> exn + string" where
  "ranged_stod token = (if length token \<le> 21 then Inr token else Inl (StdException ''stod''))"

lemma to_string_length: "n < 10 ^ k \<Longrightarrow> 0 < k \<Longrightarrow> length (to_string n) \<le> k"
proof (induction n arbitrary: k rule: to_string.induct)
  case (1 n)
  show ?case
  proof (cases "n < 10")
    case True
    then show ?thesis using "1.prems" by (simp add: to_string.simps [of n])
  next
    case False
    then obtain k' where k: "k = Suc k'" "0 < k'"
      using "1.prems" by (cases k; cases "k - 1") (auto simp: not_less)
    then have "n div 10 < 10 ^ k'" using "1.prems"(1) by (simp add: div_less_iff_less_mult mult.commute)
    then show ?thesis using "1.IH" [OF False _ k(2)] False k by (subst to_string.simps) simp
  qed
qed

lemma ranged_stod_int: "\<bar>i\<bar> < 2 ^ 64 \<Longrightarrow> ranged_stod (int_text i) = Inr (int_text i)"
proof -
  assume "\<bar>i\<bar> < 2 ^ 64"
  then have "nat \<bar>i\<bar> < 10 ^ 20" by simp
  then have "length (to_string (nat \<bar>i\<bar>)) \<le> 20" by (rule to_string_length) simp
  then show ?thesis by (auto simp: ranged_stod_def int_text_def)
qed

theorem event_json_roundtrip_witness:
  "json_parse ranged_stod (event_json True (mk_event ErrorEvent ''s'' [] [newline, quote] ''d'' [])) =
     Inr (json_object (event_pairs int_text True (mk_event ErrorEvent ''s'' [] [newline, quote] ''d'' [])))"
  using event_json_roundtrip [of ranged_stod int_text "mk_event ErrorEvent ''s'' [] [newline, quote] ''d'' []" True]
    ranged_stod_int by (simp add: mk_event_def)

section \<open>The observer\<close>

text \<open>The spans in flight are bounded and each is open once; the registry stays well formed.\<close>

definition observer_ok :: "nat \<Rightarrow> 'd :: linorder RuntimeObserver \<Rightarrow> bool" where
  "observer_ok limit s \<longleftrightarrow>
     ro_max_pending_spans s = limit \<and> umap_wf (ro_starts s) \<and> length (ro_starts s) \<le> limit \<and>
     metrics_ok (ro_metrics s)"

lemma observer_count_frame [simp]: "ro_starts (observer_count name n s) = ro_starts s"
  by (simp add: observer_count_def)

lemma observer_count_ok [simp]: "observer_ok limit (observer_count name n s) = observer_ok limit s"
  by (simp add: observer_ok_def observer_count_def metrics_ok_def)

lemma span_begin_ok [simp]: "observer_ok limit s \<Longrightarrow> observer_ok limit (span_begin e phase operation s)"
  by (auto simp: span_begin_def Let_def observer_ok_def umap_simps observer_count_def metrics_ok_def
      split: option.split)

lemma span_finish_ok [simp]:
  "observer_ok limit s \<Longrightarrow> observer_ok limit (snd (span_finish d e phase metric operation required s))"
proof -
  assume ok: "observer_ok limit s"
  then have erase: "observer_ok limit (s\<lparr>ro_starts := umap_erase k (ro_starts s)\<rparr>)" for k
    using length_erase_le [of k "ro_starts s"] by (simp add: observer_ok_def umap_simps)
  have observed: "observer_ok limit (t\<lparr>ro_metrics := metrics_observe d metric v bounds (ro_metrics t)\<rparr>)"
    if "observer_ok limit t" for t v bounds
    using that by (simp add: observer_ok_def metrics_observe_ok)
  show ?thesis
  proof (cases "map_of (ro_starts s) (span_key e phase operation)")
    case None
    then show ?thesis using ok by (simp add: span_finish_def Let_def)
  next
    case (Some start)
    then show ?thesis using observed [OF erase] erase by (simp add: span_finish_def Let_def)
  qed
qed

lemma spans_discard_ok [simp]: "observer_ok limit s \<Longrightarrow> observer_ok limit (spans_discard e entire agents s)"
proof -
  assume ok: "observer_ok limit s"
  have "distinct (map fst (filter P (ro_starts s)))" for P
    using ok by (simp add: observer_ok_def umap_wf_def distinct_map_filter)
  then have "observer_ok limit (s\<lparr>ro_starts := filter P (ro_starts s)\<rparr>)" for P
    using ok le_trans [OF length_filter_le [of P "ro_starts s"]] by (simp add: observer_ok_def umap_wf_def)
  then show ?thesis by (simp add: spans_discard_def Let_def)
qed

lemma finish_or_input_ok [simp]: "observer_ok limit s \<Longrightarrow> observer_ok limit (finish_or_input d e phase metric s)"
proof -
  assume ok: "observer_ok limit s"
  obtain b t where bt: "span_finish d e phase metric False False s = (b, t)" by fastforce
  have "observer_ok limit t" using span_finish_ok [OF ok, of d e phase metric False False] bt by simp
  then show ?thesis by (simp add: finish_or_input_def bt)
qed

lemma observer_observe_ok: "observer_ok limit s \<Longrightarrow> observer_ok limit (observer_observe d e s)"
proof -
  assume "observer_ok limit s"
  then have ok: "observer_ok limit (observer_count name 1 s)" for name by simp
  have erase: "observer_ok limit t \<Longrightarrow> observer_ok limit (t\<lparr>ro_starts := umap_erase k (ro_starts t)\<rparr>)" for t k
    using length_erase_le [of k "ro_starts t"] by (simp add: observer_ok_def umap_simps)
  show ?thesis using ok unfolding observer_observe_def observe_event_def
    by (cases "ev_type e") (simp_all add: Let_def erase)
qed

text \<open>What an event ends.\<close>

lemma spans_discard_gone:
  "k \<in> fst ` set (ro_starts (spans_discard e entire agents s)) \<Longrightarrow> \<not> discarded_span e entire agents k"
  by (auto simp: spans_discard_def Let_def split: if_splits)

text \<open>C36: whatever stream of events it is given, the observer holds at most its limit of open spans,
  no span twice, and a well-formed registry (each histogram one bucket per strictly increasing
  bound plus one, the buckets adding up to the count); and it leaks nothing: after the event that
  ends a session no span of that session's incarnation is left, and after one that ends a
  conversation turn no span of that turn.\<close>

theorem observer_spans_bounded:
  assumes "observer_new metrics_new limit = Inr start" and "s = fold (observer_observe d) events start"
  shows "pending_spans s \<le> limit \<and> distinct (map fst (ro_starts s)) \<and> metrics_ok (ro_metrics s) \<and>
    (\<forall>e session generation turn phase operation.
       (session, generation, turn, phase, operation) \<in> fst ` set (ro_starts (observer_observe d e s)) \<longrightarrow>
       (ev_type e \<in> {SessionStopped, SessionFailed, RealtimeSessionClosed} \<longrightarrow>
          session \<noteq> ev_session_id e \<or> generation \<noteq> ev_generation e) \<and>
       (ev_type e \<in> {ConversationTurnCompleted, ConversationTurnCancelled, ConversationTurnFailed, OutputCancelled} \<longrightarrow>
          session \<noteq> ev_session_id e \<or> generation \<noteq> ev_generation e \<or> turn \<noteq> ev_turn_id e))"
proof -
  have "observer_ok limit start"
    using assms(1) by (auto simp: observer_new_def observer_ok_def metrics_ok_def metrics_new_def split: if_splits)
  then have ok: "observer_ok limit s"
    unfolding assms(2) by (induction events arbitrary: start) (simp_all add: observer_observe_ok)
  have gone: "\<not> discarded_span e True False k"
    if "ev_type e \<in> {SessionStopped, SessionFailed, RealtimeSessionClosed}"
      "k \<in> fst ` set (ro_starts (observer_observe d e s))" for e k
    using that spans_discard_gone [of k e True False]
    unfolding observer_observe_def observe_event_def by (cases "ev_type e") simp_all
  have turn: "\<not> discarded_span e False False k"
    if "ev_type e \<in> {ConversationTurnCompleted, ConversationTurnCancelled, ConversationTurnFailed, OutputCancelled}"
      "k \<in> fst ` set (ro_starts (observer_observe d e s))" for e k
    using that spans_discard_gone [of k e False False]
    unfolding observer_observe_def observe_event_def by (cases "ev_type e") simp_all
  have "session \<noteq> ev_session_id e \<or> generation \<noteq> ev_generation e"
    if "\<not> discarded_span e True False (session, generation, turn, phase, operation)"
    for e session generation turn phase operation
    using that by (auto simp: discarded_span_def)
  moreover have "session \<noteq> ev_session_id e \<or> generation \<noteq> ev_generation e \<or> turn \<noteq> ev_turn_id e"
    if "\<not> discarded_span e False False (session, generation, turn, phase, operation)"
    for e session generation turn phase operation
    using that by (auto simp: discarded_span_def)
  ultimately show ?thesis using ok gone turn
    unfolding observer_ok_def umap_wf_def pending_spans_def by blast
qed


definition example_ops :: "int double_ops" where
  "example_ops =
     \<lparr>d_zero = 0, d_add = (+), d_finite = (\<lambda>_. True), d_elapsed_ms = (\<lambda>a b. (b - a) div 1000000),
      d_default_bounds = [5, 10], d_text = (\<lambda>_. [])\<rparr>"

definition example_events :: "Event list" where
  "example_events =
     [(mk_event TurnStarted ''s'' ''t'' [] [] [])\<lparr>ev_timestamp := 1000000\<rparr>,
      (mk_event ToolStarted ''s'' ''t'' ''x'' [] [])\<lparr>ev_timestamp := 2000000\<rparr>]"

theorem observer_spans_bounded_witness:
  "pending_spans (fold (observer_observe example_ops) example_events
     \<lparr>ro_metrics = metrics_new, ro_max_pending_spans = 1, ro_starts = []\<rparr>) \<le> 1"
  using observer_spans_bounded [OF _ refl, of 1 "\<lparr>ro_metrics = metrics_new, ro_max_pending_spans = 1, ro_starts = []\<rparr>"
      example_ops example_events] by (simp add: observer_new_def)

end
