(* ===== verification/Incremental_Tts.thy ===== *)
theory Incremental_Tts
  imports Byteturn_Types
begin

text \<open>
  \<open>IncrementalTtsPipeline\<close> (\<open>incremental_tts.h\<close>, \<open>incremental_tts.cpp\<close>): a bounded queue of text
  chunks between the threads that call \<open>push\<close>, \<open>finish\<close> and \<open>cancel\<close> and the worker that speaks
  them through the provider. A section under the mutex, an atomic access and an external call are
  one step each. The provider is client code: it calls the audio callback any number of times in
  \<open>synthesize_chunk\<close> and may throw anywhere. \<open>stop\<close> is the answer of the optional \<open>cancelled_\<close>
  predicate at the moment it is asked.
\<close>

section \<open>State\<close>

text \<open>Where the worker is: which external call it is in, or waiting for work.\<close>

datatype TtsWorker =
    TtsBegin | TtsWaiting | TtsSpeaking string | TtsLeaving | TtsEnding | TtsExited

text \<open>Where a calling thread is.\<close>

datatype TtsCaller =
    CallerIdle | CallerPush string | CallerJoin bool | CallerCancelProvider bool

record IncrementalTts =
  it_max_queued_chunks :: nat
  it_has_cancelled :: bool
  it_queue :: "string list"
  it_error :: "exn option"
  it_finishing :: bool
  it_cancelled_locally :: bool
  it_joined :: bool
  it_worker :: TtsWorker
  it_callers :: "TtsCaller list"
  it_accepted :: "string list"
  it_spoken :: "string list"
  it_dropped :: "string list"
  it_audio :: "AudioFrame list"
  it_utterance_ended :: bool
  it_stopped :: bool
  it_finished :: "exn option list"

text \<open>The fields from \<open>it_accepted\<close> on record what happened, for the theorems.\<close>

definition tts_new :: "bool \<Rightarrow> nat \<Rightarrow> nat \<Rightarrow> exn + IncrementalTts" where
  "tts_new has_cancelled max_queued callers =
     (if max_queued = 0 then Inl (StdException ''TTS queue capacity must be positive'')
      else Inr
        \<lparr>it_max_queued_chunks = max_queued, it_has_cancelled = has_cancelled, it_queue = [],
         it_error = None, it_finishing = False, it_cancelled_locally = False, it_joined = False,
         it_worker = TtsBegin, it_callers = replicate callers CallerIdle, it_accepted = [],
         it_spoken = [], it_dropped = [], it_audio = [], it_utterance_ended = False,
         it_stopped = False, it_finished = []\<rparr>)"

section \<open>Calls\<close>

definition tts_caller_at :: "nat \<Rightarrow> TtsCaller \<Rightarrow> IncrementalTts \<Rightarrow> IncrementalTts" where
  "tts_caller_at t c s = s\<lparr>it_callers := (it_callers s)[t := c]\<rparr>"

definition tts_push_ready :: "IncrementalTts \<Rightarrow> bool" where
  "tts_push_ready s \<longleftrightarrow>
     it_finishing s \<or> it_cancelled_locally s \<or> it_error s \<noteq> None \<or>
     length (it_queue s) < it_max_queued_chunks s"

definition tts_asked :: "bool \<Rightarrow> IncrementalTts \<Rightarrow> IncrementalTts" where
  "tts_asked stop s = s\<lparr>it_stopped := it_stopped s \<or> stop\<rparr>"

definition tts_push :: "bool \<Rightarrow> string \<Rightarrow> IncrementalTts \<Rightarrow> bool \<times> IncrementalTts" where
  "tts_push stop body s =
     (if it_finishing s \<or> it_cancelled_locally s \<or> it_error s \<noteq> None then (False, s)
      else if stop then (False, tts_asked stop s)
      else (True, s\<lparr>it_queue := it_queue s @ [body], it_accepted := it_accepted s @ [body]\<rparr>))"

definition tts_finish :: "IncrementalTts \<Rightarrow> IncrementalTts" where
  "tts_finish s = s\<lparr>it_finishing := True\<rparr>"

text \<open>The join of \<open>finish\<close> or of the destructor, and what \<open>finish\<close> throws after it.\<close>

definition tts_join_ready :: "IncrementalTts \<Rightarrow> bool" where
  "tts_join_ready s \<longleftrightarrow> it_joined s \<or> it_worker s = TtsExited"

definition tts_join :: "bool \<Rightarrow> IncrementalTts \<Rightarrow> IncrementalTts" where
  "tts_join finish s =
     s\<lparr>it_joined := True,
       it_finished := (if finish then it_finished s @ [it_error s] else it_finished s)\<rparr>"

definition tts_cancel :: "IncrementalTts \<Rightarrow> bool \<times> IncrementalTts" where
  "tts_cancel s =
     (if it_cancelled_locally s \<or> it_joined s then (False, s)
      else (True, s\<lparr>it_cancelled_locally := True, it_queue := [], it_dropped := it_dropped s @ it_queue s\<rparr>))"

section \<open>The worker\<close>

definition tts_wait_ready :: "IncrementalTts \<Rightarrow> bool" where
  "tts_wait_ready s \<longleftrightarrow> it_cancelled_locally s \<or> it_queue s \<noteq> [] \<or> it_finishing s"

definition tts_worker_at :: "TtsWorker \<Rightarrow> IncrementalTts \<Rightarrow> IncrementalTts" where
  "tts_worker_at w s = s\<lparr>it_worker := w\<rparr>"

text \<open>The locked section of the loop; \<open>stop\<close> is asked only when not cancelled locally.\<close>

definition tts_take :: "bool \<Rightarrow> IncrementalTts \<Rightarrow> IncrementalTts" where
  "tts_take stop s =
     (if it_cancelled_locally s then tts_worker_at TtsLeaving s
      else if stop then tts_worker_at TtsLeaving (tts_asked stop s)
      else case it_queue s of
          [] \<Rightarrow> if it_finishing s then tts_worker_at TtsLeaving s else s
        | chunk # rest \<Rightarrow> tts_worker_at (TtsSpeaking chunk) (s\<lparr>it_queue := rest\<rparr>))"

text \<open>The audio callback: what it answers the provider; the sink is called when neither flag is set.\<close>

definition tts_on_audio :: "bool \<Rightarrow> bool \<Rightarrow> AudioFrame \<Rightarrow> IncrementalTts \<Rightarrow> bool \<times> IncrementalTts" where
  "tts_on_audio stop sink_answer frame s =
     (if it_cancelled_locally s then (False, s)
      else if stop then (False, tts_asked stop s)
      else (sink_answer, s\<lparr>it_audio := it_audio s @ [frame]\<rparr>))"

definition tts_chunk_done :: "bool \<Rightarrow> string \<Rightarrow> IncrementalTts \<Rightarrow> IncrementalTts" where
  "tts_chunk_done stop chunk s =
     tts_worker_at (if stop then TtsLeaving else TtsWaiting)
       (tts_asked stop (s\<lparr>it_spoken := it_spoken s @ [chunk]\<rparr>))"

definition tts_leave :: "bool \<Rightarrow> IncrementalTts \<Rightarrow> IncrementalTts" where
  "tts_leave stop s =
     (if it_cancelled_locally s then tts_worker_at TtsExited s
      else if stop then tts_worker_at TtsExited (tts_asked stop s)
      else tts_worker_at TtsEnding s)"

definition tts_end :: "IncrementalTts \<Rightarrow> IncrementalTts" where
  "tts_end s = tts_worker_at TtsExited (s\<lparr>it_utterance_ended := True\<rparr>)"

text \<open>The handler of the worker's exceptions.\<close>

definition tts_speaking :: "TtsWorker \<Rightarrow> string list" where
  "tts_speaking w = (case w of TtsSpeaking chunk \<Rightarrow> [chunk] | _ \<Rightarrow> [])"

definition tts_failed :: "exn \<Rightarrow> IncrementalTts \<Rightarrow> IncrementalTts" where
  "tts_failed e s =
     tts_worker_at TtsExited
       (s\<lparr>it_error := Some e, it_cancelled_locally := True, it_queue := [],
          it_dropped := tts_speaking (it_worker s) @ it_dropped s @ it_queue s\<rparr>)"

text \<open>Where the worker is in client code that may throw: the provider, or the predicate it asks.\<close>

definition tts_calls_out :: "IncrementalTts \<Rightarrow> bool" where
  "tts_calls_out s =
     (case it_worker s of
        TtsWaiting \<Rightarrow> tts_wait_ready s \<and> it_has_cancelled s
      | TtsLeaving \<Rightarrow> it_has_cancelled s
      | TtsExited \<Rightarrow> False
      | _ \<Rightarrow> True)"

section \<open>Steps\<close>

text \<open>The destructor cancels and joins; \<open>CallerJoin\<close> says whether the join is that of \<open>finish\<close>.
  A wait is its predicate: every section that changes one notifies. The provider's \<open>cancel\<close> is
  taken to return (when it throws, \<open>cancel\<close> skips its notification).\<close>

inductive tts_step :: "IncrementalTts \<Rightarrow> IncrementalTts \<Rightarrow> bool" where
  push_call: "t < length (it_callers s) \<Longrightarrow> it_callers s ! t = CallerIdle \<Longrightarrow>
    tts_step s (tts_caller_at t (CallerPush body) s)"
| push_section: "t < length (it_callers s) \<Longrightarrow> it_callers s ! t = CallerPush body \<Longrightarrow>
    tts_push_ready s \<Longrightarrow> (stop \<Longrightarrow> it_has_cancelled s) \<Longrightarrow> tts_push stop body s = (answer, s') \<Longrightarrow>
    tts_step s (tts_caller_at t CallerIdle s')"
| push_throws: "t < length (it_callers s) \<Longrightarrow> it_callers s ! t = CallerPush body \<Longrightarrow>
    tts_push_ready s \<Longrightarrow> it_has_cancelled s \<Longrightarrow> tts_step s (tts_caller_at t CallerIdle s)"
| finish_call: "t < length (it_callers s) \<Longrightarrow> it_callers s ! t = CallerIdle \<Longrightarrow>
    tts_step s (tts_caller_at t (CallerJoin True) (tts_finish s))"
| join: "t < length (it_callers s) \<Longrightarrow> it_callers s ! t = CallerJoin finish \<Longrightarrow> tts_join_ready s \<Longrightarrow>
    tts_step s (tts_caller_at t CallerIdle (tts_join finish s))"
| cancel_call: "t < length (it_callers s) \<Longrightarrow> it_callers s ! t = CallerIdle \<Longrightarrow>
    tts_cancel s = (changed, s') \<Longrightarrow>
    tts_step s (tts_caller_at t (if changed then CallerCancelProvider destroy
      else if destroy then CallerJoin False else CallerIdle) s')"
| cancel_provider: "t < length (it_callers s) \<Longrightarrow> it_callers s ! t = CallerCancelProvider destroy \<Longrightarrow>
    tts_step s (tts_caller_at t (if destroy then CallerJoin False else CallerIdle) s)"
| begun: "it_worker s = TtsBegin \<Longrightarrow> tts_step s (tts_worker_at TtsWaiting s)"
| take_chunk: "it_worker s = TtsWaiting \<Longrightarrow> tts_wait_ready s \<Longrightarrow> (stop \<Longrightarrow> it_has_cancelled s) \<Longrightarrow>
    tts_step s (tts_take stop s)"
| audio: "it_worker s = TtsSpeaking chunk \<Longrightarrow> (stop \<Longrightarrow> it_has_cancelled s) \<Longrightarrow>
    tts_on_audio stop sink_answer frame s = (answer, s') \<Longrightarrow> tts_step s s'"
| chunk_done: "it_worker s = TtsSpeaking chunk \<Longrightarrow> (stop \<Longrightarrow> it_has_cancelled s) \<Longrightarrow>
    tts_step s (tts_chunk_done stop chunk s)"
| leave: "it_worker s = TtsLeaving \<Longrightarrow> (stop \<Longrightarrow> it_has_cancelled s) \<Longrightarrow> tts_step s (tts_leave stop s)"
| ended: "it_worker s = TtsEnding \<Longrightarrow> tts_step s (tts_end s)"
| failed: "tts_calls_out s \<Longrightarrow> tts_step s (tts_failed e s)"

inductive_cases tts_stepE: "tts_step s t"

section \<open>The invariant\<close>

text \<open>Nothing is left for a worker that tts_leaves the loop on its own.\<close>

definition tts_drained :: "IncrementalTts \<Rightarrow> bool" where
  "tts_drained s \<longleftrightarrow> it_finishing s \<and> it_queue s = [] \<and> it_dropped s = []"

definition tts_interrupted :: "IncrementalTts \<Rightarrow> bool" where
  "tts_interrupted s \<longleftrightarrow> it_cancelled_locally s \<or> it_stopped s"

definition tts_inv :: "IncrementalTts \<Rightarrow> bool" where
  "tts_inv s \<longleftrightarrow>
     it_accepted s = it_spoken s @ tts_speaking (it_worker s) @ it_dropped s @ it_queue s \<and>
     length (it_queue s) \<le> it_max_queued_chunks s \<and>
     (it_cancelled_locally s \<longrightarrow> it_queue s = []) \<and>
     (it_dropped s \<noteq> [] \<longrightarrow> it_cancelled_locally s) \<and>
     (it_error s \<noteq> None \<longrightarrow> it_cancelled_locally s \<and> it_worker s = TtsExited) \<and>
     (it_worker s \<in> {TtsLeaving, TtsEnding, TtsExited} \<longrightarrow> tts_interrupted s \<or> tts_drained s) \<and>
     (it_worker s = TtsExited \<longrightarrow> tts_interrupted s \<or> it_utterance_ended s) \<and>
     (it_joined s \<or> it_finished s \<noteq> [] \<longrightarrow> it_worker s = TtsExited) \<and>
     set (it_finished s) \<subseteq> {it_error s}"

lemma tts_caller_at_frame [simp]:
  "it_accepted (tts_caller_at t c s) = it_accepted s" "it_spoken (tts_caller_at t c s) = it_spoken s"
  "it_worker (tts_caller_at t c s) = it_worker s" "it_dropped (tts_caller_at t c s) = it_dropped s"
  "it_queue (tts_caller_at t c s) = it_queue s" "it_error (tts_caller_at t c s) = it_error s"
  "it_max_queued_chunks (tts_caller_at t c s) = it_max_queued_chunks s"
  "it_cancelled_locally (tts_caller_at t c s) = it_cancelled_locally s"
  "it_utterance_ended (tts_caller_at t c s) = it_utterance_ended s"
  "it_joined (tts_caller_at t c s) = it_joined s" "it_finished (tts_caller_at t c s) = it_finished s"
  "it_finishing (tts_caller_at t c s) = it_finishing s" "it_stopped (tts_caller_at t c s) = it_stopped s"
  "it_audio (tts_caller_at t c s) = it_audio s"
  by (simp_all add: tts_caller_at_def)

lemma tts_inv_caller [simp]: "tts_inv (tts_caller_at t c s) = tts_inv s"
  by (simp add: tts_inv_def tts_drained_def tts_interrupted_def)

lemma tts_speaking_simps [simp]:
  "tts_speaking TtsBegin = []" "tts_speaking TtsWaiting = []" "tts_speaking (TtsSpeaking c) = [c]"
  "tts_speaking TtsLeaving = []" "tts_speaking TtsEnding = []" "tts_speaking TtsExited = []"
  by (simp_all add: tts_speaking_def)

lemmas tts_step_defs = tts_push_def tts_finish_def tts_join_def tts_cancel_def tts_take_def tts_on_audio_def
  tts_chunk_done_def tts_leave_def tts_end_def tts_failed_def tts_worker_at_def tts_asked_def tts_inv_def
  tts_drained_def tts_interrupted_def tts_push_ready_def tts_join_ready_def tts_wait_ready_def

lemma tts_push_inv: "tts_inv s \<Longrightarrow> tts_push_ready s \<Longrightarrow> tts_inv (snd (tts_push stop body s))"
  by (simp add: tts_step_defs) auto

lemma tts_cancel_inv: "tts_inv s \<Longrightarrow> tts_inv (snd (tts_cancel s))"
  by (simp add: tts_step_defs)

lemma tts_take_inv: "tts_inv s \<Longrightarrow> it_worker s = TtsWaiting \<Longrightarrow> tts_inv (tts_take stop s)"
  by (cases "it_queue s"; simp add: tts_step_defs; auto)

lemma tts_inv_audio [simp]: "tts_inv (s\<lparr>it_audio := fs\<rparr>) = tts_inv s"
  by (simp add: tts_inv_def tts_drained_def tts_interrupted_def)

lemma tts_asked_inv: "tts_inv s \<Longrightarrow> tts_inv (tts_asked stop s)"
  by (cases stop) (simp_all add: tts_inv_def tts_drained_def tts_interrupted_def tts_asked_def)

lemma tts_on_audio_inv: "tts_inv s \<Longrightarrow> tts_inv (snd (tts_on_audio stop a frame s))"
  by (simp add: tts_on_audio_def tts_asked_inv)

lemma tts_failed_inv: "tts_inv s \<Longrightarrow> tts_calls_out s \<Longrightarrow> tts_inv (tts_failed e s)"
  by (cases "it_worker s"; simp add: tts_step_defs tts_calls_out_def; auto)

lemma tts_leave_inv: "tts_inv s \<Longrightarrow> it_worker s = TtsLeaving \<Longrightarrow> tts_inv (tts_leave stop s)"
  by (simp add: tts_step_defs) auto

lemma tts_chunk_done_inv:
  "tts_inv s \<Longrightarrow> it_worker s = TtsSpeaking chunk \<Longrightarrow> tts_inv (tts_chunk_done stop chunk s)"
  by (simp add: tts_step_defs)

lemma tts_end_inv: "tts_inv s \<Longrightarrow> it_worker s = TtsEnding \<Longrightarrow> tts_inv (tts_end s)"
  by (simp add: tts_step_defs)

lemma tts_begun_inv: "tts_inv s \<Longrightarrow> it_worker s = TtsBegin \<Longrightarrow> tts_inv (tts_worker_at TtsWaiting s)"
  by (simp add: tts_step_defs)

lemma tts_join_inv: "tts_inv s \<Longrightarrow> tts_join_ready s \<Longrightarrow> tts_inv (tts_join finish s)"
  by (simp add: tts_step_defs) auto

lemma tts_finish_inv: "tts_inv s \<Longrightarrow> tts_inv (tts_finish s)"
  by (simp add: tts_step_defs) auto

lemma tts_step_inv:
  assumes "tts_inv s" and "tts_step s t"
  shows "tts_inv t"
  using assms(2)
proof cases
  case (push_section c body stop answer s')
  then show ?thesis using tts_push_inv [OF assms(1), of stop body] by simp
next
  case (cancel_call c changed s' destroy)
  then show ?thesis using tts_cancel_inv [OF assms(1)] by simp
next
  case (audio chunk stop sink_answer frame answer)
  then show ?thesis using tts_on_audio_inv [OF assms(1), of stop sink_answer frame] by simp
qed (use assms(1) in \<open>simp_all add: tts_take_inv tts_failed_inv tts_leave_inv tts_chunk_done_inv tts_end_inv
      tts_begun_inv tts_join_inv tts_finish_inv\<close>)

abbreviation tts_init :: "IncrementalTts \<Rightarrow> bool" where
  "tts_init s \<equiv> \<exists>has_cancelled max_queued callers. tts_new has_cancelled max_queued callers = Inr s"

lemma tts_init_inv: "tts_init s \<Longrightarrow> tts_inv s"
  by (auto simp: tts_new_def tts_inv_def split: if_splits)

interpretation tts: invariant_system tts_init tts_step tts_inv
  by unfold_locales (rule tts_init_inv, assumption, rule tts_step_inv)

section \<open>Properties\<close>

lemma tts_cancelled_step:
  "tts_step s u \<Longrightarrow> it_cancelled_locally s \<Longrightarrow> it_cancelled_locally u \<and> it_audio u = it_audio s \<and> it_accepted u = it_accepted s"
  by (erule tts_stepE) (auto simp: tts_step_defs split: if_splits list.splits)

interpretation tts_cancelled: final_condition tts_step it_cancelled_locally "\<lambda>s. (it_audio s, it_accepted s)"
  by unfold_locales (simp add: tts_cancelled_step)

text \<open>A joined worker has exited, and calls neither the provider nor the sink again.\<close>

lemma tts_exited_step:
  "tts_step s u \<Longrightarrow> it_worker s = TtsExited \<Longrightarrow> it_worker u = TtsExited \<and> it_audio u = it_audio s \<and> it_spoken u = it_spoken s"
  by (erule tts_stepE)
    (auto simp: tts_push_def tts_asked_def tts_finish_def tts_join_def tts_cancel_def tts_calls_out_def split: if_splits)

interpretation tts_exited: final_condition tts_step "\<lambda>s. it_worker s = TtsExited" "\<lambda>s. (it_audio s, it_spoken s)"
  by unfold_locales (simp add: tts_exited_step)

text \<open>C20: the chunks for which \<open>push\<close> returned true are, in order, those spoken, at most one being
  spoken, those dropped and those queued; at most \<open>max_queued_chunks\<close> are queued and chunks are
  dropped only after a cancellation or a failure; once \<open>finish\<close> has returned without an exception
  and nothing was cancelled, every accepted chunk was spoken and the utterance was ended; an
  exception \<open>finish\<close> threw is the worker's; once cancelled, no audio reaches the sink and no chunk
  is accepted, whatever the provider does; and once the worker was joined, nothing is spoken.\<close>

theorem tts_speaks_in_order:
  assumes "reachable tts_init tts_step s"
  shows "it_accepted s = it_spoken s @ tts_speaking (it_worker s) @ it_dropped s @ it_queue s \<and>
    length (it_queue s) \<le> it_max_queued_chunks s \<and>
    (it_dropped s \<noteq> [] \<longrightarrow> it_cancelled_locally s) \<and>
    (None \<in> set (it_finished s) \<longrightarrow>
       it_cancelled_locally s \<or> it_stopped s \<or> it_spoken s = it_accepted s \<and> it_utterance_ended s) \<and>
    (\<forall>e. Some e \<in> set (it_finished s) \<longrightarrow> it_error s = Some e) \<and>
    (\<forall>u. steps tts_step s u \<longrightarrow>
       (it_cancelled_locally s \<longrightarrow> it_audio u = it_audio s \<and> it_accepted u = it_accepted s) \<and>
       (it_joined s \<longrightarrow> it_audio u = it_audio s \<and> it_spoken u = it_spoken s))"
proof -
  have inv: "tts_inv s" by (rule tts.reachable_inv [OF assms])
  have "it_spoken s = it_accepted s \<and> it_utterance_ended s"
    if "None \<in> set (it_finished s)" "\<not> it_cancelled_locally s" "\<not> it_stopped s"
  proof -
    have "it_finished s \<noteq> []" using that(1) by auto
    then have "it_worker s = TtsExited" using inv by (simp add: tts_inv_def)
    then show ?thesis using inv that(2,3) by (simp add: tts_inv_def tts_drained_def tts_interrupted_def)
  qed
  moreover have "it_error s = Some e" if "Some e \<in> set (it_finished s)" for e
  proof -
    have "set (it_finished s) \<subseteq> {it_error s}" using inv by (simp add: tts_inv_def)
    then show ?thesis using that by auto
  qed
  moreover have "it_audio u = it_audio s \<and> it_accepted u = it_accepted s"
    if "it_cancelled_locally s" "steps tts_step s u" for u
    using tts_cancelled.final_steps [OF that(2,1)] by simp
  moreover have "it_audio u = it_audio s \<and> it_spoken u = it_spoken s"
    if "it_joined s" "steps tts_step s u" for u
  proof -
    have "it_worker s = TtsExited" using inv that(1) by (simp add: tts_inv_def)
    then show ?thesis using tts_exited.final_steps [OF that(2)] by simp
  qed
  moreover have "it_accepted s = it_spoken s @ tts_speaking (it_worker s) @ it_dropped s @ it_queue s"
    "length (it_queue s) \<le> it_max_queued_chunks s" "it_dropped s \<noteq> [] \<longrightarrow> it_cancelled_locally s"
    using inv unfolding tts_inv_def by simp_all
  ultimately show ?thesis by meson
qed

text \<open>The worker's way out, when the provider's calls return.\<close>

lemma tts_exits_first:
  "tts_step s t \<Longrightarrow> \<exists>u. steps tts_step t u \<and> it_worker u = TtsExited \<Longrightarrow>
     \<exists>u. steps tts_step s u \<and> it_worker u = TtsExited"
  by (elim exE conjE) (rule exI, rule conjI, rule steps_first, assumption+)

lemma tts_leaves: "it_worker s = TtsLeaving \<Longrightarrow> \<exists>u. steps tts_step s u \<and> it_worker u = TtsExited"
proof (cases "it_cancelled_locally s")
  case True
  assume w: "it_worker s = TtsLeaving"
  have "tts_step s (tts_leave False s)" by (rule tts_step.leave [OF w]) simp
  then show ?thesis using True by (intro exI [of _ "tts_leave False s"]) (simp add: steps_one tts_leave_def tts_worker_at_def)
next
  case False
  assume w: "it_worker s = TtsLeaving"
  let ?u = "tts_leave False s"
  have u: "tts_step s ?u" by (rule tts_step.leave [OF w]) simp
  have w': "it_worker ?u = TtsEnding" using False by (simp add: tts_leave_def tts_worker_at_def)
  have "steps tts_step s (tts_end ?u)" by (rule steps_first [OF u steps_one [where step = tts_step, OF tts_step.ended [OF w']]])
  then show ?thesis by (intro exI [of _ "tts_end ?u"]) (simp add: tts_end_def tts_worker_at_def)
qed

lemma tts_drains:
  "it_worker s = TtsWaiting \<Longrightarrow> it_finishing s \<or> it_cancelled_locally s \<Longrightarrow>
     \<exists>u. steps tts_step s u \<and> it_worker u = TtsExited"
proof (induction "length (it_queue s)" arbitrary: s rule: less_induct)
  case less
  let ?u = "tts_take False s"
  have step: "tts_step s ?u"
    by (rule tts_step.take_chunk [OF less.prems(1)]) (use less.prems(2) in \<open>auto simp: tts_wait_ready_def\<close>)
  show ?case
  proof (cases "it_cancelled_locally s \<or> it_queue s = []")
    case True
    then have "it_worker ?u = TtsLeaving" using less.prems by (auto simp: tts_take_def tts_worker_at_def)
    then show ?thesis using tts_leaves steps_first [where step = tts_step, OF step] by blast
  next
    case False
    then obtain chunk rest where q: "it_queue s = chunk # rest" by (cases "it_queue s") auto
    let ?v = "tts_chunk_done False chunk ?u"
    have "it_worker ?u = TtsSpeaking chunk" using False q by (simp add: tts_take_def tts_worker_at_def)
    then have v: "tts_step ?u ?v" by (rule tts_step.chunk_done) simp
    have "it_worker ?v = TtsWaiting" "it_finishing ?v" "length (it_queue ?v) < length (it_queue s)"
      using False q less.prems by (auto simp: tts_take_def tts_worker_at_def tts_chunk_done_def tts_asked_def)
    then obtain w where "steps tts_step ?v w" "it_worker w = TtsExited" using less.hyps by blast
    then show ?thesis using steps_first [where step = tts_step, OF step steps_first [where step = tts_step, OF v]] by blast
  qed
qed

text \<open>In every state in which the pipeline is finishing or cancelled, the worker can run to
  its end, given that the provider's calls return, so that the join in \<open>finish\<close> and in the
  destructor does not wait for ever: no state of the queue or of the flags blocks it.\<close>

theorem tts_worker_can_exit:
  assumes "it_finishing s \<or> it_cancelled_locally s"
  shows "\<exists>u. steps tts_step s u \<and> it_worker u = TtsExited"
proof (cases "it_worker s")
  case TtsBegin
  have "tts_step s (tts_worker_at TtsWaiting s)" by (rule tts_step.begun [OF TtsBegin])
  moreover have "\<exists>u. steps tts_step (tts_worker_at TtsWaiting s) u \<and> it_worker u = TtsExited"
    by (rule tts_drains) (use assms in \<open>simp_all add: tts_worker_at_def\<close>)
  ultimately show ?thesis by (rule tts_exits_first)
next
  case (TtsSpeaking chunk)
  let ?v = "tts_chunk_done False chunk s"
  have "tts_step s ?v" by (rule tts_step.chunk_done [OF TtsSpeaking]) simp
  moreover have "\<exists>u. steps tts_step ?v u \<and> it_worker u = TtsExited"
    by (rule tts_drains) (use assms in \<open>simp_all add: tts_worker_at_def tts_chunk_done_def tts_asked_def\<close>)
  ultimately show ?thesis by (rule tts_exits_first)
next
  case TtsEnding
  have "tts_step s (tts_end s)" by (rule tts_step.ended [OF TtsEnding])
  then show ?thesis by (intro exI [of _ "tts_end s"]) (simp add: steps_one tts_end_def tts_worker_at_def)
next
  case TtsExited
  then show ?thesis by (intro exI [of _ s]) (simp add: steps_refl)
next
  case TtsWaiting
  then show ?thesis by (rule tts_drains) (rule assms)
next
  case TtsLeaving
  then show ?thesis by (rule tts_leaves)
qed

text \<open>A run: two chunks pushed, the first spoken, \<open>finish\<close> called.\<close>

definition tts_run :: "nat \<Rightarrow> IncrementalTts \<Rightarrow> IncrementalTts" where
  "tts_run n s =
     fold (\<lambda>f s. f s) (take n
       [tts_caller_at 0 (CallerPush ''a''), \<lambda>s. tts_caller_at 0 CallerIdle (snd (tts_push False ''a'' s)),
        tts_caller_at 0 (CallerPush ''b''), \<lambda>s. tts_caller_at 0 CallerIdle (snd (tts_push False ''b'' s)),
        tts_worker_at TtsWaiting, tts_take False, tts_chunk_done False ''a'',
        \<lambda>s. tts_caller_at 0 (CallerJoin True) (tts_finish s)]) s"

definition tts_start :: IncrementalTts where
  "tts_start = projr (tts_new False 2 1)"

definition tts_example :: IncrementalTts where
  "tts_example = tts_run 8 tts_start"

lemmas tts_run_defs = tts_start_def tts_new_def tts_run_def tts_caller_at_def tts_push_def
  tts_worker_at_def tts_take_def tts_chunk_done_def tts_finish_def tts_asked_def

lemma tts_example_reachable: "reachable tts_init tts_step tts_example"
proof -
  let ?s = "\<lambda>n. tts_run n tts_start"
  have run: "?s 1 = tts_caller_at 0 (CallerPush ''a'') (?s 0)"
    "?s 2 = tts_caller_at 0 CallerIdle (snd (tts_push False ''a'' (?s 1)))"
    "?s 3 = tts_caller_at 0 (CallerPush ''b'') (?s 2)"
    "?s 4 = tts_caller_at 0 CallerIdle (snd (tts_push False ''b'' (?s 3)))"
    "?s 5 = tts_worker_at TtsWaiting (?s 4)" "?s 6 = tts_take False (?s 5)"
    "?s 7 = tts_chunk_done False ''a'' (?s 6)"
    "?s 8 = tts_caller_at 0 (CallerJoin True) (tts_finish (?s 7))"
    by (simp_all add: tts_run_def)
  have "reachable tts_init tts_step (?s 0)"
    by (rule reach_init) (rule exI [of _ False], rule exI [of _ 2], rule exI [of _ 1],
      simp add: tts_run_def tts_start_def tts_new_def)
  then have "reachable tts_init tts_step (?s 1)"
    by (rule reach_step) (subst run, rule tts_step.push_call; simp add: tts_run_defs)
  then have "reachable tts_init tts_step (?s 2)"
    by (rule reach_step) (subst run, rule tts_step.push_section [where stop = False and body = "''a''", OF _ _ _ _ surjective_pairing];
        simp add: tts_run_defs tts_push_ready_def)
  then have "reachable tts_init tts_step (?s 3)"
    by (rule reach_step) (subst run, rule tts_step.push_call; simp add: tts_run_defs)
  then have "reachable tts_init tts_step (?s 4)"
    by (rule reach_step) (subst run, rule tts_step.push_section [where stop = False and body = "''b''", OF _ _ _ _ surjective_pairing];
        simp add: tts_run_defs tts_push_ready_def)
  then have "reachable tts_init tts_step (?s 5)"
    by (rule reach_step) (subst run, rule tts_step.begun; simp add: tts_run_defs)
  then have "reachable tts_init tts_step (?s 6)"
    by (rule reach_step) (subst run, rule tts_step.take_chunk; simp add: tts_run_defs tts_wait_ready_def)
  then have "reachable tts_init tts_step (?s 7)"
    by (rule reach_step) (subst run, rule tts_step.chunk_done; simp add: tts_run_defs)
  then have "reachable tts_init tts_step (?s 8)"
    by (rule reach_step) (subst run, rule tts_step.finish_call; simp add: tts_run_defs)
  then show ?thesis by (simp only: tts_example_def)
qed

theorem tts_speaks_in_order_witness:
  "it_accepted tts_example = [''a''] @ tts_speaking (it_worker tts_example) @ it_dropped tts_example @ [''b'']"
proof -
  have "it_spoken tts_example = [''a'']" "it_queue tts_example = [''b'']" by code_simp+
  then show ?thesis using tts_speaks_in_order [OF tts_example_reachable] by simp
qed

theorem tts_worker_can_exit_witness: "\<exists>u. steps tts_step tts_example u \<and> it_worker u = TtsExited"
proof (rule tts_worker_can_exit)
  show "it_finishing tts_example \<or> it_cancelled_locally tts_example" by code_simp
qed

end
