(* ===== verification/Conversation.thy ===== *)
theory Conversation
  imports Segmenter Byteturn_Types
begin

text \<open>
  \<open>Conversation\<close> (\<open>conversation.h\<close>, \<open>conversation.cpp\<close>): the speech gateway around one session. Frames
  queue for the input worker, whose recognizer calls \<open>on_transcript\<close>; a final transcript submits a
  streamed turn, whose sentences go to an incremental TTS pipeline; \<open>interrupt\<close> starts a new
  generation and cancels the responses of the old one.

  Threads: the input worker, any number of threads in \<open>interrupt\<close>, the thread of the destructor, the
  executor's worker of the lane (one turn at a time, in order: \<open>executor_lane_serial_fifo\<close>) and the
  TTS worker of a running response (it exits before \<open>finish\<close> returns: \<open>IncrementalTtsPipeline\<close>). A
  section under \<open>turn_mutex_\<close> or \<open>audio_mutex_\<close>, an atomic access and an external call are one step
  each; \<open>submission_mutex_\<close> is held over several. The recognizer calls its callback before \<open>push\<close>
  returns. The 64-bit counters do not wrap.
\<close>

section \<open>State\<close>

datatype ConversationState = Listening | Thinking | Speaking

record ConversationConfig =
  cc_max_audio_frames :: nat
  cc_turn_timeout :: int
  cc_max_tts_chunks :: nat

text \<open>The TTS pipeline of a response: absent, running with the frame its callback has let through but not
  yet given to the sink, or joined.\<close>

datatype SpeechPipeline = NoPipeline | LivePipeline "AudioFrame option" | JoinedPipeline

text \<open>
  Where a response is: submission not decided, refused, waiting in the lane, between two callbacks of
  the model, in \<open>speak\<close> with the sentences left (the flag: called by the completion), in the
  completion's \<open>finish\<close>, after its events, in the failure handler before and after its event, over;
  or over with its last section skipped by an observer that threw; or dropped from the lane by the
  executor, whose \<open>cancel_session\<close> and \<open>shutdown\<close> empty the queue while an earlier turn may run.
\<close>

datatype TurnPhase =
    TurnCreating | TurnRefused | TurnQueued | TurnStreaming
  | SpeakEntry "string list" bool | SpeakStarting "string list" bool | SpeakPushing "string list" bool
  | TurnFinishing | TurnCompleting | TurnFailing | TurnClosing | TurnOver | TurnUnreported
  | TurnDropped

record SpeechTurn =
  st_generation :: nat
  st_turn_id :: string
  st_phase :: TurnPhase
  st_segmenter :: SentenceSegmenter
  st_speech_started :: bool
  st_speech :: SpeechPipeline
  st_cancelled :: bool
  st_outcomes :: "EventType list"
  st_threw :: bool

text \<open>The input worker: the turn id of the utterance, and in \<open>on_transcript\<close> the turn it submits.\<close>

datatype InputWorker =
    WaitInput | Recognizing string | Deciding string string
  | Submitting string nat | Recording string nat | Refusing string nat | Clearing string nat
  | InputExited

datatype Interrupter = NoInterrupt | InterruptRecorded | InterruptSignalling

datatype Releaser = InUse | Released | JoiningInput | WaitingTurns "nat list" | Destroyed

record Conversation =
  cv_config :: ConversationConfig
  cv_alive :: bool
  cv_state :: ConversationState
  cv_generation :: nat
  cv_next_turn_id :: nat
  cv_submission :: bool
  cv_turn_id :: string
  cv_audio_queue :: "AudioFrame list"
  cv_stopping :: bool
  cv_turns :: "SpeechTurn list"
  cv_active_turns :: "nat list"
  cv_worker :: InputWorker
  cv_interrupters :: "Interrupter list"
  cv_releaser :: Releaser
  cv_accepted :: "AudioFrame list"
  cv_taken :: "AudioFrame list"
  cv_audio :: "(nat \<times> AudioFrame) list"

text \<open>\<open>cv_submission\<close> says that the mutex is held; \<open>cv_accepted\<close>, \<open>cv_taken\<close> and \<open>cv_audio\<close> (what the
  audio sink was given, with the generation of its response) record what happened.\<close>

definition conversation_new :: "ConversationConfig \<Rightarrow> nat \<Rightarrow> exn + Conversation" where
  "conversation_new config interrupters =
     (if cc_max_audio_frames config = 0 \<or> cc_max_tts_chunks config = 0 \<or> cc_turn_timeout config \<le> 0
      then Inl (StdException ''invalid conversation queue or timeout configuration'')
      else Inr
        \<lparr>cv_config = config, cv_alive = True, cv_state = Listening, cv_generation = 0,
         cv_next_turn_id = 1, cv_submission = False, cv_turn_id = [], cv_audio_queue = [],
         cv_stopping = False, cv_turns = [], cv_active_turns = [], cv_worker = WaitInput,
         cv_interrupters = replicate interrupters NoInterrupt, cv_releaser = InUse,
         cv_accepted = [], cv_taken = [], cv_audio = []\<rparr>)"

section \<open>Input\<close>

datatype PushAnswer = PushAccepted | PushStopped | PushOverloaded

text \<open>\<open>alive\<close> is what the load before the section saw. Only \<open>PushAccepted\<close> is \<open>true\<close>;
  an overload publishes an error.\<close>

definition conv_push_audio :: "bool \<Rightarrow> AudioFrame \<Rightarrow> Conversation \<Rightarrow> PushAnswer \<times> Conversation" where
  "conv_push_audio alive frame s =
     (if \<not> alive \<or> cv_stopping s then (PushStopped, s)
      else if cc_max_audio_frames (cv_config s) \<le> length (cv_audio_queue s) then (PushOverloaded, s)
      else (PushAccepted,
            s\<lparr>cv_audio_queue := cv_audio_queue s @ [frame], cv_accepted := cv_accepted s @ [frame]\<rparr>))"

fun turn_ended :: "TurnPhase \<Rightarrow> bool" where
  "turn_ended TurnOver = True"
| "turn_ended TurnUnreported = True"
| "turn_ended TurnDropped = True"
| "turn_ended TurnRefused = True"
| "turn_ended _ = False"

definition conv_reap_turns :: "Conversation \<Rightarrow> Conversation" where
  "conv_reap_turns s =
     s\<lparr>cv_active_turns := filter (\<lambda>i. \<not> turn_ended (st_phase (cv_turns s ! i))) (cv_active_turns s)\<rparr>"

definition conv_wait_ready :: "Conversation \<Rightarrow> bool" where
  "conv_wait_ready s \<longleftrightarrow> cv_stopping s \<or> cv_audio_queue s \<noteq> []"

definition worker_to :: "InputWorker \<Rightarrow> Conversation \<Rightarrow> Conversation" where
  "worker_to w s = s\<lparr>cv_worker := w\<rparr>"

text \<open>An id from the counter.\<close>

definition fresh_turn_id :: "Conversation \<Rightarrow> string \<times> Conversation" where
  "fresh_turn_id s = (to_string (cv_next_turn_id s), s\<lparr>cv_next_turn_id := cv_next_turn_id s + 1\<rparr>)"

definition conv_take_audio :: "Conversation \<Rightarrow> Conversation" where
  "conv_take_audio s =
     (if cv_stopping s then worker_to InputExited s
      else case cv_audio_queue s of
          [] \<Rightarrow> s
        | frame # rest \<Rightarrow>
            (let s = s\<lparr>cv_audio_queue := rest, cv_taken := cv_taken s @ [frame]\<rparr>
             in if af_samples frame = [] \<and> \<not> af_end_of_utterance frame then s
                else if af_end_of_utterance frame
                then (case fresh_turn_id s of (i, s) \<Rightarrow> worker_to (Recognizing i) s)
                else worker_to (Recognizing []) s))"

section \<open>Transcripts\<close>

text \<open>The callback and \<open>on_transcript\<close> before the submission mutex, in an utterance with the id \<open>input\<close>.\<close>

definition conv_transcript :: "string \<Rightarrow> string \<Rightarrow> bool \<Rightarrow> Conversation \<Rightarrow> Conversation" where
  "conv_transcript input body final s =
     (if \<not> cv_alive s \<or> \<not> final \<or> body = [] then s
      else if input = [] then (case fresh_turn_id s of (i, s) \<Rightarrow> worker_to (Deciding input i) s)
      else worker_to (Deciding input input) s)"

definition speech_turn :: "nat \<Rightarrow> string \<Rightarrow> SpeechTurn" where
  "speech_turn generation turn_id =
     \<lparr>st_generation = generation, st_turn_id = turn_id, st_phase = TurnCreating,
      st_segmenter = default_segmenter, st_speech_started = False, st_speech = NoPipeline,
      st_cancelled = False, st_outcomes = [], st_threw = False\<rparr>"

text \<open>Under the submission mutex: the new turn becomes the conversation's.\<close>

definition conv_begin_turn :: "string \<Rightarrow> string \<Rightarrow> Conversation \<Rightarrow> Conversation" where
  "conv_begin_turn input turn_id s =
     (if \<not> cv_alive s then worker_to (Recognizing input) s
      else worker_to (Submitting input (length (cv_turns s)))
        (s\<lparr>cv_submission := True, cv_state := Thinking, cv_turn_id := turn_id,
           cv_turns := cv_turns s @ [speech_turn (cv_generation s) turn_id]\<rparr>))"

definition turn_at :: "nat \<Rightarrow> (SpeechTurn \<Rightarrow> SpeechTurn) \<Rightarrow> Conversation \<Rightarrow> Conversation" where
  "turn_at i f s = s\<lparr>cv_turns := (cv_turns s)[i := f (cv_turns s ! i)]\<rparr>"

definition phase_at :: "nat \<Rightarrow> TurnPhase \<Rightarrow> Conversation \<Rightarrow> Conversation" where
  "phase_at i p = turn_at i (\<lambda>t. t\<lparr>st_phase := p\<rparr>)"

text \<open>What \<open>submit_streaming\<close> does: return a handle, throw \<open>ExecutorOverloaded\<close>, or throw something else.\<close>

datatype SubmitOutcome = SubmitAccepted | SubmitOverloaded | SubmitThrew

definition conv_submit :: "SubmitOutcome \<Rightarrow> string \<Rightarrow> nat \<Rightarrow> Conversation \<Rightarrow> Conversation" where
  "conv_submit outcome input i s =
     (case outcome of
        SubmitAccepted \<Rightarrow> worker_to (Recording input i) (phase_at i TurnQueued s)
      | SubmitOverloaded \<Rightarrow>
          worker_to (Refusing input i) (phase_at i TurnRefused (s\<lparr>cv_submission := False\<rparr>))
      | SubmitThrew \<Rightarrow> worker_to WaitInput (phase_at i TurnRefused (s\<lparr>cv_submission := False\<rparr>)))"

definition conv_record :: "string \<Rightarrow> nat \<Rightarrow> Conversation \<Rightarrow> Conversation" where
  "conv_record input i s =
     worker_to (Recognizing input)
       (s\<lparr>cv_active_turns := cv_active_turns s @ [i], cv_submission := False\<rparr>)"

text \<open>The handler of \<open>ExecutorOverloaded\<close>: a store outside the turn mutex, then a section.\<close>

definition conv_refuse :: "string \<Rightarrow> nat \<Rightarrow> Conversation \<Rightarrow> Conversation" where
  "conv_refuse input i s = worker_to (Clearing input i) (s\<lparr>cv_state := Listening\<rparr>)"

definition conv_clear_refused :: "string \<Rightarrow> nat \<Rightarrow> Conversation \<Rightarrow> Conversation" where
  "conv_clear_refused input i s =
     worker_to (Recognizing input)
       (s\<lparr>cv_turn_id := (if cv_turn_id s = st_turn_id (cv_turns s ! i) then [] else cv_turn_id s)\<rparr>)"

section \<open>A response\<close>

text \<open>The test the callbacks make: alive and of the current generation.\<close>

definition turn_current :: "Conversation \<Rightarrow> SpeechTurn \<Rightarrow> bool" where
  "turn_current s t \<longleftrightarrow> cv_alive s \<and> st_generation t = cv_generation s"

text \<open>Where \<open>speak\<close> goes on with the sentences left, and where it goes when it answers \<open>false\<close>: the
  completion leaves its loop, the delta callback stops the model.\<close>

definition speak_next :: "string list \<Rightarrow> bool \<Rightarrow> TurnPhase" where
  "speak_next rest flushing =
     (if rest \<noteq> [] then SpeakEntry rest flushing else if flushing then TurnFinishing else TurnStreaming)"

definition speak_stopped :: "bool \<Rightarrow> TurnPhase" where
  "speak_stopped flushing = (if flushing then TurnFinishing else TurnFailing)"

definition turn_delta :: "string \<Rightarrow> nat \<Rightarrow> Conversation \<Rightarrow> Conversation" where
  "turn_delta delta i s =
     (case segmenter_push (st_segmenter (cv_turns s ! i)) delta of
        (r, seg) \<Rightarrow>
          turn_at i (\<lambda>t. t\<lparr>st_segmenter := seg,
            st_phase := (case r of Inl _ \<Rightarrow> TurnFailing | Inr sentences \<Rightarrow> speak_next sentences False)\<rparr>) s)"

definition speak_enter :: "string list \<Rightarrow> bool \<Rightarrow> nat \<Rightarrow> Conversation \<Rightarrow> Conversation" where
  "speak_enter sentences flushing i s =
     phase_at i
       (if \<not> turn_current s (cv_turns s ! i) then speak_stopped flushing
        else if st_speech_started (cv_turns s ! i) then SpeakPushing sentences flushing
        else SpeakStarting sentences flushing) s"

definition speak_start :: "string list \<Rightarrow> bool \<Rightarrow> nat \<Rightarrow> Conversation \<Rightarrow> Conversation" where
  "speak_start sentences flushing i s =
     (if st_generation (cv_turns s ! i) \<noteq> cv_generation s then phase_at i (speak_stopped flushing) s
      else turn_at i (\<lambda>t. t\<lparr>st_speech_started := True, st_speech := LivePipeline None,
             st_phase := SpeakPushing sentences flushing\<rparr>) (s\<lparr>cv_state := Speaking\<rparr>))"

text \<open>\<open>answer\<close> is what the pipeline's \<open>push\<close> returns.\<close>

definition speak_push :: "bool \<Rightarrow> string list \<Rightarrow> bool \<Rightarrow> nat \<Rightarrow> Conversation \<Rightarrow> Conversation" where
  "speak_push answer sentences flushing i s =
     phase_at i (if answer then speak_next (tl sentences) flushing else speak_stopped flushing) s"

text \<open>The sink of the pipeline: its test, then the events and the conversation's own sink.\<close>

definition turn_audio_check :: "AudioFrame \<Rightarrow> nat \<Rightarrow> Conversation \<Rightarrow> Conversation" where
  "turn_audio_check frame i s =
     (if turn_current s (cv_turns s ! i)
      then turn_at i (\<lambda>t. t\<lparr>st_speech := LivePipeline (Some frame)\<rparr>) s else s)"

definition turn_audio_deliver :: "AudioFrame \<Rightarrow> nat \<Rightarrow> Conversation \<Rightarrow> Conversation" where
  "turn_audio_deliver frame i s =
     turn_at i (\<lambda>t. t\<lparr>st_speech := LivePipeline None\<rparr>)
       (s\<lparr>cv_audio := cv_audio s @ [(st_generation (cv_turns s ! i), frame)]\<rparr>)"

text \<open>The completion callback up to \<open>finish\<close>; \<open>stop\<close> is what the checks before it see.\<close>

definition turn_complete :: "bool \<Rightarrow> nat \<Rightarrow> Conversation \<Rightarrow> Conversation" where
  "turn_complete stop i s =
     (if stop then phase_at i TurnFailing s
      else case segmenter_flush (st_segmenter (cv_turns s ! i)) of
          (r, seg) \<Rightarrow>
            turn_at i (\<lambda>t. t\<lparr>st_segmenter := seg,
              st_phase := (case r of Inl _ \<Rightarrow> TurnFailing | Inr sentences \<Rightarrow> speak_next sentences True)\<rparr>) s)"

definition turn_join_speech :: "nat \<Rightarrow> Conversation \<Rightarrow> Conversation" where
  "turn_join_speech i = turn_at i (\<lambda>t. t\<lparr>st_speech := JoinedPipeline\<rparr>)"

definition turn_decide :: "bool \<Rightarrow> nat \<Rightarrow> Conversation \<Rightarrow> Conversation" where
  "turn_decide stop i s =
     (if stop \<or> \<not> turn_current s (cv_turns s ! i) then phase_at i TurnFailing s
      else turn_at i (\<lambda>t. t\<lparr>st_outcomes := st_outcomes t @ [ConversationTurnCompleted],
             st_phase := TurnCompleting\<rparr>) s)"

text \<open>The last section of both callbacks.\<close>

definition turn_clear :: "nat \<Rightarrow> Conversation \<Rightarrow> Conversation" where
  "turn_clear i s =
     (if st_generation (cv_turns s ! i) = cv_generation s \<and> cv_turn_id s = st_turn_id (cv_turns s ! i)
      then s\<lparr>cv_state := Listening, cv_turn_id := []\<rparr> else s)"

definition turn_completed :: "nat \<Rightarrow> Conversation \<Rightarrow> Conversation" where
  "turn_completed i s = phase_at i TurnOver (turn_clear i s)"

text \<open>\<open>expired\<close> and \<open>cancelled\<close> are what the context answers; an executor may cancel a turn as well.\<close>

definition turn_fail :: "bool \<Rightarrow> bool \<Rightarrow> nat \<Rightarrow> Conversation \<Rightarrow> Conversation" where
  "turn_fail expired cancelled i s =
     turn_at i (\<lambda>t. t\<lparr>st_outcomes := st_outcomes t @
         [if expired then ConversationTurnFailed
          else if cancelled \<or> st_generation t \<noteq> cv_generation s then ConversationTurnCancelled
          else ConversationTurnFailed],
       st_phase := TurnClosing\<rparr>) s"

definition turn_close :: "nat \<Rightarrow> Conversation \<Rightarrow> Conversation" where
  "turn_close i s = phase_at i TurnOver (if cv_alive s then turn_clear i s else s)"

text \<open>An exception inside the task: of the model, the pipeline or an observer. The failure handler is
  called, except when it is the failure handler itself that throws.\<close>

definition turn_throw :: "nat \<Rightarrow> Conversation \<Rightarrow> Conversation" where
  "turn_throw i =
     turn_at i (\<lambda>t. t\<lparr>st_phase := (if st_phase t = TurnClosing then TurnUnreported else TurnFailing),
       st_threw := True\<rparr>)"

fun may_throw :: "TurnPhase \<Rightarrow> bool" where
  "may_throw TurnStreaming = True"
| "may_throw (SpeakPushing _ _) = True"
| "may_throw TurnFinishing = True"
| "may_throw TurnCompleting = True"
| "may_throw TurnClosing = True"
| "may_throw _ = False"

section \<open>Interruption and release\<close>

definition session_cancel :: "Conversation \<Rightarrow> Conversation" where
  "session_cancel s = s\<lparr>cv_turns := map (\<lambda>t. t\<lparr>st_cancelled := True\<rparr>) (cv_turns s)\<rparr>"

definition interrupter_to :: "nat \<Rightarrow> Interrupter \<Rightarrow> Conversation \<Rightarrow> Conversation" where
  "interrupter_to k x s = s\<lparr>cv_interrupters := (cv_interrupters s)[k := x]\<rparr>"

text \<open>\<open>interrupt\<close> after its event: the locked section, then the signals, still under the submission mutex.\<close>

definition conv_interrupt :: "Conversation \<Rightarrow> Conversation" where
  "conv_interrupt s =
     s\<lparr>cv_submission := True, cv_generation := cv_generation s + 1, cv_state := Listening, cv_turn_id := []\<rparr>"

definition conv_interrupt_signal :: "Conversation \<Rightarrow> Conversation" where
  "conv_interrupt_signal s = (session_cancel s)\<lparr>cv_submission := False\<rparr>"

definition conv_release :: "Conversation \<Rightarrow> Conversation" where
  "conv_release s =
     session_cancel (s\<lparr>cv_alive := False, cv_generation := cv_generation s + 1, cv_releaser := Released\<rparr>)"

definition conv_release_input :: "Conversation \<Rightarrow> Conversation" where
  "conv_release_input s = s\<lparr>cv_stopping := True, cv_audio_queue := [], cv_releaser := JoiningInput\<rparr>"

definition conv_swap_turns :: "Conversation \<Rightarrow> Conversation" where
  "conv_swap_turns s = s\<lparr>cv_releaser := WaitingTurns (cv_active_turns s), cv_active_turns := []\<rparr>"

section \<open>Steps\<close>

text \<open>A response is run when every earlier one has left the lane; it is dropped at any time.\<close>

definition lane_free :: "nat \<Rightarrow> Conversation \<Rightarrow> bool" where
  "lane_free i s \<longleftrightarrow> (\<forall>t\<in>set (take i (cv_turns s)). turn_ended (st_phase t))"

inductive turn_step :: "Conversation \<Rightarrow> nat \<Rightarrow> TurnPhase \<Rightarrow> Conversation \<Rightarrow> bool"
  for s :: Conversation and i :: nat where
  start: "lane_free i s \<Longrightarrow> turn_step s i TurnQueued (phase_at i TurnStreaming s)"
| stopped_in_lane: "lane_free i s \<Longrightarrow> turn_step s i TurnQueued (phase_at i TurnFailing s)"
| dropped: "turn_step s i TurnQueued (phase_at i TurnDropped s)"
| delta: "turn_step s i TurnStreaming (turn_delta delta i s)"
| enter: "turn_step s i (SpeakEntry sentences fl) (speak_enter sentences fl i s)"
| begin_speech: "turn_step s i (SpeakStarting sentences fl) (speak_start sentences fl i s)"
| push: "turn_step s i (SpeakPushing sentences fl) (speak_push answer sentences fl i s)"
| complete: "(st_cancelled (cv_turns s ! i) \<Longrightarrow> stop) \<Longrightarrow>
    turn_step s i TurnStreaming (turn_complete stop i s)"
| join_speech: "st_speech (cv_turns s ! i) = LivePipeline None \<Longrightarrow> p = TurnFinishing \<or> p = TurnFailing \<Longrightarrow>
    turn_step s i p (turn_join_speech i s)"
| decide: "st_speech (cv_turns s ! i) \<in> {NoPipeline, JoinedPipeline} \<Longrightarrow>
    (st_cancelled (cv_turns s ! i) \<Longrightarrow> stop) \<Longrightarrow> turn_step s i TurnFinishing (turn_decide stop i s)"
| completed: "turn_step s i TurnCompleting (turn_completed i s)"
| fail: "st_speech (cv_turns s ! i) \<in> {NoPipeline, JoinedPipeline} \<Longrightarrow>
    (st_cancelled (cv_turns s ! i) \<Longrightarrow> cancelled) \<Longrightarrow>
    turn_step s i TurnFailing (turn_fail expired cancelled i s)"
| close: "turn_step s i TurnClosing (turn_close i s)"
| throw: "may_throw p \<Longrightarrow> (p = TurnFinishing \<Longrightarrow> st_speech (cv_turns s ! i) = JoinedPipeline) \<Longrightarrow>
    turn_step s i p (turn_throw i s)"
| audio_check: "st_speech (cv_turns s ! i) = LivePipeline None \<Longrightarrow> turn_step s i p (turn_audio_check frame i s)"
| audio_deliver: "st_speech (cv_turns s ! i) = LivePipeline (Some frame) \<Longrightarrow>
    turn_step s i p (turn_audio_deliver frame i s)"

inductive conv_step :: "Conversation \<Rightarrow> Conversation \<Rightarrow> bool" where
  push_audio: "(\<not> alive \<Longrightarrow> \<not> cv_alive s) \<Longrightarrow> conv_push_audio alive frame s = (answer, s') \<Longrightarrow> conv_step s s'"
| reap: "conv_step s (conv_reap_turns s)"
| take_audio: "cv_worker s = WaitInput \<Longrightarrow> conv_wait_ready s \<Longrightarrow> conv_step s (conv_take_audio s)"
| transcript: "cv_worker s = Recognizing input \<Longrightarrow> conv_step s (conv_transcript input body final s)"
| recognized: "cv_worker s \<in> {Recognizing input, Deciding input turn_id} \<Longrightarrow> conv_step s (worker_to WaitInput s)"
| begin_turn: "cv_worker s = Deciding input turn_id \<Longrightarrow> \<not> cv_submission s \<Longrightarrow>
    conv_step s (conv_begin_turn input turn_id s)"
| submit: "cv_worker s = Submitting input i \<Longrightarrow> conv_step s (conv_submit outcome input i s)"
| record_turn: "cv_worker s = Recording input i \<Longrightarrow> conv_step s (conv_record input i s)"
| refuse: "cv_worker s = Refusing input i \<Longrightarrow> conv_step s (conv_refuse input i s)"
| clear_refused: "cv_worker s = Clearing input i \<Longrightarrow> conv_step s (conv_clear_refused input i s)"
| turn: "i < length (cv_turns s) \<Longrightarrow> turn_step s i (st_phase (cv_turns s ! i)) s' \<Longrightarrow> conv_step s s'"
| interrupt_call: "k < length (cv_interrupters s) \<Longrightarrow> cv_interrupters s ! k = NoInterrupt \<Longrightarrow>
    conv_step s (interrupter_to k InterruptRecorded s)"
| interrupt: "k < length (cv_interrupters s) \<Longrightarrow> cv_interrupters s ! k = InterruptRecorded \<Longrightarrow>
    \<not> cv_submission s \<Longrightarrow> conv_step s (interrupter_to k InterruptSignalling (conv_interrupt s))"
| interrupt_signal: "k < length (cv_interrupters s) \<Longrightarrow> cv_interrupters s ! k = InterruptSignalling \<Longrightarrow>
    conv_step s (interrupter_to k NoInterrupt (conv_interrupt_signal s))"
| release: "cv_releaser s = InUse \<Longrightarrow> \<not> cv_submission s \<Longrightarrow> conv_step s (conv_release s)"
| release_input: "cv_releaser s = Released \<Longrightarrow> conv_step s (conv_release_input s)"
| swap_turns: "cv_releaser s = JoiningInput \<Longrightarrow> cv_worker s = InputExited \<Longrightarrow> conv_step s (conv_swap_turns s)"
| destroyed: "cv_releaser s = WaitingTurns turns \<Longrightarrow>
    \<forall>i\<in>set turns. turn_ended (st_phase (cv_turns s ! i)) \<Longrightarrow> conv_step s (s\<lparr>cv_releaser := Destroyed\<rparr>)"

inductive_cases turn_stepE: "turn_step s i p t"
inductive_cases conv_stepE: "conv_step s t"

end
