(* ===== verification/Conversation_Invariant.thy ===== *)
theory Conversation_Invariant
  imports Conversation
begin

text \<open>
  The invariant of the speech gateway: the lane runs one response at a time and in order, each response
  is consistent with where it is, one thread holds the submission mutex, and the state and turn id a
  caller reads follow the latest submitted response of the current generation.
\<close>

section \<open>One response\<close>

abbreviation turn :: "Conversation \<Rightarrow> nat \<Rightarrow> SpeechTurn" where
  "turn s i \<equiv> cv_turns s ! i"

text \<open>A response that has left the queue of its lane.\<close>

fun advanced :: "TurnPhase \<Rightarrow> bool" where
  "advanced TurnCreating = False"
| "advanced TurnQueued = False"
| "advanced TurnRefused = False"
| "advanced TurnDropped = False"
| "advanced _ = True"

fun may_speak :: "TurnPhase \<Rightarrow> bool" where
  "may_speak TurnStreaming = True"
| "may_speak (SpeakEntry _ _) = True"
| "may_speak (SpeakPushing _ _) = True"
| "may_speak TurnFinishing = True"
| "may_speak TurnFailing = True"
| "may_speak _ = False"

fun live_speech :: "SpeechPipeline \<Rightarrow> bool" where
  "live_speech (LivePipeline _) = True"
| "live_speech _ = False"

text \<open>
  How many outcome events a response has published where it is, when nothing it calls threw; and one
  more at most when the completion's own events threw, after which the failure handler reports.
\<close>

fun outcomes_at :: "TurnPhase \<Rightarrow> nat" where
  "outcomes_at TurnCompleting = 1"
| "outcomes_at TurnClosing = 1"
| "outcomes_at TurnOver = 1"
| "outcomes_at TurnUnreported = 1"
| "outcomes_at _ = 0"

fun failure_handled :: "TurnPhase \<Rightarrow> bool" where
  "failure_handled TurnFailing = True"
| "failure_handled TurnClosing = True"
| "failure_handled TurnOver = True"
| "failure_handled TurnUnreported = True"
| "failure_handled _ = False"

definition turn_ok :: "SpeechTurn \<Rightarrow> bool" where
  "turn_ok t \<longleftrightarrow>
     (live_speech (st_speech t) \<longrightarrow> may_speak (st_phase t)) \<and>
     (st_speech t \<noteq> NoPipeline \<longrightarrow> st_speech_started t) \<and>
     (\<forall>sentences fl. st_phase t = SpeakStarting sentences fl \<longrightarrow> \<not> st_speech_started t) \<and>
     (st_threw t \<longrightarrow> advanced (st_phase t)) \<and>
     outcomes_at (st_phase t) \<le> length (st_outcomes t) \<and>
     length (st_outcomes t) \<le>
       outcomes_at (st_phase t) + (if st_threw t \<and> failure_handled (st_phase t) then 1 else 0)"

text \<open>The frame the callback has let through and the sink has not yet been given.\<close>

fun checked_frame :: "SpeechPipeline \<Rightarrow> AudioFrame list" where
  "checked_frame (LivePipeline (Some f)) = [f]"
| "checked_frame _ = []"

definition inflight :: "SpeechTurn \<Rightarrow> (nat \<times> AudioFrame) list" where
  "inflight t = map (Pair (st_generation t)) (checked_frame (st_speech t))"

lemma turn_at_select [simp]:
  "cv_config (turn_at i f s) = cv_config s" "cv_alive (turn_at i f s) = cv_alive s"
  "cv_state (turn_at i f s) = cv_state s" "cv_generation (turn_at i f s) = cv_generation s"
  "cv_turn_id (turn_at i f s) = cv_turn_id s" "cv_audio (turn_at i f s) = cv_audio s"
  "length (cv_turns (turn_at i f s)) = length (cv_turns s)"
  by (simp_all add: turn_at_def)

lemma turn_at_nth [simp]: "i < length (cv_turns s) \<Longrightarrow> turn (turn_at i f s) i = f (turn s i)"
  by (simp add: turn_at_def)

lemmas turn_step_defs = phase_at_def turn_delta_def speak_enter_def speak_start_def speak_push_def
  turn_audio_check_def turn_audio_deliver_def turn_complete_def turn_join_speech_def turn_decide_def
  turn_clear_def turn_completed_def turn_fail_def turn_close_def turn_throw_def

lemma speak_next_simps [simp]:
  "speak_next rest fl \<noteq> TurnCreating" "speak_next rest fl \<noteq> TurnRefused" "speak_next rest fl \<noteq> TurnQueued"
  "speak_stopped fl \<noteq> TurnCreating" "advanced (speak_next rest fl)" "advanced (speak_stopped fl)"
  "\<not> turn_ended (speak_next rest fl)" "\<not> turn_ended (speak_stopped fl)"
  "may_speak (speak_next rest fl)" "may_speak (speak_stopped fl)"
  "outcomes_at (speak_next rest fl) = 0" "outcomes_at (speak_stopped fl) = 0"
  "speak_next rest fl \<noteq> TurnOver" "speak_stopped fl \<noteq> TurnOver" "speak_next rest fl \<noteq> SpeakStarting a b" "speak_stopped fl \<noteq> SpeakStarting a b"
  by (simp_all add: speak_next_def speak_stopped_def)

lemma turn_step_frame:
  assumes "turn_step s i p u" and "i < length (cv_turns s)"
  shows "u = s\<lparr>cv_turns := (cv_turns s)[i := turn u i], cv_state := cv_state u,
    cv_turn_id := cv_turn_id u, cv_audio := cv_audio u\<rparr>"
  using assms by (cases rule: turn_step.cases)
    (simp_all add: turn_step_defs turn_at_def split: prod.split)

lemma turn_step_names:
  assumes "turn_step s i p u" and "i < length (cv_turns s)"
  shows "st_generation (turn u i) = st_generation (turn s i) \<and> st_turn_id (turn u i) = st_turn_id (turn s i)"
  using assms by (cases rule: turn_step.cases) (simp_all add: turn_step_defs split: prod.split)

lemma turn_step_phases:
  assumes "turn_step s i (st_phase (turn s i)) u" and "i < length (cv_turns s)" and "turn_ok (turn s i)"
  shows "\<not> turn_ended (st_phase (turn s i)) \<and> st_phase (turn s i) \<noteq> TurnCreating \<and>
    (advanced (st_phase (turn u i)) \<longrightarrow> advanced (st_phase (turn s i)) \<or> lane_free i s)"
  using assms(1)
proof cases
  case (join_speech)
  then show ?thesis using assms(2) by (auto simp: turn_step_defs)
next
  case (throw)
  then show ?thesis using assms(2)
    by (cases "st_phase (turn s i)") (simp_all add: turn_step_defs)
next
  case (audio_check frame)
  then have "may_speak (st_phase (turn s i))" using assms(3) by (simp add: turn_ok_def)
  then show ?thesis using audio_check assms(2)
    by (cases "st_phase (turn s i)") (simp_all add: turn_step_defs)
next
  case (audio_deliver frame)
  then have "may_speak (st_phase (turn s i))" using assms(3) by (simp add: turn_ok_def)
  then show ?thesis using audio_deliver assms(2)
    by (cases "st_phase (turn s i)") (simp_all add: turn_step_defs)
qed (use assms(2) in \<open>simp_all add: turn_step_defs split: prod.split sum.split\<close>)

lemma turn_step_ok:
  assumes "turn_step s i (st_phase (turn s i)) u" and "i < length (cv_turns s)" and "turn_ok (turn s i)"
  shows "turn_ok (turn u i)"
  using assms(1)
proof cases
  case (join_speech)
  then show ?thesis using assms(2,3) by (auto simp: turn_step_defs turn_ok_def)
next
  case (throw)
  then show ?thesis using assms(2,3)
    by (cases "st_phase (turn s i)"; cases "st_speech (turn s i)")
      (simp_all add: turn_step_defs turn_ok_def split: if_splits)
qed (use assms(2,3) in \<open>auto simp: turn_step_defs turn_ok_def split: prod.split sum.split\<close>)

lemma turn_step_effect:
  assumes "turn_step s i (st_phase (turn s i)) u" and "i < length (cv_turns s)" and "turn_ok (turn s i)"
  shows "cv_state u = cv_state s \<and> cv_turn_id u = cv_turn_id s \<and> \<not> (st_phase (turn u i) = TurnOver \<and> cv_alive s) \<or>
    cv_state u = Speaking \<and> cv_turn_id u = cv_turn_id s \<and>
      st_generation (turn s i) = cv_generation s \<and> \<not> turn_ended (st_phase (turn u i)) \<or>
    st_phase (turn u i) = TurnOver \<and> cv_state u = cv_state (turn_clear i s) \<and> cv_turn_id u = cv_turn_id (turn_clear i s)"
proof -
  have old: "\<not> turn_ended (st_phase (turn s i))" using turn_step_phases [OF assms] by simp
  have "st_phase (turn s i) \<noteq> TurnOver" using old by auto
  then show ?thesis using assms(1)
    by (elim turn_step.cases) (use assms(2) in \<open>simp_all add: turn_step_defs split: prod.split sum.split\<close>)
qed

text \<open>Only the start of its speech makes a response set the state, apart from its last section.\<close>

lemma turn_step_state:
  assumes "turn_step s i (st_phase (turn s i)) u" and "i < length (cv_turns s)" and "turn_ok (turn s i)"
  shows "st_speech_started (turn u i) = st_speech_started (turn s i) \<and>
      (cv_state u = cv_state s \<or> st_phase (turn u i) = TurnOver) \<or>
    \<not> st_speech_started (turn s i) \<and> st_speech_started (turn u i) \<and> cv_state u = Speaking \<and>
      \<not> turn_ended (st_phase (turn u i)) \<and> st_generation (turn s i) = cv_generation s"
  using assms(1)
proof cases
  case (begin_speech sentences fl)
  then have "\<not> st_speech_started (turn s i)" using assms(3) by (auto simp: turn_ok_def)
  then show ?thesis using begin_speech assms(2)
    by (cases "st_generation (turn s i) = cv_generation s") (simp_all add: speak_start_def phase_at_def)
qed (use assms(2) in \<open>simp_all add: turn_step_defs split: prod.split sum.split\<close>)

lemma turn_step_audio:
  assumes "turn_step s i (st_phase (turn s i)) u" and "i < length (cv_turns s)" and "turn_ok (turn s i)"
  shows "cv_audio u = cv_audio s \<and> inflight (turn u i) = inflight (turn s i) \<or>
    cv_audio u = cv_audio s \<and> st_generation (turn s i) = cv_generation s \<and> inflight (turn s i) = [] \<or>
    cv_audio u = cv_audio s @ inflight (turn s i) \<and> inflight (turn u i) = []"
  using assms(1)
proof cases
  case (begin_speech sentences fl)
  then have "st_speech (turn s i) = NoPipeline" using assms(3) by (auto simp: turn_ok_def)
  then show ?thesis using begin_speech assms(2) by (simp add: turn_step_defs inflight_def)
qed (use assms(2) in \<open>simp_all add: turn_step_defs inflight_def turn_current_def split: prod.split sum.split\<close>)

section \<open>The invariant\<close>

definition generations_ok :: "Conversation \<Rightarrow> bool" where
  "generations_ok s \<longleftrightarrow>
     (\<forall>j<length (cv_turns s). st_generation (turn s j) \<le> cv_generation s \<and>
        (\<forall>i\<le>j. st_generation (turn s i) \<le> st_generation (turn s j)))"

definition conv_lane_ok :: "Conversation \<Rightarrow> bool" where
  "conv_lane_ok s \<longleftrightarrow>
     (\<forall>j<length (cv_turns s). \<forall>i<j. advanced (st_phase (turn s j)) \<longrightarrow> turn_ended (st_phase (turn s i)))"

definition turns_ok :: "Conversation \<Rightarrow> bool" where
  "turns_ok s \<longleftrightarrow> (\<forall>i<length (cv_turns s). turn_ok (turn s i))"

fun submits :: "InputWorker \<Rightarrow> bool" where
  "submits (Submitting _ _) = True"
| "submits (Recording _ _) = True"
| "submits _ = False"

fun conv_worker_ok :: "InputWorker \<Rightarrow> Conversation \<Rightarrow> bool" where
  "conv_worker_ok (Submitting _ i) s =
     (length (cv_turns s) = i + 1 \<and> st_phase (turn s i) = TurnCreating \<and>
      st_generation (turn s i) = cv_generation s)"
| "conv_worker_ok (Recording _ i) s = (length (cv_turns s) = i + 1)"
| "conv_worker_ok (Refusing _ i) s = (length (cv_turns s) = i + 1 \<and> st_phase (turn s i) = TurnRefused)"
| "conv_worker_ok (Clearing _ i) s = (length (cv_turns s) = i + 1 \<and> st_phase (turn s i) = TurnRefused)"
| "conv_worker_ok _ s = True"

definition signalling :: "Conversation \<Rightarrow> nat set" where
  "signalling s = {k. k < length (cv_interrupters s) \<and> cv_interrupters s ! k = InterruptSignalling}"

text \<open>One holder of the submission mutex.\<close>

definition lock_ok :: "Conversation \<Rightarrow> bool" where
  "lock_ok s \<longleftrightarrow>
     (submits (cv_worker s) \<longrightarrow> cv_submission s \<and> signalling s = {}) \<and>
     (\<forall>k\<in>signalling s. cv_submission s \<and> signalling s \<subseteq> {k})"

definition conv_base :: "Conversation \<Rightarrow> bool" where
  "conv_base s \<longleftrightarrow>
     generations_ok s \<and> conv_lane_ok s \<and> turns_ok s \<and> conv_worker_ok (cv_worker s) s \<and> lock_ok s"

lemma turn_step_others:
  assumes "turn_step s i p u" and "i < length (cv_turns s)"
  shows "cv_generation u = cv_generation s" "cv_worker u = cv_worker s" "cv_submission u = cv_submission s"
    "cv_interrupters u = cv_interrupters s" "cv_alive u = cv_alive s" "cv_active_turns u = cv_active_turns s"
    "cv_releaser u = cv_releaser s" "cv_stopping u = cv_stopping s" "cv_audio_queue u = cv_audio_queue s"
    "cv_accepted u = cv_accepted s" "cv_taken u = cv_taken s" "cv_config u = cv_config s"
    "length (cv_turns u) = length (cv_turns s)" "j \<noteq> i \<Longrightarrow> turn u j = turn s j"
proof -
  obtain t c d a where u: "u = s\<lparr>cv_turns := (cv_turns s)[i := t], cv_state := c, cv_turn_id := d, cv_audio := a\<rparr>"
    using turn_step_frame [OF assms] by blast
  show "cv_generation u = cv_generation s" "cv_worker u = cv_worker s" "cv_submission u = cv_submission s"
    "cv_interrupters u = cv_interrupters s" "cv_alive u = cv_alive s" "cv_active_turns u = cv_active_turns s"
    "cv_releaser u = cv_releaser s" "cv_stopping u = cv_stopping s" "cv_audio_queue u = cv_audio_queue s"
    "cv_accepted u = cv_accepted s" "cv_taken u = cv_taken s" "cv_config u = cv_config s"
    "length (cv_turns u) = length (cv_turns s)" "j \<noteq> i \<Longrightarrow> turn u j = turn s j"
    by (simp_all add: u)
qed

lemma turn_step_base:
  assumes "conv_base s" and "turn_step s i (st_phase (turn s i)) u" and "i < length (cv_turns s)"
  shows "conv_base u"
proof -
  note others = turn_step_others [OF assms(2,3)]
  have ok: "turn_ok (turn s i)" using assms(1,3) by (simp add: conv_base_def turns_ok_def)
  note names = turn_step_names [OF assms(2,3)] and phases = turn_step_phases [OF assms(2,3) ok]
  have at: "turn u j = (if j = i then turn u i else turn s j)" for j using others(14) [of j] by simp
  have gen: "st_generation (turn u j) = st_generation (turn s j)" for j using at [of j] names by simp
  have "generations_ok u" using assms(1) by (simp add: conv_base_def generations_ok_def gen others)
  moreover have "conv_lane_ok u"
    unfolding conv_lane_ok_def
  proof (intro allI impI)
    fix j k assume j: "j < length (cv_turns u)" "k < j" and adv: "advanced (st_phase (turn u j))"
    have turn_ended: "turn_ended (st_phase (turn s k))"
    proof (cases "j = i")
      case True
      show ?thesis
      proof (cases "advanced (st_phase (turn s i))")
        case True
        then show ?thesis using assms(1) j \<open>j = i\<close> others(13) by (simp add: conv_base_def conv_lane_ok_def)
      next
        case False
        then have "lane_free i s" using phases adv \<open>j = i\<close> by simp
        moreover have "turn s k \<in> set (take i (cv_turns s))"
          using j \<open>j = i\<close> others(13) by (auto simp: in_set_conv_nth intro!: exI [of _ k])
        ultimately show ?thesis by (simp add: lane_free_def)
      qed
    next
      case False
      then show ?thesis using assms(1) j adv others(13) at [of j] by (simp add: conv_base_def conv_lane_ok_def)
    qed
    then have "k \<noteq> i" using phases by auto
    then show "turn_ended (st_phase (turn u k))" using turn_ended at [of k] by simp
  qed
  moreover have "turns_ok u"
    unfolding turns_ok_def
  proof (intro allI impI)
    fix j assume "j < length (cv_turns u)"
    then show "turn_ok (turn u j)"
      using assms(1) turn_step_ok [OF assms(2,3) ok] others(13) at [of j]
      by (cases "j = i") (simp_all add: conv_base_def turns_ok_def)
  qed
  moreover have "conv_worker_ok (cv_worker u) u"
  proof -
    have keep: "st_phase (turn u j) = st_phase (turn s j)"
      if "st_phase (turn s j) = TurnCreating \<or> st_phase (turn s j) = TurnRefused" for j
      using that at [of j] phases by (cases "j = i") auto
    have "conv_worker_ok (cv_worker s) s" using assms(1) by (simp add: conv_base_def)
    then have "conv_worker_ok (cv_worker s) u"
      by (cases "cv_worker s") (simp_all add: others(1,13) gen keep)
    then show ?thesis by (simp add: others(2))
  qed
  moreover have "lock_ok u" using assms(1) by (simp add: conv_base_def lock_ok_def signalling_def others)
  ultimately show ?thesis by (simp add: conv_base_def)
qed

lemma session_cancel_turns [simp]:
  "length (cv_turns (session_cancel s)) = length (cv_turns s)"
  "i < length (cv_turns s) \<Longrightarrow> st_generation (turn (session_cancel s) i) = st_generation (turn s i)"
  "i < length (cv_turns s) \<Longrightarrow> st_phase (turn (session_cancel s) i) = st_phase (turn s i)"
  "i < length (cv_turns s) \<Longrightarrow> st_turn_id (turn (session_cancel s) i) = st_turn_id (turn s i)"
  "i < length (cv_turns s) \<Longrightarrow>
    st_speech_started (turn (session_cancel s) i) = st_speech_started (turn s i)"
  "i < length (cv_turns s) \<Longrightarrow> inflight (turn (session_cancel s) i) = inflight (turn s i)"
  "i < length (cv_turns s) \<Longrightarrow> turn_ok (turn (session_cancel s) i) = turn_ok (turn s i)"
  by (simp_all add: session_cancel_def turn_ok_def inflight_def)

text \<open>What the invariant reads.\<close>

lemma conv_base_cong:
  assumes "conv_base s" and "cv_turns u = cv_turns s" and "cv_generation u = cv_generation s"
    and "cv_submission u = cv_submission s" and "cv_interrupters u = cv_interrupters s"
    and "conv_worker_ok (cv_worker u) s" and "submits (cv_worker u) = submits (cv_worker s)"
  shows "conv_base u"
proof -
  have "conv_worker_ok (cv_worker u) u"
    using assms(6) by (cases "cv_worker u") (simp_all add: assms(2,3))
  then show ?thesis using assms(1)
    by (simp add: conv_base_def generations_ok_def conv_lane_ok_def turns_ok_def lock_ok_def signalling_def assms(2-5,7))
qed

lemma worker_to_base:
  assumes "conv_base s" and "conv_worker_ok w s" and "submits w = submits (cv_worker s)"
  shows "conv_base (worker_to w s)"
  by (rule conv_base_cong [OF assms(1)]) (simp_all add: worker_to_def assms)

lemma conv_push_audio_base:
  assumes "conv_base s"
  shows "conv_base (snd (conv_push_audio alive frame s))"
  by (rule conv_base_cong [OF assms]) (use assms in \<open>simp_all add: conv_push_audio_def conv_base_def [of s]\<close>)

lemma conv_take_audio_base:
  assumes "conv_base s" and "cv_worker s = WaitInput"
  shows "conv_base (conv_take_audio s)"
  by (rule conv_base_cong [OF assms(1)])
    (simp_all add: conv_take_audio_def worker_to_def fresh_turn_id_def Let_def assms(2) split: list.split)

lemma conv_transcript_base:
  assumes "conv_base s" and "cv_worker s = Recognizing input"
  shows "conv_base (conv_transcript input body final s)"
  by (rule conv_base_cong [OF assms(1)])
    (simp_all add: conv_transcript_def worker_to_def fresh_turn_id_def assms(2))

lemma turn_ok_speech_turn [simp]: "turn_ok (speech_turn g i)"
  by (simp add: turn_ok_def speech_turn_def)

lemma conv_begin_turn_base:
  assumes "conv_base s" and "cv_worker s = Deciding input turn_id" and "\<not> cv_submission s"
  shows "conv_base (conv_begin_turn input turn_id s)"
proof (cases "cv_alive s")
  case True
  let ?u = "conv_begin_turn input turn_id s"
  have "generations_ok ?u" using assms(1) True
    by (auto simp: conv_base_def generations_ok_def conv_begin_turn_def worker_to_def nth_append speech_turn_def less_Suc_eq)
  moreover have "conv_lane_ok ?u" using assms(1) True
    by (auto simp: conv_base_def conv_lane_ok_def conv_begin_turn_def worker_to_def nth_append speech_turn_def less_Suc_eq)
  moreover have "turns_ok ?u" using assms(1) True
    by (simp add: conv_base_def turns_ok_def conv_begin_turn_def worker_to_def nth_append)
  moreover have "conv_worker_ok (cv_worker ?u) ?u" using True
    by (simp add: conv_begin_turn_def worker_to_def speech_turn_def)
  moreover have "lock_ok ?u" using assms True
    by (auto simp: conv_base_def lock_ok_def signalling_def conv_begin_turn_def worker_to_def)
  ultimately show ?thesis by (simp add: conv_base_def)
next
  case False
  then show ?thesis using assms(1,2) by (simp add: conv_begin_turn_def worker_to_base)
qed

lemma conv_submit_base:
  assumes "conv_base s" and "cv_worker s = Submitting input i"
  shows "conv_base (conv_submit outcome input i s)"
proof -
  let ?u = "conv_submit outcome input i s"
  have i: "length (cv_turns s) = i + 1" "st_phase (turn s i) = TurnCreating" "turn_ok (turn s i)"
    "signalling s = {}" "cv_submission s"
    using assms by (simp_all add: conv_base_def turns_ok_def lock_ok_def)
  have gen: "cv_generation ?u = cv_generation s"
    by (simp add: conv_submit_def phase_at_def worker_to_def split: SubmitOutcome.split)
  obtain p where p: "cv_turns ?u = (cv_turns s)[i := (turn s i)\<lparr>st_phase := p\<rparr>]"
    "p = TurnQueued \<or> p = TurnRefused" "p = TurnQueued \<or> \<not> submits (cv_worker ?u)"
    "outcome \<noteq> SubmitAccepted \<longrightarrow> p = TurnRefused"
    by (cases outcome) (auto simp: conv_submit_def phase_at_def turn_at_def worker_to_def)
  have "st_generation (turn ?u j) = st_generation (turn s j)" for j
    by (cases "j = i") (simp_all add: p(1) i(1))
  then have "generations_ok ?u" using assms(1)
    by (simp add: conv_base_def generations_ok_def gen p(1))
  moreover have "conv_lane_ok ?u"
    using assms(1) p(2) i(1) by (auto simp: conv_base_def conv_lane_ok_def p(1) nth_list_update)
  moreover have "turns_ok ?u"
  proof -
    have "turn_ok ((turn s i)\<lparr>st_phase := p\<rparr>)" using p(2) i(2,3) by (auto simp: turn_ok_def)
    then have "turn_ok (turn ?u j)" if "j < length (cv_turns s)" for j
      using assms(1) i(1) that by (cases "j = i") (simp_all add: conv_base_def turns_ok_def p(1))
    then show ?thesis by (simp add: turns_ok_def p(1))
  qed
  moreover have "conv_worker_ok (cv_worker ?u) ?u" using i
    by (cases outcome) (simp_all add: conv_submit_def phase_at_def turn_at_def worker_to_def)
  moreover have "lock_ok ?u"
  proof -
    have none: "signalling ?u = {}" using i(4)
      by (cases outcome) (simp_all add: signalling_def conv_submit_def phase_at_def turn_at_def worker_to_def)
    show ?thesis unfolding lock_ok_def none using i(5)
      by (cases outcome) (simp_all add: conv_submit_def phase_at_def turn_at_def worker_to_def)
  qed
  ultimately show ?thesis by (simp add: conv_base_def)
qed

lemma conv_record_base:
  assumes "conv_base s" and "cv_worker s = Recording input i"
  shows "conv_base (conv_record input i s)"
  using assms
  by (simp add: conv_base_def conv_record_def worker_to_def generations_ok_def conv_lane_ok_def turns_ok_def
      lock_ok_def signalling_def)

lemma conv_refuse_base:
  assumes "conv_base s" and "cv_worker s = Refusing input i"
  shows "conv_base (conv_refuse input i s)"
proof (rule conv_base_cong [OF assms(1)])
  have "conv_worker_ok (cv_worker s) s" using assms(1) by (simp add: conv_base_def)
  then show "conv_worker_ok (cv_worker (conv_refuse input i s)) s"
    by (simp add: assms(2) conv_refuse_def worker_to_def)
qed (simp_all add: conv_refuse_def worker_to_def assms(2))

lemma conv_clear_refused_base:
  assumes "conv_base s" and "cv_worker s = Clearing input i"
  shows "conv_base (conv_clear_refused input i s)"
  by (rule conv_base_cong [OF assms(1)]) (simp_all add: conv_clear_refused_def worker_to_def assms(2))

lemma interrupt_call_base:
  assumes "conv_base s" and "k < length (cv_interrupters s)" and "cv_interrupters s ! k = NoInterrupt"
  shows "conv_base (interrupter_to k InterruptRecorded s)"
proof -
  let ?u = "interrupter_to k InterruptRecorded s"
  have "signalling ?u = signalling s"
    using assms(2,3) by (auto simp: signalling_def interrupter_to_def nth_list_update)
  then have "lock_ok ?u" using assms(1) by (simp add: conv_base_def lock_ok_def interrupter_to_def)
  moreover have "conv_worker_ok (cv_worker s) ?u"
    using assms(1) by (cases "cv_worker s") (simp_all add: conv_base_def interrupter_to_def)
  ultimately show ?thesis using assms(1)
    by (simp add: conv_base_def generations_ok_def conv_lane_ok_def turns_ok_def interrupter_to_def)
qed

lemma interrupt_base:
  assumes "conv_base s" and "k < length (cv_interrupters s)" and "\<not> cv_submission s"
  shows "conv_base (interrupter_to k InterruptSignalling (conv_interrupt s))"
proof -
  let ?u = "interrupter_to k InterruptSignalling (conv_interrupt s)"
  have w: "\<not> submits (cv_worker s)" and none: "signalling s = {}"
    using assms(1,3) by (auto simp: conv_base_def lock_ok_def)
  have "signalling ?u = {k}"
    using none assms(2) by (auto simp: signalling_def interrupter_to_def conv_interrupt_def nth_list_update)
  then have "lock_ok ?u" using w by (simp add: lock_ok_def interrupter_to_def conv_interrupt_def)
  moreover have "conv_worker_ok (cv_worker s) ?u"
    using assms(1) w by (cases "cv_worker s") (simp_all add: conv_base_def interrupter_to_def conv_interrupt_def)
  moreover have "generations_ok ?u"
    using assms(1) by (simp add: conv_base_def generations_ok_def interrupter_to_def conv_interrupt_def le_SucI)
  ultimately show ?thesis using assms(1)
    by (simp add: conv_base_def conv_lane_ok_def turns_ok_def interrupter_to_def conv_interrupt_def)
qed

lemma session_cancel_base:
  assumes "conv_base s" shows "conv_base (session_cancel s)"
proof -
  let ?u = "session_cancel s"
  have same: "cv_worker ?u = cv_worker s" "cv_submission ?u = cv_submission s" "cv_generation ?u = cv_generation s"
    "cv_interrupters ?u = cv_interrupters s"
    by (simp_all add: session_cancel_def)
  have "conv_worker_ok (cv_worker s) ?u"
    using assms by (cases "cv_worker s") (simp_all add: conv_base_def same)
  then show ?thesis using assms
    by (simp add: conv_base_def generations_ok_def conv_lane_ok_def turns_ok_def lock_ok_def signalling_def same)
qed

lemma interrupt_signal_base:
  assumes "conv_base s" and "k < length (cv_interrupters s)" and "cv_interrupters s ! k = InterruptSignalling"
  shows "conv_base (interrupter_to k NoInterrupt (conv_interrupt_signal s))"
proof -
  let ?u = "interrupter_to k NoInterrupt (conv_interrupt_signal s)"
  have k: "k \<in> signalling s" using assms(2,3) by (simp add: signalling_def)
  then have sub: "signalling s \<subseteq> {k}" and w: "\<not> submits (cv_worker s)"
    using assms(1) by (auto simp: conv_base_def lock_ok_def)
  have "signalling ?u = {}"
    using sub assms(2)
    by (auto simp: signalling_def interrupter_to_def conv_interrupt_signal_def session_cancel_def nth_list_update)
  moreover have "cv_worker ?u = cv_worker s"
    by (simp add: interrupter_to_def conv_interrupt_signal_def session_cancel_def)
  ultimately have "lock_ok ?u" using w by (simp add: lock_ok_def)
  moreover have "conv_worker_ok (cv_worker ?u) ?u" "generations_ok ?u" "conv_lane_ok ?u" "turns_ok ?u"
  proof -
    have b: "conv_base (session_cancel s)" by (rule session_cancel_base [OF assms(1)])
    have [simp]: "cv_worker ?u = cv_worker (session_cancel s)" "cv_turns ?u = cv_turns (session_cancel s)"
      "cv_generation ?u = cv_generation (session_cancel s)"
      by (simp_all add: interrupter_to_def conv_interrupt_signal_def)
    show "generations_ok ?u" "conv_lane_ok ?u" "turns_ok ?u"
      using b unfolding conv_base_def generations_ok_def conv_lane_ok_def turns_ok_def by simp_all
    show "conv_worker_ok (cv_worker ?u) ?u"
      using b by (cases "cv_worker (session_cancel s)") (simp_all add: conv_base_def)
  qed
  ultimately show ?thesis by (simp add: conv_base_def)
qed

lemma conv_release_base:
  assumes "conv_base s" and "\<not> cv_submission s"
  shows "conv_base (conv_release s)"
  unfolding conv_release_def
proof (rule session_cancel_base)
  let ?u = "s\<lparr>cv_alive := False, cv_generation := cv_generation s + 1, cv_releaser := Released\<rparr>"
  have w: "\<not> submits (cv_worker s)" using assms by (auto simp: conv_base_def lock_ok_def)
  then have "conv_worker_ok (cv_worker s) ?u"
    using assms(1) by (cases "cv_worker s") (simp_all add: conv_base_def)
  then show "conv_base ?u" using assms(1) w
    by (simp add: conv_base_def generations_ok_def conv_lane_ok_def turns_ok_def lock_ok_def signalling_def le_SucI)
qed

lemma conv_step_base:
  assumes "conv_base s" and "conv_step s u"
  shows "conv_base u"
  using assms(2)
proof cases
  case (push_audio alive frame answer)
  then show ?thesis using conv_push_audio_base [OF assms(1), of alive frame] by simp
next
  case reap
  show ?thesis unfolding reap
    by (rule conv_base_cong [OF assms(1)]) (use assms(1) in \<open>simp_all add: conv_reap_turns_def conv_base_def\<close>)
next
  case (recognized input turn_id)
  then show ?thesis using assms(1) by (auto intro!: worker_to_base)
next
  case (turn i)
  then show ?thesis using turn_step_base [OF assms(1)] by blast
next
  case release_input
  show ?thesis unfolding release_input
    by (rule conv_base_cong [OF assms(1)]) (use assms(1) in \<open>simp_all add: conv_release_input_def conv_base_def\<close>)
next
  case swap_turns
  show ?thesis unfolding swap_turns
    by (rule conv_base_cong [OF assms(1)]) (use assms(1) in \<open>simp_all add: conv_swap_turns_def conv_base_def\<close>)
next
  case (destroyed turns)
  show ?thesis unfolding destroyed
    by (rule conv_base_cong [OF assms(1)]) (use assms(1) in \<open>simp_all add: conv_base_def\<close>)
qed (use assms(1) in \<open>simp_all add: conv_take_audio_base conv_transcript_base conv_begin_turn_base conv_submit_base
      conv_record_base conv_refuse_base conv_clear_refused_base interrupt_call_base interrupt_base
      interrupt_signal_base conv_release_base\<close>)

section \<open>State and turn id\<close>

text \<open>No submission of the current generation was refused, no observer threw in a failure handler of it, and
  its turn ids are distinct.\<close>

definition undisturbed :: "Conversation \<Rightarrow> bool" where
  "undisturbed s \<longleftrightarrow>
     (\<forall>i<length (cv_turns s). st_generation (turn s i) = cv_generation s \<longrightarrow>
        st_phase (turn s i) \<notin> {TurnRefused, TurnUnreported, TurnDropped} \<and>
        (\<forall>j<i. st_generation (turn s j) = cv_generation s \<longrightarrow> st_turn_id (turn s j) \<noteq> st_turn_id (turn s i)))"

definition latest :: "Conversation \<Rightarrow> nat" where
  "latest s = length (cv_turns s) - 1"

definition conv_busy :: "Conversation \<Rightarrow> bool" where
  "conv_busy s \<longleftrightarrow> cv_turns s \<noteq> [] \<and> st_generation (turn s (latest s)) = cv_generation s \<and>
     \<not> turn_ended (st_phase (turn s (latest s)))"

definition idle_ok :: "Conversation \<Rightarrow> bool" where
  "idle_ok s \<longleftrightarrow>
     (if conv_busy s then cv_turn_id s = st_turn_id (turn s (latest s)) \<and> cv_state s \<noteq> Listening \<and>
        (st_speech_started (turn s (latest s)) \<longrightarrow> cv_state s = Speaking)
      else cv_state s = Listening \<and> cv_turn_id s = [])"

definition conv_idle :: "Conversation \<Rightarrow> bool" where
  "conv_idle s \<longleftrightarrow> (cv_alive s \<and> undisturbed s \<longrightarrow> idle_ok s)"

text \<open>A running response of the current generation has a latest response after it.\<close>

lemma busy_if:
  assumes "conv_base s" and "undisturbed s" and "i < length (cv_turns s)"
    and "st_generation (turn s i) = cv_generation s" and "\<not> turn_ended (st_phase (turn s i))"
  shows "conv_busy s"
proof -
  let ?l = "latest s"
  have l: "?l < length (cv_turns s)" "i \<le> ?l" using assms(3) by (simp_all add: latest_def)
  then have "st_generation (turn s i) \<le> st_generation (turn s ?l)" "st_generation (turn s ?l) \<le> cv_generation s"
    using assms(1) by (simp_all add: conv_base_def generations_ok_def)
  then have gen: "st_generation (turn s ?l) = cv_generation s" using assms(4) by simp
  have "\<not> turn_ended (st_phase (turn s ?l))"
  proof (cases "i = ?l")
    case True
    then show ?thesis using assms(5) by simp
  next
    case False
    then have "\<not> advanced (st_phase (turn s ?l))"
      using assms(1,5) l by (auto simp: conv_base_def conv_lane_ok_def)
    moreover have "st_phase (turn s ?l) \<notin> {TurnRefused, TurnDropped}"
      using assms(2) l gen by (simp add: undisturbed_def)
    ultimately show ?thesis by (cases "st_phase (turn s ?l)") simp_all
  qed
  then show ?thesis using l gen by (auto simp: conv_busy_def)
qed

lemma turn_step_idle:
  assumes "conv_base s" and "conv_idle s" and "turn_step s i (st_phase (turn s i)) u" and "i < length (cv_turns s)"
  shows "conv_idle u"
  unfolding conv_idle_def
proof
  assume u: "cv_alive u \<and> undisturbed u"
  note others = turn_step_others [OF assms(3,4)]
  have ok: "turn_ok (turn s i)" using assms(1,4) by (simp add: conv_base_def turns_ok_def)
  note names = turn_step_names [OF assms(3,4)] and phases = turn_step_phases [OF assms(3,4) ok]
    and effect = turn_step_effect [OF assms(3,4) ok] and state = turn_step_state [OF assms(3,4) ok]
  have at: "turn u j = (if j = i then turn u i else turn s j)" for j using others(14) [of j] by simp
  have gen: "st_generation (turn u j) = st_generation (turn s j)" for j using at [of j] names by simp
  have name: "st_turn_id (turn u j) = st_turn_id (turn s j)" for j using at [of j] names by simp
  have latest: "latest u = latest s" by (simp add: latest_def others(13))
  have some: "cv_turns s \<noteq> []" "cv_turns u \<noteq> []" using assms(4) others(13) by auto
  have alive: "cv_alive s" using u by (simp add: others(5))
  have clean: "undisturbed s"
    unfolding undisturbed_def
  proof (intro allI impI)
    fix j assume j: "j < length (cv_turns s)" "st_generation (turn s j) = cv_generation s"
    have "st_phase (turn s j) \<notin> {TurnRefused, TurnUnreported, TurnDropped}"
      using u j phases at [of j] by (cases "j = i") (auto simp: undisturbed_def others gen)
    then show "st_phase (turn s j) \<notin> {TurnRefused, TurnUnreported, TurnDropped} \<and>
      (\<forall>k<j. st_generation (turn s k) = cv_generation s \<longrightarrow> st_turn_id (turn s k) \<noteq> st_turn_id (turn s j))"
      using u j by (simp add: undisturbed_def others gen name)
  qed
  have idle: "idle_ok s" using assms(2) alive clean by (simp add: conv_idle_def)
  show "idle_ok u"
  proof (cases "st_generation (turn s i) = cv_generation s")
    case False
    have "cv_state u = cv_state s \<and> cv_turn_id u = cv_turn_id s"
      using effect False by (auto simp: turn_clear_def)
    moreover have "conv_busy u = conv_busy s"
      using False at [of "latest s"] by (cases "latest s = i") (auto simp: conv_busy_def latest gen others some)
    moreover have "turn u (latest s) = turn s (latest s)" if "conv_busy s"
      using that False at [of "latest s"] by (cases "latest s = i") (auto simp: conv_busy_def)
    ultimately show ?thesis using idle by (simp add: idle_ok_def latest)
  next
    case True
    have old: "\<not> turn_ended (st_phase (turn s i))" using phases by simp
    have conv_busy: "conv_busy s" by (rule busy_if [OF assms(1) clean assms(4) True old])
    then have tid: "cv_turn_id s = st_turn_id (turn s (latest s))" "cv_state s \<noteq> Listening"
      "st_speech_started (turn s (latest s)) \<longrightarrow> cv_state s = Speaking"
      using idle by (simp_all add: idle_ok_def)
    have unrep: "st_phase (turn u i) \<notin> {TurnRefused, TurnUnreported, TurnDropped}"
      using u True assms(4) by (simp add: undisturbed_def others gen)
    show ?thesis
    proof (cases "i = latest s")
      case False
      then have "conv_busy u" using conv_busy at [of "latest s"] others by (auto simp: conv_busy_def latest)
      moreover have "i < latest s" "latest s < length (cv_turns s)" using False assms(4) by (simp_all add: latest_def)
      then have "st_turn_id (turn s i) \<noteq> st_turn_id (turn s (latest s))"
        using clean True conv_busy by (simp add: undisturbed_def conv_busy_def)
      then have "cv_turn_id u = cv_turn_id s \<and> (cv_state u = cv_state s \<or> cv_state u = Speaking)"
        using effect tid by (auto simp: turn_clear_def)
      moreover have "turn u (latest s) = turn s (latest s)" using False at [of "latest s"] by simp
      ultimately show ?thesis using tid by (auto simp: idle_ok_def latest)
    next
      case l: True
      show ?thesis
      proof (cases "st_phase (turn u i) = TurnOver")
        case True
        then have "cv_state u = Listening \<and> cv_turn_id u = []"
          using effect alive tid \<open>st_generation (turn s i) = cv_generation s\<close> l by (auto simp: turn_clear_def)
        moreover have "\<not> conv_busy u" using True l by (simp add: conv_busy_def latest)
        ultimately show ?thesis by (simp add: idle_ok_def)
      next
        case False
        then have "\<not> turn_ended (st_phase (turn u i))" using unrep by (cases "st_phase (turn u i)") simp_all
        then have "conv_busy u" using l assms(4) True others by (auto simp: conv_busy_def latest gen)
        moreover have "cv_turn_id u = cv_turn_id s" using effect False by auto
        moreover have "cv_state u \<noteq> Listening \<and> (st_speech_started (turn u i) \<longrightarrow> cv_state u = Speaking)"
          using state False tid(2,3) l by auto
        ultimately show ?thesis using tid(1) l by (simp add: idle_ok_def latest name)
      qed
    qed
  qed
qed


lemma idle_same:
  assumes "conv_idle s" and "cv_turns u = cv_turns s" and "cv_generation u = cv_generation s"
    and "cv_alive u = cv_alive s" and "cv_state u = cv_state s" and "cv_turn_id u = cv_turn_id s"
  shows "conv_idle u"
  using assms(1) by (simp add: conv_idle_def undisturbed_def idle_ok_def conv_busy_def latest_def assms(2-6))

lemma conv_begin_turn_idle:
  assumes "conv_idle s" shows "conv_idle (conv_begin_turn input turn_id s)"
proof (cases "cv_alive s")
  case True
  then show ?thesis
    by (simp add: conv_idle_def idle_ok_def conv_busy_def latest_def conv_begin_turn_def worker_to_def speech_turn_def)
next
  case False
  then show ?thesis by (simp add: conv_idle_def conv_begin_turn_def worker_to_def)
qed

lemma conv_submit_idle:
  assumes "conv_base s" and "conv_idle s" and "cv_worker s = Submitting input i"
  shows "conv_idle (conv_submit outcome input i s)"
proof -
  let ?u = "conv_submit outcome input i s"
  have i: "length (cv_turns s) = i + 1" "st_phase (turn s i) = TurnCreating" "st_generation (turn s i) = cv_generation s"
    using assms(1,3) by (simp_all add: conv_base_def)
  have "cv_alive ?u = cv_alive s"
    by (simp add: conv_submit_def phase_at_def worker_to_def split: SubmitOutcome.split)
  have refused: "\<not> undisturbed ?u" if "outcome \<noteq> SubmitAccepted"
    using that i by (cases outcome)
      (auto simp: undisturbed_def conv_submit_def phase_at_def turn_at_def worker_to_def intro!: exI [of _ i])
  show ?thesis
  proof (cases "outcome = SubmitAccepted")
    case True
    let ?q = "(turn s i)\<lparr>st_phase := TurnQueued\<rparr>"
    have u: "cv_turns ?u = (cv_turns s)[i := ?q]" "cv_generation ?u = cv_generation s" "cv_alive ?u = cv_alive s"
      "cv_state ?u = cv_state s" "cv_turn_id ?u = cv_turn_id s"
      using True by (simp_all add: conv_submit_def phase_at_def turn_at_def worker_to_def)
    have latest: "latest s = i" "latest ?u = i" using i(1) by (simp_all add: latest_def u)
    have at: "st_generation (turn ?u j) = st_generation (turn s j)" "st_turn_id (turn ?u j) = st_turn_id (turn s j)"
      for j by (cases "j = i"; simp add: u i(1))+
    have other: "st_phase (turn s j) = st_phase (turn ?u j)" if "j \<noteq> i" for j using that by (simp add: u)
    have "undisturbed s" if und: "undisturbed ?u"
      unfolding undisturbed_def
    proof (intro allI impI)
      fix j assume j: "j < length (cv_turns s)" "st_generation (turn s j) = cv_generation s"
      have new: "st_phase (turn ?u j) \<notin> {TurnRefused, TurnUnreported, TurnDropped} \<and>
        (\<forall>k<j. st_generation (turn s k) = cv_generation s \<longrightarrow> st_turn_id (turn s k) \<noteq> st_turn_id (turn s j))"
        using und j unfolding undisturbed_def at u(2) by (simp add: u(1))
      then show "st_phase (turn s j) \<notin> {TurnRefused, TurnUnreported, TurnDropped} \<and>
        (\<forall>k<j. st_generation (turn s k) = cv_generation s \<longrightarrow> st_turn_id (turn s k) \<noteq> st_turn_id (turn s j))"
        using other [of j] i(2) by (cases "j = i") simp_all
    qed
    moreover have "conv_busy s" "conv_busy ?u" using i by (auto simp: conv_busy_def latest u)
    moreover have "st_speech_started (turn ?u i) = st_speech_started (turn s i)" by (simp add: u(1) i(1))
    ultimately show ?thesis using assms(2) at(2) [of i]
      by (simp add: conv_idle_def idle_ok_def latest u(3-5))
  next
    case False
    then show ?thesis using refused by (simp add: conv_idle_def)
  qed
qed

lemma refused_turn_idle:
  assumes "conv_base s" and "conv_worker_ok (Refusing input i) s" and "cv_alive s" and "undisturbed s" and "idle_ok s"
  shows "cv_state s = Listening \<and> cv_turn_id s = []"
proof -
  have "\<not> conv_busy s" using assms(2) by (auto simp: conv_busy_def latest_def)
  then show ?thesis using assms(5) by (simp add: idle_ok_def)
qed

lemma refuse_idle:
  assumes "conv_base s" and "conv_idle s" and "cv_worker s = Refusing input i \<or> cv_worker s = Clearing input i"
    and "cv_turns u = cv_turns s" "cv_generation u = cv_generation s" "cv_alive u = cv_alive s"
    and "cv_state u = cv_state s \<or> cv_state u = Listening" "cv_turn_id u = cv_turn_id s \<or> cv_turn_id u = []"
  shows "conv_idle u"
  unfolding conv_idle_def
proof
  assume u: "cv_alive u \<and> undisturbed u"
  have w: "conv_worker_ok (Refusing input i) s" using assms(1,3) by (auto simp: conv_base_def)
  have und: "undisturbed s" using u by (simp add: undisturbed_def assms(4,5))
  then have idle: "idle_ok s" using u assms(2) by (simp add: conv_idle_def assms(6))
  have "cv_state s = Listening \<and> cv_turn_id s = []"
    by (rule refused_turn_idle [OF assms(1) w _ und idle]) (use u assms(6) in simp)
  moreover have "\<not> conv_busy u" using w by (auto simp: conv_busy_def latest_def assms(4,5))
  ultimately show "idle_ok u" using assms(7,8) by (auto simp: idle_ok_def)
qed

lemma interrupt_idle:
  assumes "conv_base s"
  shows "conv_idle (interrupter_to k x (conv_interrupt s))"
proof -
  let ?u = "interrupter_to k x (conv_interrupt s)"
  have "st_generation (turn s i) \<noteq> Suc (cv_generation s)" if "i < length (cv_turns s)" for i
    using assms that by (fastforce simp: conv_base_def generations_ok_def)
  then have "\<not> conv_busy ?u"
    by (cases "cv_turns s = []") (simp_all add: conv_busy_def latest_def interrupter_to_def conv_interrupt_def)
  then show ?thesis by (simp add: conv_idle_def idle_ok_def) (simp add: interrupter_to_def conv_interrupt_def)
qed

lemma session_cancel_idle:
  assumes "conv_idle s" and "cv_turns u = cv_turns (session_cancel s)" and "cv_generation u = cv_generation s"
    and "cv_alive u = cv_alive s" and "cv_state u = cv_state s" and "cv_turn_id u = cv_turn_id s"
  shows "conv_idle u"
proof -
  have "undisturbed u = undisturbed s" by (simp add: undisturbed_def assms)
  moreover have "latest u = latest s" by (simp add: latest_def assms)
  moreover have "cv_turns u = [] \<longleftrightarrow> cv_turns s = []" by (simp add: assms session_cancel_def)
  moreover have "latest s < length (cv_turns s)" if "cv_turns s \<noteq> []" using that by (simp add: latest_def)
  ultimately have "conv_busy u = conv_busy s" "conv_busy s \<Longrightarrow> st_turn_id (turn u (latest u)) = st_turn_id (turn s (latest s))"
    "conv_busy s \<Longrightarrow> st_speech_started (turn u (latest u)) = st_speech_started (turn s (latest s))"
    by (auto simp: conv_busy_def assms)
  then show ?thesis using assms(1) \<open>undisturbed u = undisturbed s\<close> by (simp add: conv_idle_def idle_ok_def assms(4-6))
qed

lemma conv_step_idle:
  assumes "conv_base s" and "conv_idle s" and "conv_step s u"
  shows "conv_idle u"
  using assms(3)
proof cases
  case (push_audio alive frame answer)
  then show ?thesis by (intro idle_same [OF assms(2)]) (auto simp: conv_push_audio_def split: if_splits)
next
  case take_audio
  show ?thesis unfolding take_audio
    by (rule idle_same [OF assms(2)]) (simp_all add: conv_take_audio_def worker_to_def fresh_turn_id_def Let_def split: list.split)
next
  case (transcript input body final)
  show ?thesis unfolding transcript
    by (rule idle_same [OF assms(2)]) (simp_all add: conv_transcript_def worker_to_def fresh_turn_id_def)
next
  case (turn i)
  then show ?thesis using turn_step_idle [OF assms(1,2)] by blast
next
  case (refuse input i)
  show ?thesis by (rule refuse_idle [OF assms(1,2), of input i]) (simp_all add: refuse conv_refuse_def worker_to_def)
next
  case (clear_refused input i)
  show ?thesis
    by (rule refuse_idle [OF assms(1,2), of input i]) (simp_all add: clear_refused conv_clear_refused_def worker_to_def)
next
  case (interrupt k)
  then show ?thesis using interrupt_idle [OF assms(1)] by simp
next
  case (interrupt_signal k)
  show ?thesis unfolding interrupt_signal
    by (rule session_cancel_idle [OF assms(2)])
      (simp_all add: interrupter_to_def conv_interrupt_signal_def session_cancel_def)
next
  case release
  then show ?thesis by (simp add: conv_idle_def conv_release_def session_cancel_def)
qed (use assms(1,2) in \<open>simp_all add: conv_begin_turn_idle conv_submit_idle interrupt_idle
      idle_same [OF assms(2)] conv_reap_turns_def worker_to_def conv_record_def interrupter_to_def
      conv_release_input_def conv_swap_turns_def\<close>)

end
