(* ===== verification/Conversation_Properties.thy ===== *)
theory Conversation_Properties
  imports Conversation_Invariant
begin

text \<open>
  What the speech gateway guarantees: the input queue is a bounded queue, the destructor outlives every
  response, the audio of interrupted responses stops, and the state follows the responses; and a run
  in which a refused transcript leaves it wrong.
\<close>

section \<open>Input and release\<close>

definition conv_input_ok :: "Conversation \<Rightarrow> bool" where
  "conv_input_ok s \<longleftrightarrow>
     length (cv_audio_queue s) \<le> cc_max_audio_frames (cv_config s) \<and>
     (\<exists>dropped. cv_accepted s = cv_taken s @ cv_audio_queue s @ dropped \<and> (dropped = [] \<or> cv_stopping s))"

lemma input_same:
  "conv_input_ok s \<Longrightarrow> cv_audio_queue u = cv_audio_queue s \<Longrightarrow> cv_config u = cv_config s \<Longrightarrow>
     cv_accepted u = cv_accepted s \<Longrightarrow> cv_taken u = cv_taken s \<Longrightarrow> cv_stopping u = cv_stopping s \<Longrightarrow> conv_input_ok u"
  by (simp add: conv_input_ok_def)

lemma conv_step_input:
  assumes "conv_input_ok s" and "conv_step s u"
  shows "conv_input_ok u"
  using assms(2)
proof cases
  case (push_audio alive frame answer)
  then show ?thesis using assms(1) by (auto simp: conv_push_audio_def conv_input_ok_def split: if_splits)
next
  case take_audio
  show ?thesis
  proof (cases "cv_audio_queue s")
    case Nil
    then show ?thesis unfolding take_audio
      by (intro input_same [OF assms(1)]) (simp_all add: conv_take_audio_def worker_to_def)
  next
    case (Cons frame rest)
    then have "cv_audio_queue u = cv_audio_queue s \<and> cv_taken u = cv_taken s \<or>
      cv_audio_queue u = rest \<and> cv_taken u = cv_taken s @ [frame]"
      unfolding take_audio by (simp add: conv_take_audio_def worker_to_def fresh_turn_id_def Let_def)
    moreover have "cv_config u = cv_config s" "cv_accepted u = cv_accepted s" "cv_stopping u = cv_stopping s"
      unfolding take_audio
      by (simp_all add: conv_take_audio_def worker_to_def fresh_turn_id_def Let_def split: list.split)
    ultimately show ?thesis using assms(1) Cons by (auto simp: conv_input_ok_def)
  qed
next
  case (turn i)
  show ?thesis by (rule input_same [OF assms(1)]) (rule turn_step_others [OF turn(2,1)])+
next
  case release_input
  then show ?thesis using assms(1) by (auto simp: conv_input_ok_def conv_release_input_def)
qed (rule input_same [OF assms(1)]; simp add: conv_reap_turns_def conv_transcript_def fresh_turn_id_def
     worker_to_def conv_begin_turn_def conv_submit_def phase_at_def turn_at_def conv_record_def conv_refuse_def
     conv_clear_refused_def interrupter_to_def conv_interrupt_def conv_interrupt_signal_def session_cancel_def
     conv_release_def conv_swap_turns_def split: SubmitOutcome.split)+

text \<open>Every response that is not over is in the list the destructor waits for, or being added to it.\<close>

fun submits_turn :: "InputWorker \<Rightarrow> nat \<Rightarrow> bool" where
  "submits_turn (Submitting _ i) j = (i = j)"
| "submits_turn (Recording _ i) j = (i = j)"
| "submits_turn _ _ = False"

fun awaited :: "Releaser \<Rightarrow> nat list" where
  "awaited (WaitingTurns turns) = turns"
| "awaited _ = []"

fun joined :: "Releaser \<Rightarrow> bool" where
  "joined (WaitingTurns _) = True"
| "joined Destroyed = True"
| "joined _ = False"

definition release_ok :: "Conversation \<Rightarrow> bool" where
  "release_ok s \<longleftrightarrow>
     (cv_alive s \<longleftrightarrow> cv_releaser s = InUse) \<and>
     (joined (cv_releaser s) \<longrightarrow> cv_worker s = InputExited \<and> cv_active_turns s = []) \<and>
     (\<forall>i<length (cv_turns s). turn_ended (st_phase (turn s i)) \<or> i \<in> set (cv_active_turns s) \<or>
        i \<in> set (awaited (cv_releaser s)) \<or> submits_turn (cv_worker s) i)"

lemma release_same:
  assumes "release_ok s" and "cv_turns u = cv_turns s" and "cv_alive u = cv_alive s"
    and "cv_releaser u = cv_releaser s" and "cv_active_turns u = cv_active_turns s"
    and "joined (cv_releaser s) \<Longrightarrow> cv_worker u = cv_worker s"
    and "\<And>i. submits_turn (cv_worker s) i \<Longrightarrow> submits_turn (cv_worker u) i"
  shows "release_ok u"
  using assms(1,6,7) by (auto simp: release_ok_def assms(2-5))

lemma ended_stays:
  assumes "conv_base s" and "turn_step s i (st_phase (turn s i)) u" and "i < length (cv_turns s)"
  shows "turn_ended (st_phase (turn s j)) \<Longrightarrow> turn u j = turn s j"
proof -
  assume e: "turn_ended (st_phase (turn s j))"
  have "turn_ok (turn s i)" using assms(1,3) by (simp add: conv_base_def turns_ok_def)
  then have "\<not> turn_ended (st_phase (turn s i))" using turn_step_phases [OF assms(2,3)] by simp
  then have "j \<noteq> i" using e by auto
  then show ?thesis by (rule turn_step_others(14) [OF assms(2,3)])
qed

lemma conv_step_release:
  assumes "conv_base s" and "release_ok s" and "conv_step s u"
  shows "release_ok u"
  using assms(3)
proof cases
  case (push_audio alive frame answer)
  then show ?thesis by (intro release_same [OF assms(2)]) (auto simp: conv_push_audio_def split: if_splits)
next
  case reap
  then show ?thesis using assms(2) by (auto simp: release_ok_def conv_reap_turns_def)
next
  case take_audio
  show ?thesis unfolding take_audio
    by (rule release_same [OF assms(2)])
      (use take_audio assms(2) in \<open>simp_all add: release_ok_def conv_take_audio_def worker_to_def fresh_turn_id_def
         Let_def split: list.split\<close>)
next
  case (transcript input body final)
  show ?thesis unfolding transcript
    by (rule release_same [OF assms(2)])
      (use transcript assms(2) in \<open>simp_all add: release_ok_def conv_transcript_def worker_to_def fresh_turn_id_def\<close>)
next
  case (recognized input turn_id)
  then show ?thesis
    by (intro release_same [OF assms(2)]) (use assms(2) in \<open>auto simp: release_ok_def worker_to_def\<close>)
next
  case (begin_turn input turn_id)
  then show ?thesis using assms(2)
    by (auto simp: release_ok_def conv_begin_turn_def worker_to_def nth_append less_Suc_eq)
next
  case (submit input i outcome)
  have "length (cv_turns s) = i + 1" using assms(1) submit by (simp add: conv_base_def)
  then show ?thesis using assms(2) submit
    by (cases outcome) (auto simp: release_ok_def conv_submit_def phase_at_def turn_at_def worker_to_def nth_list_update)
next
  case (record_turn input i)
  then show ?thesis using assms(2) by (auto simp: release_ok_def conv_record_def worker_to_def)
next
  case (refuse input i)
  then show ?thesis
    by (intro release_same [OF assms(2)]) (use assms(2) in \<open>auto simp: release_ok_def conv_refuse_def worker_to_def\<close>)
next
  case (clear_refused input i)
  then show ?thesis
    by (intro release_same [OF assms(2)]) (use assms(2) in \<open>auto simp: release_ok_def conv_clear_refused_def worker_to_def\<close>)
next
  case (turn i)
  note others = turn_step_others [OF turn(2,1)]
  have "turn_ended (st_phase (turn u j))" if "turn_ended (st_phase (turn s j))" for j
    using ended_stays [OF assms(1) turn(2,1) that] that by simp
  then show ?thesis using assms(2) by (auto simp: release_ok_def others)
next
  case (interrupt_signal k)
  then show ?thesis using assms(2)
    by (auto simp: release_ok_def interrupter_to_def conv_interrupt_signal_def session_cancel_def)
next
  case release
  then show ?thesis using assms(2) by (auto simp: release_ok_def conv_release_def session_cancel_def)
next
  case release_input
  then show ?thesis using assms(2) by (auto simp: release_ok_def conv_release_input_def)
next
  case swap_turns
  then show ?thesis using assms(2) by (auto simp: release_ok_def conv_swap_turns_def)
next
  case (destroyed turns)
  then show ?thesis using assms(2) by (auto simp: release_ok_def)
qed (rule release_same [OF assms(2)]; simp add: interrupter_to_def conv_interrupt_def)+

section \<open>Audio of older generations\<close>

definition older :: "nat \<Rightarrow> (nat \<times> AudioFrame) list \<Rightarrow> (nat \<times> AudioFrame) list" where
  "older g = filter (\<lambda>x. fst x < g)"

definition pending :: "nat \<Rightarrow> Conversation \<Rightarrow> (nat \<times> AudioFrame) list" where
  "pending g s = concat (map (\<lambda>t. older g (inflight t)) (cv_turns s))"

lemma live_alone:
  assumes "conv_base s" and "i < length (cv_turns s)" and "j < length (cv_turns s)" and "i \<noteq> j"
    and "live_speech (st_speech (turn s i))"
  shows "inflight (turn s j) = []"
proof -
  have ok: "turn_ok (turn s i)" "turn_ok (turn s j)"
    using assms(1-3) by (simp_all add: conv_base_def turns_ok_def)
  have "may_speak (st_phase (turn s i))" using ok(1) assms(5) by (simp add: turn_ok_def)
  then have i: "advanced (st_phase (turn s i))" "\<not> turn_ended (st_phase (turn s i))"
    by (cases "st_phase (turn s i)"; simp)+
  have "\<not> may_speak (st_phase (turn s j))"
  proof (cases "j < i")
    case True
    then have "turn_ended (st_phase (turn s j))" using assms(1,2) i by (auto simp: conv_base_def conv_lane_ok_def)
    then show ?thesis by (cases "st_phase (turn s j)") simp_all
  next
    case False
    then have "\<not> advanced (st_phase (turn s j))" using assms(1,3,4) i by (auto simp: conv_base_def conv_lane_ok_def)
    then show ?thesis by (cases "st_phase (turn s j)") simp_all
  qed
  then have "\<not> live_speech (st_speech (turn s j))" using ok(2) by (auto simp: turn_ok_def)
  then show ?thesis by (cases "st_speech (turn s j)") (simp_all add: inflight_def)
qed

lemma concat_alone:
  assumes "i < length xs" and "\<And>j. j < length xs \<Longrightarrow> j \<noteq> i \<Longrightarrow> f (xs ! j) = []"
  shows "concat (map f xs) = f (xs ! i)"
  using assms
proof (induction xs arbitrary: i)
  case (Cons x xs)
  show ?case
  proof (cases i)
    case 0
    have "f y = []" if "y \<in> set xs" for y
    proof -
      obtain j where "j < length xs" "xs ! j = y" using \<open>y \<in> set xs\<close> by (auto simp: in_set_conv_nth)
      then show ?thesis using Cons.prems(2) [of "Suc j"] 0 by simp
    qed
    then show ?thesis using 0 by simp
  next
    case (Suc k)
    have "f (xs ! j) = []" if "j < length xs" "j \<noteq> k" for j
      using Cons.prems(2) [of "Suc j"] that Suc by simp
    then have "concat (map f xs) = f (xs ! k)"
      using Cons.prems(1) Suc by (intro Cons.IH) simp_all
    moreover have "f x = []" using Cons.prems(2) [of 0] Suc by simp
    ultimately show ?thesis using Suc by simp
  qed
qed simp

lemma pending_bound:
  assumes "conv_base s"
  shows "length (pending g s) \<le> 1"
proof (cases "\<exists>i<length (cv_turns s). live_speech (st_speech (turn s i))")
  case True
  then obtain i where i: "i < length (cv_turns s)" "live_speech (st_speech (turn s i))" by blast
  have "pending g s = older g (inflight (turn s i))"
    unfolding pending_def
    by (rule concat_alone [OF i(1)]) (use live_alone [OF assms i(1) _ _ i(2)] in \<open>auto simp: older_def\<close>)
  moreover have "length (inflight (turn s i)) \<le> 1"
    by (cases "st_speech (turn s i)" rule: checked_frame.cases) (simp_all add: inflight_def)
  ultimately show ?thesis
    using length_filter_le [of "\<lambda>x. fst x < g" "inflight (turn s i)"] unfolding older_def by (metis le_trans)
next
  case False
  have "inflight t = []" if "t \<in> set (cv_turns s)" for t
  proof -
    have "\<not> live_speech (st_speech t)" using False that by (auto simp: in_set_conv_nth)
    then show ?thesis by (cases "st_speech t") (simp_all add: inflight_def)
  qed
  then have "pending g s = []" by (simp add: pending_def older_def)
  then show ?thesis by simp
qed

lemma pending_same:
  assumes "length (cv_turns u) = length (cv_turns s)"
    and "\<And>i. i < length (cv_turns s) \<Longrightarrow> older g (inflight (turn u i)) = older g (inflight (turn s i))"
  shows "pending g u = pending g s"
proof -
  have "map (\<lambda>t. older g (inflight t)) (cv_turns u) = map (\<lambda>t. older g (inflight t)) (cv_turns s)"
    by (rule nth_equalityI) (simp_all add: assms)
  then show ?thesis by (simp add: pending_def)
qed

lemma turn_step_older:
  assumes "conv_base s" and "turn_step s i (st_phase (turn s i)) u" and "i < length (cv_turns s)"
    and "g \<le> cv_generation s"
  shows "older g (cv_audio u) @ pending g u = older g (cv_audio s) @ pending g s"
proof -
  note others = turn_step_others [OF assms(2,3)]
  have ok: "turn_ok (turn s i)" using assms(1,3) by (simp add: conv_base_def turns_ok_def)
  have gen: "st_generation (turn u i) = st_generation (turn s i)" using turn_step_names [OF assms(2,3)] by simp
  have same: "pending g u = pending g s" if "older g (inflight (turn u i)) = older g (inflight (turn s i))"
  proof (rule pending_same [OF others(13)])
    fix j show "older g (inflight (turn u j)) = older g (inflight (turn s j))"
      using that others(14) [of j] by (cases "j = i") simp_all
  qed
  have out: "older g (inflight t) = []" if "st_generation t = cv_generation s" for t
    using that assms(4) by (simp add: older_def inflight_def filter_empty_conv)
  consider (keep) "cv_audio u = cv_audio s" "inflight (turn u i) = inflight (turn s i)"
    | (new) "cv_audio u = cv_audio s" "st_generation (turn s i) = cv_generation s"
    | (deliver) "cv_audio u = cv_audio s @ inflight (turn s i)" "inflight (turn u i) = []"
    using turn_step_audio [OF assms(2,3) ok] by blast
  then show ?thesis
  proof cases
    case keep
    then show ?thesis using same by simp
  next
    case new
    then show ?thesis using same out [of "turn u i"] out [of "turn s i"] gen by simp
  next
    case deliver
    show ?thesis
    proof (cases "inflight (turn s i) = []")
      case True
      then show ?thesis using deliver same by simp
    next
      case False
      then have live_speech: "live_speech (st_speech (turn s i))"
        by (cases "st_speech (turn s i)") (simp_all add: inflight_def)
      have others_empty: "inflight (turn s j) = []" if "j < length (cv_turns s)" "j \<noteq> i" for j
        using live_alone [OF assms(1,3) that(1) that(2) [symmetric] live_speech] .
      have "pending g s = older g (inflight (turn s i))"
        unfolding pending_def by (rule concat_alone [OF assms(3)]) (simp add: others_empty older_def)
      moreover have "pending g u = older g (inflight (turn u i))"
        unfolding pending_def
        by (rule concat_alone) (simp_all add: others(13) assms(3) others(14) others_empty, simp add: older_def)
      ultimately show ?thesis using deliver by (simp add: older_def)
    qed
  qed
qed

lemma inflight_speech_turn [simp]: "inflight (speech_turn g i) = []"
  by (simp add: inflight_def speech_turn_def)

lemma conv_step_older:
  assumes "conv_base s" and "conv_step s u" and "g \<le> cv_generation s"
  shows "older g (cv_audio u) @ pending g u = older g (cv_audio s) @ pending g s \<and> g \<le> cv_generation u"
  using assms(2)
proof cases
  case (push_audio alive frame answer)
  then show ?thesis using assms(3) by (auto simp: conv_push_audio_def pending_def split: if_splits)
next
  case (submit input i outcome)
  have "pending g u = pending g s"
  proof (rule pending_same)
    obtain p where p: "cv_turns u = (cv_turns s)[i := (turn s i)\<lparr>st_phase := p\<rparr>]"
      unfolding submit by (cases outcome) (auto simp: conv_submit_def phase_at_def turn_at_def worker_to_def)
    then show "length (cv_turns u) = length (cv_turns s)" by simp
    fix j assume "j < length (cv_turns s)"
    then show "older g (inflight (turn u j)) = older g (inflight (turn s j))"
      by (cases "j = i") (simp_all add: p inflight_def)
  qed
  then show ?thesis using assms(3) submit
    by (cases outcome) (simp_all add: conv_submit_def phase_at_def turn_at_def worker_to_def)
next
  case (turn i)
  then show ?thesis using turn_step_older [OF assms(1) turn(2,1) assms(3)] turn_step_others(1) [OF turn(2,1)] assms(3)
    by simp
next
  case (interrupt_signal k)
  have "pending g u = pending g s"
    unfolding interrupt_signal by (rule pending_same) (simp_all add: interrupter_to_def conv_interrupt_signal_def)
  then show ?thesis using assms(3) interrupt_signal
    by (simp add: interrupter_to_def conv_interrupt_signal_def session_cancel_def)
next
  case release
  have "pending g u = pending g s"
    unfolding release by (rule pending_same) (simp_all add: conv_release_def session_cancel_def inflight_def)
  then show ?thesis using assms(3) release by (simp add: conv_release_def session_cancel_def)
qed (use assms(3) in \<open>simp_all add: pending_def conv_reap_turns_def conv_take_audio_def conv_transcript_def
     fresh_turn_id_def Let_def worker_to_def conv_begin_turn_def conv_record_def conv_refuse_def conv_clear_refused_def
     interrupter_to_def conv_interrupt_def conv_release_input_def conv_swap_turns_def older_def split: list.split\<close>)

section \<open>Reachable states\<close>

definition conv_inv :: "Conversation \<Rightarrow> bool" where
  "conv_inv s \<longleftrightarrow> conv_base s \<and> conv_idle s \<and> conv_input_ok s \<and> release_ok s"

abbreviation conv_init :: "Conversation \<Rightarrow> bool" where
  "conv_init s \<equiv> \<exists>config interrupters. conversation_new config interrupters = Inr s"

lemma conv_init_inv: "conv_init s \<Longrightarrow> conv_inv s"
  by (auto simp: conversation_new_def conv_inv_def conv_base_def generations_ok_def conv_lane_ok_def turns_ok_def
      lock_ok_def signalling_def conv_idle_def idle_ok_def conv_busy_def conv_input_ok_def release_ok_def split: if_splits)

lemma conv_step_inv: "conv_inv s \<Longrightarrow> conv_step s u \<Longrightarrow> conv_inv u"
  unfolding conv_inv_def
  using conv_step_base conv_step_idle conv_step_input conv_step_release by blast

lemma conv_step_generation: "conv_inv s \<Longrightarrow> conv_step s u \<Longrightarrow> cv_generation s \<le> cv_generation u"
  using conv_step_older [of s u "cv_generation s"] by (simp add: conv_inv_def)

interpretation conv: monotone_system conv_init conv_step conv_inv cv_generation
proof unfold_locales
  fix s u
  show "conv_init s \<Longrightarrow> conv_inv s" by (rule conv_init_inv)
  show "conv_inv s \<Longrightarrow> conv_step s u \<Longrightarrow> conv_inv u" by (rule conv_step_inv)
  show "conv_inv s \<Longrightarrow> conv_step s u \<Longrightarrow> cv_generation s \<le> cv_generation u" by (rule conv_step_generation)
qed

lemma conv_step_audio:
  assumes "conv_base s" and "conv_step s u"
  shows "\<exists>more. cv_audio u = cv_audio s @ more"
  using assms(2)
proof cases
  case (push_audio alive frame answer)
  then show ?thesis by (auto simp: conv_push_audio_def split: if_splits)
next
  case (turn i)
  have "turn_ok (turn s i)" using assms(1) turn(1) by (simp add: conv_base_def turns_ok_def)
  then show ?thesis using turn_step_audio [OF turn(2,1)] by auto
qed (simp_all add: conv_reap_turns_def conv_take_audio_def conv_transcript_def
     fresh_turn_id_def Let_def worker_to_def conv_begin_turn_def conv_submit_def phase_at_def conv_record_def
     conv_refuse_def conv_clear_refused_def interrupter_to_def conv_interrupt_def conv_interrupt_signal_def
     session_cancel_def conv_release_def conv_release_input_def conv_swap_turns_def
     split: list.split SubmitOutcome.split)

lemma conv_steps_older:
  assumes "steps conv_step s u" and "conv_inv s"
  shows "(\<exists>more. cv_audio u = cv_audio s @ more) \<and>
    older (cv_generation s) (cv_audio u) @ pending (cv_generation s) u =
    older (cv_generation s) (cv_audio s) @ pending (cv_generation s) s"
  using assms
proof (induction rule: steps.induct)
  case (steps_step s t u)
  have gen: "cv_generation s \<le> cv_generation t" by (rule conv.steps_rank [OF steps_step.hyps(1) steps_step.prems])
  have base: "conv_base t"
    using conv.steps_inv [OF steps_step.hyps(1) steps_step.prems] by (simp add: conv_inv_def)
  have "\<exists>more. cv_audio u = cv_audio s @ more"
    using steps_step.IH [OF steps_step.prems] conv_step_audio [OF base steps_step.hyps(2)] by auto
  then show ?case
    using steps_step.IH [OF steps_step.prems] conv_step_older [OF base steps_step.hyps(2) gen] by simp
qed simp

lemma destroyed_step:
  assumes "conv_inv s" and "cv_releaser s = Destroyed" and "conv_step s u"
  shows "cv_releaser u = Destroyed \<and> cv_audio u = cv_audio s"
proof -
  have w: "cv_worker s = InputExited" and e: "\<And>i. i < length (cv_turns s) \<Longrightarrow> turn_ended (st_phase (turn s i))"
    using assms(1,2) by (auto simp: conv_inv_def release_ok_def)
  show ?thesis using assms(3)
  proof cases
    case (push_audio alive frame answer)
    then show ?thesis using assms(2) by (auto simp: conv_push_audio_def split: if_splits)
  next
    case (turn i)
    have "turn_ok (turn s i)" using assms(1) turn(1) by (simp add: conv_inv_def conv_base_def turns_ok_def)
    then have "\<not> turn_ended (st_phase (turn s i))" using turn_step_phases [OF turn(2,1)] by simp
    then show ?thesis using e [OF turn(1)] by simp
  qed (use assms(2) w in \<open>simp_all add: conv_reap_turns_def interrupter_to_def conv_interrupt_def
      conv_interrupt_signal_def session_cancel_def\<close>)
qed

interpretation destroyed: final_condition conv_step "\<lambda>s. conv_inv s \<and> cv_releaser s = Destroyed" cv_audio
  by unfold_locales (use destroyed_step conv_step_inv in blast)

lemma no_turn_listening:
  assumes "conv_inv u" and "cv_alive u" and "\<forall>t\<in>set (cv_turns u). st_generation t \<noteq> cv_generation u"
  shows "cv_state u = Listening \<and> cv_turn_id u = []"
proof -
  have "undisturbed u" using assms(3) by (simp add: undisturbed_def)
  moreover have "turn u (latest u) \<in> set (cv_turns u)" if "cv_turns u \<noteq> []"
    using that by (simp add: latest_def)
  then have "\<not> conv_busy u" using assms(3) by (auto simp: conv_busy_def)
  ultimately show ?thesis using assms(1,2) by (simp add: conv_inv_def conv_idle_def idle_ok_def)
qed

text \<open>
  How the state follows the responses: to \<open>Thinking\<close> with a new one, to \<open>Speaking\<close> with the first
  sentence of one, and while the current one is not over not back to \<open>Listening\<close>.
\<close>

definition starts_speech :: "Conversation \<Rightarrow> Conversation \<Rightarrow> bool" where
  "starts_speech s u \<longleftrightarrow>
     (\<exists>i<length (cv_turns s). st_speech_started (turn u i) \<and> \<not> st_speech_started (turn s i))"

lemma state_same:
  assumes "length (cv_turns u) = length (cv_turns s)"
    and "\<And>i. i < length (cv_turns s) \<Longrightarrow> st_speech_started (turn u i) = st_speech_started (turn s i)"
    and "cv_state u = cv_state s \<or> cv_state u = Listening" and "cv_state u \<noteq> Listening"
  shows "cv_state u =
    (if length (cv_turns s) < length (cv_turns u) then Thinking
     else if starts_speech s u then Speaking else cv_state s)"
  using assms by (auto simp: starts_speech_def)

lemma conv_step_state:
  assumes "conv_base s" and "conv_step s u" and "cv_alive u" and "cv_state u \<noteq> Listening"
  shows "cv_state u =
    (if length (cv_turns s) < length (cv_turns u) then Thinking
     else if starts_speech s u then Speaking else cv_state s)"
  using assms(2)
proof cases
  case (push_audio alive frame answer)
  then show ?thesis by (auto simp: starts_speech_def conv_push_audio_def split: if_splits)
next
  case (begin_turn input turn_id)
  have "cv_alive s" using assms(3) unfolding begin_turn by (cases "cv_alive s") (simp_all add: conv_begin_turn_def worker_to_def)
  then show ?thesis unfolding begin_turn by (simp add: conv_begin_turn_def worker_to_def)
next
  case (submit input i outcome)
  obtain p where p: "cv_turns u = (cv_turns s)[i := (turn s i)\<lparr>st_phase := p\<rparr>]" "cv_state u = cv_state s"
    unfolding submit by (cases outcome) (auto simp: conv_submit_def phase_at_def turn_at_def worker_to_def)
  show ?thesis
  proof (rule state_same)
    fix j show "st_speech_started (turn u j) = st_speech_started (turn s j)" if "j < length (cv_turns s)"
      using that by (cases "j = i") (simp_all add: p)
  qed (use assms(4) in \<open>simp_all add: p\<close>)
next
  case (turn i)
  note others = turn_step_others [OF turn(2,1)]
  have ok: "turn_ok (turn s i)" using assms(1) turn(1) by (simp add: conv_base_def turns_ok_def)
  consider (same) "st_speech_started (turn u i) = st_speech_started (turn s i)"
      "cv_state u = cv_state s \<or> st_phase (turn u i) = TurnOver"
    | (starts) "\<not> st_speech_started (turn s i)" "st_speech_started (turn u i)" "cv_state u = Speaking"
    using turn_step_state [OF turn(2,1) ok] by blast
  then show ?thesis
  proof cases
    case same
    have "cv_state u = cv_state s \<or> cv_state u = Listening"
      using same(2) turn_step_effect [OF turn(2,1) ok] assms(4) turn(1)
      by (auto simp: turn_clear_def)
    moreover have "st_speech_started (turn u j) = st_speech_started (turn s j)" for j
      using same(1) others(14) [of j] by (cases "j = i") simp_all
    ultimately show ?thesis using assms(4) by (intro state_same) (simp_all add: others(13))
  next
    case starts
    then show ?thesis using turn(1) by (auto simp: starts_speech_def others(13))
  qed
next
  case (interrupt_signal k)
  show ?thesis unfolding interrupt_signal
    by (rule state_same)
      (use assms(4) in \<open>simp_all add: interrupt_signal interrupter_to_def conv_interrupt_signal_def session_cancel_def\<close>)
next
  case release
  then show ?thesis using assms(3) by (simp add: conv_release_def session_cancel_def)
qed (use assms(4) in \<open>simp_all add: starts_speech_def conv_reap_turns_def conv_take_audio_def conv_transcript_def
     fresh_turn_id_def Let_def worker_to_def conv_record_def conv_refuse_def conv_clear_refused_def
     interrupter_to_def conv_interrupt_def conv_release_input_def conv_swap_turns_def split: list.split\<close>)

text \<open>
  A state that reports \<open>Speaking\<close> when every response is over stays as it is until a turn is
  submitted or the user interrupts.
\<close>

lemma conv_step_grows:
  assumes "conv_step s u"
  shows "length (cv_turns s) \<le> length (cv_turns u) \<and> cv_generation s \<le> cv_generation u \<and> (cv_alive u \<longrightarrow> cv_alive s)"
  using assms
proof cases
  case (push_audio alive frame answer)
  then show ?thesis by (auto simp: conv_push_audio_def split: if_splits)
next
  case (turn i)
  then show ?thesis using turn_step_others [OF turn(2,1)] by simp
qed (simp_all add: conv_reap_turns_def conv_take_audio_def conv_transcript_def
     fresh_turn_id_def Let_def worker_to_def conv_begin_turn_def conv_submit_def phase_at_def conv_record_def
     conv_refuse_def conv_clear_refused_def interrupter_to_def conv_interrupt_def conv_interrupt_signal_def
     session_cancel_def conv_release_def conv_release_input_def conv_swap_turns_def
     split: list.split SubmitOutcome.split)

fun hears :: "InputWorker \<Rightarrow> bool" where
  "hears (Submitting _ _) = False"
| "hears (Recording _ _) = False"
| "hears (Refusing _ _) = False"
| "hears (Clearing _ _) = False"
| "hears _ = True"

definition stuck_speaking :: "Conversation \<Rightarrow> bool" where
  "stuck_speaking s \<longleftrightarrow> conv_base s \<and> cv_state s = Speaking \<and> hears (cv_worker s) \<and>
     (\<forall>i<length (cv_turns s). turn_ended (st_phase (turn s i)))"

lemma stuck_step:
  assumes "stuck_speaking s" and "conv_step s u" and "cv_alive u"
    and "length (cv_turns u) = length (cv_turns s)" and "cv_generation u = cv_generation s"
  shows "stuck_speaking u"
proof -
  have base: "conv_base u" by (rule conv_step_base [OF _ assms(2)]) (use assms(1) in \<open>simp add: stuck_speaking_def\<close>)
  have stuck: "cv_state s = Speaking" "hears (cv_worker s)"
    "\<And>i. i < length (cv_turns s) \<Longrightarrow> turn_ended (st_phase (turn s i))"
    using assms(1) by (simp_all add: stuck_speaking_def)
  show ?thesis using assms(2)
  proof cases
    case (push_audio alive frame answer)
    then show ?thesis using base stuck by (auto simp: stuck_speaking_def conv_push_audio_def split: if_splits)
  next
    case (recognized input turn_id)
    then show ?thesis using base stuck by (simp add: stuck_speaking_def worker_to_def)
  next
    case (begin_turn input turn_id)
    have "cv_alive s" using conv_step_grows [OF assms(2)] assms(3) by simp
    then have "length (cv_turns u) = Suc (length (cv_turns s))"
      unfolding begin_turn by (simp add: conv_begin_turn_def worker_to_def)
    then show ?thesis using assms(4) by simp
  next
    case (turn i)
    have "turn_ok (turn s i)" using assms(1) turn(1) by (simp add: stuck_speaking_def conv_base_def turns_ok_def)
    then show ?thesis using turn_step_phases [OF turn(2,1)] stuck(3) [OF turn(1)] by simp
  next
    case (interrupt k)
    then show ?thesis using assms(5) by (simp add: interrupter_to_def conv_interrupt_def)
  next
    case release
    then show ?thesis using assms(3) by (simp add: conv_release_def session_cancel_def)
  qed (use base stuck in \<open>simp_all add: stuck_speaking_def conv_reap_turns_def conv_take_audio_def
      conv_transcript_def fresh_turn_id_def Let_def worker_to_def interrupter_to_def conv_interrupt_signal_def
      session_cancel_def conv_release_input_def conv_swap_turns_def split: list.split\<close>)
qed

lemma stuck_steps:
  assumes "steps conv_step s u" and "stuck_speaking s"
  shows "length (cv_turns s) \<le> length (cv_turns u) \<and> cv_generation s \<le> cv_generation u \<and>
    (cv_alive u \<and> length (cv_turns u) = length (cv_turns s) \<and> cv_generation u = cv_generation s \<longrightarrow>
     stuck_speaking u)"
  using assms
proof (induction rule: steps.induct)
  case (steps_step s t u)
  then show ?case using conv_step_grows [OF steps_step.hyps(2)] stuck_step [OF _ steps_step.hyps(2)] by auto
qed simp

section \<open>Example runs\<close>

definition conv_start :: Conversation where
  "conv_start = projr (conversation_new
     \<lparr>cc_max_audio_frames = 1, cc_turn_timeout = 15000, cc_max_tts_chunks = 4\<rparr> 1)"

definition speech_end :: AudioFrame where
  "speech_end = \<lparr>af_samples = [1, 2], af_sample_rate_hz = 16000, af_channels = 1, af_end_of_utterance = True\<rparr>"

text \<open>An utterance up to its submission.\<close>

definition utter :: "string \<Rightarrow> (Conversation \<Rightarrow> Conversation) list" where
  "utter turn_id =
     [\<lambda>s. snd (conv_push_audio True speech_end s), conv_take_audio, conv_transcript turn_id ''hello'' True,
      conv_begin_turn turn_id turn_id]"

text \<open>A first turn is accepted and starts to speak; a frame is let through, then the user interrupts.\<close>

definition interrupted_run :: "(Conversation \<Rightarrow> Conversation) list" where
  "interrupted_run = utter ''1'' @
     [conv_submit SubmitAccepted ''1'' 0, conv_record ''1'' 0, worker_to WaitInput,
      phase_at 0 TurnStreaming, turn_delta ''Hi'' 0, turn_complete False 0,
      speak_enter [''Hi''] True 0, speak_start [''Hi''] True 0, turn_audio_check speech_end 0,
      interrupter_to 0 InterruptRecorded, \<lambda>s. interrupter_to 0 InterruptSignalling (conv_interrupt s),
      turn_audio_deliver speech_end 0]"

text \<open>A second transcript is refused while the first turn waits; then the first speaks and ends, and the
  conversation is destroyed.\<close>

definition overloaded_run :: "(Conversation \<Rightarrow> Conversation) list" where
  "overloaded_run = utter ''1'' @
     [conv_submit SubmitAccepted ''1'' 0, conv_record ''1'' 0, worker_to WaitInput] @ utter ''2'' @
     [conv_submit SubmitOverloaded ''2'' 1, conv_refuse ''2'' 1, conv_clear_refused ''2'' 1, worker_to WaitInput,
      phase_at 0 TurnStreaming, turn_delta ''Hi'' 0, turn_complete False 0,
      speak_enter [''Hi''] True 0, speak_start [''Hi''] True 0, speak_push True [''Hi''] True 0,
      turn_join_speech 0, turn_decide False 0, turn_completed 0,
      conv_release, conv_release_input, conv_take_audio, conv_swap_turns, \<lambda>s. s\<lparr>cv_releaser := Destroyed\<rparr>]"

definition run_to :: "(Conversation \<Rightarrow> Conversation) list \<Rightarrow> nat \<Rightarrow> Conversation" where
  "run_to acts n = fold (\<lambda>f s. f s) (take n acts) conv_start"

lemma run_start: "reachable conv_init conv_step (run_to acts 0)"
proof -
  have "conversation_new \<lparr>cc_max_audio_frames = 1, cc_turn_timeout = 15000, cc_max_tts_chunks = 4\<rparr> 1 = Inr conv_start"
    by (simp add: conv_start_def conversation_new_def)
  then show ?thesis by (intro reach_init) (auto simp: run_to_def)
qed

lemma run_next:
  assumes "reachable conv_init conv_step (run_to acts n)" and "m = Suc n" and "n < length acts" and "acts ! n = f"
    and "conv_step (run_to acts n) (f (run_to acts n))"
  shows "reachable conv_init conv_step (run_to acts m)"
  using reach_step [OF assms(1,5)] assms(2-4) by (simp add: run_to_def take_Suc_conv_app_nth)

lemma turn_step_at:
  "i < length (cv_turns s) \<Longrightarrow> st_phase (turn s i) = p \<Longrightarrow> turn_step s i p u \<Longrightarrow> conv_step s u"
  by (simp add: conv_step.turn)

lemma interrupted_run_reachable:
  shows "reachable conv_init conv_step (run_to interrupted_run 15)" and "reachable conv_init conv_step (run_to interrupted_run 7)"
    and "reachable conv_init conv_step (run_to interrupted_run 11)"
proof -
  note defs = interrupted_run_def utter_def
  have r1: "reachable conv_init conv_step (run_to interrupted_run 1)"
    by (rule run_next [OF run_start, where f = "\<lambda>s. snd (conv_push_audio True speech_end s)"], simp, simp add: defs,
        simp add: defs, rule conv_step.push_audio [where alive = True, OF _ surjective_pairing]; code_simp)
  have r2: "reachable conv_init conv_step (run_to interrupted_run 2)"
    by (rule run_next [OF r1, where f = "conv_take_audio"], simp, simp add: defs,
        simp add: defs, rule conv_step.take_audio; code_simp)
  have r3: "reachable conv_init conv_step (run_to interrupted_run 3)"
    by (rule run_next [OF r2, where f = "conv_transcript ''1'' ''hello'' True"], simp, simp add: defs,
        simp add: defs, rule conv_step.transcript; code_simp)
  have r4: "reachable conv_init conv_step (run_to interrupted_run 4)"
    by (rule run_next [OF r3, where f = "conv_begin_turn ''1'' ''1''"], simp, simp add: defs,
        simp add: defs, rule conv_step.begin_turn; code_simp)
  have r5: "reachable conv_init conv_step (run_to interrupted_run 5)"
    by (rule run_next [OF r4, where f = "conv_submit SubmitAccepted ''1'' 0"], simp, simp add: defs,
        simp add: defs, rule conv_step.submit; code_simp)
  have r6: "reachable conv_init conv_step (run_to interrupted_run 6)"
    by (rule run_next [OF r5, where f = "conv_record ''1'' 0"], simp, simp add: defs,
        simp add: defs, rule conv_step.record_turn; code_simp)
  have r7: "reachable conv_init conv_step (run_to interrupted_run 7)"
    by (rule run_next [OF r6, where f = "worker_to WaitInput"], simp, simp add: defs,
        simp add: defs, rule conv_step.recognized [where input = "''1''"]; code_simp)
  have r8: "reachable conv_init conv_step (run_to interrupted_run 8)"
    by (rule run_next [OF r7, where f = "phase_at 0 TurnStreaming"], simp, simp add: defs,
        simp add: defs, rule turn_step_at [where i = 0, OF _ _ turn_step.start]; code_simp)
  have r9: "reachable conv_init conv_step (run_to interrupted_run 9)"
    by (rule run_next [OF r8, where f = "turn_delta ''Hi'' 0"], simp, simp add: defs,
        simp add: defs, rule turn_step_at [where i = 0, OF _ _ turn_step.delta]; code_simp)
  have r10: "reachable conv_init conv_step (run_to interrupted_run 10)"
    by (rule run_next [OF r9, where f = "turn_complete False 0"], simp, simp add: defs,
        simp add: defs, rule turn_step_at [where i = 0, OF _ _ turn_step.complete]; code_simp)
  have r11: "reachable conv_init conv_step (run_to interrupted_run 11)"
    by (rule run_next [OF r10, where f = "speak_enter [''Hi''] True 0"], simp, simp add: defs,
        simp add: defs, rule turn_step_at [where i = 0, OF _ _ turn_step.enter]; code_simp)
  have r12: "reachable conv_init conv_step (run_to interrupted_run 12)"
    by (rule run_next [OF r11, where f = "speak_start [''Hi''] True 0"], simp, simp add: defs,
        simp add: defs, rule turn_step_at [where i = 0, OF _ _ turn_step.begin_speech]; code_simp)
  have r13: "reachable conv_init conv_step (run_to interrupted_run 13)"
    by (rule run_next [OF r12, where f = "turn_audio_check speech_end 0"], simp, simp add: defs,
        simp add: defs, rule turn_step_at [where i = 0, OF _ _ turn_step.audio_check]; code_simp)
  have r14: "reachable conv_init conv_step (run_to interrupted_run 14)"
    by (rule run_next [OF r13, where f = "interrupter_to 0 InterruptRecorded"], simp, simp add: defs,
        simp add: defs, rule conv_step.interrupt_call; code_simp)
  have r15: "reachable conv_init conv_step (run_to interrupted_run 15)"
    by (rule run_next [OF r14, where f = "\<lambda>s. interrupter_to 0 InterruptSignalling (conv_interrupt s)"], simp, simp add: defs,
        simp add: defs, rule conv_step.interrupt; code_simp)
  show "reachable conv_init conv_step (run_to interrupted_run 15)" "reachable conv_init conv_step (run_to interrupted_run 7)"
    "reachable conv_init conv_step (run_to interrupted_run 11)"
    by (rule r15 r7 r11)+
qed

lemma overloaded_run_reachable:
  shows "reachable conv_init conv_step (run_to overloaded_run 11)" and "reachable conv_init conv_step (run_to overloaded_run 24)" and "reachable conv_init conv_step (run_to overloaded_run 29)"
proof -
  note defs = overloaded_run_def utter_def
  have r1: "reachable conv_init conv_step (run_to overloaded_run 1)"
    by (rule run_next [OF run_start, where f = "\<lambda>s. snd (conv_push_audio True speech_end s)"], simp, simp add: defs,
        simp add: defs, rule conv_step.push_audio [where alive = True, OF _ surjective_pairing]; code_simp)
  have r2: "reachable conv_init conv_step (run_to overloaded_run 2)"
    by (rule run_next [OF r1, where f = "conv_take_audio"], simp, simp add: defs,
        simp add: defs, rule conv_step.take_audio; code_simp)
  have r3: "reachable conv_init conv_step (run_to overloaded_run 3)"
    by (rule run_next [OF r2, where f = "conv_transcript ''1'' ''hello'' True"], simp, simp add: defs,
        simp add: defs, rule conv_step.transcript; code_simp)
  have r4: "reachable conv_init conv_step (run_to overloaded_run 4)"
    by (rule run_next [OF r3, where f = "conv_begin_turn ''1'' ''1''"], simp, simp add: defs,
        simp add: defs, rule conv_step.begin_turn; code_simp)
  have r5: "reachable conv_init conv_step (run_to overloaded_run 5)"
    by (rule run_next [OF r4, where f = "conv_submit SubmitAccepted ''1'' 0"], simp, simp add: defs,
        simp add: defs, rule conv_step.submit; code_simp)
  have r6: "reachable conv_init conv_step (run_to overloaded_run 6)"
    by (rule run_next [OF r5, where f = "conv_record ''1'' 0"], simp, simp add: defs,
        simp add: defs, rule conv_step.record_turn; code_simp)
  have r7: "reachable conv_init conv_step (run_to overloaded_run 7)"
    by (rule run_next [OF r6, where f = "worker_to WaitInput"], simp, simp add: defs,
        simp add: defs, rule conv_step.recognized [where input = "''1''"]; code_simp)
  have r8: "reachable conv_init conv_step (run_to overloaded_run 8)"
    by (rule run_next [OF r7, where f = "\<lambda>s. snd (conv_push_audio True speech_end s)"], simp, simp add: defs,
        simp add: defs, rule conv_step.push_audio [where alive = True, OF _ surjective_pairing]; code_simp)
  have r9: "reachable conv_init conv_step (run_to overloaded_run 9)"
    by (rule run_next [OF r8, where f = "conv_take_audio"], simp, simp add: defs,
        simp add: defs, rule conv_step.take_audio; code_simp)
  have r10: "reachable conv_init conv_step (run_to overloaded_run 10)"
    by (rule run_next [OF r9, where f = "conv_transcript ''2'' ''hello'' True"], simp, simp add: defs,
        simp add: defs, rule conv_step.transcript; code_simp)
  have r11: "reachable conv_init conv_step (run_to overloaded_run 11)"
    by (rule run_next [OF r10, where f = "conv_begin_turn ''2'' ''2''"], simp, simp add: defs,
        simp add: defs, rule conv_step.begin_turn; code_simp)
  have r12: "reachable conv_init conv_step (run_to overloaded_run 12)"
    by (rule run_next [OF r11, where f = "conv_submit SubmitOverloaded ''2'' 1"], simp, simp add: defs,
        simp add: defs, rule conv_step.submit; code_simp)
  have r13: "reachable conv_init conv_step (run_to overloaded_run 13)"
    by (rule run_next [OF r12, where f = "conv_refuse ''2'' 1"], simp, simp add: defs,
        simp add: defs, rule conv_step.refuse; code_simp)
  have r14: "reachable conv_init conv_step (run_to overloaded_run 14)"
    by (rule run_next [OF r13, where f = "conv_clear_refused ''2'' 1"], simp, simp add: defs,
        simp add: defs, rule conv_step.clear_refused; code_simp)
  have r15: "reachable conv_init conv_step (run_to overloaded_run 15)"
    by (rule run_next [OF r14, where f = "worker_to WaitInput"], simp, simp add: defs,
        simp add: defs, rule conv_step.recognized [where input = "''2''"]; code_simp)
  have r16: "reachable conv_init conv_step (run_to overloaded_run 16)"
    by (rule run_next [OF r15, where f = "phase_at 0 TurnStreaming"], simp, simp add: defs,
        simp add: defs, rule turn_step_at [where i = 0, OF _ _ turn_step.start]; code_simp)
  have r17: "reachable conv_init conv_step (run_to overloaded_run 17)"
    by (rule run_next [OF r16, where f = "turn_delta ''Hi'' 0"], simp, simp add: defs,
        simp add: defs, rule turn_step_at [where i = 0, OF _ _ turn_step.delta]; code_simp)
  have r18: "reachable conv_init conv_step (run_to overloaded_run 18)"
    by (rule run_next [OF r17, where f = "turn_complete False 0"], simp, simp add: defs,
        simp add: defs, rule turn_step_at [where i = 0, OF _ _ turn_step.complete]; code_simp)
  have r19: "reachable conv_init conv_step (run_to overloaded_run 19)"
    by (rule run_next [OF r18, where f = "speak_enter [''Hi''] True 0"], simp, simp add: defs,
        simp add: defs, rule turn_step_at [where i = 0, OF _ _ turn_step.enter]; code_simp)
  have r20: "reachable conv_init conv_step (run_to overloaded_run 20)"
    by (rule run_next [OF r19, where f = "speak_start [''Hi''] True 0"], simp, simp add: defs,
        simp add: defs, rule turn_step_at [where i = 0, OF _ _ turn_step.begin_speech]; code_simp)
  have r21: "reachable conv_init conv_step (run_to overloaded_run 21)"
    by (rule run_next [OF r20, where f = "speak_push True [''Hi''] True 0"], simp, simp add: defs,
        simp add: defs, rule turn_step_at [where i = 0, OF _ _ turn_step.push]; code_simp)
  have r22: "reachable conv_init conv_step (run_to overloaded_run 22)"
    by (rule run_next [OF r21, where f = "turn_join_speech 0"], simp, simp add: defs,
        simp add: defs, rule turn_step_at [where i = 0, OF _ _ turn_step.join_speech [where p = TurnFinishing]]; code_simp)
  have r23: "reachable conv_init conv_step (run_to overloaded_run 23)"
    by (rule run_next [OF r22, where f = "turn_decide False 0"], simp, simp add: defs,
        simp add: defs, rule turn_step_at [where i = 0, OF _ _ turn_step.decide]; code_simp)
  have r24: "reachable conv_init conv_step (run_to overloaded_run 24)"
    by (rule run_next [OF r23, where f = "turn_completed 0"], simp, simp add: defs,
        simp add: defs, rule turn_step_at [where i = 0, OF _ _ turn_step.completed]; code_simp)
  have r25: "reachable conv_init conv_step (run_to overloaded_run 25)"
    by (rule run_next [OF r24, where f = "conv_release"], simp, simp add: defs,
        simp add: defs, rule conv_step.release; code_simp)
  have r26: "reachable conv_init conv_step (run_to overloaded_run 26)"
    by (rule run_next [OF r25, where f = "conv_release_input"], simp, simp add: defs,
        simp add: defs, rule conv_step.release_input; code_simp)
  have r27: "reachable conv_init conv_step (run_to overloaded_run 27)"
    by (rule run_next [OF r26, where f = "conv_take_audio"], simp, simp add: defs,
        simp add: defs, rule conv_step.take_audio; code_simp)
  have r28: "reachable conv_init conv_step (run_to overloaded_run 28)"
    by (rule run_next [OF r27, where f = "conv_swap_turns"], simp, simp add: defs,
        simp add: defs, rule conv_step.swap_turns; code_simp)
  have r29: "reachable conv_init conv_step (run_to overloaded_run 29)"
    by (rule run_next [OF r28, where f = "\<lambda>s. s\<lparr>cv_releaser := Destroyed\<rparr>"], simp, simp add: defs,
        simp add: defs, rule conv_step.destroyed [where turns = "[0]"]; code_simp)
  show "reachable conv_init conv_step (run_to overloaded_run 11)" "reachable conv_init conv_step (run_to overloaded_run 24)" "reachable conv_init conv_step (run_to overloaded_run 29)"
    by (rule r11 r24 r29)+
qed

section \<open>Properties\<close>


text \<open>C7: the state and turn id a caller reads, over every step of the threads. As long as in the current
  generation no submission was refused or threw, the executor dropped no turn, no observer threw in a
  failure handler and no turn id was used twice: when every response of the generation is over the
  conversation is listening without a current turn; otherwise its current turn is the latest
  submitted, the step is to thinking if it submitted a response, to speaking if a response began its
  speech in it, and else keeps the state, which is never listening, and is speaking once the current
  response has begun to speak.\<close>

theorem conv_state_follows_responses:
  assumes "reachable conv_init conv_step s" and "conv_step s u" and "cv_alive u" and "undisturbed u"
  shows "if \<forall>t\<in>set (cv_turns u). st_generation t = cv_generation u \<longrightarrow> turn_ended (st_phase t)
    then cv_state u = Listening \<and> cv_turn_id u = []
    else cv_state u =
        (if length (cv_turns s) < length (cv_turns u) then Thinking
         else if \<exists>i<length (cv_turns s).
           st_speech_started (cv_turns u ! i) \<and> \<not> st_speech_started (cv_turns s ! i)
         then Speaking else cv_state s) \<and>
      cv_state u \<noteq> Listening \<and>
      (st_speech_started (last (cv_turns u)) \<longrightarrow> cv_state u = Speaking) \<and>
      cv_turn_id u = st_turn_id (last (cv_turns u)) \<and>
      st_generation (last (cv_turns u)) = cv_generation u \<and> \<not> turn_ended (st_phase (last (cv_turns u)))"
proof -
  have inv: "conv_inv s" "conv_inv u"
    using conv.reachable_inv assms(1) reach_step [OF assms(1,2)] by blast+
  then have base: "conv_base u" and idle: "idle_ok u" using assms(3,4) by (simp_all add: conv_inv_def conv_idle_def)
  show ?thesis
  proof (cases "\<forall>t\<in>set (cv_turns u). st_generation t = cv_generation u \<longrightarrow> turn_ended (st_phase t)")
    case True
    moreover have "turn u (latest u) \<in> set (cv_turns u)" if "cv_turns u \<noteq> []"
      using that by (simp add: latest_def)
    ultimately have "\<not> conv_busy u" by (auto simp: conv_busy_def)
    then show ?thesis using True idle by (simp add: idle_ok_def)
  next
    case False
    then obtain i where i: "i < length (cv_turns u)" "st_generation (turn u i) = cv_generation u"
      "\<not> turn_ended (st_phase (turn u i))" by (auto simp: in_set_conv_nth)
    have busy: "conv_busy u" by (rule busy_if [OF base assms(4) i])
    moreover have "turn u (latest u) = last (cv_turns u)" using i(1) last_conv_nth [of "cv_turns u"]
      by (cases "cv_turns u = []") (simp_all add: latest_def)
    moreover have "cv_state u \<noteq> Listening" using busy idle by (simp add: idle_ok_def)
    ultimately show ?thesis unfolding if_not_P [OF False]
      using idle conv_step_state [OF _ assms(2,3)] inv(1)
      by (simp add: idle_ok_def conv_busy_def conv_inv_def starts_speech_def)
  qed
qed

text \<open>C38: a transcript refused by a full executor is such a disturbance: there is a run in which two
  transcripts with different ids are submitted, the second is refused while the response to the first
  waits, nothing throws and nobody interrupts; the first response speaks and completes, and from then
  on, whatever the threads do, the conversation reports that it is speaking, without a current turn,
  for as long as no further turn is submitted and nobody interrupts.\<close>

theorem conv_overload_leaves_speaking:
  "\<exists>s. reachable conv_init conv_step s \<and> cv_alive s \<and> cv_generation s = 0 \<and>
     map st_turn_id (cv_turns s) = [''1'', ''2''] \<and> map st_phase (cv_turns s) = [TurnOver, TurnRefused] \<and>
     map st_threw (cv_turns s) = [False, False] \<and> cv_turn_id s = [] \<and>
     {u. steps conv_step s u \<and> cv_alive u \<and> length (cv_turns u) = 2 \<and> cv_generation u = 0} \<subseteq>
     {u. cv_state u = Speaking}"
proof (intro exI conjI)
  let ?s = "run_to overloaded_run 24"
  show r: "reachable conv_init conv_step ?s" by (rule overloaded_run_reachable(2))
  have "conv_base ?s" using conv.reachable_inv [OF r] by (simp add: conv_inv_def)
  moreover have "cv_state ?s = Speaking" "hears (cv_worker ?s)"
    "list_all (\<lambda>t. turn_ended (st_phase t)) (cv_turns ?s)"
    by code_simp+
  ultimately have stuck: "stuck_speaking ?s" by (simp add: stuck_speaking_def list_all_length)
  have "length (cv_turns ?s) = 2" "cv_generation ?s = 0" by code_simp+
  then show "{u. steps conv_step ?s u \<and> cv_alive u \<and> length (cv_turns u) = 2 \<and> cv_generation u = 0} \<subseteq>
      {u. cv_state u = Speaking}"
    using stuck_steps [OF _ stuck] by (auto simp: stuck_speaking_def)
qed (code_simp+)

text \<open>The input queue holds at most \<open>max_audio_frames\<close>, and the frames \<open>push_audio\<close> accepted are,
  in order, those given to the recognizer's worker and those queued, unless the conversation is being
  destroyed; a frame it refuses changes nothing.\<close>

theorem conv_input_fifo:
  assumes "reachable conv_init conv_step s"
  shows "length (cv_audio_queue s) \<le> cc_max_audio_frames (cv_config s) \<and>
    (\<not> cv_stopping s \<longrightarrow> cv_accepted s = cv_taken s @ cv_audio_queue s) \<and>
    (\<exists>rest. cv_accepted s = cv_taken s @ rest) \<and>
    (fst (conv_push_audio alive frame s) \<noteq> PushAccepted \<longrightarrow> snd (conv_push_audio alive frame s) = s) \<and>
    (fst (conv_push_audio alive frame s) = PushOverloaded \<longrightarrow>
       length (cv_audio_queue s) = cc_max_audio_frames (cv_config s))"
proof -
  have "conv_input_ok s" using conv.reachable_inv [OF assms] by (simp add: conv_inv_def)
  then show ?thesis by (auto simp: conv_input_ok_def conv_push_audio_def)
qed

text \<open>C21: when the destructor has returned, the input worker has exited, every response is over and has
  joined its TTS pipeline, and no frame reaches the audio sink any more: nothing runs on the
  destroyed object. A response the executor refused, or dropped from its lane when it was cancelled,
  published no outcome; every other one published one, and exactly one unless something it calls
  threw, when the completion's events threw after the first at most a second.\<close>

theorem conv_release_complete:
  assumes "reachable conv_init conv_step s" and "cv_releaser s = Destroyed"
  shows "cv_worker s = InputExited \<and>
    (\<forall>t\<in>set (cv_turns s). turn_ended (st_phase t) \<and> \<not> live_speech (st_speech t) \<and>
       (if st_phase t \<in> {TurnRefused, TurnDropped} then st_outcomes t = []
        else length (st_outcomes t) = 1 \<or> st_threw t \<and> length (st_outcomes t) = 2)) \<and>
    (\<forall>u. steps conv_step s u \<longrightarrow> cv_audio u = cv_audio s)"
proof -
  have inv: "conv_inv s" by (rule conv.reachable_inv [OF assms(1)])
  then have w: "cv_worker s = InputExited" using assms(2) by (simp add: conv_inv_def release_ok_def)
  have "turn_ended (st_phase t) \<and> \<not> live_speech (st_speech t) \<and>
      (if st_phase t \<in> {TurnRefused, TurnDropped} then st_outcomes t = []
       else length (st_outcomes t) = 1 \<or> st_threw t \<and> length (st_outcomes t) = 2)"
    if t: "t \<in> set (cv_turns s)" for t
  proof -
    obtain i where i: "i < length (cv_turns s)" "turn s i = t" using t by (auto simp: in_set_conv_nth)
    then have ok: "turn_ok t" using inv by (auto simp: conv_inv_def conv_base_def turns_ok_def)
    have e: "turn_ended (st_phase t)" using inv i assms(2) w by (auto simp: conv_inv_def release_ok_def)
    show ?thesis using ok e by (cases "st_phase t") (auto simp: turn_ok_def split: if_splits)
  qed
  then show ?thesis using w destroyed.final_steps [of s] inv assms(2) by blast
qed


theorem conv_state_follows_responses_witness:
  "cv_state (run_to interrupted_run 12) = Speaking \<and>
   cv_turn_id (run_to interrupted_run 12) = st_turn_id (last (cv_turns (run_to interrupted_run 12)))"
proof -
  let ?s = "run_to interrupted_run 11" and ?u = "run_to interrupted_run 12"
  have "conv_step ?s (speak_start [''Hi''] True 0 ?s)"
    by (rule turn_step_at [where i = 0, OF _ _ turn_step.begin_speech]; code_simp)
  moreover have "speak_start [''Hi''] True 0 ?s = ?u" by code_simp
  ultimately have step: "conv_step ?s ?u" by simp
  have alive: "cv_alive ?u" and und: "undisturbed ?u" and started: "st_speech_started (last (cv_turns ?u))"
    and busy: "\<not> (\<forall>t\<in>set (cv_turns ?u). st_generation t = cv_generation ?u \<longrightarrow> turn_ended (st_phase t))"
    by code_simp+
  show ?thesis
    using conv_state_follows_responses [OF interrupted_run_reachable(3) step alive und] started
    unfolding if_not_P [OF busy] by blast
qed

theorem conv_input_fifo_witness:
  "length (cv_audio_queue (run_to overloaded_run 11)) \<le> cc_max_audio_frames (cv_config (run_to overloaded_run 11))"
  using conv_input_fifo [OF overloaded_run_reachable(1)] by blast

theorem conv_release_complete_witness:
  "cv_worker (run_to overloaded_run 29) = InputExited"
proof -
  have "cv_releaser (run_to overloaded_run 29) = Destroyed" by code_simp
  then show ?thesis using conv_release_complete [OF overloaded_run_reachable(3)] by blast
qed

end
