(* ===== verification/Pipeline_Engine.thy ===== *)
theory Pipeline_Engine
  imports Conversation_Properties
begin

text \<open>
  \<open>PipelineConversationEngine\<close> (\<open>pipeline_conversation_engine.h\<close>, \<open>pipeline_conversation_engine.cpp\<close>):
  the speech gateway behind the \<open>ConversationEngine\<close> interface. The engine owns at most one
  \<open>Conversation\<close>, whose own steps go on between the calls; \<open>start\<close> and \<open>stop\<close> run on the session's
  lifecycle lane. \<open>cancel_response\<close> takes a conversation whose submission mutex is free.
\<close>

section \<open>State\<close>

record EngineContext =
  ec_session_id :: string
  ec_has_timeline :: bool
  ec_has_emit :: bool

record PipelineEngine =
  pl_session_id :: string
  pl_config :: ConversationConfig
  pl_context :: EngineContext
  pl_conversation :: "Conversation option"
  pl_subscribed :: bool
  pl_emitted :: "EventType list"

definition no_context :: EngineContext where
  "no_context = \<lparr>ec_session_id = [], ec_has_timeline = False, ec_has_emit = False\<rparr>"

definition pipeline_new :: "string \<Rightarrow> ConversationConfig \<Rightarrow> PipelineEngine" where
  "pipeline_new session_id config =
     \<lparr>pl_session_id = session_id, pl_config = config, pl_context = no_context,
      pl_conversation = None, pl_subscribed = False, pl_emitted = []\<rparr>"

section \<open>Operations\<close>

definition pipeline_start ::
  "nat \<Rightarrow> EngineContext \<Rightarrow> PipelineEngine \<Rightarrow> exn option \<times> PipelineEngine" where
  "pipeline_start interrupters context s =
     (if pl_conversation s \<noteq> None then (None, s)
      else if ec_session_id context \<noteq> pl_session_id s
      then (Some (StdException ''pipeline and conversation session IDs must match''), s)
      else if \<not> ec_has_emit context \<and> \<not> ec_has_timeline context
      then (Some (StdException ''event sink is required''), s)
      else
        let s = s\<lparr>pl_context := context\<lparr>ec_has_emit := True\<rparr>, pl_subscribed := True\<rparr>
        in case conversation_new (pl_config s) interrupters of
             Inl e \<Rightarrow> (Some e, s)
           | Inr c \<Rightarrow> (None, s\<lparr>pl_conversation := Some c\<rparr>))"

definition pipeline_push_audio :: "bool \<Rightarrow> AudioFrame \<Rightarrow> PipelineEngine \<Rightarrow> bool \<times> PipelineEngine" where
  "pipeline_push_audio alive frame s =
     (case pl_conversation s of
        None \<Rightarrow> (False, s)
      | Some c \<Rightarrow>
          (case conv_push_audio alive frame c of
             (answer, c') \<Rightarrow> (answer = PushAccepted, s\<lparr>pl_conversation := Some c'\<rparr>)))"

definition pipeline_cancel_response :: "nat \<Rightarrow> PipelineEngine \<Rightarrow> bool \<times> PipelineEngine" where
  "pipeline_cancel_response k s =
     (case pl_conversation s of
        None \<Rightarrow> (False, s)
      | Some c \<Rightarrow>
          (True, s\<lparr>pl_conversation := Some
             (interrupter_to k NoInterrupt (conv_interrupt_signal
                (interrupter_to k InterruptSignalling (conv_interrupt (interrupter_to k InterruptRecorded c)))))\<rparr>))"

definition pipeline_handle_event :: "Event \<Rightarrow> PipelineEngine \<Rightarrow> PipelineEngine" where
  "pipeline_handle_event event s = s"

text \<open>\<open>stop\<close> destroys the conversation, then removes the bridge's subscription.\<close>

definition pipeline_stop :: "PipelineEngine \<Rightarrow> PipelineEngine" where
  "pipeline_stop s = s\<lparr>pl_conversation := None, pl_subscribed := False\<rparr>"

definition pipeline_capabilities :: ConversationCapabilities where
  "pipeline_capabilities =
     default_capabilities\<lparr>cap_transcript_available := True, cap_response_cancellation := True\<rparr>"

definition pipeline_state :: "PipelineEngine \<Rightarrow> ConversationStateSnapshot" where
  "pipeline_state s =
     (case pl_conversation s of
        None \<Rightarrow> default_snapshot
      | Some c \<Rightarrow> default_snapshot\<lparr>snap_agent_speaking := cv_state c = Speaking,
                                    snap_reasoning := cv_state c = Thinking\<rparr>)"

definition pipeline_on_event :: "Event \<Rightarrow> PipelineEngine \<Rightarrow> PipelineEngine" where
  "pipeline_on_event event s = s\<lparr>pl_emitted := pl_emitted s @ [ev_type event]\<rparr>"

section \<open>Properties\<close>

lemma pipeline_start_idempotent: "pl_conversation s \<noteq> None \<Longrightarrow> pipeline_start n context s = (None, s)"
  by (simp add: pipeline_start_def)

text \<open>A start that fails leaves no conversation, and \<open>stop\<close> leaves neither it nor a subscription.\<close>

lemma pipeline_start_failed:
  "pl_conversation s = None \<Longrightarrow> fst (pipeline_start n context s) \<noteq> None \<Longrightarrow>
     pl_conversation (snd (pipeline_start n context s)) = None"
  by (auto simp: pipeline_start_def Let_def split: if_splits sum.splits)

lemma pipeline_started:
  "pl_conversation s = None \<Longrightarrow> fst (pipeline_start n context s) = None \<Longrightarrow>
     \<exists>c. pl_conversation (snd (pipeline_start n context s)) = Some c \<and> conv_init c"
  by (auto simp: pipeline_start_def Let_def split: if_splits sum.splits)

lemma cancel_steps:
  assumes "reachable conv_init conv_step c" and "\<not> cv_submission c"
    and "k < length (cv_interrupters c)" and "cv_interrupters c ! k = NoInterrupt"
  shows "reachable conv_init conv_step (interrupter_to k NoInterrupt (conv_interrupt_signal
    (interrupter_to k InterruptSignalling (conv_interrupt (interrupter_to k InterruptRecorded c)))))"
proof -
  let ?r = "interrupter_to k InterruptRecorded c"
  let ?i = "interrupter_to k InterruptSignalling (conv_interrupt ?r)"
  have "reachable conv_init conv_step ?r"
    by (rule reach_step [OF assms(1)]) (rule conv_step.interrupt_call [OF assms(3,4)])
  then have "reachable conv_init conv_step ?i"
    by (rule reach_step) (rule conv_step.interrupt; simp add: interrupter_to_def assms)
  then show ?thesis
    by (rule reach_step) (rule conv_step.interrupt_signal; simp add: interrupter_to_def conv_interrupt_def assms)
qed

text \<open>C34: a cancellation through the engine interface is the interruption of its conversation: the snapshot
  the session then reads says neither speaking nor reasoning, and stays so for as long as no turn of the
  new generation is submitted, whatever the cancelled responses still do; without a conversation it
  answers false and changes nothing.\<close>

theorem pipeline_cancel_quiets:
  assumes "pl_conversation s = Some c" and "reachable conv_init conv_step c" and "\<not> cv_submission c"
    and "k < length (cv_interrupters c)" and "cv_interrupters c ! k = NoInterrupt"
    and "pipeline_cancel_response k s = (answer, u)" and "pl_conversation u = Some d" and "steps conv_step d e"
    and "cv_alive e" and "\<forall>t\<in>set (cv_turns e). st_generation t \<noteq> cv_generation e"
  shows "answer \<and> cv_generation d = cv_generation c + 1 \<and> pipeline_state u = default_snapshot \<and>
    pipeline_state (u\<lparr>pl_conversation := Some e\<rparr>) = default_snapshot \<and>
    pipeline_cancel_response k (pipeline_stop s) = (False, pipeline_stop s)"
proof -
  have d: "d = interrupter_to k NoInterrupt (conv_interrupt_signal
      (interrupter_to k InterruptSignalling (conv_interrupt (interrupter_to k InterruptRecorded c))))"
    and a: "answer" using assms(1,6,7) by (auto simp: pipeline_cancel_response_def)
  have reach: "reachable conv_init conv_step d" unfolding d by (rule cancel_steps [OF assms(2-5)])
  have now: "cv_state d = Listening" "cv_generation d = cv_generation c + 1"
    by (simp_all add: d interrupter_to_def conv_interrupt_signal_def session_cancel_def conv_interrupt_def)
  have "conv_inv e" by (rule conv.reachable_inv [OF reachable_steps [OF assms(8) reach]])
  then have "cv_state e = Listening"
    using no_turn_listening assms(9,10) by blast
  then show ?thesis using a now assms(1,7)
    by (simp add: pipeline_state_def default_snapshot_def pipeline_cancel_response_def pipeline_stop_def)
qed

definition pipeline_example :: PipelineEngine where
  "pipeline_example =
     (snd (pipeline_start 1 \<lparr>ec_session_id = ''s'', ec_has_timeline = True, ec_has_emit = False\<rparr>
        (pipeline_new ''s'' \<lparr>cc_max_audio_frames = 1, cc_turn_timeout = 15000, cc_max_tts_chunks = 4\<rparr>)))"

theorem pipeline_cancel_quiets_witness:
  "fst (pipeline_cancel_response 0 pipeline_example) \<and>
   pipeline_state (snd (pipeline_cancel_response 0 pipeline_example)) = default_snapshot"
proof -
  let ?u = "snd (pipeline_cancel_response 0 pipeline_example)"
  have c: "pl_conversation pipeline_example = Some conv_start" by code_simp
  have r: "reachable conv_init conv_step conv_start"
    using run_start [of "[]"] by (simp add: run_to_def)
  obtain d where d: "pl_conversation ?u = Some d" by (simp add: pipeline_cancel_response_def c)
  have idle: "\<not> cv_submission conv_start" "0 < length (cv_interrupters conv_start)"
    "cv_interrupters conv_start ! 0 = NoInterrupt" by code_simp+
  have "\<forall>t\<in>set (cv_turns (the (pl_conversation ?u))). st_generation t \<noteq> cv_generation (the (pl_conversation ?u))"
    "cv_alive (the (pl_conversation ?u))" by code_simp+
  then show ?thesis
    using pipeline_cancel_quiets [OF c r idle surjective_pairing d steps_refl] d by simp
qed

end
