(* ===== verification/Voice_Chat.thy ===== *)
theory Voice_Chat
  imports Runtime_Manager
begin

text \<open>
  \<open>VoiceChatConnection\<close> (\<open>voice_chat_adapter.h\<close>, \<open>voice_chat_adapter.cpp\<close>): the binding of one
  authenticated connection to at most one session of the runtime manager, and the bounded route on
  which the session's sinks leave output for it. Every method holds the connection's mutex to its
  end and an append holds the route's, so each is one step. What the runtime manager answers while
  a method runs is an argument of it (\<open>found\<close>: the phase \<open>find\<close> reports); the two futures of an
  admission become ready by steps of their own.
\<close>

section \<open>State\<close>

record AuthenticatedClient =
  ac_user_id :: string
  ac_connection_id :: string

datatype ChatCode =
    ChatOk | Forbidden | StaleSession | Disconnected | NotRunning
  | ChatStopping | AwaitingPlayer | AdmissionRejected | InputRejected | InvalidAudio

datatype ChatPhase = ChatIdle | ChatStarting | ChatRunning | ChatStoppingPhase | ChatRetired

record SessionAdmission =
  ad_status :: AdmissionStatus
  ad_handle :: SessionHandle
  ad_started :: "SessionOutcome option"
  ad_retired :: "SessionOutcome option"

definition no_handle :: SessionHandle where
  "no_handle = \<lparr>sh_runtime_id = 0, sh_id = [], sh_generation = 0\<rparr>"

definition no_admission :: SessionAdmission where
  "no_admission = \<lparr>ad_status = InvalidRequest, ad_handle = no_handle, ad_started = None, ad_retired = None\<rparr>"

definition admitted :: "SessionAdmission \<Rightarrow> bool" where
  "admitted a \<longleftrightarrow> ad_status a = AdmissionAccepted"

record ChatStatus =
  ch_code :: ChatCode
  ch_phase :: ChatPhase
  ch_handle :: SessionHandle
  ch_startup :: SessionOutcome
  ch_retirement :: SessionOutcome
  ch_flush_requested :: bool
  ch_player_stopped :: bool
  ch_dropped_output :: u64

text \<open>The fields of \<open>ChatOutput\<close> its kind uses.\<close>

datatype ChatContent = AudioContent AudioFrame | TranscriptContent string bool | ObservationContent Event

record ChatOutput =
  co_handle :: SessionHandle
  co_content :: ChatContent

record ChatConfig =
  cf_max_output_messages :: nat
  cf_max_payload_bytes :: nat
  cf_liveness_timeout :: int

text \<open>The route with the handle its sinks were made for.\<close>

record Route =
  rt_handle :: SessionHandle
  rt_open :: bool
  rt_overflow :: bool
  rt_dropped :: u64
  rt_queue :: "ChatOutput list"

datatype RuntimeCall = CallAdd string | CallRemove SessionHandle | CallFail SessionHandle
  | CallPushAudio SessionHandle AudioFrame

record VoiceChat =
  vc_client :: AuthenticatedClient
  vc_config :: ChatConfig
  vc_session_id :: string
  vc_connected :: bool
  vc_last_seen :: int
  vc_admission :: SessionAdmission
  vc_route :: "Route option"
  vc_phase :: ChatPhase
  vc_flush_requested :: bool
  vc_player_stopped :: bool
  vc_calls :: "RuntimeCall list"
  vc_past :: "SessionAdmission list"

text \<open>\<open>vc_calls\<close> and \<open>vc_past\<close> (the admissions before the current one) record what happened.\<close>

text \<open>The process-wide counter of connection identities.\<close>

definition next_id :: "u64 \<Rightarrow> exn + string \<times> u64" where
  "next_id next =
     (if next = - 1 then Inl (StdException ''connection identity exhausted'')
      else Inr (''voice-'' @ to_string (unat next), next + 1))"

definition voice_new ::
  "AuthenticatedClient \<Rightarrow> bool \<Rightarrow> ChatConfig \<Rightarrow> int \<Rightarrow> string \<Rightarrow> exn + VoiceChat" where
  "voice_new client has_factory config now session_id =
     (if ac_user_id client = [] \<or> ac_connection_id client = [] \<or>
         256 < length (ac_user_id client) \<or> 256 < length (ac_connection_id client) \<or> \<not> has_factory \<or>
         cf_max_output_messages config = 0 \<or> cf_max_payload_bytes config = 0 \<or>
         cf_liveness_timeout config \<le> 0
      then Inl (StdException ''invalid authenticated voice chat binding'')
      else Inr
        \<lparr>vc_client = client, vc_config = config, vc_session_id = session_id, vc_connected = True,
         vc_last_seen = now, vc_admission = no_admission, vc_route = None, vc_phase = ChatIdle,
         vc_flush_requested = False, vc_player_stopped = False, vc_calls = [], vc_past = []\<rparr>)"

section \<open>The route\<close>

definition route_new :: "SessionHandle \<Rightarrow> Route" where
  "route_new handle =
     \<lparr>rt_handle = handle, rt_open = True, rt_overflow = False, rt_dropped = 0, rt_queue = []\<rparr>"

text \<open>The sizes the three sinks give.\<close>

definition payload_bytes :: "ChatContent \<Rightarrow> nat" where
  "payload_bytes content =
     (case content of
        AudioContent frame \<Rightarrow> length (af_samples frame) * 2
      | TranscriptContent body final \<Rightarrow> length body
      | ObservationContent event \<Rightarrow>
          length (ev_session_id event) + length (ev_turn_id event) + length (ev_trace_id event) +
          length (ev_name event) + length (ev_data event))"

definition route_overflow :: "Route \<Rightarrow> Route" where
  "route_overflow r = r\<lparr>rt_dropped := rt_dropped r + 1, rt_overflow := True, rt_open := False, rt_queue := []\<rparr>"

text \<open>\<open>copied\<close>: the payload could be copied (no allocation failure).\<close>

definition route_append :: "ChatConfig \<Rightarrow> bool \<Rightarrow> ChatContent \<Rightarrow> Route \<Rightarrow> Route" where
  "route_append config copied content r =
     (if \<not> rt_open r then r
      else if cf_max_payload_bytes config < payload_bytes content \<or>
              cf_max_output_messages config \<le> length (rt_queue r) then route_overflow r
      else if \<not> copied then route_overflow r
      else r\<lparr>rt_queue := rt_queue r @ [\<lparr>co_handle = rt_handle r, co_content = content\<rparr>]\<rparr>)"

definition route_close :: "Route \<Rightarrow> Route" where
  "route_close r = r\<lparr>rt_open := False, rt_queue := []\<rparr>"

section \<open>The connection's helpers\<close>

definition same_handle :: "SessionHandle \<Rightarrow> SessionHandle \<Rightarrow> bool" where
  "same_handle a b \<longleftrightarrow>
     sh_runtime_id a = sh_runtime_id b \<and> sh_id a = sh_id b \<and> sh_generation a = sh_generation b"

definition authorized :: "VoiceChat \<Rightarrow> AuthenticatedClient \<Rightarrow> bool" where
  "authorized s client \<longleftrightarrow>
     ac_user_id client = ac_user_id (vc_client s) \<and> ac_connection_id client = ac_connection_id (vc_client s)"

definition validate :: "VoiceChat \<Rightarrow> AuthenticatedClient \<Rightarrow> SessionHandle \<Rightarrow> ChatCode" where
  "validate s client handle =
     (if \<not> authorized s client then Forbidden
      else if \<not> vc_connected s then Disconnected
      else if \<not> admitted (vc_admission s) \<or> \<not> same_handle handle (ad_handle (vc_admission s)) then StaleSession
      else ChatOk)"

definition close_route :: "VoiceChat \<Rightarrow> VoiceChat" where
  "close_route s =
     (case vc_route s of
        None \<Rightarrow> s
      | Some r \<Rightarrow> s\<lparr>vc_route := Some (route_close r), vc_flush_requested := True\<rparr>)"

definition calls :: "RuntimeCall \<Rightarrow> VoiceChat \<Rightarrow> VoiceChat" where
  "calls c s = s\<lparr>vc_calls := vc_calls s @ [c]\<rparr>"

definition stop_locked :: "VoiceChat \<Rightarrow> VoiceChat" where
  "stop_locked s =
     (if \<not> admitted (vc_admission s) then s
      else
        let s = close_route s
        in if vc_phase s \<noteq> ChatRetired
           then calls (CallRemove (ad_handle (vc_admission s))) (s\<lparr>vc_phase := ChatStoppingPhase\<rparr>)
           else s)"

text \<open>\<open>refresh\<close>: first the overflow of the route, then the tickets and \<open>find\<close>.\<close>

definition refresh_overflow :: "VoiceChat \<Rightarrow> VoiceChat" where
  "refresh_overflow s =
     (case vc_route s of
        None \<Rightarrow> s
      | Some r \<Rightarrow>
          if rt_overflow r \<and> vc_phase s \<noteq> ChatStoppingPhase \<and> vc_phase s \<noteq> ChatRetired
          then calls (CallFail (ad_handle (vc_admission s))) ((close_route s)\<lparr>vc_phase := ChatStoppingPhase\<rparr>)
          else s)"

definition refresh_phase :: "SessionPhase option \<Rightarrow> VoiceChat \<Rightarrow> VoiceChat" where
  "refresh_phase found s =
     (if ad_retired (vc_admission s) \<noteq> None then (close_route s)\<lparr>vc_phase := ChatRetired\<rparr>
      else if found = None \<or> found = Some PhaseStopRequested \<or> found = Some PhaseRetiring \<or>
              ad_started (vc_admission s) \<notin> {None, Some OutcomeStarted}
      then (close_route s)\<lparr>vc_phase := ChatStoppingPhase\<rparr>
      else if vc_phase s = ChatStarting \<and> ad_started (vc_admission s) \<noteq> None
      then s\<lparr>vc_phase := ChatRunning\<rparr>
      else s)"

definition refresh :: "SessionPhase option \<Rightarrow> VoiceChat \<Rightarrow> VoiceChat" where
  "refresh found s =
     (if \<not> admitted (vc_admission s) then s else refresh_phase found (refresh_overflow s))"

definition no_status :: "ChatCode \<Rightarrow> ChatStatus" where
  "no_status code =
     \<lparr>ch_code = code, ch_phase = ChatIdle, ch_handle = no_handle, ch_startup = NoOutcome,
      ch_retirement = NoOutcome, ch_flush_requested = False, ch_player_stopped = False, ch_dropped_output = 0\<rparr>"

definition chat_snapshot :: "ChatCode \<Rightarrow> VoiceChat \<Rightarrow> ChatStatus" where
  "chat_snapshot code s =
     (if code \<in> {Forbidden, StaleSession, Disconnected} then no_status code
      else
        \<lparr>ch_code = code, ch_phase = vc_phase s, ch_handle = ad_handle (vc_admission s),
         ch_startup = (case ad_started (vc_admission s) of None \<Rightarrow> NoOutcome | Some o' \<Rightarrow> o'),
         ch_retirement = (case ad_retired (vc_admission s) of None \<Rightarrow> NoOutcome | Some o' \<Rightarrow> o'),
         ch_flush_requested = vc_flush_requested s, ch_player_stopped = vc_player_stopped s,
         ch_dropped_output = (case vc_route s of None \<Rightarrow> 0 | Some r \<Rightarrow> rt_dropped r)\<rparr>)"

section \<open>Operations\<close>

text \<open>\<open>added\<close> is what \<open>add\<close> returns; a reply is the status and the admission.\<close>

definition voice_start ::
  "AuthenticatedClient \<Rightarrow> SessionPhase option \<Rightarrow> SessionAdmission \<Rightarrow> VoiceChat \<Rightarrow>
     (ChatStatus \<times> SessionAdmission) \<times> VoiceChat" where
  "voice_start client found added s =
     (if \<not> authorized s client then ((chat_snapshot Forbidden s, no_admission), s)
      else if \<not> vc_connected s then ((chat_snapshot Disconnected s, no_admission), s)
      else
        let s = refresh found s
        in if vc_phase s = ChatStarting \<or> vc_phase s = ChatRunning
           then ((chat_snapshot ChatOk s, vc_admission s), s)
           else if vc_phase s = ChatStoppingPhase then ((chat_snapshot ChatStopping s, vc_admission s), s)
           else if vc_phase s = ChatRetired \<and> \<not> vc_player_stopped s
           then ((chat_snapshot AwaitingPlayer s, vc_admission s), s)
           else
             let s = calls (CallAdd (vc_session_id s)) s
             in if \<not> admitted added then ((chat_snapshot AdmissionRejected s, added), s)
                else
                  let s = s\<lparr>vc_past := (if admitted (vc_admission s) then vc_past s @ [vc_admission s] else vc_past s),
                            vc_admission := added, vc_route := Some (route_new (ad_handle added)),
                            vc_phase := ChatStarting, vc_flush_requested := False, vc_player_stopped := False\<rparr>
                  in ((chat_snapshot ChatOk s, vc_admission s), s))"

definition voice_stop ::
  "AuthenticatedClient \<Rightarrow> SessionHandle \<Rightarrow> SessionPhase option \<Rightarrow> VoiceChat \<Rightarrow> ChatCode \<times> VoiceChat" where
  "voice_stop client handle found s =
     (let code = validate s client handle
      in if code \<noteq> ChatOk then (code, s) else (ChatOk, refresh found (stop_locked s)))"

definition valid_frame :: "ChatConfig \<Rightarrow> AudioFrame \<Rightarrow> bool" where
  "valid_frame config frame \<longleftrightarrow>
     \<not> (cf_max_payload_bytes config div 2 < length (af_samples frame) \<or> af_sample_rate_hz frame \<le> 0 \<or>
        af_channels frame \<le> 0 \<or> length (af_samples frame) mod nat (af_channels frame) \<noteq> 0)"

text \<open>\<open>accepted\<close> is the answer of the manager's \<open>push_audio\<close>, \<open>found'\<close> that of the second \<open>find\<close>.\<close>

definition voice_push_audio ::
  "AuthenticatedClient \<Rightarrow> SessionHandle \<Rightarrow> AudioFrame \<Rightarrow> SessionPhase option \<Rightarrow> bool \<Rightarrow> SessionPhase option \<Rightarrow>
     VoiceChat \<Rightarrow> ChatCode \<times> VoiceChat" where
  "voice_push_audio client handle frame found accepted found' s =
     (let code = validate s client handle
      in if code \<noteq> ChatOk then (code, s)
         else
           let s = refresh found s
           in if vc_phase s \<noteq> ChatRunning then (NotRunning, s)
              else if \<not> valid_frame (vc_config s) frame then (InvalidAudio, s)
              else
                let s = refresh found' (calls (CallPushAudio handle frame) s)
                in (if accepted then ChatOk else if vc_phase s = ChatRunning then InputRejected else NotRunning, s))"

definition voice_status ::
  "AuthenticatedClient \<Rightarrow> SessionHandle \<Rightarrow> SessionPhase option \<Rightarrow> VoiceChat \<Rightarrow> ChatStatus \<times> VoiceChat" where
  "voice_status client handle found s =
     (let code = validate s client handle; s = (if code = ChatOk then refresh found s else s)
      in (chat_snapshot code s, s))"

definition voice_take_output ::
  "AuthenticatedClient \<Rightarrow> SessionHandle \<Rightarrow> SessionPhase option \<Rightarrow> VoiceChat \<Rightarrow> ChatOutput list \<times> VoiceChat" where
  "voice_take_output client handle found s =
     (if validate s client handle \<noteq> ChatOk then ([], s)
      else
        let s = refresh found s
        in if vc_phase s \<noteq> ChatRunning then ([], s)
           else case vc_route s of
               None \<Rightarrow> ([], s)
             | Some r \<Rightarrow> (rt_queue r, s\<lparr>vc_route := Some (r\<lparr>rt_queue := []\<rparr>)\<rparr>))"

definition voice_acknowledge_player_stop ::
  "AuthenticatedClient \<Rightarrow> SessionHandle \<Rightarrow> SessionPhase option \<Rightarrow> VoiceChat \<Rightarrow> ChatCode \<times> VoiceChat" where
  "voice_acknowledge_player_stop client handle found s =
     (let code = validate s client handle
      in if code \<noteq> ChatOk then (code, s)
         else
           let s = refresh found s
           in if \<not> vc_flush_requested s then (NotRunning, s) else (ChatOk, s\<lparr>vc_player_stopped := True\<rparr>))"

text \<open>The liveness test of \<open>heartbeat\<close> and \<open>tick\<close>, on a monotonic clock.\<close>

definition voice_liveness :: "int \<Rightarrow> VoiceChat \<Rightarrow> VoiceChat" where
  "voice_liveness now s =
     (if cf_liveness_timeout (vc_config s) \<le> now - vc_last_seen s
      then stop_locked (s\<lparr>vc_connected := False\<rparr>) else s)"

definition voice_heartbeat :: "AuthenticatedClient \<Rightarrow> int \<Rightarrow> VoiceChat \<Rightarrow> ChatCode \<times> VoiceChat" where
  "voice_heartbeat client now s =
     (if \<not> authorized s client then (Forbidden, s)
      else
        let s = voice_liveness now s
        in if \<not> vc_connected s then (Disconnected, s)
           else (ChatOk, if vc_last_seen s < now then s\<lparr>vc_last_seen := now\<rparr> else s))"

definition voice_tick :: "int \<Rightarrow> SessionPhase option \<Rightarrow> VoiceChat \<Rightarrow> VoiceChat" where
  "voice_tick now found s = refresh found (voice_liveness now s)"

definition voice_disconnect :: "VoiceChat \<Rightarrow> VoiceChat" where
  "voice_disconnect s = stop_locked (s\<lparr>vc_connected := False\<rparr>)"

text \<open>A sink of the session with that handle: it holds its route weakly, so only the current one counts.\<close>

definition voice_append :: "SessionHandle \<Rightarrow> bool \<Rightarrow> ChatContent \<Rightarrow> VoiceChat \<Rightarrow> VoiceChat" where
  "voice_append handle copied content s =
     (case vc_route s of
        None \<Rightarrow> s
      | Some r \<Rightarrow>
          if rt_handle r = handle then s\<lparr>vc_route := Some (route_append (vc_config s) copied content r)\<rparr> else s)"

section \<open>Steps\<close>

inductive voice_step :: "VoiceChat \<Rightarrow> VoiceChat \<Rightarrow> bool" where
  start: "(admitted added \<Longrightarrow> ad_started added = None \<and> ad_retired added = None) \<Longrightarrow>
    voice_start client found added s = (reply, s') \<Longrightarrow> voice_step s s'"
| stop: "voice_stop client handle found s = (code, s') \<Longrightarrow> voice_step s s'"
| push_audio: "voice_push_audio client handle frame found accepted found' s = (code, s') \<Longrightarrow> voice_step s s'"
| status: "voice_status client handle found s = (status', s') \<Longrightarrow> voice_step s s'"
| take_output: "voice_take_output client handle found s = (output, s') \<Longrightarrow> voice_step s s'"
| acknowledge: "voice_acknowledge_player_stop client handle found s = (code, s') \<Longrightarrow> voice_step s s'"
| heartbeat: "voice_heartbeat client now s = (code, s') \<Longrightarrow> voice_step s s'"
| tick: "voice_step s (voice_tick now found s)"
| disconnect: "voice_step s (voice_disconnect s)"
| append: "voice_step s (voice_append handle copied content s)"
| started: "ad_started (vc_admission s) = None \<Longrightarrow>
    voice_step s (s\<lparr>vc_admission := (vc_admission s)\<lparr>ad_started := Some outcome\<rparr>\<rparr>)"
| retired: "ad_retired (vc_admission s) = None \<Longrightarrow>
    voice_step s (s\<lparr>vc_admission := (vc_admission s)\<lparr>ad_retired := Some outcome\<rparr>\<rparr>)"

inductive_cases voice_stepE: "voice_step s t"

section \<open>The invariant\<close>

definition route_ok :: "ChatConfig \<Rightarrow> Route \<Rightarrow> bool" where
  "route_ok c r \<longleftrightarrow>
     length (rt_queue r) \<le> cf_max_output_messages c \<and>
     (\<forall>out\<in>set (rt_queue r). co_handle out = rt_handle r \<and> payload_bytes (co_content out) \<le> cf_max_payload_bytes c) \<and>
     (rt_open r \<or> rt_queue r = []) \<and> \<not> (rt_overflow r \<and> rt_open r)"

definition stopped :: "VoiceChat \<Rightarrow> bool" where
  "stopped s \<longleftrightarrow> vc_phase s = ChatStoppingPhase \<or> vc_phase s = ChatRetired"

definition phase_ok :: "VoiceChat \<Rightarrow> bool" where
  "phase_ok s \<longleftrightarrow>
     (vc_phase s = ChatIdle \<longleftrightarrow> \<not> admitted (vc_admission s)) \<and>
     (vc_flush_requested s \<longleftrightarrow> stopped s) \<and>
     (vc_player_stopped s \<longrightarrow> stopped s) \<and>
     (vc_phase s = ChatRetired \<longrightarrow> ad_retired (vc_admission s) \<noteq> None) \<and>
     (vc_phase s = ChatRunning \<longrightarrow> ad_started (vc_admission s) = Some OutcomeStarted) \<and>
     (\<forall>a\<in>set (vc_past s). ad_retired a \<noteq> None)"

definition voice_inv :: "VoiceChat \<Rightarrow> bool" where
  "voice_inv s \<longleftrightarrow>
     phase_ok s \<and>
     (case vc_route s of
        None \<Rightarrow> \<not> admitted (vc_admission s)
      | Some r \<Rightarrow> admitted (vc_admission s) \<and> route_ok (vc_config s) r \<and> rt_handle r = ad_handle (vc_admission s) \<and>
          (stopped s \<longrightarrow> \<not> rt_open r))"

lemma route_append_ok:
  assumes "route_ok c r"
  shows "route_ok c (route_append c copied content r) \<and> rt_handle (route_append c copied content r) = rt_handle r \<and>
    (rt_open (route_append c copied content r) \<longrightarrow> rt_open r)"
  using assms by (auto simp: route_append_def route_overflow_def route_ok_def)

lemma route_close_ok: "route_ok c r \<Longrightarrow> route_ok c (route_close r)"
  by (simp add: route_ok_def route_close_def)

text \<open>Closing the route and going to \<open>Stopping\<close> or \<open>Retired\<close>: what \<open>stop_locked\<close> and \<open>refresh\<close> do.\<close>

lemma voice_inv_stopped:
  assumes "voice_inv s" and "admitted (vc_admission s)"
    and "p = ChatStoppingPhase \<or> p = ChatRetired \<and> ad_retired (vc_admission s) \<noteq> None"
  shows "voice_inv ((close_route s)\<lparr>vc_phase := p\<rparr>)"
proof -
  obtain r where r: "vc_route s = Some r" using assms(1,2) by (auto simp: voice_inv_def split: option.splits)
  have "route_ok (vc_config s) r" "rt_handle r = ad_handle (vc_admission s)"
    using assms(1) r by (simp_all add: voice_inv_def)
  moreover have "phase_ok ((close_route s)\<lparr>vc_phase := p\<rparr>)"
    using assms r by (auto simp: voice_inv_def phase_ok_def stopped_def close_route_def)
  ultimately show ?thesis using assms(2) r
    by (simp add: voice_inv_def close_route_def route_close_ok) (simp add: route_close_def)
qed

lemma voice_inv_calls [simp]: "voice_inv (calls c s) = voice_inv s"
  by (cases "vc_route s") (simp_all add: voice_inv_def phase_ok_def stopped_def calls_def)

lemma voice_inv_connected [simp]: "voice_inv (s\<lparr>vc_connected := b\<rparr>) = voice_inv s"
  by (cases "vc_route s") (simp_all add: voice_inv_def phase_ok_def stopped_def)

lemma voice_inv_seen [simp]: "voice_inv (s\<lparr>vc_last_seen := t\<rparr>) = voice_inv s"
  by (cases "vc_route s") (simp_all add: voice_inv_def phase_ok_def stopped_def)

lemma close_route_select [simp]:
  "vc_admission (close_route s) = vc_admission s" "vc_phase (close_route s) = vc_phase s"
  "vc_past (close_route s) = vc_past s" "vc_config (close_route s) = vc_config s"
  "vc_client (close_route s) = vc_client s" "vc_connected (close_route s) = vc_connected s"
  "vc_calls (close_route s) = vc_calls s"
  by (simp_all add: close_route_def split: option.split)

lemma stop_locked_inv:
  assumes "voice_inv s" shows "voice_inv (stop_locked s)"
proof (cases "admitted (vc_admission s)")
  case True
  show ?thesis
  proof (cases "vc_phase s = ChatRetired")
    case retired: True
    have "ad_retired (vc_admission s) \<noteq> None" using assms retired by (simp add: voice_inv_def phase_ok_def)
    then have "voice_inv ((close_route s)\<lparr>vc_phase := ChatRetired\<rparr>)"
      using assms True by (intro voice_inv_stopped) auto
    moreover have "(close_route s)\<lparr>vc_phase := ChatRetired\<rparr> = close_route s" using retired by simp
    ultimately show ?thesis using True retired by (simp add: stop_locked_def)
  next
    case False
    then show ?thesis using True assms voice_inv_stopped [OF assms True]
      by (simp add: stop_locked_def)
  qed
next
  case False
  then show ?thesis using assms by (simp add: stop_locked_def)
qed

lemma refresh_overflow_inv:
  assumes "voice_inv s" and "admitted (vc_admission s)"
  shows "voice_inv (refresh_overflow s)"
  using assms voice_inv_stopped [OF assms] by (simp add: refresh_overflow_def split: option.split)

lemma refresh_overflow_select [simp]:
  "vc_admission (refresh_overflow s) = vc_admission s" "vc_past (refresh_overflow s) = vc_past s"
  "vc_config (refresh_overflow s) = vc_config s"
  by (simp_all add: refresh_overflow_def calls_def split: option.split)

lemma refresh_phase_inv:
  assumes "voice_inv s" and "admitted (vc_admission s)"
  shows "voice_inv (refresh_phase found s)"
proof -
  have "voice_inv (s\<lparr>vc_phase := ChatRunning\<rparr>)"
    if "vc_phase s = ChatStarting" "ad_started (vc_admission s) = Some OutcomeStarted"
  proof (cases "vc_route s")
    case None
    then show ?thesis using assms by (simp add: voice_inv_def)
  next
    case (Some r)
    then show ?thesis using assms that by (auto simp: voice_inv_def phase_ok_def stopped_def)
  qed
  then show ?thesis using assms voice_inv_stopped [OF assms] by (auto simp: refresh_phase_def)
qed

lemma refresh_inv:
  assumes "voice_inv s" shows "voice_inv (refresh found s)"
  using assms refresh_overflow_inv [OF assms] refresh_phase_inv [of "refresh_overflow s" found]
  by (simp add: refresh_def)

lemma calls_select [simp]:
  "vc_admission (calls c s) = vc_admission s" "vc_phase (calls c s) = vc_phase s" "vc_past (calls c s) = vc_past s"
  "vc_route (calls c s) = vc_route s" "vc_config (calls c s) = vc_config s"
  by (simp_all add: calls_def)

definition admit :: "SessionAdmission \<Rightarrow> VoiceChat \<Rightarrow> VoiceChat" where
  "admit added s =
     s\<lparr>vc_past := (if admitted (vc_admission s) then vc_past s @ [vc_admission s] else vc_past s),
       vc_admission := added, vc_route := Some (route_new (ad_handle added)),
       vc_phase := ChatStarting, vc_flush_requested := False, vc_player_stopped := False\<rparr>"

lemma admit_inv:
  assumes "voice_inv s" and "admitted added" and "vc_phase s = ChatRetired \<or> vc_phase s = ChatIdle"
  shows "voice_inv (admit added s)"
  using assms by (auto simp: voice_inv_def phase_ok_def stopped_def route_new_def route_ok_def admit_def)

text \<open>A start either only refreshes, or calls \<open>add\<close> once more and admits what it returns.\<close>

lemma voice_start_cases:
  obtains "snd (voice_start client found added s) = s"
  | "snd (voice_start client found added s) = refresh found s"
  | "snd (voice_start client found added s) = calls (CallAdd (vc_session_id (refresh found s))) (refresh found s)"
    "\<not> admitted added"
  | "snd (voice_start client found added s) = admit added (calls (CallAdd (vc_session_id (refresh found s))) (refresh found s))"
    "admitted added" "vc_phase (refresh found s) = ChatIdle \<or>
      vc_phase (refresh found s) = ChatRetired \<and> vc_player_stopped (refresh found s)"
    "vc_connected s" "authorized s client"
proof -
  let ?u = "snd (voice_start client found added s)" and ?t = "refresh found s"
  have "?u = s \<or> ?u = ?t \<or> ?u = calls (CallAdd (vc_session_id ?t)) ?t \<and> \<not> admitted added \<or>
    ?u = admit added (calls (CallAdd (vc_session_id ?t)) ?t) \<and> admitted added \<and>
      (vc_phase ?t = ChatIdle \<or> vc_phase ?t = ChatRetired \<and> vc_player_stopped ?t) \<and>
      vc_connected s \<and> authorized s client"
  proof (cases "authorized s client \<and> vc_connected s")
    case True
    then show ?thesis by (cases "vc_phase ?t") (simp_all add: voice_start_def Let_def admit_def)
  next
    case False
    then show ?thesis by (auto simp: voice_start_def)
  qed
  then show thesis using that by blast
qed

lemma voice_start_inv:
  assumes "voice_inv s"
  shows "voice_inv (snd (voice_start client found added s))"
  using assms refresh_inv [OF assms, of found]
  by (cases rule: voice_start_cases [of client found added s]) (auto intro!: admit_inv)

lemma voice_take_output_inv:
  assumes "voice_inv s"
  shows "voice_inv (snd (voice_take_output client handle found s))"
proof -
  let ?t = "refresh found s"
  have t: "voice_inv ?t" by (rule refresh_inv [OF assms])
  have "voice_inv (?t\<lparr>vc_route := Some (r\<lparr>rt_queue := []\<rparr>)\<rparr>)" if "vc_route ?t = Some r" for r
    using t that by (auto simp: voice_inv_def phase_ok_def stopped_def route_ok_def)
  then show ?thesis using assms t by (simp add: voice_take_output_def Let_def split: option.split)
qed

lemma voice_append_inv:
  assumes "voice_inv s"
  shows "voice_inv (voice_append handle copied content s)"
proof (cases "vc_route s")
  case (Some r)
  have "route_ok (vc_config s) r" using assms Some by (simp add: voice_inv_def)
  then show ?thesis using assms Some route_append_ok [of "vc_config s" r copied content]
    by (auto simp: voice_append_def voice_inv_def phase_ok_def stopped_def)
qed (use assms in \<open>simp add: voice_append_def\<close>)

lemma voice_liveness_inv: "voice_inv s \<Longrightarrow> voice_inv (voice_liveness now s)"
  by (simp add: voice_liveness_def stop_locked_inv)

lemma voice_ack_inv:
  assumes "voice_inv s"
  shows "voice_inv (snd (voice_acknowledge_player_stop client handle found s))"
proof -
  let ?t = "refresh found s"
  have t: "voice_inv ?t" by (rule refresh_inv [OF assms])
  have "voice_inv (?t\<lparr>vc_player_stopped := True\<rparr>)" if "vc_flush_requested ?t"
    using t that by (cases "vc_route ?t") (auto simp: voice_inv_def phase_ok_def stopped_def)
  then show ?thesis using assms t by (simp add: voice_acknowledge_player_stop_def Let_def)
qed

lemma voice_ticket_inv:
  assumes "voice_inv s"
  shows "ad_started (vc_admission s) = None \<Longrightarrow> voice_inv (s\<lparr>vc_admission := (vc_admission s)\<lparr>ad_started := Some out\<rparr>\<rparr>)"
    and "voice_inv (s\<lparr>vc_admission := (vc_admission s)\<lparr>ad_retired := Some out\<rparr>\<rparr>)"
  using assms by (cases "vc_route s"; auto simp: voice_inv_def phase_ok_def stopped_def admitted_def)+

lemma voice_step_inv:
  assumes "voice_inv s" and "voice_step s u"
  shows "voice_inv u"
  using assms(2)
proof cases
  case (start added client found reply)
  then show ?thesis using voice_start_inv [OF assms(1), of client found added] by simp
next
  case (stop client handle found code)
  then show ?thesis using assms(1) by (auto simp: voice_stop_def Let_def refresh_inv stop_locked_inv split: if_splits)
next
  case (push_audio client handle frame found accepted found' code)
  then show ?thesis using assms(1) by (auto simp: voice_push_audio_def Let_def refresh_inv split: if_splits)
next
  case (status client handle found code)
  then show ?thesis using assms(1) by (auto simp: voice_status_def Let_def refresh_inv split: if_splits)
next
  case (take_output client handle found out)
  then show ?thesis using voice_take_output_inv [OF assms(1), of client handle found] by simp
next
  case (acknowledge client handle found code)
  then show ?thesis using voice_ack_inv [OF assms(1), of client handle found] by simp
next
  case (heartbeat client now code)
  then show ?thesis using assms(1) by (auto simp: voice_heartbeat_def Let_def voice_liveness_inv split: if_splits)
next
  case (tick now found)
  then show ?thesis using assms(1) by (simp add: voice_tick_def voice_liveness_inv refresh_inv)
next
  case disconnect
  then show ?thesis using assms(1) by (simp add: voice_disconnect_def stop_locked_inv)
next
  case (append handle copied content)
  then show ?thesis using assms(1) by (simp add: voice_append_inv)
next
  case (started out)
  then show ?thesis using voice_ticket_inv(1) [OF assms(1)] by simp
next
  case (retired out)
  then show ?thesis using voice_ticket_inv(2) [OF assms(1)] by simp
qed

abbreviation voice_init :: "VoiceChat \<Rightarrow> bool" where
  "voice_init s \<equiv> \<exists>client has_factory config now session_id.
     voice_new client has_factory config now session_id = Inr s"

lemma voice_init_inv: "voice_init s \<Longrightarrow> voice_inv s"
  by (auto simp: voice_new_def voice_inv_def phase_ok_def stopped_def no_admission_def admitted_def split: if_splits)


section \<open>Once stopped\<close>

lemma refresh_stopped:
  assumes "stopped s"
  shows "stopped (refresh found s) \<and> vc_past (refresh found s) = vc_past s"
proof -
  have "refresh_overflow s = s" using assms by (auto simp: refresh_overflow_def stopped_def split: option.split)
  then show ?thesis using assms by (auto simp: refresh_def refresh_phase_def stopped_def)
qed

lemma stop_locked_stopped: "stopped s \<Longrightarrow> stopped (stop_locked s) \<and> vc_past (stop_locked s) = vc_past s"
  by (auto simp: stop_locked_def stopped_def Let_def)

lemma voice_step_stopped:
  assumes "voice_inv s" and "stopped s" and "voice_step s u"
  shows "length (vc_past s) < length (vc_past u) \<or> vc_past u = vc_past s \<and> stopped u"
  using assms(3)
proof cases
  case (start added client found reply)
  have u: "u = snd (voice_start client found added s)" using start by simp
  have "admitted (vc_admission (refresh found s))"
    using assms(1,2) refresh_inv [OF assms(1), of found] refresh_stopped [OF assms(2), of found]
    by (auto simp: voice_inv_def phase_ok_def stopped_def)
  then show ?thesis using assms(2) refresh_stopped [OF assms(2), of found]
    by (cases rule: voice_start_cases [of client found added s])
      (auto simp: u admit_def stopped_def)
next
  case (stop client handle found code)
  then show ?thesis using assms(2) stop_locked_stopped [OF assms(2)] refresh_stopped [of "stop_locked s" found]
    by (auto simp: voice_stop_def Let_def split: if_splits)
next
  case (push_audio client handle frame found accepted found' code)
  then show ?thesis using assms(2) refresh_stopped [OF assms(2), of found]
    by (auto simp: voice_push_audio_def Let_def stopped_def split: if_splits)
next
  case (status client handle found code)
  then show ?thesis using assms(2) refresh_stopped [OF assms(2), of found]
    by (auto simp: voice_status_def Let_def split: if_splits)
next
  case (take_output client handle found out)
  then show ?thesis using assms(2) refresh_stopped [OF assms(2), of found]
    by (auto simp: voice_take_output_def Let_def stopped_def split: if_splits option.splits)
next
  case (acknowledge client handle found code)
  then show ?thesis using assms(2) refresh_stopped [OF assms(2), of found]
    by (auto simp: voice_acknowledge_player_stop_def Let_def stopped_def split: if_splits)
next
  case (heartbeat client now code)
  then show ?thesis using assms(2) stop_locked_stopped [of "s\<lparr>vc_connected := False\<rparr>"]
    by (auto simp: voice_heartbeat_def voice_liveness_def Let_def stopped_def split: if_splits)
next
  case (tick now found)
  have "stopped (voice_liveness now s) \<and> vc_past (voice_liveness now s) = vc_past s"
    using assms(2) stop_locked_stopped [of "s\<lparr>vc_connected := False\<rparr>"] by (simp add: voice_liveness_def stopped_def)
  then show ?thesis using tick refresh_stopped [of "voice_liveness now s" found] by (simp add: voice_tick_def)
next
  case disconnect
  then show ?thesis using assms(2) stop_locked_stopped [of "s\<lparr>vc_connected := False\<rparr>"]
    by (simp add: voice_disconnect_def stopped_def)
next
  case (append handle copied content)
  then show ?thesis using assms(2) by (simp add: voice_append_def stopped_def split: option.split)
qed (use assms(2) in \<open>simp_all add: stopped_def\<close>)

lemma refresh_past [simp]: "vc_past (refresh found s) = vc_past s"
  by (simp add: refresh_def refresh_phase_def)

lemma stop_locked_past [simp]: "vc_past (stop_locked s) = vc_past s"
  by (simp add: stop_locked_def Let_def)

lemma voice_past_grows:
  assumes "voice_step s u"
  shows "length (vc_past s) \<le> length (vc_past u)"
  using assms
proof cases
  case (start added client found reply)
  have u: "u = snd (voice_start client found added s)" using start by simp
  show ?thesis by (cases rule: voice_start_cases [of client found added s]) (simp_all add: u admit_def)
next
  case (heartbeat client now code)
  then show ?thesis by (auto simp: voice_heartbeat_def voice_liveness_def Let_def split: if_splits)
qed (auto simp: voice_stop_def voice_push_audio_def voice_status_def voice_take_output_def voice_tick_def
     voice_acknowledge_player_stop_def voice_liveness_def voice_disconnect_def voice_append_def Let_def
     split: if_splits option.splits)

text \<open>The sessions a connection has had only grow in number.\<close>

interpretation voice: monotone_system voice_init voice_step voice_inv "\<lambda>s. length (vc_past s)"
proof unfold_locales
  fix s u
  show "voice_init s \<Longrightarrow> voice_inv s" by (rule voice_init_inv)
  show "voice_inv s \<Longrightarrow> voice_step s u \<Longrightarrow> voice_inv u" by (rule voice_step_inv)
  show "voice_inv s \<Longrightarrow> voice_step s u \<Longrightarrow> length (vc_past s) \<le> length (vc_past u)" by (rule voice_past_grows)
qed

lemma voice_steps_stopped:
  assumes "steps voice_step s u" and "voice_inv s" and "stopped s"
  shows "voice_inv u \<and> (length (vc_past s) < length (vc_past u) \<or> vc_past u = vc_past s \<and> stopped u)"
  using assms
proof (induction rule: steps.induct)
  case (steps_step s t u)
  have t: "voice_inv t" using steps_step by simp
  consider (new) "length (vc_past s) < length (vc_past t)" | (old) "vc_past t = vc_past s" "stopped t"
    using steps_step by blast
  then have "length (vc_past s) < length (vc_past u) \<or> vc_past u = vc_past s \<and> stopped u"
  proof cases
    case new
    then show ?thesis using voice_past_grows [OF steps_step.hyps(2)] by simp
  next
    case old
    then show ?thesis using voice_step_stopped [OF t old(2) steps_step.hyps(2)] by simp
  qed
  then show ?case using voice_step_inv [OF t steps_step.hyps(2)] by simp
qed simp

lemma authorized_iff: "authorized s client \<longleftrightarrow> client = vc_client s"
  by (cases client; cases "vc_client s") (simp add: authorized_def)

lemma same_handle_iff: "same_handle a b \<longleftrightarrow> a = b"
  by (cases a; cases b) (simp add: same_handle_def)

section \<open>Properties\<close>


text \<open>C25: the output a client takes is that of its current session only, at most \<open>max_output_messages\<close> of
  at most \<open>max_payload_bytes\<close> each, whatever the sinks of this and of earlier sessions appended, and only
  while that session is started and running; it is handed out once.\<close>

theorem voice_output_current:
  assumes "reachable voice_init voice_step s"
    and "voice_take_output client handle found s = (out, u)"
  shows "length out \<le> cf_max_output_messages (vc_config s) \<and>
    (\<forall>x\<in>set out. co_handle x = handle \<and> payload_bytes (co_content x) \<le> cf_max_payload_bytes (vc_config s)) \<and>
    (out \<noteq> [] \<longrightarrow> client = vc_client s \<and> vc_connected s \<and> vc_phase u = ChatRunning \<and>
       ad_started (vc_admission u) = Some OutcomeStarted \<and>
       fst (voice_take_output client handle found' u) = [])"
proof (cases "validate s client handle = ChatOk \<and> vc_phase (refresh found s) = ChatRunning")
  case True
  let ?t = "refresh found s"
  have inv: "voice_inv ?t" by (rule refresh_inv [OF voice.reachable_inv [OF assms(1)]])
  have same: "vc_config ?t = vc_config s" "vc_admission ?t = vc_admission s"
    by (simp_all add: refresh_def refresh_phase_def)
  have "vc_route ?t \<noteq> None"
    using inv True by (cases "vc_route ?t") (auto simp: voice_inv_def phase_ok_def)
  then obtain r where r: "vc_route ?t = Some r" by blast
  have out: "out = rt_queue r" and u: "u = ?t\<lparr>vc_route := Some (r\<lparr>rt_queue := []\<rparr>)\<rparr>"
    using assms(2) True r by (simp_all add: voice_take_output_def Let_def)
  have ok: "route_ok (vc_config s) r" "rt_handle r = ad_handle (vc_admission s)"
    using inv r same by (simp_all add: voice_inv_def)
  have handle: "handle = ad_handle (vc_admission s)" "client = vc_client s" "vc_connected s"
    using True by (auto simp: validate_def same_handle_iff authorized_iff split: if_splits)
  have "ad_started (vc_admission u) = Some OutcomeStarted"
    using inv True by (simp add: voice_inv_def phase_ok_def u)
  moreover have "fst (voice_take_output client handle found' u) = []"
  proof -
    have "rt_queue q = []" if "vc_route (refresh found' u) = Some q" for q
      using that by (auto simp: u refresh_def refresh_phase_def refresh_overflow_def close_route_def calls_def
          route_close_def split: if_splits)
    then show ?thesis by (simp add: voice_take_output_def Let_def split: option.split)
  qed
  ultimately show ?thesis using ok True handle by (simp add: out u route_ok_def)
next
  case False
  then have "out = []" using assms(2) by (auto simp: voice_take_output_def Let_def split: if_splits)
  then show ?thesis by simp
qed


section \<open>Example run\<close>

definition voice_user :: AuthenticatedClient where
  "voice_user = \<lparr>ac_user_id = ''u'', ac_connection_id = ''c''\<rparr>"

definition voice_handle :: SessionHandle where
  "voice_handle = \<lparr>sh_runtime_id = 1, sh_id = ''voice-1'', sh_generation = 7\<rparr>"

definition voice_added :: SessionAdmission where
  "voice_added = \<lparr>ad_status = AdmissionAccepted, ad_handle = voice_handle, ad_started = None, ad_retired = None\<rparr>"

definition voice_start_state :: VoiceChat where
  "voice_start_state = projr (voice_new voice_user True
     \<lparr>cf_max_output_messages = 2, cf_max_payload_bytes = 8, cf_liveness_timeout = 30000\<rparr> 0 ''voice-1'')"

definition voice_admitted_state :: VoiceChat where
  "voice_admitted_state = snd (voice_start voice_user None voice_added voice_start_state)"

definition voice_running_state :: VoiceChat where
  "voice_running_state = voice_append voice_handle True (TranscriptContent ''hi'' True)
     (voice_admitted_state\<lparr>vc_admission := (vc_admission voice_admitted_state)\<lparr>ad_started := Some OutcomeStarted\<rparr>\<rparr>)"

definition voice_stopped_state :: VoiceChat where
  "voice_stopped_state = snd (voice_stop voice_user voice_handle (Some PhaseStopRequested) voice_running_state)"

lemma voice_reachable:
  shows voice_running_reachable: "reachable voice_init voice_step voice_running_state"
    and voice_stopped_reachable: "reachable voice_init voice_step voice_stopped_state"
proof -
  have "voice_new voice_user True
     \<lparr>cf_max_output_messages = 2, cf_max_payload_bytes = 8, cf_liveness_timeout = 30000\<rparr> 0 ''voice-1'' = Inr voice_start_state"
    by (simp add: voice_start_state_def voice_new_def voice_user_def)
  then have "reachable voice_init voice_step voice_start_state" by (blast intro: reach_init)
  then have "reachable voice_init voice_step voice_admitted_state"
    unfolding voice_admitted_state_def
    by (rule reach_step) (rule voice_step.start [where added = voice_added, OF _ surjective_pairing],
      simp add: voice_added_def)
  then have "reachable voice_init voice_step
      (voice_admitted_state\<lparr>vc_admission := (vc_admission voice_admitted_state)\<lparr>ad_started := Some OutcomeStarted\<rparr>\<rparr>)"
    by (rule reach_step) (rule voice_step.started, code_simp)
  then show run: "reachable voice_init voice_step voice_running_state"
    unfolding voice_running_state_def by (rule reach_step) (rule voice_step.append)
  then show "reachable voice_init voice_step voice_stopped_state"
    unfolding voice_stopped_state_def
    by (rule reach_step) (rule voice_step.stop [OF surjective_pairing])
qed


theorem voice_output_current_witness:
  "co_handle (hd (fst (voice_take_output voice_user voice_handle (Some PhaseRunning) voice_running_state))) = voice_handle"
proof -
  let ?out = "fst (voice_take_output voice_user voice_handle (Some PhaseRunning) voice_running_state)"
  have "?out \<noteq> []" by code_simp
  moreover have "co_handle x = voice_handle" if "x \<in> set ?out" for x
    using voice_output_current [OF voice_running_reachable surjective_pairing] that by blast
  ultimately show ?thesis by simp
qed


end
