(* ===== verification/Mock_Providers.thy ===== *)
theory Mock_Providers
  imports Byteturn_Types
begin

text \<open>
  The scripted providers (\<open>mock_providers.h\<close>, \<open>mock_providers.cpp\<close>). The script index is state; what the
  caller's predicate and sink answer is an argument, as a function of the number of the call, so
  that a cancellation can arrive between any two of them.
\<close>

section \<open>Recognizer\<close>

record MockAsrUtterance =
  mu_partials :: "string list"
  mu_final_text :: string

record MockAsr =
  ma_script :: "MockAsrUtterance list"
  ma_utterance :: nat
  ma_partial :: nat

definition mock_asr_new :: "MockAsrUtterance list \<Rightarrow> MockAsr" where
  "mock_asr_new script = \<lparr>ma_script = script, ma_utterance = 0, ma_partial = 0\<rparr>"

definition mock_asr_reset :: "MockAsr \<Rightarrow> MockAsr" where
  "mock_asr_reset s = s\<lparr>ma_utterance := 0, ma_partial := 0\<rparr>"

text \<open>The transcript the callback is given, if any.\<close>

definition mock_asr_push :: "AudioFrame \<Rightarrow> MockAsr \<Rightarrow> (string \<times> bool) option \<times> MockAsr" where
  "mock_asr_push frame s =
     (if ma_utterance s = length (ma_script s) then (None, s)
      else
        let item = ma_script s ! ma_utterance s
        in if af_end_of_utterance frame
           then (Some (mu_final_text item, True), s\<lparr>ma_utterance := ma_utterance s + 1, ma_partial := 0\<rparr>)
           else if af_samples frame = [] \<or> ma_partial s = length (mu_partials item) then (None, s)
           else (Some (mu_partials item ! ma_partial s, False), s\<lparr>ma_partial := ma_partial s + 1\<rparr>))"

fun mock_asr_feed :: "AudioFrame list \<Rightarrow> MockAsr \<Rightarrow> (string \<times> bool) list \<times> MockAsr" where
  "mock_asr_feed [] s = ([], s)"
| "mock_asr_feed (frame # frames) s =
     (case mock_asr_push frame s of
        (t, s) \<Rightarrow>
          (case mock_asr_feed frames s of
             (ts, s) \<Rightarrow> ((case t of None \<Rightarrow> ts | Some x \<Rightarrow> x # ts), s)))"

section \<open>Language model\<close>

record MockLlmReply =
  mr_text_deltas :: "string list"
  mr_tool_calls :: "ToolCall list"

record MockLlm =
  ml_script :: "MockLlmReply list"
  ml_next :: nat

definition mock_llm_new :: "MockLlmReply list \<Rightarrow> MockLlm" where
  "mock_llm_new script = \<lparr>ml_script = script, ml_next = 0\<rparr>"

text \<open>The loop over the deltas from the \<open>k\<close>-th check of \<open>cancelled\<close> and the \<open>j\<close>-th call of the sink: the
  deltas the sink was given, and what was thrown, if anything.\<close>

fun mock_llm_deltas ::
  "(nat \<Rightarrow> bool) \<Rightarrow> (nat \<Rightarrow> string \<Rightarrow> bool) \<Rightarrow> nat \<Rightarrow> nat \<Rightarrow> string list \<Rightarrow> exn option \<times> string list" where
  "mock_llm_deltas cancelled sink k j [] =
     ((if cancelled k then Some (StdException ''mock LLM cancelled'') else None), [])"
| "mock_llm_deltas cancelled sink k j (delta # deltas) =
     (if cancelled k then (Some (StdException ''mock LLM cancelled''), [])
      else if delta = [] then mock_llm_deltas cancelled sink (k + 1) j deltas
      else if \<not> sink j delta then (Some (StdException ''mock LLM consumer stopped''), [delta])
      else (case mock_llm_deltas cancelled sink (k + 1) (j + 1) deltas of (e, given) \<Rightarrow> (e, delta # given)))"

definition mock_llm_stream ::
  "(nat \<Rightarrow> bool) \<Rightarrow> (nat \<Rightarrow> string \<Rightarrow> bool) \<Rightarrow> MockLlm \<Rightarrow> (exn + LlmTurn) \<times> string list \<times> MockLlm" where
  "mock_llm_stream cancelled sink s =
     (if cancelled 0 then (Inl (StdException ''mock LLM cancelled''), [], s)
      else if ml_next s = length (ml_script s) then (Inl (StdException ''mock LLM script exhausted''), [], s)
      else
        let reply = ml_script s ! ml_next s
        in case mock_llm_deltas cancelled sink 1 0 (mr_text_deltas reply) of
             (e, given) \<Rightarrow>
               ((case e of
                   Some e \<Rightarrow> Inl e
                 | None \<Rightarrow> Inr \<lparr>lt_text = concat given, lt_tool_calls = mr_tool_calls reply, lt_complete = True\<rparr>),
                given, s\<lparr>ml_next := ml_next s + 1\<rparr>))"

definition mock_llm_complete :: "(nat \<Rightarrow> bool) \<Rightarrow> MockLlm \<Rightarrow> (exn + LlmTurn) \<times> MockLlm" where
  "mock_llm_complete cancelled s =
     (case mock_llm_stream cancelled (\<lambda>_ _. True) s of (r, given, s) \<Rightarrow> (r, s))"

section \<open>Synthesis\<close>

record MockTts =
  mt_frames :: "AudioFrame list"
  mt_cancelled :: bool

definition mock_pcm_ok :: "AudioFrame \<Rightarrow> bool" where
  "mock_pcm_ok frame \<longleftrightarrow>
     \<not> (af_sample_rate_hz frame \<le> 0 \<or> af_channels frame \<le> 0 \<or> af_samples frame = [] \<or>
        length (af_samples frame) mod nat (af_channels frame) \<noteq> 0)"

definition mock_tts_new :: "AudioFrame list \<Rightarrow> exn + MockTts" where
  "mock_tts_new frames =
     (if list_all mock_pcm_ok frames then Inr \<lparr>mt_frames = frames, mt_cancelled = False\<rparr>
      else Inl (StdException ''invalid mock PCM frame''))"

definition mock_tts_begin :: "MockTts \<Rightarrow> MockTts" where
  "mock_tts_begin s = s\<lparr>mt_cancelled := False\<rparr>"

definition mock_tts_cancel :: "MockTts \<Rightarrow> MockTts" where
  "mock_tts_cancel s = s\<lparr>mt_cancelled := True\<rparr>"

text \<open>\<open>cancels k\<close>: \<open>cancel\<close> is called from another thread before the \<open>k\<close>-th load of the flag.\<close>

fun mock_tts_frames :: "(nat \<Rightarrow> bool) \<Rightarrow> (nat \<Rightarrow> bool) \<Rightarrow> nat \<Rightarrow> AudioFrame list \<Rightarrow> MockTts \<Rightarrow> AudioFrame list \<times> MockTts" where
  "mock_tts_frames cancels sink k [] s = ([], s)"
| "mock_tts_frames cancels sink k (frame # frames) s =
     (let s = (if cancels k then mock_tts_cancel s else s)
      in if mt_cancelled s then ([], s)
         else if \<not> sink k then ([frame], s)
         else (case mock_tts_frames cancels sink (k + 1) frames s of (given, s) \<Rightarrow> (frame # given, s)))"

definition mock_tts_chunk ::
  "(nat \<Rightarrow> bool) \<Rightarrow> (nat \<Rightarrow> bool) \<Rightarrow> string \<Rightarrow> MockTts \<Rightarrow> AudioFrame list \<times> MockTts" where
  "mock_tts_chunk cancels sink body s =
     (if body = [] then ([], s) else mock_tts_frames cancels sink 0 (mt_frames s) s)"

definition mock_tts_synthesize ::
  "(nat \<Rightarrow> bool) \<Rightarrow> (nat \<Rightarrow> bool) \<Rightarrow> string \<Rightarrow> MockTts \<Rightarrow> AudioFrame list \<times> MockTts" where
  "mock_tts_synthesize cancels sink body s = mock_tts_chunk cancels sink body (mock_tts_begin s)"

section \<open>The scripts are replayed\<close>

lemma mock_asr_feed_finals:
  "ma_utterance s \<le> length (ma_script s) \<Longrightarrow>
     map fst (filter snd (fst (mock_asr_feed frames s))) =
     map mu_final_text (take (length (filter af_end_of_utterance frames)) (drop (ma_utterance s) (ma_script s)))"
proof (induction frames arbitrary: s)
  case (Cons frame frames)
  obtain t u where p: "mock_asr_push frame s = (t, u)" by fastforce
  obtain ts w where f: "mock_asr_feed frames u = (ts, w)" by fastforce
  consider (exhausted) "ma_utterance s = length (ma_script s)"
    | (final) "ma_utterance s < length (ma_script s)" "af_end_of_utterance frame"
    | (partial) "ma_utterance s < length (ma_script s)" "\<not> af_end_of_utterance frame"
    using Cons.prems by linarith
  then show ?case
  proof cases
    case exhausted
    then show ?thesis using Cons.IH [of s] by (simp add: mock_asr_push_def split: prod.split)
  next
    case final
    then have "t = Some (mu_final_text (ma_script s ! ma_utterance s), True)"
      "u = s\<lparr>ma_utterance := ma_utterance s + 1, ma_partial := 0\<rparr>"
      using p by (auto simp: mock_asr_push_def Let_def)
    moreover have "drop (ma_utterance s) (ma_script s) =
        ma_script s ! ma_utterance s # drop (ma_utterance s + 1) (ma_script s)"
      using final by (simp add: Cons_nth_drop_Suc)
    ultimately show ?thesis using Cons.IH [of u] final p f by simp
  next
    case partial
    then have "t = None \<and> u = s \<or> (\<exists>x. t = Some (x, False)) \<and> u = s\<lparr>ma_partial := ma_partial s + 1\<rparr>"
      using p by (auto simp: mock_asr_push_def Let_def split: if_splits)
    then show ?thesis using Cons.IH [of u] Cons.prems partial p f by auto
  qed
qed simp

lemma mock_llm_deltas_given:
  "mock_llm_deltas cancelled sink k j ds = (e, given) \<Longrightarrow>
     (\<exists>n. given = take n (filter (\<lambda>d. d \<noteq> []) ds)) \<and> (e = None \<longrightarrow> given = filter (\<lambda>d. d \<noteq> []) ds)"
proof (induction ds arbitrary: k j e given)
  case (Cons d ds)
  show ?case
  proof (cases "cancelled k \<or> d \<noteq> [] \<and> \<not> sink j d")
    case True
    then have "given = [] \<and> e \<noteq> None \<or> given = [d] \<and> e \<noteq> None \<and> d \<noteq> []"
      using Cons.prems by (auto split: if_splits)
    then show ?thesis by (auto intro: exI [of _ 0] exI [of _ 1])
  next
    case go: False
    show ?thesis
    proof (cases "d = []")
      case True
      then show ?thesis using Cons.IH [of "k + 1" j e given] Cons.prems go by simp
    next
      case False
      obtain e' g where g: "mock_llm_deltas cancelled sink (k + 1) (j + 1) ds = (e', g)" by fastforce
      then have "e = e'" "given = d # g" using Cons.prems go False by simp_all
      moreover obtain n where "g = take n (filter (\<lambda>d. d \<noteq> []) ds)" using Cons.IH [OF g] by blast
      ultimately show ?thesis using Cons.IH [OF g] False by (auto intro!: exI [of _ "Suc n"])
    qed
  qed
qed simp

lemma concat_nonempty: "concat (filter (\<lambda>d. d \<noteq> []) ds) = concat ds"
  by (induction ds) auto

text \<open>The scripted providers replay their scripts whatever the timing: the final transcripts of any
  frames are the script's final texts in order, one for each end of utterance until the script is
  exhausted; a model call gives the sink a prefix of the non-empty deltas of the next reply, returns the
  whole text and the tool calls when nothing stopped it, and takes that reply from the script unless it
  was cancelled before it began.\<close>

theorem mock_scripts_replayed:
  "map fst (filter snd (fst (mock_asr_feed frames (mock_asr_new script)))) =
     map mu_final_text (take (length (filter af_end_of_utterance frames)) script) \<and>
   (case mock_llm_stream cancelled sink s of
      (r, given, u) \<Rightarrow>
        (case r of
           Inl e \<Rightarrow> u = s \<and> given = [] \<or> u = s\<lparr>ml_next := ml_next s + 1\<rparr>
         | Inr turn \<Rightarrow> u = s\<lparr>ml_next := ml_next s + 1\<rparr> \<and> \<not> cancelled 0 \<and>
             lt_text turn = concat (mr_text_deltas (ml_script s ! ml_next s)) \<and>
             lt_tool_calls turn = mr_tool_calls (ml_script s ! ml_next s)) \<and>
        (\<exists>n. given = take n (filter (\<lambda>d. d \<noteq> []) (mr_text_deltas (ml_script s ! ml_next s)))))"
proof (rule conjI)
  show "map fst (filter snd (fst (mock_asr_feed frames (mock_asr_new script)))) =
     map mu_final_text (take (length (filter af_end_of_utterance frames)) script)"
    by (simp add: mock_asr_feed_finals mock_asr_new_def)
next
  let ?ds = "mr_text_deltas (ml_script s ! ml_next s)"
  obtain e given where d: "mock_llm_deltas cancelled sink 1 0 ?ds = (e, given)" by fastforce
  have prefix: "\<exists>n. given = take n (filter (\<lambda>d. d \<noteq> []) ?ds)"
    using mock_llm_deltas_given [OF d] by blast
  have all: "concat given = concat ?ds" if "e = None"
    using mock_llm_deltas_given [OF d] that by (simp add: concat_nonempty)
  have none: "\<exists>n. [] = take n (filter (\<lambda>d. d \<noteq> []) ?ds)" by (rule exI [of _ 0]) simp
  show "case mock_llm_stream cancelled sink s of
      (r, given, u) \<Rightarrow>
        (case r of
           Inl e \<Rightarrow> u = s \<and> given = [] \<or> u = s\<lparr>ml_next := ml_next s + 1\<rparr>
         | Inr turn \<Rightarrow> u = s\<lparr>ml_next := ml_next s + 1\<rparr> \<and> \<not> cancelled 0 \<and>
             lt_text turn = concat ?ds \<and>
             lt_tool_calls turn = mr_tool_calls (ml_script s ! ml_next s)) \<and>
        (\<exists>n. given = take n (filter (\<lambda>d. d \<noteq> []) ?ds))"
    using prefix all none d by (cases e) (simp_all add: mock_llm_stream_def Let_def)
qed

lemma mock_tts_frames_given:
  "mock_tts_frames cancels sink k frames s = (given, u) \<Longrightarrow> \<exists>n. given = take n frames"
proof (induction frames arbitrary: k s given u)
  case (Cons frame frames)
  let ?s = "if cancels k then mock_tts_cancel s else s"
  obtain g w where g: "mock_tts_frames cancels sink (k + 1) frames ?s = (g, w)" by fastforce
  then obtain n where "g = take n frames" using Cons.IH by blast
  moreover have "given = [] \<or> given = [frame] \<or> given = frame # g"
    using Cons.prems g by (auto simp: Let_def split: if_splits)
  ultimately show ?case by (auto intro: exI [of _ 0] exI [of _ 1] exI [of _ "Suc n"])
qed simp

text \<open>Synthesis gives a prefix of the frames, and after a cancellation in the utterance nothing.\<close>

lemma mock_tts_cancelled_silent: "mt_cancelled s \<Longrightarrow> fst (mock_tts_chunk cancels sink body s) = []"
  by (cases "mt_frames s") (simp_all add: mock_tts_chunk_def mock_tts_cancel_def Let_def)

end
