(* ===== verification/Websocket_Mock.thy ===== *)
theory Websocket_Mock
  imports Byteturn_Types
begin

text \<open>
  The WebSocket mock suppliers (\<open>websocket_mock_providers.cpp\<close>): the validation of bounds, audio and
  history, and the request loops of the three providers. The sockets (\<open>Connection::run\<close>, Boost.Beast)
  and the JSON library are parameters: what the \<open>n\<close>-th read brings is \<open>wires n\<close>, a failure of the
  I/O, deadline or cancellation check, or a frame with the members the code asks its JSON for. An
  absent member is \<open>None\<close>, one of another type \<open>Some None\<close>; both make the library throw.
\<close>

section \<open>Errors and bounds\<close>

datatype ws_error = CancelledRequest | WsRuntimeError string | WsInvalidArgument string | WsJsonError
  | WsClientError exn

record WebSocketMockConfig =
  wc_port :: nat
  wc_timeout :: int
  wc_max_message_bytes :: nat
  wc_max_response_bytes :: nat
  wc_max_response_messages :: nat

definition ws_checked :: "WebSocketMockConfig \<Rightarrow> ws_error + WebSocketMockConfig" where
  "ws_checked c =
     (if wc_port c = 0 \<or> wc_timeout c \<le> 0 \<or> 60000 < wc_timeout c \<or>
         wc_max_message_bytes c = 0 \<or> 1024 * 1024 < wc_max_message_bytes c \<or>
         wc_max_response_bytes c = 0 \<or> 16 * 1024 * 1024 < wc_max_response_bytes c \<or>
         wc_max_response_messages c = 0 \<or> 4096 < wc_max_response_messages c
      then Inl (WsInvalidArgument ''invalid WebSocket mock bounds'') else Inr c)"

section \<open>Audio and history\<close>

definition audio_json_ok :: "AudioFrame \<Rightarrow> nat \<Rightarrow> bool" where
  "audio_json_ok frame limit \<longleftrightarrow>
     \<not> (af_sample_rate_hz frame \<le> 0 \<or> af_channels frame \<le> 0 \<or> 8 < af_channels frame \<or>
        length (af_samples frame) mod nat (af_channels frame) \<noteq> 0 \<or> limit div 8 < length (af_samples frame))"

text \<open>The members of an audio object: integers, or \<open>Some None\<close>; the samples, each an integer or not.\<close>

record WireAudio =
  wa_sample_rate_hz :: "int option option"
  wa_channels :: "int option option"
  wa_samples :: "int option list option option"

fun pcm_samples :: "int option list \<Rightarrow> (ws_error + 16 word list)" where
  "pcm_samples [] = Inr []"
| "pcm_samples (x # xs) =
     (case x of
        None \<Rightarrow> Inl (WsRuntimeError ''invalid mock PCM sample'')
      | Some n \<Rightarrow>
          if n < - 32768 \<or> 32767 < n then Inl (WsRuntimeError ''invalid mock PCM sample'')
          else (case pcm_samples xs of Inl e \<Rightarrow> Inl e | Inr ws \<Rightarrow> Inr (word_of_int n # ws)))"

definition parse_audio :: "WireAudio \<Rightarrow> ws_error + AudioFrame" where
  "parse_audio j =
     (case (wa_sample_rate_hz j, wa_channels j) of
        (Some (Some rate), Some (Some channels)) \<Rightarrow>
          if rate \<le> 0 \<or> 192000 < rate \<or> channels \<le> 0 \<or> 8 < channels
          then Inl (WsRuntimeError ''invalid mock audio metadata'')
          else (case wa_samples j of
              None \<Rightarrow> Inl WsJsonError
            | Some None \<Rightarrow> Inl (WsRuntimeError ''invalid mock audio format'')
            | Some (Some xs) \<Rightarrow>
                (case pcm_samples xs of
                   Inl e \<Rightarrow> Inl e
                 | Inr samples \<Rightarrow>
                     if samples = [] \<or> length samples mod nat channels \<noteq> 0
                     then Inl (WsRuntimeError ''invalid mock PCM interleaving'')
                     else Inr \<lparr>af_samples = samples, af_sample_rate_hz = rate, af_channels = channels,
                               af_end_of_utterance = False\<rparr>))
      | (None, _) \<Rightarrow> Inl WsJsonError
      | (Some (Some _), None) \<Rightarrow> Inl WsJsonError
      | _ \<Rightarrow> Inl (WsRuntimeError ''invalid mock audio metadata''))"

text \<open>\<open>debit\<close> and \<open>charge\<close>: the bytes used so far, never more than the limit.\<close>

fun ws_debit :: "nat \<Rightarrow> nat list \<Rightarrow> nat \<Rightarrow> nat option" where
  "ws_debit limit [] bytes = Some bytes"
| "ws_debit limit (n # ns) bytes = (if limit - bytes < n then None else ws_debit limit ns (bytes + n))"

definition call_sizes :: "ToolCall \<Rightarrow> nat list" where
  "call_sizes call = [48, length (tc_id call), length (tc_name call), length (tc_arguments call)]"

definition message_sizes :: "Message \<Rightarrow> nat list" where
  "message_sizes m = [96, length (msg_content m), length (msg_name m), length (msg_tool_call_id m)]"

fun history_bytes :: "nat \<Rightarrow> Message list \<Rightarrow> nat \<Rightarrow> ws_error + nat" where
  "history_bytes limit [] bytes = Inr bytes"
| "history_bytes limit (m # ms) bytes =
     (case ws_debit limit (message_sizes m) bytes of
        None \<Rightarrow> Inl (WsInvalidArgument ''mock history too large'')
      | Some bytes \<Rightarrow>
          if 128 < length (msg_tool_calls m) then Inl (WsInvalidArgument ''too many mock tool calls'')
          else (case ws_debit limit (concat (map call_sizes (msg_tool_calls m))) bytes of
              None \<Rightarrow> Inl (WsInvalidArgument ''mock history too large'')
            | Some bytes \<Rightarrow> history_bytes limit ms bytes))"

definition history_json :: "Message list \<Rightarrow> nat \<Rightarrow> ws_error + nat" where
  "history_json history limit =
     (if 1024 < length history then Inl (WsInvalidArgument ''mock history too large'')
      else history_bytes limit history 0)"

section \<open>Replies\<close>

record WsReply =
  wr_object :: bool
  wr_id :: "nat option option"
  wr_type :: "string option"
  wr_text :: "string option"
  wr_final :: "bool option"
  wr_tool_calls :: "ToolCall option list option option"
  wr_audio :: "WireAudio option"

text \<open>A read that failed, or a frame: was it text, its size, and its JSON unless that did not parse.\<close>

datatype Wire = WireFails ws_error | WireFrame bool nat "WsReply option"

definition ws_receive ::
  "WebSocketMockConfig \<Rightarrow> nat \<Rightarrow> Wire \<Rightarrow> nat \<Rightarrow> nat \<Rightarrow> ws_error + WsReply \<times> string \<times> nat" where
  "ws_receive c i wire bytes messages =
     (if wc_max_response_messages c < messages + 1
      then Inl (WsRuntimeError ''mock WebSocket response message limit'')
      else case wire of
          WireFails e \<Rightarrow> Inl e
        | WireFrame is_text n json \<Rightarrow>
            if \<not> is_text \<or> wc_max_response_bytes c - bytes < n
            then Inl (WsRuntimeError ''mock WebSocket response format/size limit'')
            else (case json of
                None \<Rightarrow> Inl (WsRuntimeError ''invalid mock WebSocket JSON'')
              | Some r \<Rightarrow>
                  if \<not> wr_object r then Inl (WsRuntimeError ''mock WebSocket response identity mismatch'')
                  else if wr_id r = None then Inl WsJsonError
                  else if wr_id r \<noteq> Some (Some i)
                  then Inl (WsRuntimeError ''mock WebSocket response identity mismatch'')
                  else (case wr_type r of
                      None \<Rightarrow> Inl WsJsonError
                    | Some t \<Rightarrow>
                        if t = ''error'' then Inl (WsRuntimeError ''mock supplier reported an error'')
                        else Inr (r, t, bytes + n))))"

text \<open>The loop the three providers share: receive, handle (an error, done, or go on), until done.\<close>

datatype 'a Handled = HandledFails ws_error 'a | HandledDone 'a | HandledNext 'a

function ws_loop ::
  "WebSocketMockConfig \<Rightarrow> nat \<Rightarrow> (nat \<Rightarrow> Wire) \<Rightarrow> (WsReply \<Rightarrow> string \<Rightarrow> 'a \<Rightarrow> 'a Handled) \<Rightarrow> nat \<Rightarrow> nat \<Rightarrow> 'a \<Rightarrow>
     (ws_error option \<times> 'a)" where
  "ws_loop c i wires handle bytes messages acc =
     (case ws_receive c i (wires messages) bytes messages of
        Inl e \<Rightarrow> (Some e, acc)
      | Inr (r, t, bytes) \<Rightarrow>
          (case handle r t acc of
             HandledFails e acc \<Rightarrow> (Some e, acc)
           | HandledDone acc \<Rightarrow> (None, acc)
           | HandledNext acc \<Rightarrow> ws_loop c i wires handle bytes (messages + 1) acc))"
  by pat_completeness auto
termination
  by (relation "measure (\<lambda>(c, i, wires, handle, bytes, messages, acc). wc_max_response_messages c + 1 - messages)")
    (auto simp: ws_receive_def split: if_splits)

declare ws_loop.simps [simp del]

section \<open>Recognizer\<close>

record WsAsr =
  wx_config :: WebSocketMockConfig
  wx_epoch :: nat
  wx_connection_epoch :: nat
  wx_request_id :: u64
  wx_connected :: bool

definition ws_asr_new :: "WebSocketMockConfig \<Rightarrow> ws_error + WsAsr" where
  "ws_asr_new c =
     (case ws_checked c of
        Inl e \<Rightarrow> Inl e
      | Inr c \<Rightarrow> Inr \<lparr>wx_config = c, wx_epoch = 0, wx_connection_epoch = 0, wx_request_id = 0, wx_connected = False\<rparr>)"

definition ws_asr_reset :: "WsAsr \<Rightarrow> WsAsr" where
  "ws_asr_reset s = s\<lparr>wx_epoch := wx_epoch s + 1\<rparr>"

text \<open>
  \<open>sink\<close>: what the callback throws, if anything, in the \<open>n\<close>-th call of the request. The accumulator: the
  transcripts it was given.
\<close>

definition asr_event ::
  "(nat \<Rightarrow> string \<Rightarrow> bool \<Rightarrow> exn option) \<Rightarrow> WsReply \<Rightarrow> string \<Rightarrow> (string \<times> bool) list \<Rightarrow> (string \<times> bool) list Handled" where
  "asr_event sink r t given =
     (if t = ''done'' then HandledDone given
      else if t \<noteq> ''transcript'' then HandledFails (WsRuntimeError ''unexpected mock ASR event'') given
      else (case (wr_text r, wr_final r) of
          (Some body, Some final) \<Rightarrow>
            (case sink (length given) body final of
               Some e \<Rightarrow> HandledFails (WsClientError e) (given @ [(body, final)])
             | None \<Rightarrow> HandledNext (given @ [(body, final)]))
        | _ \<Rightarrow> HandledFails WsJsonError given))"

text \<open>\<open>connects\<close> and \<open>sends\<close> are the failures of \<open>connect\<close> and \<open>send\<close>, if any; \<open>resets\<close> the resets
  that arrived while the call ran. A cancellation drops the connection and returns.\<close>

definition ws_asr_push ::
  "AudioFrame \<Rightarrow> ws_error option \<Rightarrow> ws_error option \<Rightarrow> (nat \<Rightarrow> Wire) \<Rightarrow>
     (nat \<Rightarrow> string \<Rightarrow> bool \<Rightarrow> exn option) \<Rightarrow> nat \<Rightarrow>
     WsAsr \<Rightarrow> ws_error option \<times> (string \<times> bool) list \<times> WsAsr" where
  "ws_asr_push frame connects sends wires sink resets s =
     (let reconnect = (\<not> wx_connected s \<or> wx_connection_epoch s \<noteq> wx_epoch s);
          started = s\<lparr>wx_connected := True, wx_connection_epoch := wx_epoch s\<rparr>;
          sent = started\<lparr>wx_request_id := wx_request_id s + 1\<rparr>;
          (result, given, after) =
            (if \<not> audio_json_ok frame (wc_max_message_bytes (wx_config s))
             then (Some (WsInvalidArgument ''invalid or oversized mock audio input''), [], s)
             else if reconnect \<and> connects \<noteq> None then (connects, [], started)
             else if wx_request_id s = - 1
             then (Some (WsRuntimeError ''mock request identity exhausted''), [], started)
             else if sends \<noteq> None then (sends, [], sent)
             else (case ws_loop (wx_config s) (unat (wx_request_id s + 1)) wires (asr_event sink) 0 0 [] of
                 (e, given) \<Rightarrow> (e, given, sent)));
          after = after\<lparr>wx_epoch := wx_epoch s + resets\<rparr>
      in case result of
           None \<Rightarrow> (None, given, after)
         | Some e \<Rightarrow> (if e = CancelledRequest then None else Some e, given, after\<lparr>wx_connected := False\<rparr>))"

section \<open>Language model\<close>

definition llm_tool_calls :: "WsReply \<Rightarrow> ws_error + ToolCall list" where
  "llm_tool_calls r =
     (case wr_tool_calls r of
        None \<Rightarrow> Inl WsJsonError
      | Some None \<Rightarrow> Inl (WsRuntimeError ''invalid mock tool calls'')
      | Some (Some calls) \<Rightarrow>
          if 128 < length calls then Inl (WsRuntimeError ''invalid mock tool calls'')
          else if None \<in> set calls then Inl WsJsonError else Inr (map the calls))"

record WsLlmAcc =
  wl_turn :: LlmTurn
  wl_given :: "string list"

text \<open>The sink's \<open>n\<close>-th call of the request: an exception, or whether it goes on.\<close>

definition llm_event ::
  "(nat \<Rightarrow> string \<Rightarrow> exn + bool) \<Rightarrow> WsReply \<Rightarrow> string \<Rightarrow> WsLlmAcc \<Rightarrow> WsLlmAcc Handled" where
  "llm_event sink r t acc =
     (if t = ''done''
      then (case llm_tool_calls r of
          Inl e \<Rightarrow> HandledFails e acc
        | Inr calls \<Rightarrow> HandledDone (acc\<lparr>wl_turn := (wl_turn acc)\<lparr>lt_tool_calls := calls\<rparr>\<rparr>))
      else if t \<noteq> ''text_delta'' then HandledFails (WsRuntimeError ''unexpected mock LLM event'') acc
      else (case wr_text r of
          None \<Rightarrow> HandledFails WsJsonError acc
        | Some delta \<Rightarrow>
            (let given = (if delta = [] then wl_given acc else wl_given acc @ [delta])
             in case (if delta = [] then Inr True else sink (length (wl_given acc)) delta) of
                  Inl e \<Rightarrow> HandledFails (WsClientError e) (acc\<lparr>wl_given := given\<rparr>)
                | Inr False \<Rightarrow> HandledFails CancelledRequest (acc\<lparr>wl_given := given\<rparr>)
                | Inr True \<Rightarrow>
                    HandledNext \<lparr>wl_turn = (wl_turn acc)\<lparr>lt_text := lt_text (wl_turn acc) @ delta\<rparr>,
                                 wl_given = given\<rparr>)))"

definition ws_llm_stream ::
  "WebSocketMockConfig \<Rightarrow> Message list \<Rightarrow> bool \<Rightarrow> ws_error option \<Rightarrow> (nat \<Rightarrow> Wire) \<Rightarrow>
     (nat \<Rightarrow> string \<Rightarrow> exn + bool) \<Rightarrow> (ws_error + LlmTurn) \<times> string list" where
  "ws_llm_stream c history stop io wires sink =
     (if stop then (Inl CancelledRequest, [])
      else case history_json history (wc_max_message_bytes c) of
          Inl e \<Rightarrow> (Inl e, [])
        | Inr _ \<Rightarrow>
            (case io of
               Some e \<Rightarrow> (Inl e, [])
             | None \<Rightarrow>
                 (case ws_loop c 1 wires (llm_event sink) 0 0
                     \<lparr>wl_turn = \<lparr>lt_text = [], lt_tool_calls = [], lt_complete = True\<rparr>, wl_given = []\<rparr> of
                    (Some e, acc) \<Rightarrow> (Inl e, wl_given acc)
                  | (None, acc) \<Rightarrow> (Inr (wl_turn acc), wl_given acc))))"

section \<open>Synthesis\<close>

definition tts_event ::
  "(nat \<Rightarrow> AudioFrame \<Rightarrow> exn + bool) \<Rightarrow> WsReply \<Rightarrow> string \<Rightarrow> AudioFrame list \<Rightarrow> AudioFrame list Handled" where
  "tts_event sink r t given =
     (if t = ''done'' then HandledDone given
      else if t \<noteq> ''audio'' then HandledFails (WsRuntimeError ''unexpected mock TTS event'') given
      else (case wr_audio r of
          None \<Rightarrow> HandledFails WsJsonError given
        | Some j \<Rightarrow>
            (case parse_audio j of
               Inl e \<Rightarrow> HandledFails e given
             | Inr frame \<Rightarrow>
                 (case sink (length given) frame of
                    Inl e \<Rightarrow> HandledFails (WsClientError e) (given @ [frame])
                  | Inr True \<Rightarrow> HandledNext (given @ [frame])
                  | Inr False \<Rightarrow> HandledDone (given @ [frame])))))"

definition ws_tts_chunk ::
  "WebSocketMockConfig \<Rightarrow> string \<Rightarrow> bool \<Rightarrow> ws_error option \<Rightarrow> (nat \<Rightarrow> Wire) \<Rightarrow>
     (nat \<Rightarrow> AudioFrame \<Rightarrow> exn + bool) \<Rightarrow>
     ws_error option \<times> AudioFrame list" where
  "ws_tts_chunk c body cancelled io wires sink =
     (if body = [] \<or> cancelled then (None, [])
      else if wc_max_message_bytes c < length body then (Some (WsInvalidArgument ''mock TTS text too large''), [])
      else case (case io of Some e \<Rightarrow> (Some e, []) | None \<Rightarrow> ws_loop c 1 wires (tts_event sink) 0 0 []) of
          (e, given) \<Rightarrow> (if e = Some CancelledRequest then None else e, given))"

section \<open>Exchanges are bounded\<close>

fun handled_acc :: "'a Handled \<Rightarrow> 'a" where
  "handled_acc (HandledFails e acc) = acc"
| "handled_acc (HandledDone acc) = acc"
| "handled_acc (HandledNext acc) = acc"

lemma ws_receive_limit: "ws_receive c i wire bytes messages = Inr x \<Longrightarrow> messages < wc_max_response_messages c"
  by (auto simp: ws_receive_def split: if_splits)

lemma ws_receive_bytes:
  "ws_receive c i wire bytes messages = Inr (r, t, bytes') \<Longrightarrow> bytes \<le> wc_max_response_bytes c \<Longrightarrow>
     bytes' \<le> wc_max_response_bytes c"
  by (auto simp: ws_receive_def split: if_splits Wire.splits option.splits)

text \<open>A loop whose handler adds at most one thing to a count ends with at most \<open>max_response_messages\<close>.\<close>

lemma ws_loop_count:
  fixes size_of :: "'a \<Rightarrow> nat"
  assumes "\<And>r t acc. size_of (handled_acc (handle r t acc)) \<le> size_of acc + 1"
  shows "size_of acc \<le> messages \<Longrightarrow> messages \<le> wc_max_response_messages c \<Longrightarrow>
    size_of (snd (ws_loop c i wires handle bytes messages acc)) \<le> wc_max_response_messages c"
proof (induction "wc_max_response_messages c - messages" arbitrary: bytes messages acc)
  case 0
  then have "\<exists>e. ws_receive c i (wires messages) bytes messages = Inl e"
    by (simp add: ws_receive_def)
  then show ?case using 0 by (subst ws_loop.simps) (auto split: sum.split)
next
  case (Suc n)
  show ?case
  proof (cases "ws_receive c i (wires messages) bytes messages")
    case (Inl e)
    then show ?thesis using Suc.prems by (subst ws_loop.simps) simp
  next
    case (Inr x)
    obtain r t bytes' where x: "x = (r, t, bytes')" by (cases x) auto
    have less: "messages < wc_max_response_messages c" by (rule ws_receive_limit [OF Inr])
    have step: "size_of (handled_acc (handle r t acc)) \<le> messages + 1"
      using assms [of r t acc] Suc.prems(1) by linarith
    show ?thesis
    proof (cases "handle r t acc")
      case (HandledNext acc')
      have "size_of (snd (ws_loop c i wires handle bytes' (messages + 1) acc')) \<le> wc_max_response_messages c"
        by (rule Suc.hyps(1)) (use Suc.hyps(2) step HandledNext less in simp_all)
      then show ?thesis using Inr x HandledNext by (subst ws_loop.simps) simp
    qed (use Inr x step less in \<open>subst ws_loop.simps, simp\<close>)+
  qed
qed

text \<open>
  The exchanges a request accepts: replies read one after the other from read \<open>messages\<close> on, each a
  text frame with a JSON object of the request's id and of a type other than \<open>error\<close>, within the
  limits on messages and bytes. A handler takes them to a result when it goes on after every one but
  the last and is done with the last.
\<close>

fun ws_exchange ::
  "WebSocketMockConfig \<Rightarrow> nat \<Rightarrow> (nat \<Rightarrow> Wire) \<Rightarrow> nat \<Rightarrow> nat \<Rightarrow> WsReply list \<Rightarrow> bool" where
  "ws_exchange c i wires bytes messages [] \<longleftrightarrow> True"
| "ws_exchange c i wires bytes messages (r # rs) \<longleftrightarrow>
     messages < wc_max_response_messages c \<and>
     (\<exists>n. wires messages = WireFrame True n (Some r) \<and> n \<le> wc_max_response_bytes c - bytes \<and>
       ws_exchange c i wires (bytes + n) (messages + 1) rs) \<and>
     wr_object r \<and> wr_id r = Some (Some i) \<and> wr_type r \<notin> {None, Some ''error''}"

fun handled_all :: "(WsReply \<Rightarrow> string \<Rightarrow> 'a \<Rightarrow> 'a Handled) \<Rightarrow> WsReply list \<Rightarrow> 'a \<Rightarrow> 'a option" where
  "handled_all handle [] acc = None"
| "handled_all handle (r # rs) acc =
     (case handle r (the (wr_type r)) acc of
        HandledFails e acc \<Rightarrow> None
      | HandledDone acc \<Rightarrow> if rs = [] then Some acc else None
      | HandledNext acc \<Rightarrow> handled_all handle rs acc)"

lemma ws_receive_reply:
  "ws_receive c i wire bytes messages = Inr (r, t, bytes') \<longleftrightarrow>
     messages < wc_max_response_messages c \<and> wr_type r = Some t \<and> t \<noteq> ''error'' \<and>
     wr_object r \<and> wr_id r = Some (Some i) \<and>
     (\<exists>n. wire = WireFrame True n (Some r) \<and> n \<le> wc_max_response_bytes c - bytes \<and> bytes' = bytes + n)"
  by (auto simp: ws_receive_def split: if_splits Wire.splits option.splits)

text \<open>A loop succeeds only with an exchange its handler takes to the result, and with each of them.\<close>

lemma ws_loop_exchange:
  "ws_loop c i wires handle bytes messages acc = (None, acc') \<Longrightarrow>
     \<exists>rs. ws_exchange c i wires bytes messages rs \<and> handled_all handle rs acc = Some acc'"
proof (induction "wc_max_response_messages c - messages" arbitrary: bytes messages acc)
  case 0
  then obtain e where "ws_receive c i (wires messages) bytes messages = Inl e"
    by (auto simp: ws_receive_def)
  then have "ws_loop c i wires handle bytes messages acc = (Some e, acc)" by (subst ws_loop.simps) simp
  then show ?case using "0.prems" by simp
next
  case (Suc n)
  have "ws_receive c i (wires messages) bytes messages \<noteq> Inl e" for e
  proof
    assume "ws_receive c i (wires messages) bytes messages = Inl e"
    then have "ws_loop c i wires handle bytes messages acc = (Some e, acc)" by (subst ws_loop.simps) simp
    then show False using Suc.prems(1) by simp
  qed
  then obtain r t bytes' where r: "ws_receive c i (wires messages) bytes messages = Inr (r, t, bytes')"
    by (cases "ws_receive c i (wires messages) bytes messages") auto
  have loop: "ws_loop c i wires handle bytes messages acc =
      (case handle r t acc of
         HandledFails e acc \<Rightarrow> (Some e, acc)
       | HandledDone acc \<Rightarrow> (None, acc)
       | HandledNext acc \<Rightarrow> ws_loop c i wires handle bytes' (messages + 1) acc)"
    by (subst ws_loop.simps) (simp add: r)
  note reply = r [unfolded ws_receive_reply]
  show ?case
  proof (cases "handle r t acc")
    case (HandledFails e a)
    then show ?thesis using Suc.prems(1) loop by simp
  next
    case (HandledDone a)
    then have "handled_all handle [r] acc = Some acc'" using Suc.prems(1) loop reply by simp
    moreover have "ws_exchange c i wires bytes messages [r]" using reply by auto
    ultimately show ?thesis by blast
  next
    case (HandledNext a)
    then have "ws_loop c i wires handle bytes' (messages + 1) a = (None, acc')"
      using Suc.prems(1) loop by simp
    moreover have "n = wc_max_response_messages c - (messages + 1)" using Suc.hyps(2) by linarith
    ultimately obtain rs where rs: "ws_exchange c i wires bytes' (messages + 1) rs" "handled_all handle rs a = Some acc'"
      using Suc.hyps(1) by blast
    then have "ws_exchange c i wires bytes messages (r # rs)" using reply by auto
    moreover have "handled_all handle (r # rs) acc = Some acc'" using rs(2) HandledNext reply by simp
    ultimately show ?thesis by blast
  qed
qed

lemma exchange_ws_loop:
  "ws_exchange c i wires bytes messages rs \<Longrightarrow> handled_all handle rs acc = Some acc' \<Longrightarrow>
     ws_loop c i wires handle bytes messages acc = (None, acc')"
proof (induction rs arbitrary: bytes messages acc)
  case (Cons r rs)
  obtain n t where n: "ws_exchange c i wires (bytes + n) (messages + 1) rs" "wr_type r = Some t"
    and receive: "ws_receive c i (wires messages) bytes messages = Inr (r, t, bytes + n)"
    using Cons.prems(1) by (auto simp: ws_receive_reply)
  have loop: "ws_loop c i wires handle bytes messages acc =
      (case handle r t acc of
         HandledFails e acc \<Rightarrow> (Some e, acc)
       | HandledDone acc \<Rightarrow> (None, acc)
       | HandledNext acc \<Rightarrow> ws_loop c i wires handle (bytes + n) (messages + 1) acc)"
    by (subst ws_loop.simps) (simp add: receive)
  show ?case unfolding loop
    using Cons.prems(2) n Cons.IH [OF n(1)] by (cases "handle r t acc") (auto split: if_splits)
qed simp

text \<open>The exchanges of a recognition and of a model turn.\<close>

definition asr_replies :: "WsReply list \<Rightarrow> (string \<times> bool) list \<Rightarrow> bool" where
  "asr_replies rs transcripts \<longleftrightarrow>
     (\<exists>last before. rs = before @ [last] \<and> wr_type last = Some ''done'' \<and>
        map (\<lambda>r. (wr_type r, wr_text r, wr_final r)) before =
        map (\<lambda>(body, final). (Some ''transcript'', Some body, Some final)) transcripts)"

definition llm_replies :: "WsReply list \<Rightarrow> string list \<Rightarrow> ToolCall list \<Rightarrow> bool" where
  "llm_replies rs deltas calls \<longleftrightarrow>
     (\<exists>last before. rs = before @ [last] \<and> wr_type last = Some ''done'' \<and>
        wr_tool_calls last = Some (Some (map Some calls)) \<and> length calls \<le> 128 \<and>
        map (\<lambda>r. (wr_type r, wr_text r)) before = map (\<lambda>delta. (Some ''text_delta'', Some delta)) deltas)"

lemma llm_replies_Nil [simp]: "\<not> llm_replies [] deltas calls"
  by (simp add: llm_replies_def)

lemma llm_replies_Cons:
  "llm_replies (r # rs) deltas calls \<longleftrightarrow>
     (rs = [] \<and> deltas = [] \<and> wr_type r = Some ''done'' \<and>
        wr_tool_calls r = Some (Some (map Some calls)) \<and> length calls \<le> 128) \<or>
     (wr_type r = Some ''text_delta'' \<and>
        (\<exists>delta rest. deltas = delta # rest \<and> wr_text r = Some delta \<and> llm_replies rs rest calls))"
  unfolding llm_replies_def by (auto simp: Cons_eq_append_conv Cons_eq_map_conv)

lemma asr_replies_Cons:
  "asr_replies (r # rs) transcripts \<longleftrightarrow>
     (rs = [] \<and> wr_type r = Some ''done'' \<and> transcripts = []) \<or>
     (wr_type r = Some ''transcript'' \<and>
       (\<exists>body final rest. transcripts = (body, final) # rest \<and> wr_text r = Some body \<and>
         wr_final r = Some final \<and> asr_replies rs rest))"
  unfolding asr_replies_def by (auto simp: Cons_eq_append_conv Cons_eq_map_conv)

lemma llm_tool_calls_iff:
  "llm_tool_calls r = Inr calls \<longleftrightarrow> wr_tool_calls r = Some (Some (map Some calls)) \<and> length calls \<le> 128"
proof
  assume "llm_tool_calls r = Inr calls"
  then obtain xs where xs: "wr_tool_calls r = Some (Some xs)" "length xs \<le> 128" "None \<notin> set xs" "calls = map the xs"
    by (auto simp: llm_tool_calls_def split: option.splits if_splits)
  have "map Some (map the xs) = xs"
    using xs(3) by (induction xs) auto
  then show "wr_tool_calls r = Some (Some (map Some calls)) \<and> length calls \<le> 128" using xs by simp
qed (auto simp: llm_tool_calls_def comp_def)

text \<open>What the handlers answer.\<close>

lemma llm_event_done:
  "llm_event accept r t acc = HandledDone acc' \<longleftrightarrow> t = ''done'' \<and>
     (\<exists>calls. llm_tool_calls r = Inr calls \<and>
        acc' = acc\<lparr>wl_turn := (wl_turn acc)\<lparr>lt_tool_calls := calls\<rparr>\<rparr>)"
  by (auto simp: llm_event_def Let_def split: sum.split option.split bool.split)

lemma llm_event_next:
  "llm_event accept r t acc = HandledNext acc' \<longleftrightarrow> t = ''text_delta'' \<and>
     (\<exists>delta. wr_text r = Some delta \<and> (delta = [] \<or> accept (length (wl_given acc)) delta = Inr True) \<and>
        acc' = \<lparr>wl_turn = (wl_turn acc)\<lparr>lt_text := lt_text (wl_turn acc) @ delta\<rparr>,
                wl_given = wl_given acc @ filter (\<lambda>d. d \<noteq> []) [delta]\<rparr>)"
  by (auto simp: llm_event_def Let_def split: sum.split option.split bool.split)

lemma asr_event_done: "asr_event sink r t given = HandledDone given' \<longleftrightarrow> t = ''done'' \<and> given' = given"
  by (auto simp: asr_event_def split: option.split)

lemma asr_event_next:
  "asr_event sink r t given = HandledNext given' \<longleftrightarrow> t = ''transcript'' \<and>
     (\<exists>body final. wr_text r = Some body \<and> wr_final r = Some final \<and> sink (length given) body final = None \<and>
        given' = given @ [(body, final)])"
  by (auto simp: asr_event_def split: option.split)

lemma handled_all_Cons:
  "wr_type r = Some t \<Longrightarrow>
   handled_all handle (r # rs) acc = Some acc' \<longleftrightarrow>
     (rs = [] \<and> handle r t acc = HandledDone acc') \<or>
     (\<exists>a. handle r t acc = HandledNext a \<and> handled_all handle rs a = Some acc')"
  by (cases "handle r t acc") auto

declare handled_all.simps(2) [simp del]

definition llm_result :: "WsLlmAcc \<Rightarrow> string list \<Rightarrow> ToolCall list \<Rightarrow> WsLlmAcc" where
  "llm_result acc deltas calls =
     \<lparr>wl_turn = (wl_turn acc)\<lparr>lt_text := lt_text (wl_turn acc) @ concat deltas, lt_tool_calls := calls\<rparr>,
      wl_given = wl_given acc @ filter (\<lambda>d. d \<noteq> []) deltas\<rparr>"

lemma llm_result_Cons:
  "llm_result \<lparr>wl_turn = (wl_turn acc)\<lparr>lt_text := lt_text (wl_turn acc) @ delta\<rparr>,
      wl_given = wl_given acc @ filter (\<lambda>d. d \<noteq> []) [delta]\<rparr> rest calls = llm_result acc (delta # rest) calls"
  by (simp add: llm_result_def)

fun accepts :: "(nat \<Rightarrow> 'a \<Rightarrow> exn + bool) \<Rightarrow> nat \<Rightarrow> 'a list \<Rightarrow> bool" where
  "accepts sink n [] \<longleftrightarrow> True"
| "accepts sink n (x # xs) \<longleftrightarrow> sink n x = Inr True \<and> accepts sink (n + 1) xs"

lemma handled_all_llm:
  "list_all (\<lambda>r. wr_type r \<noteq> None) rs \<Longrightarrow>
   handled_all (llm_event accept) rs acc = Some acc' \<longleftrightarrow>
   (\<exists>deltas calls. llm_replies rs deltas calls \<and>
      accepts accept (length (wl_given acc)) (filter (\<lambda>d. d \<noteq> []) deltas) \<and>
      acc' = llm_result acc deltas calls)"
proof (induction rs arbitrary: acc)
  case (Cons r rs)
  obtain t where t: "wr_type r = Some t" using Cons.prems by auto
  have types: "list_all (\<lambda>r. wr_type r \<noteq> None) rs" using Cons.prems by simp
  let ?n = "length (wl_given acc)" and ?some = "filter (\<lambda>d :: string. d \<noteq> [])"
  let ?next = "\<lambda>delta. \<lparr>wl_turn = (wl_turn acc)\<lparr>lt_text := lt_text (wl_turn acc) @ delta\<rparr>,
      wl_given = wl_given acc @ ?some [delta]\<rparr>"
  have all: "(delta = [] \<or> accept ?n delta = Inr True) \<and>
      accepts accept (length (wl_given (?next delta))) (?some rest) \<longleftrightarrow> accepts accept ?n (?some (delta # rest))"
    for delta rest by simp
  have "handled_all (llm_event accept) (r # rs) acc = Some acc' \<longleftrightarrow>
      (rs = [] \<and> t = ''done'' \<and> (\<exists>calls. llm_tool_calls r = Inr calls \<and> acc' = llm_result acc [] calls)) \<or>
      (t = ''text_delta'' \<and> (\<exists>delta. wr_text r = Some delta \<and> (delta = [] \<or> accept ?n delta = Inr True) \<and>
         handled_all (llm_event accept) rs (?next delta) = Some acc'))"
    unfolding handled_all_Cons [OF t] llm_event_done llm_event_next
    by (auto simp: llm_result_def)
  also have "\<dots> \<longleftrightarrow>
      (rs = [] \<and> t = ''done'' \<and> (\<exists>calls. llm_tool_calls r = Inr calls \<and> acc' = llm_result acc [] calls)) \<or>
      (t = ''text_delta'' \<and> (\<exists>delta rest calls. wr_text r = Some delta \<and> llm_replies rs rest calls \<and>
         accepts accept ?n (?some (delta # rest)) \<and> acc' = llm_result acc (delta # rest) calls))"
    unfolding Cons.IH [OF types] llm_result_Cons all [symmetric] by blast
  also have "\<dots> \<longleftrightarrow> (\<exists>deltas calls. llm_replies (r # rs) deltas calls \<and>
      accepts accept ?n (?some deltas) \<and> acc' = llm_result acc deltas calls)"
    (is "?done \<or> ?more \<longleftrightarrow> ?all")
  proof -
    have "?all" if d: "?done"
    proof -
      obtain calls where "rs = []" "t = ''done''" "llm_tool_calls r = Inr calls" "acc' = llm_result acc [] calls"
        using d by blast
      then show ?thesis using t by (intro exI [of _ "[]"] exI [of _ calls]) (simp add: llm_replies_Cons llm_tool_calls_iff)
    qed
    moreover have "?all" if m: "?more"
    proof -
      obtain delta rest calls where "t = ''text_delta''" "wr_text r = Some delta" "llm_replies rs rest calls"
        "accepts accept ?n (?some (delta # rest))" "acc' = llm_result acc (delta # rest) calls"
        using m by blast
      then show ?thesis using t
        by (intro exI [of _ "delta # rest"] exI [of _ calls]) (auto simp: llm_replies_Cons)
    qed
    moreover have "?done \<or> ?more" if "?all"
      using that unfolding llm_replies_Cons llm_tool_calls_iff t option.inject by blast
    ultimately show ?thesis by blast
  qed
  finally show ?case .
qed simp

lemma handled_all_asr:
  "list_all (\<lambda>r. wr_type r \<noteq> None) rs \<Longrightarrow> handled_all (asr_event sink) rs given = Some given' \<Longrightarrow>
   \<exists>transcripts. asr_replies rs transcripts \<and> given' = given @ transcripts"
proof (induction rs arbitrary: given)
  case (Cons r rs)
  obtain t where t: "wr_type r = Some t" using Cons.prems(1) by auto
  consider "rs = []" "t = ''done''" "given' = given"
    | body final where "t = ''transcript''" "wr_text r = Some body" "wr_final r = Some final"
      "handled_all (asr_event sink) rs (given @ [(body, final)]) = Some given'"
    using Cons.prems(2) unfolding handled_all_Cons [OF t] asr_event_done asr_event_next by blast
  then show ?case
  proof cases
    case 1
    then show ?thesis using t by (intro exI [of _ "[]"]) (simp add: asr_replies_Cons)
  next
    case (2 body final)
    then obtain rest where "asr_replies rs rest" "given' = (given @ [(body, final)]) @ rest"
      using Cons.IH [of "given @ [(body, final)]"] Cons.prems(1) by auto
    then show ?thesis using 2 t by (intro exI [of _ "(body, final) # rest"]) (simp add: asr_replies_Cons)
  qed
qed simp

lemma exchange_types: "ws_exchange c i wires bytes messages rs \<Longrightarrow> list_all (\<lambda>r. wr_type r \<noteq> None) rs"
  by (induction rs arbitrary: bytes messages) auto

section \<open>Properties\<close>

lemma asr_event_count: "length (handled_acc (asr_event sink r t given)) \<le> length given + 1"
  by (simp add: asr_event_def split: option.split)

lemma llm_event_count: "length (wl_given (handled_acc (llm_event sink r t acc))) \<le> length (wl_given acc) + 1"
  by (simp add: llm_event_def Let_def split: option.split sum.split bool.split)

lemma tts_event_count: "length (handled_acc (tts_event sink r t given)) \<le> length given + 1"
  by (simp add: tts_event_def split: option.split sum.split bool.split)

text \<open>C37: whatever the supplier sends and for however long, a request ends, after at most
  \<open>max_response_messages\<close> reads: the recognizer gives its callback at most so many transcripts, the
  model its sink as many deltas and synthesis as many frames. A model turn is returned if and only if
  the request was not stopped, its history fits, the I/O before the replies worked and the supplier
  sent, within the limits and under the request's id, text deltas and then \<open>done\<close>, every non-empty
  delta accepted by the sink; the turn is exactly these deltas, in order, and the tool calls of
  \<open>done\<close>. A recognition that ends with its connection kept got transcripts and then \<open>done\<close>, and gave
  exactly these to its callback. No error, limit or end of the stream is taken for a result.\<close>

theorem ws_exchanges_bounded:
  "length (fst (snd (ws_asr_push frame connects sends wires sink resets s))) \<le> wc_max_response_messages (wx_config s) \<and>
   length (snd (ws_tts_chunk c body cancelled io wires play)) \<le> wc_max_response_messages c \<and>
   length (snd (ws_llm_stream c history stop io wires accept)) \<le> wc_max_response_messages c \<and>
   (ws_llm_stream c history stop io wires accept = (Inr turn, given) \<longleftrightarrow>
      \<not> stop \<and> isl (history_json history (wc_max_message_bytes c)) = False \<and> io = None \<and>
      (\<exists>rs deltas. ws_exchange c 1 wires 0 0 rs \<and> llm_replies rs deltas (lt_tool_calls turn) \<and>
         accepts accept 0 given \<and> given = filter (\<lambda>d. d \<noteq> []) deltas \<and>
         lt_text turn = concat deltas \<and> lt_complete turn)) \<and>
   (wx_connected (snd (snd (ws_asr_push frame connects sends wires sink resets s))) \<longrightarrow>
      (\<exists>rs. ws_exchange (wx_config s) (unat (wx_request_id s + 1)) wires 0 0 rs \<and>
         asr_replies rs (fst (snd (ws_asr_push frame connects sends wires sink resets s)))))"
proof (intro conjI)
  let ?push = "ws_asr_push frame connects sends wires sink resets s"
  obtain e asr where l: "ws_loop (wx_config s) (unat (wx_request_id s + 1)) wires (asr_event sink) 0 0 [] = (e, asr)"
    by fastforce
  have "length (snd (ws_loop (wx_config s) (unat (wx_request_id s + 1)) wires (asr_event sink) 0 0 [])) \<le>
      wc_max_response_messages (wx_config s)"
    by (rule ws_loop_count [where size_of = length, OF asr_event_count]) simp_all
  then have "length asr \<le> wc_max_response_messages (wx_config s)" by (simp add: l)
  then show "length (fst (snd ?push)) \<le> wc_max_response_messages (wx_config s)"
    by (cases e) (simp_all add: ws_asr_push_def Let_def l split: option.split)
  show "wx_connected (snd (snd ?push)) \<longrightarrow>
      (\<exists>rs. ws_exchange (wx_config s) (unat (wx_request_id s + 1)) wires 0 0 rs \<and> asr_replies rs (fst (snd ?push)))"
  proof
    assume "wx_connected (snd (snd ?push))"
    then have e: "e = None" and given: "fst (snd ?push) = asr"
      by (auto simp: ws_asr_push_def Let_def l split: option.splits if_splits)
    then obtain rs where rs: "ws_exchange (wx_config s) (unat (wx_request_id s + 1)) wires 0 0 rs"
      "handled_all (asr_event sink) rs [] = Some asr"
      using ws_loop_exchange [OF l [unfolded e]] by blast
    then show "\<exists>rs. ws_exchange (wx_config s) (unat (wx_request_id s + 1)) wires 0 0 rs \<and> asr_replies rs (fst (snd ?push))"
      using handled_all_asr [OF exchange_types [OF rs(1)] rs(2)] given by auto
  qed
  obtain e' frames where l': "ws_loop c 1 wires (tts_event play) 0 0 [] = (e', frames)" by fastforce
  have "length (snd (ws_loop c 1 wires (tts_event play) 0 0 [])) \<le> wc_max_response_messages c"
    by (rule ws_loop_count [where size_of = length, OF tts_event_count]) simp_all
  then have "length frames \<le> wc_max_response_messages c" by (simp only: l' snd_conv)
  then show "length (snd (ws_tts_chunk c body cancelled io wires play)) \<le> wc_max_response_messages c"
    unfolding ws_tts_chunk_def l' by (cases io) simp_all
next
  define start where "start = \<lparr>wl_turn = \<lparr>lt_text = [], lt_tool_calls = [], lt_complete = True\<rparr>, wl_given = []\<rparr>"
  obtain e acc where l: "ws_loop c 1 wires (llm_event accept) 0 0 start = (e, acc)" by fastforce
  have "length (wl_given (snd (ws_loop c 1 wires (llm_event accept) 0 0 start))) \<le> wc_max_response_messages c"
    by (rule ws_loop_count [where size_of = "\<lambda>acc. length (wl_given acc)", OF llm_event_count]) (simp_all add: start_def)
  then have bound: "length (wl_given acc) \<le> wc_max_response_messages c" by (simp only: l snd_conv)
  then show "length (snd (ws_llm_stream c history stop io wires accept)) \<le> wc_max_response_messages c"
    unfolding ws_llm_stream_def start_def [symmetric] l
    by (cases e) (simp_all split: sum.split option.split)
  have iff: "ws_loop c 1 wires (llm_event accept) 0 0 start = (None, \<lparr>wl_turn = turn, wl_given = given\<rparr>) \<longleftrightarrow>
      (\<exists>rs deltas. ws_exchange c 1 wires 0 0 rs \<and> llm_replies rs deltas (lt_tool_calls turn) \<and>
         accepts accept 0 given \<and> given = filter (\<lambda>d. d \<noteq> []) deltas \<and>
         lt_text turn = concat deltas \<and> lt_complete turn)"
    (is "?l \<longleftrightarrow> ?r")
  proof -
    have "?l \<longleftrightarrow> (\<exists>rs. ws_exchange c 1 wires 0 0 rs \<and>
        handled_all (llm_event accept) rs start = Some \<lparr>wl_turn = turn, wl_given = given\<rparr>)"
      using ws_loop_exchange exchange_ws_loop by metis
    also have "\<dots> \<longleftrightarrow> (\<exists>rs. ws_exchange c 1 wires 0 0 rs \<and>
        (\<exists>deltas calls. llm_replies rs deltas calls \<and> accepts accept 0 (filter (\<lambda>d. d \<noteq> []) deltas) \<and>
           \<lparr>wl_turn = turn, wl_given = given\<rparr> = llm_result start deltas calls))"
      by (rule ex_cong1, rule conj_cong, rule refl, subst handled_all_llm, erule exchange_types, simp add: start_def)
    also have "\<dots> \<longleftrightarrow> (\<exists>rs deltas calls. ws_exchange c 1 wires 0 0 rs \<and> llm_replies rs deltas calls \<and>
        accepts accept 0 (filter (\<lambda>d. d \<noteq> []) deltas) \<and> given = filter (\<lambda>d. d \<noteq> []) deltas \<and>
        turn = \<lparr>lt_text = concat deltas, lt_tool_calls = calls, lt_complete = True\<rparr>)"
      by (simp add: start_def llm_result_def) blast
    also have "\<dots> \<longleftrightarrow> ?r" by (cases turn) auto
    finally show ?thesis .
  qed
  show "ws_llm_stream c history stop io wires accept = (Inr turn, given) \<longleftrightarrow>
      \<not> stop \<and> isl (history_json history (wc_max_message_bytes c)) = False \<and> io = None \<and>
      (\<exists>rs deltas. ws_exchange c 1 wires 0 0 rs \<and> llm_replies rs deltas (lt_tool_calls turn) \<and>
         accepts accept 0 given \<and> given = filter (\<lambda>d. d \<noteq> []) deltas \<and>
         lt_text turn = concat deltas \<and> lt_complete turn)"
    unfolding iff [symmetric] unfolding ws_llm_stream_def start_def [symmetric] l
    by (cases e; cases acc) (auto split: sum.split option.split)
qed

definition example_reply :: "string \<Rightarrow> WsReply" where
  "example_reply ty =
     \<lparr>wr_object = True, wr_id = Some (Some 1), wr_type = Some ty, wr_text = Some ''hi'', wr_final = Some True,
      wr_tool_calls = Some (Some []), wr_audio = None\<rparr>"

definition example_wires :: "string \<Rightarrow> nat \<Rightarrow> Wire" where
  "example_wires ty n = WireFrame True 10 (Some (example_reply (if n = 0 then ty else ''done'')))"

definition example_ws_config :: WebSocketMockConfig where
  "example_ws_config =
     \<lparr>wc_port = 1, wc_timeout = 1000, wc_max_message_bytes = 64, wc_max_response_bytes = 64,
      wc_max_response_messages = 2\<rparr>"

definition example_asr :: WsAsr where
  "example_asr =
     \<lparr>wx_config = example_ws_config, wx_epoch = 0, wx_connection_epoch = 0, wx_request_id = 0, wx_connected = False\<rparr>"

definition example_speech :: AudioFrame where
  "example_speech =
     \<lparr>af_samples = [1], af_sample_rate_hz = 16000, af_channels = 1, af_end_of_utterance = True\<rparr>"

theorem ws_exchanges_bounded_witness:
  "ws_llm_stream example_ws_config [] False None (example_wires ''text_delta'') (\<lambda>_ _. Inr True) =
     (Inr \<lparr>lt_text = ''hi'', lt_tool_calls = [], lt_complete = True\<rparr>, [''hi'']) \<and>
   (\<exists>rs. asr_replies rs (fst (snd (ws_asr_push example_speech None None (example_wires ''transcript'')
      (\<lambda>_ _ _. None) 0 example_asr))))"
proof
  have "ws_exchange example_ws_config 1 (example_wires ''text_delta'') 0 0 [example_reply ''text_delta'', example_reply ''done'']"
    by (simp add: example_ws_config_def example_wires_def example_reply_def)
  moreover have "llm_replies [example_reply ''text_delta'', example_reply ''done''] [''hi''] []"
    by (simp add: llm_replies_Cons example_reply_def)
  moreover have "isl (history_json [] (wc_max_message_bytes example_ws_config)) = False" by code_simp
  ultimately show "ws_llm_stream example_ws_config [] False None (example_wires ''text_delta'') (\<lambda>_ _. Inr True) =
     (Inr \<lparr>lt_text = ''hi'', lt_tool_calls = [], lt_complete = True\<rparr>, [''hi''])"
    by (intro ws_exchanges_bounded [THEN conjunct2, THEN conjunct2, THEN conjunct2, THEN conjunct1, THEN iffD2]
        conjI exI [of _ "[example_reply ''text_delta'', example_reply ''done'']"] exI [of _ "[''hi'']"]) simp_all
  have loop: "ws_loop example_ws_config 1 (example_wires ''transcript'') (asr_event (\<lambda>_ _ _. None)) 0 0 [] =
      (None, [(''hi'', True)])"
    by (rule exchange_ws_loop [of _ _ _ _ _ "[example_reply ''transcript'', example_reply ''done'']"])
      (simp_all add: example_ws_config_def example_wires_def example_reply_def asr_event_def handled_all.simps)
  have "wx_connected (snd (snd (ws_asr_push example_speech None None (example_wires ''transcript'')
      (\<lambda>_ _ _. None) 0 example_asr)))"
    using loop by (simp add: ws_asr_push_def example_asr_def Let_def audio_json_ok_def example_speech_def
        example_ws_config_def)
  then show "\<exists>rs. asr_replies rs (fst (snd (ws_asr_push example_speech None None (example_wires ''transcript'')
      (\<lambda>_ _ _. None) 0 example_asr)))"
    using ws_exchanges_bounded [THEN conjunct2, THEN conjunct2, THEN conjunct2, THEN conjunct2, THEN mp] by blast
qed

text \<open>A frame that \<open>parse_audio\<close> accepts is one of interleaved samples in the bounds it checks.\<close>

lemma pcm_samples_length: "pcm_samples xs = Inr ws \<Longrightarrow> length ws = length xs"
  by (induction xs arbitrary: ws) (auto split: option.splits if_splits sum.splits)

lemma parse_audio_valid:
  "parse_audio j = Inr frame \<Longrightarrow>
     af_samples frame \<noteq> [] \<and> 0 < af_sample_rate_hz frame \<and> af_sample_rate_hz frame \<le> 192000 \<and>
     0 < af_channels frame \<and> af_channels frame \<le> 8 \<and> length (af_samples frame) mod nat (af_channels frame) = 0"
  by (auto simp: parse_audio_def split: option.splits if_splits sum.splits)

text \<open>The history that is sent fits the limit.\<close>

lemma ws_debit_within: "ws_debit limit ns bytes = Some n \<Longrightarrow> bytes \<le> limit \<Longrightarrow> n \<le> limit \<and> n = bytes + sum_list ns"
  by (induction ns arbitrary: bytes) (force split: if_splits)+

lemma history_bytes_within: "history_bytes limit ms bytes = Inr n \<Longrightarrow> bytes \<le> limit \<Longrightarrow> n \<le> limit"
  by (induction ms arbitrary: bytes) (auto split: option.splits if_splits dest!: ws_debit_within)

end
