(* ===== verification/Spec2Isabelle.thy ===== *)
theory Spec2Isabelle
  imports Prelude Byteturn_Types Segmenter Event_Timeline Turn_Executor Agent_Loop Runtime_Properties Openai_Stream
    Curl_Transport Full_Duplex_Properties Observability_Properties Incremental_Tts Pipeline_Engine Voice_Chat
    Mock_Providers Websocket_Mock
begin

text \<open>
  \<^bold>\<open>RealFlow (ByteTurn): a runtime for conversations by voice.\<close> This development models the C++
  library under \<open>src/include/byteturn\<close> and \<open>src/src\<close> and the voice chat adapter under \<open>src/apps\<close>, and
  proves what makes each part correct.

  \<^bold>\<open>The program.\<close> A transport gives every authenticated connection a \<open>VoiceChatConnection\<close>. It asks the
  \<open>RuntimeManager\<close> for a session; the manager's startup workers build a \<open>ConversationSession\<close>, which
  owns a \<open>ConversationEngine\<close> and an \<open>EventTimeline\<close>, and its supervisor retires it. The engine in the
  repository is \<open>PipelineConversationEngine\<close>: a \<open>Conversation\<close> between a recognizer, an \<open>AsyncSession\<close>
  and speech synthesis. An \<open>AsyncSession\<close> submits turns to its lane of the \<open>SessionExecutor\<close>; a turn
  runs the \<open>Agent\<close>, which streams from a language model (\<open>OpenAiCompatibleLlm\<close> over
  \<open>CurlHttpTransport\<close>) and calls tools. The deltas go through a \<open>SentenceSegmenter\<close> to an
  \<open>IncrementalTtsPipeline\<close>. \<open>FullDuplexConversation\<close> is the separate path to a native
  speech-to-speech provider. Events go through the \<open>EventBus\<close> and the timeline to metrics and logs.

  \<^bold>\<open>How code is modelled.\<close> A class is a record with its fields (a field is written with initials of its
  class, since record fields share one name space), an enumeration a datatype, an operation a
  definition. Where threads share an object, a section under one mutex, an atomic access and a call
  of client code are one step each of an \<open>inductive\<close> relation; a thread is a program counter or a stack of
  sections, and a wait is the predicate it waits for. Properties hold for the states that are
  \<open>reachable\<close> from what the constructor returns (\<open>Prelude\<close>), through the locales \<open>invariant_system\<close> and
  \<open>monotone_system\<close>, interpreted on the steps of every concurrent component; \<open>final_condition\<close> is the
  contract of an end that stays (a cancellation, a release, a terminal state). Exceptions are values:
  \<open>Inl\<close>, or an option. \<open>std::uint64_t\<close> sequences and identities keep their width (\<open>u64\<close>) where the code
  checks for their end; the counters of \<open>Conversation\<close> are natural numbers. Fields that only record
  what happened, for the theorems, are named as such beside their record.

  \<^bold>\<open>Theories.\<close>

  \<^item> \<open>Prelude\<close>: widths, \<open>std::to_string\<close>, promises, lists, reachability and the locales.
    \<open>Byteturn_Types\<close>: \<open>types.h\<close>, \<open>event.h\<close> and the data of \<open>providers.h\<close>, \<open>conversation_engine.h\<close>.
  \<^item> \<open>Segmenter\<close> (\<open>sentence_segmenter.cpp\<close>): \<open>segmenter_push\<close>, \<open>segmenter_flush\<close> and the boundary search,
    byte by byte. A well-formed UTF-8 text comes out as its sentences, no code point cut.
  \<^item> \<open>Event_Bus\<close> (\<open>event.cpp\<close>): subscription, removal and nested delivery on any number of threads.
    After \<open>unsubscribe\<close> no other thread is inside the handler.
  \<^item> \<open>Event_Timeline\<close> (\<open>event_timeline.cpp\<close>): admission, the bounded journal and its dispatcher. The journal
    refines the unbounded log; delivery is in order and drains after \<open>close\<close>.
  \<^item> \<open>Turn_Executor\<close> (\<open>executor.cpp\<close>, \<open>turn_context.cpp\<close>): lanes, workers, deadlines. One turn of a session
    at a time and in order, none lost, and shutdown joins.
  \<^item> \<open>Agent_Loop\<close> (\<open>agent.cpp\<close>, \<open>tool.h\<close>, \<open>session.cpp\<close>): the model and tool loop over arbitrary models and
    tools (interaction trees), its history, its events, and the task of an asynchronous session.
  \<^item> \<open>Conversation_Session\<close> (\<open>conversation_session.cpp\<close>): the lifecycle lane, admission of operations and
    the contract of engine calls.
  \<^item> \<open>Runtime_Manager\<close>, \<open>Runtime_Invariant\<close>, \<open>Runtime_Properties\<close> (\<open>runtime_manager.cpp\<close>): registry,
    workers, supervisor, handles and promises, over the session model; the invariant; the properties.
  \<^item> \<open>Json\<close>, \<open>Json_Reading\<close>, \<open>Openai_Llm\<close>, \<open>Openai_Request\<close>, \<open>Openai_Stream\<close>
    (\<open>openai_compatible.cpp\<close>): the JSON reader and its termination, the adapter, the request read back by
    the reader, and the stream of events against a reference on the whole text.
  \<^item> \<open>Curl_Transport\<close> (\<open>curl_transport.cpp\<close>): limits, callbacks and the retry loop around libcurl.
  \<^item> \<open>Full_Duplex\<close>, \<open>Full_Duplex_Properties\<close> (\<open>full_duplex_conversation.cpp\<close>): sections on stacks of any
    number of threads, and the refinement of the playback contract.
  \<^item> \<open>Incremental_Tts\<close> (\<open>incremental_tts.cpp\<close>): the bounded queue of text chunks and its worker.
  \<^item> \<open>Conversation\<close>, \<open>Conversation_Invariant\<close>, \<open>Conversation_Properties\<close> (\<open>conversation.cpp\<close>): the speech
    gateway, with input worker, submission, responses, interruption and destructor; its state follows
    the responses, interruption silences them, and a run shows where the state goes wrong.
  \<^item> \<open>Pipeline_Engine\<close> (\<open>pipeline_conversation_engine.cpp\<close>): the gateway behind the engine interface.
  \<^item> \<open>Voice_Chat\<close> (\<open>voice_chat_adapter.cpp\<close>): authorization, session phases and the bounded output route.
  \<^item> \<open>Observability\<close>, \<open>Observability_Properties\<close> (\<open>observability.cpp\<close>): histograms, the runtime observer,
    and the event log, whose lines read back.
  \<^item> \<open>Mock_Providers\<close>, \<open>Websocket_Mock\<close> (\<open>mock_providers.cpp\<close>, \<open>websocket_mock_providers.cpp\<close>): scripted
    providers, and the request loops of the mock suppliers.

  \<^bold>\<open>Bounds and fuel.\<close> The JSON parsers recurse on fuel, \<open>json_fuel\<close>, twice the length of the text and one;
  \<open>json_parse_terminates\<close> shows it is never used up. The retry loop of the transport and the loop of the
  mock suppliers end by the attempts and messages their configuration allows. Other recursion is
  structural or has a termination proof.

  \<^bold>\<open>Parameters.\<close> Code outside the repository is an argument: libcurl's transfers, \<open>std::stod\<close>, double
  arithmetic and printing in the metrics, clocks, random jitter, sockets and the JSON library of the
  mock suppliers. Client code, which may do anything its interface allows, is quantified over:
  models, tools, recognizers, synthesis, engines, factories, handlers, sinks.

  \<^bold>\<open>Contracts between theories.\<close> \<open>Conversation\<close> relies on the executor to run the turns of a lane in
  order and one at a time, and on the TTS pipeline to have stopped when \<open>finish\<close> returns: the guards
  \<open>lane_free\<close> and \<open>join_speech\<close> of its steps. Both are proved of their own models
  (\<open>executor_lane_serial_fifo\<close>; a join needs the exited worker, \<open>tts_join_ready\<close>). \<open>Voice_Chat\<close> relies on the
  two tickets of an admission to become ready once and stay so, as \<open>manager_promises_kept\<close> shows.

  \<^bold>\<open>Not modelled.\<close> The programs \<open>byteturn_cli.cpp\<close>, \<open>mock_pipeline_demo.cpp\<close> and
  \<open>runtime_manager_demo.cpp\<close> and the Python test server only wire components together. Of the modelled
  components: the abort of the \<open>RuntimeManager\<close> constructor when a thread cannot be created, and
  allocation failures before an admission; provider events during \<open>connect\<close> of a full-duplex
  conversation, and its \<open>close\<close> from the worker's own callback; timing values in HTTP metrics; the
  subscriptions of the observers' constructors; the progress events of \<open>Conversation\<close> other than a
  response's outcome; the forwarding engine of the voice chat adapter; the socket operations and
  the JSON text of the WebSocket mock suppliers. A provider's \<open>cancel\<close> is taken to return.
\<close>

end
